(* ===== verification/Tnp_Prelude.thy ===== *)
theory Tnp_Prelude
  imports Complex_Main "HOL-Library.Word" "HOL-Library.AList"
begin

text \<open>
  Shared vocabulary of the development: bytes and the big-endian accessors of
  \<^verbatim>\<open>DataView\<close>, JavaScript numbers with their non-integer values, JavaScript
  strings as UTF-16 code units, the exceptions the sources throw, results
  that are either an exception or a value, and lemmas on association lists,
  which model \<^verbatim>\<open>Map\<close> with its insertion order.
\<close>

named_theorems wire_simps \<open>rewrite rules for byte-level encodings\<close>
named_theorems result_simps \<open>rewrite rules and eliminations for exception results\<close>

section \<open>Bytes and strings\<close>

type_synonym byte = "8 word"
type_synonym bytes = "byte list"

text \<open>A JavaScript string is its list of UTF-16 code units.\<close>

type_synonym jsstring = "nat list"

definition js :: "string \<Rightarrow> jsstring" where
  "js s = map of_char s"

section \<open>JavaScript numbers\<close>

text \<open>
  A \<^verbatim>\<open>number\<close> is NaN, an infinity or a finite value; a finite double is a rational.
  The sources validate untrusted numbers with \<^verbatim>\<open>Number.isInteger\<close> and range comparisons
  before they compute with them, and then only integer arithmetic below 2^53 follows.
\<close>

datatype js_number = NaN | Infinity bool | Num rat

definition js_int :: "int \<Rightarrow> js_number" where
  "js_int i = Num (of_int i)"

fun isInteger :: "js_number \<Rightarrow> bool" where
  "isInteger (Num q) = (snd (quotient_of q) = 1)"
| "isInteger _ = False"

fun int_of :: "js_number \<Rightarrow> int" where
  "int_of (Num q) = fst (quotient_of q)"
| "int_of _ = 0"

fun js_less :: "js_number \<Rightarrow> js_number \<Rightarrow> bool" where
  "js_less NaN _ = False"
| "js_less _ NaN = False"
| "js_less (Infinity p) (Infinity q) = (\<not> p \<and> q)"
| "js_less (Infinity p) (Num _) = (\<not> p)"
| "js_less (Num _) (Infinity q) = q"
| "js_less (Num a) (Num b) = (a < b)"

definition MAX_SAFE_INTEGER :: int where
  "MAX_SAFE_INTEGER = 9007199254740991"

definition isSafeInteger :: "js_number \<Rightarrow> bool" where
  "isSafeInteger x \<longleftrightarrow> isInteger x \<and> \<bar>int_of x\<bar> \<le> MAX_SAFE_INTEGER"

lemma isInteger_js_int [simp]: "isInteger (js_int i)"
  by (simp add: js_int_def)

lemma int_of_js_int [simp]: "int_of (js_int i) = i"
  by (simp add: js_int_def)

lemma isInteger_iff: "isInteger x \<longleftrightarrow> x = js_int (int_of x)"
proof (cases x)
  case (Num q)
  then show ?thesis
    by (metis Fract_of_int_quotient int_of.simps(1) isInteger.simps(1) isInteger_js_int
        js_int_def prod.collapse quotient_of_div div_by_1 of_int_1)
qed (simp_all add: js_int_def)

lemma isInteger_obtain:
  assumes "isInteger x"
  obtains i where "x = js_int i"
  using assms isInteger_iff by blast

lemma js_less_js_int [simp]: "js_less (js_int i) (js_int j) \<longleftrightarrow> i < j"
  by (simp add: js_int_def)

lemma js_int_inject [simp]: "js_int i = js_int j \<longleftrightarrow> i = j"
  by (simp add: js_int_def)

lemma js_less_lower [simp]: "isInteger x \<Longrightarrow> js_less x (js_int lo) \<longleftrightarrow> int_of x < lo"
  by (metis isInteger_iff js_less_js_int)

lemma js_less_upper [simp]: "isInteger x \<Longrightarrow> js_less (js_int hi) x \<longleftrightarrow> hi < int_of x"
  by (metis isInteger_iff js_less_js_int)

text \<open>The operator \<^verbatim>\<open>??\<close>.\<close>

definition nullish :: "'a option \<Rightarrow> 'a \<Rightarrow> 'a" where
  "nullish x d = (case x of None \<Rightarrow> d | Some v \<Rightarrow> v)"

lemma nullish_simps [simp]: "nullish None d = d" "nullish (Some v) d = v"
  by (simp_all add: nullish_def)

section \<open>Exceptions and results\<close>

text \<open>
  Every \<^verbatim>\<open>throw\<close> is a value. Structured errors keep the protocol code the peer is sent;
  the diagnostic message text of an exception is not modelled.
\<close>

datatype noise_kind = NK_decrypt | NK_dh | NK_state

datatype exn =
    RangeError
  | TypeError
  | EncodingError
  | KeyAgreementError
  | FrameDecodeError nat
  | SessionError nat
  | RekeyRequiredError
  | NoiseError noise_kind
  | PlainError

type_synonym 'a result = "exn + 'a"

definition rbind :: "'a result \<Rightarrow> ('a \<Rightarrow> 'b result) \<Rightarrow> 'b result" where
  "rbind m f = (case m of Inl e \<Rightarrow> Inl e | Inr x \<Rightarrow> f x)"

definition guard :: "bool \<Rightarrow> exn \<Rightarrow> unit result" where
  "guard ok e = (if ok then Inr () else Inl e)"

fun rmap :: "('a \<Rightarrow> 'b result) \<Rightarrow> 'a list \<Rightarrow> 'b list result" where
  "rmap f [] = Inr []"
| "rmap f (x # xs) = rbind (f x) (\<lambda>y. rbind (rmap f xs) (\<lambda>ys. Inr (y # ys)))"

definition is_ok :: "'a result \<Rightarrow> bool" where
  "is_ok r = (case r of Inl _ \<Rightarrow> False | Inr _ \<Rightarrow> True)"

lemma rbind_Inl [simp, result_simps]: "rbind (Inl e) f = Inl e"
  by (simp add: rbind_def)

lemma rbind_Inr [simp, result_simps]: "rbind (Inr x) f = f x"
  by (simp add: rbind_def)

lemma rbind_eq_Inr [result_simps]: "rbind m f = Inr y \<longleftrightarrow> (\<exists>x. m = Inr x \<and> f x = Inr y)"
  by (cases m) auto

lemma rbind_eq_Inl [result_simps]:
  "rbind m f = Inl e \<longleftrightarrow> m = Inl e \<or> (\<exists>x. m = Inr x \<and> f x = Inl e)"
  by (cases m) auto

lemma guard_eq_Inr [simp, result_simps]: "guard ok e = Inr u \<longleftrightarrow> ok"
  by (simp add: guard_def)

lemma guard_eq_Inl [simp, result_simps]: "guard ok e = Inl e' \<longleftrightarrow> \<not> ok \<and> e' = e"
  by (auto simp: guard_def)

lemma guard_True [simp]: "guard True e = Inr ()"
  by (simp add: guard_def)

lemma guard_False [simp]: "guard False e = Inl e"
  by (simp add: guard_def)

lemma is_ok_Inl [simp]: "\<not> is_ok (Inl e)"
  by (simp add: is_ok_def)

lemma is_ok_Inr [simp]: "is_ok (Inr x)"
  by (simp add: is_ok_def)

lemma is_ok_iff: "is_ok r \<longleftrightarrow> (\<exists>x. r = Inr x)"
  by (cases r) auto

lemma rmap_eq_Inr: "rmap f xs = Inr ys \<longleftrightarrow> list_all2 (\<lambda>x y. f x = Inr y) xs ys"
proof (induction xs arbitrary: ys)
  case Nil
  then show ?case by auto
next
  case (Cons x xs)
  then show ?case by (cases ys) (auto simp: rbind_eq_Inr)
qed

section \<open>Big-endian integers\<close>

text \<open>
  \<open>be_bytes n v\<close> is what \<^verbatim>\<open>DataView.setUint8/16/32\<close> and \<^verbatim>\<open>setBigUint64\<close> write for \<open>v\<close> into
  \<open>n\<close> bytes: each byte is the value shifted and truncated to 8 bits. \<open>be_nat\<close> reads
  them back.
\<close>

fun be_bytes :: "nat \<Rightarrow> nat \<Rightarrow> bytes" where
  "be_bytes 0 v = []"
| "be_bytes (Suc n) v = word_of_nat (v div 256 ^ n) # be_bytes n v"

fun be_nat :: "bytes \<Rightarrow> nat" where
  "be_nat [] = 0"
| "be_nat (b # bs) = unat b * 256 ^ length bs + be_nat bs"

lemma length_be_bytes [simp, wire_simps]: "length (be_bytes n v) = n"
  by (induction n) auto

lemma unat_word_of_nat_byte [simp]: "unat (word_of_nat n :: byte) = n mod 256"
  by (simp add: unat_of_nat)

lemma byte_eqI: "unat x = n \<Longrightarrow> x = (word_of_nat n :: byte)"
  by auto

lemma unat_byte_less: "unat (b :: byte) < 256"
  using unsigned_less [of b, where 'a = nat] by simp

lemma unat_byte_le: "unat (b :: byte) \<le> 255"
  using unat_byte_less [of b] by simp

lemma be_nat_be_bytes [simp, wire_simps]: "be_nat (be_bytes n v) = v mod 256 ^ n"
proof (induction n)
  case (Suc n)
  have "v mod 256 ^ Suc n = 256 ^ n * (v div 256 ^ n mod 256) + v mod 256 ^ n"
    using mod_mult2_eq [of v "256 ^ n" 256] by (simp add: mult.commute)
  then show ?case using Suc by (simp add: mult.commute)
qed simp

lemma be_nat_less: "be_nat bs < 256 ^ length bs"
proof (induction bs)
  case (Cons b bs)
  have "unat b \<le> 255" by (simp add: unat_byte_le)
  then have "unat b * 256 ^ length bs \<le> 255 * 256 ^ length bs" by (rule mult_le_mono1)
  with Cons.IH have "unat b * 256 ^ length bs + be_nat bs < 256 * 256 ^ length bs"
    by linarith
  then show ?case by simp
qed simp

lemma be_nat_inj: "length xs = length ys \<Longrightarrow> be_nat xs = be_nat ys \<Longrightarrow> xs = ys"
proof (induction xs ys rule: list_induct2)
  case (Cons x xs y ys)
  let ?k = "256 ^ length ys :: nat"
  from Cons have eq: "unat x * ?k + be_nat xs = unat y * ?k + be_nat ys" by simp
  have bx: "be_nat xs < ?k" and b_ys: "be_nat ys < ?k"
    using be_nat_less [of xs] be_nat_less [of ys] Cons.hyps by auto
  have "unat x = (unat x * ?k + be_nat xs) div ?k" using bx by simp
  also have "\<dots> = unat y" using b_ys eq by simp
  finally have "x = y" by (simp add: word_unat_eq_iff)
  with eq Cons show ?case by simp
qed simp

lemma be_bytes_be_nat [simp, wire_simps]:
  "length bs = n \<Longrightarrow> be_bytes n (be_nat bs) = bs"
  using be_nat_less [of bs] by (intro be_nat_inj) auto

lemma be_bytes_slice [simp, wire_simps]:
  "i + n \<le> length b \<Longrightarrow> be_bytes n (be_nat (take n (drop i b))) = take n (drop i b)"
  by simp

lemma be_bytes_mod: "be_bytes n (v mod 256 ^ n) = be_bytes n v"
  by (rule be_nat_inj) auto

lemma be_bytes_inj:
  assumes "be_bytes n v = be_bytes n w" "v < 256 ^ n" "w < 256 ^ n"
  shows "v = w"
  by (metis assms be_nat_be_bytes mod_less)

end
