(* ===== verification/Wire_Constants.thy ===== *)
theory Wire_Constants
  imports Tnp_Prelude
begin

text \<open>
  \<^verbatim>\<open>packages/protocol/src/constants.ts\<close>: the limits of the wire protocol, the frame
  types and error codes with their numbers, and the flag bits each frame type may carry.
\<close>

unbundle bit_operations_syntax

definition PROTOCOL_VERSION :: nat where "PROTOCOL_VERSION = 0x01"
definition HEADER_SIZE :: nat where "HEADER_SIZE = 20"
definition MAX_FRAME_PAYLOAD :: nat where "MAX_FRAME_PAYLOAD = 65535"
definition MAX_FRAME_SIZE :: nat where "MAX_FRAME_SIZE = HEADER_SIZE + MAX_FRAME_PAYLOAD"

definition MAX_STREAMS_PER_CIRCUIT :: nat where "MAX_STREAMS_PER_CIRCUIT = 256"
definition MAX_CIRCUITS_PER_CONNECTION :: nat where "MAX_CIRCUITS_PER_CONNECTION = 64"
definition MAX_PENDING_OPENS :: nat where "MAX_PENDING_OPENS = 32"
definition STREAM_WINDOW_INITIAL :: int where "STREAM_WINDOW_INITIAL = 256 * 1024"
definition CIRCUIT_WINDOW_INITIAL :: int where "CIRCUIT_WINDOW_INITIAL = 1024 * 1024"
definition HANDSHAKE_TIMEOUT_MS :: int where "HANDSHAKE_TIMEOUT_MS = 10000"
definition IDLE_TIMEOUT_MS :: int where "IDLE_TIMEOUT_MS = 120000"
definition KEEPALIVE_INTERVAL_MS :: int where "KEEPALIVE_INTERVAL_MS = 30000"
definition NONCE_SIZE :: nat where "NONCE_SIZE = 32"
definition MAX_ERROR_DETAIL :: nat where "MAX_ERROR_DETAIL = 256"

definition HANDSHAKE_MESSAGE_SIZE :: nat where "HANDSHAKE_MESSAGE_SIZE = 48"
definition SEALED_RECORD_OVERHEAD :: nat where "SEALED_RECORD_OVERHEAD = 25"
definition MAX_SEALED_PLAINTEXT :: nat where
  "MAX_SEALED_PLAINTEXT = MAX_FRAME_PAYLOAD - SEALED_RECORD_OVERHEAD"
definition MAX_RECORDS_PER_KEY :: int where "MAX_RECORDS_PER_KEY = 2 ^ 32"
definition KEY_UPDATE_INTERVAL :: int where "KEY_UPDATE_INTERVAL = 2 ^ 24"

lemmas wire_limits =
  PROTOCOL_VERSION_def HEADER_SIZE_def MAX_FRAME_PAYLOAD_def MAX_FRAME_SIZE_def
  MAX_ERROR_DETAIL_def HANDSHAKE_MESSAGE_SIZE_def SEALED_RECORD_OVERHEAD_def
  MAX_SEALED_PLAINTEXT_def

section \<open>Frame types\<close>

datatype frame_type =
    HELLO | HELLO_ACK | AUTH | AUTH_OK | PING | PONG | GOAWAY
  | CIRCUIT_CREATE | CIRCUIT_CREATED | CIRCUIT_EXTEND | CIRCUIT_EXTENDED | CIRCUIT_DESTROY
  | CIRCUIT_PADDING
  | STREAM_OPEN | STREAM_OPENED | STREAM_DATA | STREAM_WINDOW | STREAM_CLOSE | STREAM_RESET
  | ERROR

fun FrameType :: "frame_type \<Rightarrow> nat" where
  "FrameType HELLO = 0x01"
| "FrameType HELLO_ACK = 0x02"
| "FrameType AUTH = 0x03"
| "FrameType AUTH_OK = 0x04"
| "FrameType PING = 0x05"
| "FrameType PONG = 0x06"
| "FrameType GOAWAY = 0x07"
| "FrameType CIRCUIT_CREATE = 0x10"
| "FrameType CIRCUIT_CREATED = 0x11"
| "FrameType CIRCUIT_EXTEND = 0x12"
| "FrameType CIRCUIT_EXTENDED = 0x13"
| "FrameType CIRCUIT_DESTROY = 0x14"
| "FrameType CIRCUIT_PADDING = 0x15"
| "FrameType STREAM_OPEN = 0x20"
| "FrameType STREAM_OPENED = 0x21"
| "FrameType STREAM_DATA = 0x22"
| "FrameType STREAM_WINDOW = 0x23"
| "FrameType STREAM_CLOSE = 0x24"
| "FrameType STREAM_RESET = 0x25"
| "FrameType ERROR = 0x30"

definition FRAME_TYPE_VALUES :: "nat list" where
  "FRAME_TYPE_VALUES = map FrameType
     [HELLO, HELLO_ACK, AUTH, AUTH_OK, PING, PONG, GOAWAY,
      CIRCUIT_CREATE, CIRCUIT_CREATED, CIRCUIT_EXTEND, CIRCUIT_EXTENDED, CIRCUIT_DESTROY,
      CIRCUIT_PADDING,
      STREAM_OPEN, STREAM_OPENED, STREAM_DATA, STREAM_WINDOW, STREAM_CLOSE, STREAM_RESET,
      ERROR]"

definition isFrameType :: "nat \<Rightarrow> bool" where
  "isFrameType v \<longleftrightarrow> v \<in> set FRAME_TYPE_VALUES"

lemma isFrameType_FrameType [simp]: "isFrameType (FrameType t)"
  by (cases t) (simp_all add: isFrameType_def FRAME_TYPE_VALUES_def)

lemma isFrameType_iff: "isFrameType v \<longleftrightarrow> (\<exists>t. v = FrameType t)"
proof
  assume "isFrameType v"
  then show "\<exists>t. v = FrameType t"
    unfolding isFrameType_def FRAME_TYPE_VALUES_def set_map by blast
qed auto

lemma isFrameType_less: "isFrameType v \<Longrightarrow> v < 256"
  by (auto simp: isFrameType_def FRAME_TYPE_VALUES_def)

lemma FrameType_inject [simp]: "FrameType s = FrameType t \<longleftrightarrow> s = t"
  by (cases s; cases t) simp_all

section \<open>Flags\<close>

definition CLOSE_WRITE :: nat where "CLOSE_WRITE = 0x0001"
definition CLOSE_READ :: nat where "CLOSE_READ = 0x0002"

text \<open>
  The mask of one frame type, and the test every sender and receiver applies. JavaScript
  evaluates \<^verbatim>\<open>flags & ~allowed\<close> on the operands truncated to 32 bits.
\<close>

definition allowedFlags :: "nat \<Rightarrow> nat" where
  "allowedFlags t = (if t = FrameType STREAM_CLOSE then CLOSE_WRITE OR CLOSE_READ else 0)"

definition unknown_flag_bits :: "int \<Rightarrow> nat \<Rightarrow> 32 word" where
  "unknown_flag_bits flags t = word_of_int flags AND NOT (word_of_nat (allowedFlags t))"

section \<open>Error codes and scopes\<close>

datatype error_code =
    PROTOCOL_VIOLATION | UNSUPPORTED_VERSION | UNSUPPORTED_CAPABILITY
  | AUTH_REQUIRED | AUTH_FAILED | AUTH_EXPIRED | REVOKED | ALREADY_REGISTERED
  | CIRCUIT_UNKNOWN | CIRCUIT_LIMIT | CIRCUIT_REJECTED
  | STREAM_UNKNOWN | STREAM_LIMIT | STREAM_REFUSED
  | FLOW_CONTROL | RATE_LIMIT | RESOURCE_EXHAUSTED
  | TARGET_UNREACHABLE | TARGET_REFUSED
  | REPLAY_DETECTED | DOWNGRADE_DETECTED | DECRYPT_FAILED | TRUNCATED

fun ErrorCode :: "error_code \<Rightarrow> nat" where
  "ErrorCode PROTOCOL_VIOLATION = 0x0001"
| "ErrorCode UNSUPPORTED_VERSION = 0x0002"
| "ErrorCode UNSUPPORTED_CAPABILITY = 0x0003"
| "ErrorCode AUTH_REQUIRED = 0x0010"
| "ErrorCode AUTH_FAILED = 0x0011"
| "ErrorCode AUTH_EXPIRED = 0x0012"
| "ErrorCode REVOKED = 0x0013"
| "ErrorCode ALREADY_REGISTERED = 0x0014"
| "ErrorCode CIRCUIT_UNKNOWN = 0x0020"
| "ErrorCode CIRCUIT_LIMIT = 0x0021"
| "ErrorCode CIRCUIT_REJECTED = 0x0022"
| "ErrorCode STREAM_UNKNOWN = 0x0030"
| "ErrorCode STREAM_LIMIT = 0x0031"
| "ErrorCode STREAM_REFUSED = 0x0032"
| "ErrorCode FLOW_CONTROL = 0x0040"
| "ErrorCode RATE_LIMIT = 0x0041"
| "ErrorCode RESOURCE_EXHAUSTED = 0x0042"
| "ErrorCode TARGET_UNREACHABLE = 0x0050"
| "ErrorCode TARGET_REFUSED = 0x0051"
| "ErrorCode REPLAY_DETECTED = 0x0060"
| "ErrorCode DOWNGRADE_DETECTED = 0x0061"
| "ErrorCode DECRYPT_FAILED = 0x0062"
| "ErrorCode TRUNCATED = 0x0063"

lemma ErrorCode_inject [simp]: "ErrorCode s = ErrorCode t \<longleftrightarrow> s = t"
  by (cases s; cases t) simp_all

lemma ErrorCode_less [simp]: "ErrorCode c < 65536"
  by (cases c) simp_all

datatype error_scope = SCOPE_CONNECTION | SCOPE_CIRCUIT | SCOPE_STREAM

fun ErrorScope :: "error_scope \<Rightarrow> nat" where
  "ErrorScope SCOPE_CONNECTION = 0x01"
| "ErrorScope SCOPE_CIRCUIT = 0x02"
| "ErrorScope SCOPE_STREAM = 0x03"

text \<open>Capabilities: the names a HELLO lists and the ones whose absence is fatal.\<close>

datatype capability = REPLAY_PROTECTION | CAP_FLOW_CONTROL | ONION_ROUTING | RESUMPTION

fun Capability :: "capability \<Rightarrow> jsstring" where
  "Capability REPLAY_PROTECTION = js ''replay-protection''"
| "Capability CAP_FLOW_CONTROL = js ''flow-control''"
| "Capability ONION_ROUTING = js ''onion-routing''"
| "Capability RESUMPTION = js ''resumption''"

definition REQUIRED_CAPABILITIES :: "jsstring list" where
  "REQUIRED_CAPABILITIES = [Capability REPLAY_PROTECTION, Capability CAP_FLOW_CONTROL]"

definition NOISE_PROTOCOL_NAME :: jsstring where
  "NOISE_PROTOCOL_NAME = js ''Noise_NK_25519_ChaChaPoly_SHA256''"

section \<open>The flag test on natural numbers\<close>

lemma word32_of_int_eq_0: "(word_of_int i :: 32 word) = 0 \<longleftrightarrow> i mod 2 ^ 32 = 0"
  by (simp add: word_uint_eq_iff unsigned_of_int take_bit_eq_mod)

lemma and_not_eq_0_iff: "w AND NOT m = 0 \<longleftrightarrow> w AND m = (w :: 32 word)"
  by (auto simp: bit_eq_iff bit_simps)

lemma unknown_flag_bits_other:
  "t \<noteq> FrameType STREAM_CLOSE \<Longrightarrow> unknown_flag_bits flags t = 0 \<longleftrightarrow> flags mod 2 ^ 32 = 0"
  by (simp add: unknown_flag_bits_def allowedFlags_def word32_of_int_eq_0)

lemma unknown_flag_bits_close:
  "unknown_flag_bits flags (FrameType STREAM_CLOSE) = 0 \<longleftrightarrow> flags mod 2 ^ 32 < 4"
proof -
  have "allowedFlags (FrameType STREAM_CLOSE) = 3"
    by (simp add: allowedFlags_def CLOSE_WRITE_def CLOSE_READ_def)
  then have "unknown_flag_bits flags (FrameType STREAM_CLOSE) = 0 \<longleftrightarrow>
      take_bit 2 (word_of_int flags :: 32 word) = word_of_int flags"
    by (simp only: unknown_flag_bits_def and_not_eq_0_iff take_bit_eq_mask)
       (simp add: mask_eq_exp_minus_1)
  also have "\<dots> \<longleftrightarrow> flags mod 2 ^ 32 mod 4 = flags mod 2 ^ 32"
    by (simp add: word_uint_eq_iff unsigned_of_int take_bit_eq_mod
        uint_mod)
  also have "\<dots> \<longleftrightarrow> flags mod 2 ^ 32 < 4"
    by (metis mod_pos_pos_trivial pos_mod_bound pos_mod_sign zero_less_numeral zero_less_power)
  finally show ?thesis .
qed

lemma unknown_flag_bits_mod: "unknown_flag_bits (flags mod 2 ^ 32) t = unknown_flag_bits flags t"
proof -
  have "(word_of_int (flags mod 2 ^ 32) :: 32 word) = word_of_int flags"
    unfolding word_uint_eq_iff unsigned_of_int take_bit_eq_mod by simp
  then show ?thesis by (simp only: unknown_flag_bits_def)
qed

text \<open>
  What the mask test leaves of a flag word: its low 16 bits, which \<^verbatim>\<open>setUint16\<close> then
  writes, agree with the value modulo 2^32.
\<close>

lemma unknown_flag_bits_low:
  assumes "unknown_flag_bits flags t = 0"
  shows "flags mod 2 ^ 32 < 4" "flags mod 2 ^ 16 = flags mod 2 ^ 32"
proof -
  show small: "flags mod 2 ^ 32 < 4"
    using assms unknown_flag_bits_other [of t flags] unknown_flag_bits_close [of flags]
    by (cases "t = FrameType STREAM_CLOSE") auto
  have "flags mod 2 ^ 32 mod 2 ^ 16 = flags mod 2 ^ 16"
    by (simp add: mod_mod_cancel)
  moreover have "flags mod 2 ^ 32 mod 2 ^ 16 = flags mod 2 ^ 32"
    using small by (intro mod_pos_pos_trivial) auto
  ultimately show "flags mod 2 ^ 16 = flags mod 2 ^ 32" by simp
qed

end
