(* ===== verification/Js_Text.thy ===== *)
theory Js_Text
  imports Tnp_Prelude
begin

text \<open>
  \<^verbatim>\<open>TextEncoder\<close> and \<^verbatim>\<open>TextDecoder\<close> as the sources use them: a string's UTF-16 code units
  become scalar values (a lone surrogate becomes U+FFFD) and then UTF-8; decoding
  runs the state machine of the WHATWG Encoding standard, either replacing each
  malformed sequence by U+FFFD or, in fatal mode, throwing, and drops a leading
  byte order mark. The lemmas show that decoding inverts encoding and that a
  successful decoding determines the bytes.
\<close>

section \<open>Encoding\<close>

definition is_high :: "nat \<Rightarrow> bool" where
  "is_high u \<longleftrightarrow> 0xD800 \<le> u \<and> u \<le> 0xDBFF"

definition is_low :: "nat \<Rightarrow> bool" where
  "is_low u \<longleftrightarrow> 0xDC00 \<le> u \<and> u \<le> 0xDFFF"

definition is_scalar :: "nat \<Rightarrow> bool" where
  "is_scalar c \<longleftrightarrow> c < 0x110000 \<and> \<not> (0xD800 \<le> c \<and> c \<le> 0xDFFF)"

definition lone :: "nat \<Rightarrow> nat" where
  "lone u = (if is_high u \<or> is_low u then 0xFFFD else u)"

fun usv :: "jsstring \<Rightarrow> nat list" where
  "usv [] = []"
| "usv [u] = [lone u]"
| "usv (u # v # us) =
     (if is_high u \<and> is_low v
      then (0x10000 + (u - 0xD800) * 1024 + (v - 0xDC00)) # usv us
      else lone u # usv (v # us))"

definition utf8_char :: "nat \<Rightarrow> bytes" where
  "utf8_char c = map word_of_nat
     (if c < 0x80 then [c]
      else if c < 0x800 then [0xC0 + c div 64, 0x80 + c mod 64]
      else if c < 0x10000 then [0xE0 + c div 4096, 0x80 + c div 64 mod 64, 0x80 + c mod 64]
      else [0xF0 + c div 262144, 0x80 + c div 4096 mod 64, 0x80 + c div 64 mod 64, 0x80 + c mod 64])"

definition textEncode :: "jsstring \<Rightarrow> bytes" where
  "textEncode s = concat (map utf8_char (usv s))"

section \<open>Decoding\<close>

datatype u8_state = Ground | Cont nat nat nat nat \<comment> \<open>bytes needed, code point so far, lower, upper\<close>

definition u8_lead :: "nat \<Rightarrow> nat option list \<times> u8_state" where
  "u8_lead b =
     (if b < 0x80 then ([Some b], Ground)
      else if 0xC2 \<le> b \<and> b \<le> 0xDF then ([], Cont 1 (b - 0xC0) 0x80 0xBF)
      else if 0xE0 \<le> b \<and> b \<le> 0xEF then
        ([], Cont 2 (b - 0xE0) (if b = 0xE0 then 0xA0 else 0x80) (if b = 0xED then 0x9F else 0xBF))
      else if 0xF0 \<le> b \<and> b \<le> 0xF4 then
        ([], Cont 3 (b - 0xF0) (if b = 0xF0 then 0x90 else 0x80) (if b = 0xF4 then 0x8F else 0xBF))
      else ([None], Ground))"

fun u8_step :: "u8_state \<Rightarrow> nat \<Rightarrow> nat option list \<times> u8_state" where
  "u8_step Ground b = u8_lead b"
| "u8_step (Cont n cp lo hi) b =
     (if lo \<le> b \<and> b \<le> hi
      then (if n \<le> 1 then ([Some (cp * 64 + (b - 0x80))], Ground)
            else ([], Cont (n - 1) (cp * 64 + (b - 0x80)) 0x80 0xBF))
      else (None # fst (u8_lead b), snd (u8_lead b)))"

fun u8_run :: "u8_state \<Rightarrow> bytes \<Rightarrow> nat option list" where
  "u8_run st [] = (case st of Ground \<Rightarrow> [] | Cont _ _ _ _ \<Rightarrow> [None])"
| "u8_run st (b # bs) = fst (u8_step st (unat b)) @ u8_run (snd (u8_step st (unat b))) bs"

definition strip_bom :: "nat list \<Rightarrow> nat list" where
  "strip_bom cs = (case cs of [] \<Rightarrow> [] | c # r \<Rightarrow> if c = 0xFEFF then r else cs)"

definition utf16 :: "nat \<Rightarrow> jsstring" where
  "utf16 c = (if c < 0x10000 then [c]
     else [0xD800 + (c - 0x10000) div 1024, 0xDC00 + (c - 0x10000) mod 1024])"

definition textDecode :: "bytes \<Rightarrow> jsstring" where
  "textDecode bs = concat (map utf16 (strip_bom (map (case_option 0xFFFD id) (u8_run Ground bs))))"

definition textDecodeFatal :: "bytes \<Rightarrow> jsstring result" where
  "textDecodeFatal bs =
     (if None \<in> set (u8_run Ground bs) then Inl TypeError
      else Inr (concat (map utf16 (strip_bom (map the (u8_run Ground bs))))))"

section \<open>Decoding inverts encoding\<close>

lemma u8_run2:
  assumes "unat x = 192 + a" "unat y = 128 + b" "2 \<le> a" "a < 32" "b < 64"
  shows "u8_run Ground (x # y # r) = Some (64 * a + b) # u8_run Ground r"
  using assms by (simp add: u8_lead_def)

lemma u8_run3:
  assumes "unat x = 224 + a" "unat y = 128 + b" "unat z = 128 + d"
    and "a < 16" "b < 64" "d < 64" "a = 0 \<longrightarrow> 32 \<le> b" "a = 13 \<longrightarrow> b \<le> 31"
  shows "u8_run Ground (x # y # z # r) = Some (64 * (64 * a + b) + d) # u8_run Ground r"
  using assms by (simp add: u8_lead_def)

lemma u8_run4:
  assumes "unat x = 240 + a" "unat y = 128 + b" "unat z = 128 + d" "unat w = 128 + e"
    and "a \<le> 4" "b < 64" "d < 64" "e < 64" "a = 0 \<longrightarrow> 16 \<le> b" "a = 4 \<longrightarrow> b \<le> 15"
  shows "u8_run Ground (x # y # z # w # r) = Some (64 * (64 * (64 * a + b) + d) + e) # u8_run Ground r"
  using assms by (simp add: u8_lead_def)

lemma unat_byte_add: "n < 256 \<Longrightarrow> unat (word_of_nat n :: byte) = n"
  by simp

text \<open>The base-64 digits of a code point, as its UTF-8 bytes carry them.\<close>

lemma base64_digits:
  fixes c :: nat
  obtains a b d e where "c = 64 * (64 * (64 * a + b) + d) + e" "b < 64" "d < 64" "e < 64"
    "c div 262144 = a" "c div 4096 mod 64 = b" "c div 64 mod 64 = d" "c mod 64 = e"
    "c div 4096 = 64 * a + b" "c div 64 = 64 * (64 * a + b) + d"
proof -
  have 1: "c = 64 * (c div 64) + c mod 64" by simp
  have 2: "c div 64 = 64 * (c div 4096) + c div 64 mod 64"
    using div_mult2_eq [of c 64 64] by simp
  have 3: "c div 4096 = 64 * (c div 262144) + c div 4096 mod 64"
    using div_mult2_eq [of c 4096 64] by simp
  show thesis
    by (rule that [of "c div 262144" "c div 4096 mod 64" "c div 64 mod 64" "c mod 64"])
      (use 1 2 3 in \<open>metis mod_less_divisor zero_less_numeral\<close>)+
qed

lemma u8_run_utf8_char:
  assumes "is_scalar c"
  shows "u8_run Ground (utf8_char c @ r) = Some c # u8_run Ground r"
proof -
  obtain a b d e where c: "c = 64 * (64 * (64 * a + b) + d) + e" "b < 64" "d < 64" "e < 64"
    and digits: "c div 262144 = a" "c div 4096 mod 64 = b" "c div 64 mod 64 = d" "c mod 64 = e"
    "c div 4096 = 64 * a + b" "c div 64 = 64 * (64 * a + b) + d"
    by (rule base64_digits)
  consider "c < 0x80" | "0x80 \<le> c" "c < 0x800" | "0x800 \<le> c" "c < 0x10000"
    | "0x10000 \<le> c" "c < 0x110000"
    using assms unfolding is_scalar_def by linarith
  then show ?thesis
  proof cases
    case 1
    then show ?thesis by (simp add: utf8_char_def u8_lead_def)
  next
    case 2
    with c have a: "a = 0" and b: "b = 0" by auto
    with c have cd: "c = 64 * d + e" by simp
    have d: "2 \<le> d" "d < 32" using 2 cd c(4) by linarith+
    have "utf8_char c = [word_of_nat (192 + d), word_of_nat (128 + e)]"
      using 2 a b digits by (simp only: utf8_char_def) simp
    then show ?thesis
      using d c cd u8_run2 [OF unat_byte_add unat_byte_add] by (simp del: of_nat_add)
  next
    case 3
    with c have a: "a = 0" by auto
    with c have cd: "c = 64 * (64 * b + d) + e" by simp
    have "b < 16" "b = 0 \<longrightarrow> 32 \<le> d" using 3 cd c(3,4) by auto
    moreover have "b = 13 \<longrightarrow> d \<le> 31"
      using assms cd c(3,4) unfolding is_scalar_def by auto
    moreover have "utf8_char c = [word_of_nat (224 + b), word_of_nat (128 + d), word_of_nat (128 + e)]"
      using 3 a digits by (simp only: utf8_char_def) simp
    ultimately show ?thesis
      using c cd u8_run3 [OF unat_byte_add unat_byte_add unat_byte_add] by (simp del: of_nat_add)
  next
    case 4
    with c have a: "a \<le> 4" "a = 0 \<longrightarrow> 16 \<le> b" "a = 4 \<longrightarrow> b \<le> 15" by auto
    have "utf8_char c = [word_of_nat (240 + a), word_of_nat (128 + b), word_of_nat (128 + d),
        word_of_nat (128 + e)]"
      using 4 digits by (simp only: utf8_char_def) simp
    then show ?thesis
      using a c u8_run4 [OF unat_byte_add unat_byte_add unat_byte_add unat_byte_add]
      by (simp del: of_nat_add)
  qed
qed

lemma u8_run_encode:
  "(\<And>c. c \<in> set cs \<Longrightarrow> is_scalar c) \<Longrightarrow> u8_run Ground (concat (map utf8_char cs)) = map Some cs"
  by (induction cs) (auto simp: u8_run_utf8_char)

text \<open>A code unit sequence without lone surrogates.\<close>

fun well_formed16 :: "jsstring \<Rightarrow> bool" where
  "well_formed16 [] = True"
| "well_formed16 [u] = (u < 0x10000 \<and> \<not> is_high u \<and> \<not> is_low u)"
| "well_formed16 (u # v # us) =
     (if is_high u then is_low v \<and> well_formed16 us
      else u < 0x10000 \<and> \<not> is_low u \<and> well_formed16 (v # us))"

lemma surrogate_pair:
  assumes "is_high u" and "is_low v"
  obtains p q where "u = 0xD800 + p" "v = 0xDC00 + q" "p < 1024" "q < 1024"
proof
  show "u = 0xD800 + (u - 0xD800)" "v = 0xDC00 + (v - 0xDC00)"
    "u - 0xD800 < 1024" "v - 0xDC00 < 1024"
    using assms unfolding is_high_def is_low_def by linarith+
qed

lemma lone_scalar: "u < 0x10000 \<Longrightarrow> is_scalar (lone u)"
  by (auto simp: lone_def is_scalar_def is_high_def is_low_def)

lemma usv_scalar: "(\<And>u. u \<in> set s \<Longrightarrow> u < 0x10000) \<Longrightarrow> c \<in> set (usv s) \<Longrightarrow> is_scalar c"
proof (induction s rule: usv.induct)
  case (3 u v us)
  have u: "u < 0x10000" and v: "v < 0x10000" using "3.prems" by auto
  show ?case
  proof (cases "is_high u \<and> is_low v")
    case True
    then obtain p q where "u = 0xD800 + p" "v = 0xDC00 + q" "p < 1024" "q < 1024"
      using surrogate_pair by blast
    then have "is_scalar (0x10000 + (u - 0xD800) * 1024 + (v - 0xDC00))"
      by (simp add: is_scalar_def)
    with True 3 show ?thesis by auto
  next
    case False
    with 3 u show ?thesis by (auto simp: lone_scalar)
  qed
qed (auto simp: lone_scalar)

lemma utf16_usv: "well_formed16 s \<Longrightarrow> concat (map utf16 (usv s)) = s"
proof (induction s rule: usv.induct)
  case (3 u v us)
  show ?case
  proof (cases "is_high u")
    case True
    with "3.prems" have v: "is_low v" by simp
    obtain p q where uv: "u = 0xD800 + p" "v = 0xDC00 + q" "q < 1024"
      using surrogate_pair [OF True v] by metis
    have "utf16 (0x10000 + (u - 0xD800) * 1024 + (v - 0xDC00)) = [u, v]"
      using uv by (simp add: utf16_def)
    with True v 3 show ?thesis by simp
  next
    case False
    with 3 show ?thesis by (simp add: utf16_def lone_def)
  qed
qed (auto simp: utf16_def lone_def)

lemma well_formed16_bound: "well_formed16 s \<Longrightarrow> u \<in> set s \<Longrightarrow> u < 0x10000"
  by (induction s rule: well_formed16.induct) (auto simp: is_high_def is_low_def split: if_splits)

lemma hd_usv_bom: "usv s \<noteq> [] \<Longrightarrow> well_formed16 s \<Longrightarrow> hd (usv s) = 0xFEFF \<longleftrightarrow> hd s = 0xFEFF"
  by (cases s rule: usv.cases) (auto simp: lone_def is_high_def is_low_def)

lemma strip_bom_hd: "cs = [] \<or> hd cs \<noteq> 0xFEFF \<Longrightarrow> strip_bom cs = cs"
  by (cases cs) (auto simp: strip_bom_def)

lemma textDecode_textEncode:
  assumes "well_formed16 s" and "s = [] \<or> hd s \<noteq> 0xFEFF"
  shows "textDecode (textEncode s) = s" and "textDecodeFatal (textEncode s) = Inr s"
proof -
  have run: "u8_run Ground (textEncode s) = map Some (usv s)"
    unfolding textEncode_def
    using usv_scalar [of s] well_formed16_bound [OF assms(1)] by (intro u8_run_encode) blast
  have "strip_bom (usv s) = usv s"
    using assms hd_usv_bom [of s] by (intro strip_bom_hd) (cases "usv s = []", auto)
  with run utf16_usv [OF assms(1)] show "textDecode (textEncode s) = s"
    by (simp add: textDecode_def comp_def)
  from run \<open>strip_bom (usv s) = usv s\<close> utf16_usv [OF assms(1)]
  show "textDecodeFatal (textEncode s) = Inr s"
    by (auto simp: textDecodeFatal_def comp_def)
qed

lemma textEncode_inj:
  assumes "well_formed16 s" "well_formed16 t" "textEncode s = textEncode t"
  shows "s = t"
proof -
  have "u8_run Ground (textEncode r) = map Some (usv r)" if "well_formed16 r" for r
    unfolding textEncode_def using that by (intro u8_run_encode usv_scalar well_formed16_bound)
  then have "map Some (usv s) = map Some (usv t)" using assms by metis
  then have "usv s = usv t" by (simp add: inj_map_eq_map)
  then show ?thesis using assms(1,2) utf16_usv by metis
qed

section \<open>A successful decoding determines the bytes\<close>

lemma utf8_char1: "unat x < 128 \<Longrightarrow> utf8_char (unat x) = [x]"
  by (simp add: utf8_char_def)

lemma map_unat_inj: "map unat xs = map unat ys \<Longrightarrow> xs = (ys :: bytes)"
  by (metis inj_map_eq_map inj_onI word_unat_eq_iff)

lemma base64_digit:
  "d < 64 \<Longrightarrow> (64 * m + d) div 64 = (m :: nat)" "d < 64 \<Longrightarrow> (64 * m + d) mod 64 = d"
  "d < 64 \<Longrightarrow> (64 * m + d) div 4096 = m div 64" "d < 64 \<Longrightarrow> (64 * m + d) div 262144 = m div 4096"
  using div_mult2_eq [of "64 * m + d" 64 64] div_mult2_eq [of "64 * m + d" 64 4096] by auto

lemma utf8_char2:
  assumes "unat x = 192 + a" "unat y = 128 + b" "2 \<le> a" "a < 32" "b < 64"
  shows "utf8_char (64 * a + b) = [x, y]"
  using assms by (intro map_unat_inj) (simp add: utf8_char_def del: of_nat_add)

lemma utf8_char3:
  assumes "unat x = 224 + a" "unat y = 128 + b" "unat z = 128 + d"
    and "a < 16" "b < 64" "d < 64" "a = 0 \<longrightarrow> 32 \<le> b"
  shows "utf8_char (64 * (64 * a + b) + d) = [x, y, z]"
proof (rule map_unat_inj)
  define c where "c = 64 * (64 * a + b) + d"
  have "2048 \<le> c" "c < 65536" using assms by (cases "a = 0", auto simp: c_def)
  moreover have "c div 64 = 64 * a + b" "c mod 64 = d" "c div 4096 = a"
    using assms base64_digit [of d "64 * a + b"] base64_digit [of b a] by (simp_all only: c_def)
  ultimately show "map unat (utf8_char (64 * (64 * a + b) + d)) = map unat [x, y, z]"
    unfolding c_def [symmetric] using assms by (simp add: utf8_char_def del: of_nat_add)
qed

lemma utf8_char4:
  assumes "unat x = 240 + a" "unat y = 128 + b" "unat z = 128 + d" "unat w = 128 + e"
    and "a \<le> 4" "b < 64" "d < 64" "e < 64" "a = 0 \<longrightarrow> 16 \<le> b"
  shows "utf8_char (64 * (64 * (64 * a + b) + d) + e) = [x, y, z, w]"
proof (rule map_unat_inj)
  define c where "c = 64 * (64 * (64 * a + b) + d) + e"
  have "65536 \<le> c" using assms by (cases "a = 0", auto simp: c_def)
  moreover have "c div 64 mod 64 = d" "c mod 64 = e" "c div 4096 = 64 * a + b"
    "c div 262144 = a"
    using assms base64_digit [of e "64 * (64 * a + b) + d"] base64_digit [of d "64 * a + b"]
      base64_digit [of b a] by (simp_all only: c_def)
  ultimately show "map unat (utf8_char (64 * (64 * (64 * a + b) + d) + e)) = map unat [x, y, z, w]"
    unfolding c_def [symmetric] using assms by (simp add: utf8_char_def del: of_nat_add)
qed

lemma u8_cont1:
  assumes "None \<notin> set (u8_run (Cont 1 cp lo hi) bs)"
  shows "\<exists>y r. bs = y # r \<and> lo \<le> unat y \<and> unat y \<le> hi \<and>
    u8_run (Cont 1 cp lo hi) bs = Some (64 * cp + (unat y - 128)) # u8_run Ground r"
  using assms by (cases bs) (auto split: if_splits)

lemma u8_contS:
  assumes "None \<notin> set (u8_run (Cont (Suc (Suc n)) cp lo hi) bs)"
  shows "\<exists>y r. bs = y # r \<and> lo \<le> unat y \<and> unat y \<le> hi \<and>
    u8_run (Cont (Suc (Suc n)) cp lo hi) bs = u8_run (Cont (Suc n) (64 * cp + (unat y - 128)) 128 191) r"
  using assms by (cases bs) (auto simp: mult.commute split: if_splits)

lemma u8_cont2:
  assumes "None \<notin> set (u8_run (Cont 2 cp lo hi) bs)"
  shows "\<exists>y z r. bs = y # z # r \<and> lo \<le> unat y \<and> unat y \<le> hi \<and> 128 \<le> unat z \<and> unat z \<le> 191 \<and>
    u8_run (Cont 2 cp lo hi) bs =
      Some (64 * (64 * cp + (unat y - 128)) + (unat z - 128)) # u8_run Ground r"
  using u8_contS [of 0 cp lo hi bs] u8_cont1 assms unfolding numeral_2_eq_2 One_nat_def by metis

lemma u8_cont3:
  assumes "None \<notin> set (u8_run (Cont 3 cp lo hi) bs)"
  shows "\<exists>y z w r. bs = y # z # w # r \<and> lo \<le> unat y \<and> unat y \<le> hi \<and> 128 \<le> unat z \<and> unat z \<le> 191 \<and>
    128 \<le> unat w \<and> unat w \<le> 191 \<and>
    u8_run (Cont 3 cp lo hi) bs =
      Some (64 * (64 * (64 * cp + (unat y - 128)) + (unat z - 128)) + (unat w - 128)) # u8_run Ground r"
  using u8_contS [of 1 cp lo hi bs] u8_cont2 assms
  unfolding numeral_3_eq_3 numeral_2_eq_2 One_nat_def by metis

lemma u8_ground_ok:
  assumes "None \<notin> set (u8_run Ground (x # bs))"
  shows "\<exists>c r. u8_run Ground (x # bs) = Some c # u8_run Ground r \<and>
    x # bs = utf8_char c @ r \<and> length r \<le> length bs"
proof -
  define n where "n = unat x"
  consider "n < 128" | "194 \<le> n" "n \<le> 223" | "224 \<le> n" "n \<le> 239" | "240 \<le> n" "n \<le> 244"
    using assms by (fastforce simp: n_def u8_lead_def split: if_splits)
  then show ?thesis
  proof cases
    case 1
    then show ?thesis by (intro exI [of _ n] exI [of _ bs]) (auto simp: n_def u8_lead_def utf8_char1)
  next
    case 2
    then have run: "u8_run Ground (x # bs) = u8_run (Cont 1 (n - 192) 128 191) bs"
      by (simp add: n_def u8_lead_def)
    then obtain y r where y: "bs = y # r" "128 \<le> unat y" "unat y \<le> 191"
      and out: "u8_run Ground (x # bs) = Some (64 * (n - 192) + (unat y - 128)) # u8_run Ground r"
      using u8_cont1 assms by metis
    have "utf8_char (64 * (n - 192) + (unat y - 128)) = [x, y]"
      using 2 y by (intro utf8_char2) (auto simp: n_def)
    with y out show ?thesis by (metis append.simps length_Cons le_SucI le_refl)
  next
    case 3
    let ?lo = "if n = 224 then 160 else 128" and ?hi = "if n = 237 then 159 else 191"
    have run: "u8_run Ground (x # bs) = u8_run (Cont 2 (n - 224) ?lo ?hi) bs"
      using 3 by (simp add: n_def u8_lead_def)
    then obtain y z r where y: "bs = y # z # r" "?lo \<le> unat y" "unat y \<le> ?hi"
        "128 \<le> unat z" "unat z \<le> 191"
      and out: "u8_run Ground (x # bs) =
        Some (64 * (64 * (n - 224) + (unat y - 128)) + (unat z - 128)) # u8_run Ground r"
      using u8_cont2 assms by metis
    have "utf8_char (64 * (64 * (n - 224) + (unat y - 128)) + (unat z - 128)) = [x, y, z]"
      using 3 y by (intro utf8_char3) (auto simp: n_def split: if_splits)
    with y out show ?thesis by (metis append.simps length_Cons le_SucI le_refl)
  next
    case 4
    let ?lo = "if n = 240 then 144 else 128" and ?hi = "if n = 244 then 143 else 191"
    have run: "u8_run Ground (x # bs) = u8_run (Cont 3 (n - 240) ?lo ?hi) bs"
      using 4 by (simp add: n_def u8_lead_def)
    then obtain y z w r where y: "bs = y # z # w # r" "?lo \<le> unat y" "unat y \<le> ?hi"
        "128 \<le> unat z" "unat z \<le> 191" "128 \<le> unat w" "unat w \<le> 191"
      and out: "u8_run Ground (x # bs) = Some (64 * (64 * (64 * (n - 240) + (unat y - 128)) +
        (unat z - 128)) + (unat w - 128)) # u8_run Ground r"
      using u8_cont3 assms by metis
    have "utf8_char (64 * (64 * (64 * (n - 240) + (unat y - 128)) + (unat z - 128)) + (unat w - 128)) =
        [x, y, z, w]"
      using 4 y by (intro utf8_char4) (auto simp: n_def split: if_splits)
    with y out show ?thesis by (metis append.simps length_Cons le_SucI le_refl)
  qed
qed

lemma u8_run_exact:
  "None \<notin> set (u8_run Ground bs) \<Longrightarrow>
     \<exists>cs. u8_run Ground bs = map Some cs \<and> bs = concat (map utf8_char cs)"
proof (induction bs rule: length_induct)
  case (1 bs)
  show ?case
  proof (cases bs)
    case Nil
    then show ?thesis by auto
  next
    case (Cons x xs)
    with 1 obtain c r where r: "u8_run Ground bs = Some c # u8_run Ground r"
      "bs = utf8_char c @ r" "length r \<le> length xs"
      using u8_ground_ok by metis
    then have "length r < length bs" "None \<notin> set (u8_run Ground r)"
      using Cons "1.prems" by auto
    with "1.IH" obtain cs where "u8_run Ground r = map Some cs" "r = concat (map utf8_char cs)"
      by blast
    with r show ?thesis by (intro exI [of _ "c # cs"]) auto
  qed
qed

section \<open>ASCII text\<close>

definition ascii :: "jsstring \<Rightarrow> bool" where
  "ascii s \<longleftrightarrow> list_all (\<lambda>u. u < 128) s"

lemma ascii_usv: "ascii s \<Longrightarrow> usv s = s"
  by (induction s rule: usv.induct) (auto simp: ascii_def lone_def is_high_def is_low_def)

lemma textEncode_ascii: "ascii s \<Longrightarrow> textEncode s = map word_of_nat s"
proof -
  assume "ascii s"
  then have "concat (map utf8_char s) = map word_of_nat s"
    by (induction s) (auto simp: ascii_def utf8_char_def)
  with \<open>ascii s\<close> show ?thesis by (simp add: textEncode_def ascii_usv)
qed

lemma ascii_well_formed16: "ascii s \<Longrightarrow> well_formed16 s \<and> (s = [] \<or> hd s \<noteq> 0xFEFF)"
  by (induction s rule: usv.induct) (auto simp: ascii_def is_high_def is_low_def)

lemma textDecodeFatal_ascii: "ascii s \<Longrightarrow> textDecodeFatal (textEncode s) = Inr s"
  using ascii_well_formed16 textDecode_textEncode(2) by blast

lemma length_textEncode_ascii: "ascii s \<Longrightarrow> length (textEncode s) = length s"
  by (simp add: textEncode_ascii)

lemma textEncode_ascii_inj: "ascii s \<Longrightarrow> ascii t \<Longrightarrow> textEncode s = textEncode t \<Longrightarrow> s = t"
  by (metis textDecodeFatal_ascii Inr_inject)

lemma concat_utf16_ascii: "ascii (concat (map utf16 cs)) \<Longrightarrow> concat (map utf16 cs) = cs"
proof (induction cs)
  case (Cons c cs)
  then have "c < 0x10000" by (auto simp: ascii_def utf16_def split: if_splits)
  with Cons show ?case by (auto simp: ascii_def utf16_def)
qed simp

text \<open>Fatal decoding to ASCII text: the bytes are that text, or a byte order mark and that text.\<close>

lemma textDecodeFatal_to_ascii:
  assumes "textDecodeFatal bs = Inr s" and "ascii s"
  shows "bs = map word_of_nat s \<or> bs = [0xEF, 0xBB, 0xBF] @ map word_of_nat s"
proof -
  have no: "None \<notin> set (u8_run Ground bs)"
    using assms(1) by (auto simp: textDecodeFatal_def split: if_splits)
  then obtain cs where cs: "u8_run Ground bs = map Some cs" "bs = concat (map utf8_char cs)"
    using u8_run_exact by blast
  have "s = concat (map utf16 (strip_bom cs))"
    using assms(1) no cs(1) by (simp add: textDecodeFatal_def comp_def)
  with assms(2) have s: "strip_bom cs = s" using concat_utf16_ascii by metis
  have enc: "concat (map utf8_char s) = map word_of_nat s"
    using textEncode_ascii [OF assms(2)] ascii_usv [OF assms(2)] by (simp add: textEncode_def)
  from s have "cs = s \<or> cs = 0xFEFF # s"
    by (auto simp: strip_bom_def split: list.splits if_splits)
  with cs(2) enc show ?thesis by (auto simp: utf8_char_def)
qed

end
