(* ===== verification/Codec.thy ===== *)
theory Codec
  imports Tnp_Prelude
begin

text \<open>
  The interface every encoder and decoder of the wire formats promises. A
  \<open>wire_decoder\<close> inverts its encoder; a \<open>canonical_codec\<close> accepts, besides, exactly
  the encoder's outputs, so that one value has one encoding. A \<open>field_code\<close> is an
  encoder whose output can be told apart from what follows it, the property that
  makes a concatenation of signed fields unambiguous.
\<close>

locale wire_decoder =
  fixes valid :: "'a \<Rightarrow> bool"
    and encode :: "'a \<Rightarrow> 'w result"
    and decode :: "'w \<Rightarrow> 'a result"
  assumes decode_encode: "valid x \<Longrightarrow> encode x = Inr w \<Longrightarrow> decode w = Inr x"
begin

lemma encode_inj: "valid x \<Longrightarrow> valid y \<Longrightarrow> encode x = Inr w \<Longrightarrow> encode y = Inr w \<Longrightarrow> x = y"
  by (metis decode_encode Inr_inject)

end

locale canonical_codec = wire_decoder +
  assumes decode_valid: "decode w = Inr x \<Longrightarrow> valid x"
    and encode_decode: "decode w = Inr x \<Longrightarrow> encode x = Inr w"
begin

lemma decode_inj: "decode v = Inr x \<Longrightarrow> decode w = Inr x \<Longrightarrow> v = w"
  by (metis encode_decode Inr_inject)

lemma decode_iff: "decode w = Inr x \<longleftrightarrow> valid x \<and> encode x = Inr w"
  using decode_encode encode_decode decode_valid by blast

lemma accepts_iff: "is_ok (decode w) \<longleftrightarrow> (\<exists>x. valid x \<and> encode x = Inr w)"
  by (auto simp: is_ok_iff decode_iff)

end

locale field_code =
  fixes valid :: "'a \<Rightarrow> bool"
    and enc :: "'a \<Rightarrow> bytes"
  assumes field_prefix: "valid x \<Longrightarrow> valid y \<Longrightarrow> enc x @ r = enc y @ s \<Longrightarrow> x = y \<and> r = s"
begin

lemma enc_inj: "valid x \<Longrightarrow> valid y \<Longrightarrow> enc x = enc y \<Longrightarrow> x = y"
  using field_prefix [of x y "[]" "[]"] by simp

lemma enc_append_eq_iff:
  "valid x \<Longrightarrow> valid y \<Longrightarrow> enc x @ r = enc y @ s \<longleftrightarrow> x = y \<and> r = s"
  using field_prefix by blast

end

end
