(* ===== verification/Frame.thy ===== *)
theory Frame
  imports Wire_Constants Js_Text Codec
begin

text \<open>
  \<^verbatim>\<open>packages/protocol/src/frame.ts\<close>: the 20-byte header and the payload of one frame, its
  encoder and its strict decoder, and the ERROR payload with its truncated detail text.
\<close>

record frame =
  f_version :: nat
  f_type :: nat
  f_flags :: nat
  f_circuitId :: nat
  f_streamId :: nat
  f_payload :: bytes

record encode_options =
  eo_type :: nat
  eo_circuitId :: "int option"
  eo_streamId :: "js_number option"
  eo_flags :: "js_number option"
  eo_payload :: "bytes option"

definition MAX_UINT64 :: int where
  "MAX_UINT64 = 0xffffffffffffffff"

definition encodeFrame :: "encode_options \<Rightarrow> bytes result" where
  "encodeFrame opt =
     (let payload = nullish (eo_payload opt) [];
          flags = nullish (eo_flags opt) (js_int 0);
          circuitId = nullish (eo_circuitId opt) 0;
          streamId = nullish (eo_streamId opt) (js_int 0)
      in if \<not> isFrameType (eo_type opt) then Inl RangeError
         else if length payload > MAX_FRAME_PAYLOAD then Inl RangeError
         else if \<not> isInteger flags \<or> js_less flags (js_int 0) \<or>
                 unknown_flag_bits (int_of flags) (eo_type opt) \<noteq> 0 then Inl RangeError
         else if circuitId < 0 \<or> circuitId > MAX_UINT64 then Inl RangeError
         else if \<not> isInteger streamId \<or> js_less streamId (js_int 0) \<or>
                 js_less (js_int 0xffffffff) streamId then Inl RangeError
         else Inr ([word_of_nat PROTOCOL_VERSION, word_of_nat (eo_type opt)]
                @ be_bytes 2 (nat (int_of flags))
                @ be_bytes 8 (nat circuitId)
                @ be_bytes 4 (nat (int_of streamId))
                @ be_bytes 4 (length payload)
                @ payload))"

definition get_uint :: "nat \<Rightarrow> bytes \<Rightarrow> nat \<Rightarrow> nat" where
  "get_uint n data off = be_nat (take n (drop off data))"

definition decodeFrame :: "bytes \<Rightarrow> frame result" where
  "decodeFrame data =
     (if length data < HEADER_SIZE then Inl (FrameDecodeError (ErrorCode PROTOCOL_VIOLATION))
      else let version = unat (data ! 0) in
      if version \<noteq> PROTOCOL_VERSION then Inl (FrameDecodeError (ErrorCode UNSUPPORTED_VERSION))
      else let rawType = unat (data ! 1) in
      if \<not> isFrameType rawType then Inl (FrameDecodeError (ErrorCode PROTOCOL_VIOLATION))
      else let flags = get_uint 2 data 2 in
      if unknown_flag_bits (int flags) rawType \<noteq> 0
        then Inl (FrameDecodeError (ErrorCode PROTOCOL_VIOLATION))
      else let circuitId = get_uint 8 data 4;
               streamId = get_uint 4 data 12;
               len = get_uint 4 data 16 in
      if len > MAX_FRAME_PAYLOAD then Inl (FrameDecodeError (ErrorCode PROTOCOL_VIOLATION))
      else if length data \<noteq> HEADER_SIZE + len
        then Inl (FrameDecodeError (ErrorCode PROTOCOL_VIOLATION))
      else Inr \<lparr>f_version = version, f_type = rawType, f_flags = flags, f_circuitId = circuitId,
                f_streamId = streamId, f_payload = take len (drop HEADER_SIZE data)\<rparr>)"

section \<open>ERROR frames\<close>

record protocol_error =
  pe_code :: nat
  pe_scope :: nat
  pe_detail :: jsstring

fun back_up :: "bytes \<Rightarrow> nat \<Rightarrow> nat" where
  "back_up encoded 0 = 0"
| "back_up encoded (Suc e) =
     (if (encoded ! Suc e) AND 0xC0 = 0x80 then back_up encoded e else Suc e)"

definition truncateUtf8 :: "jsstring \<Rightarrow> nat \<Rightarrow> bytes" where
  "truncateUtf8 v maxBytes =
     (let encoded = textEncode v in
      if length encoded \<le> maxBytes then encoded
      else take (back_up encoded maxBytes) encoded)"

definition error_payload :: "protocol_error \<Rightarrow> bytes" where
  "error_payload e = be_bytes 2 (pe_code e) @ [word_of_nat (pe_scope e)]
     @ truncateUtf8 (pe_detail e) MAX_ERROR_DETAIL"

definition encodeError :: "protocol_error \<Rightarrow> int \<Rightarrow> js_number \<Rightarrow> bytes result" where
  "encodeError e circuitId streamId =
     encodeFrame \<lparr>eo_type = FrameType ERROR, eo_circuitId = Some circuitId,
       eo_streamId = Some streamId, eo_flags = None, eo_payload = Some (error_payload e)\<rparr>"

definition decodeError :: "bytes \<Rightarrow> protocol_error result" where
  "decodeError payload =
     (if length payload < 3 then Inl (FrameDecodeError (ErrorCode PROTOCOL_VIOLATION))
      else if length payload > 3 + MAX_ERROR_DETAIL
        then Inl (FrameDecodeError (ErrorCode PROTOCOL_VIOLATION))
      else Inr \<lparr>pe_code = get_uint 2 payload 0, pe_scope = unat (payload ! 2),
                pe_detail = textDecode (drop 3 payload)\<rparr>)"

section \<open>Encoding and decoding are inverse\<close>

text \<open>The options that ask for exactly the frame \<open>f\<close>, and the frames whose fields fit.\<close>

definition options_of :: "frame \<Rightarrow> encode_options" where
  "options_of f = \<lparr>eo_type = f_type f, eo_circuitId = Some (int (f_circuitId f)),
     eo_streamId = Some (js_int (int (f_streamId f))), eo_flags = Some (js_int (int (f_flags f))),
     eo_payload = Some (f_payload f)\<rparr>"

definition wf_frame :: "frame \<Rightarrow> bool" where
  "wf_frame f \<longleftrightarrow> f_version f = PROTOCOL_VERSION \<and> f_flags f < 2 ^ 32"

definition header :: "nat \<Rightarrow> nat \<Rightarrow> nat \<Rightarrow> nat \<Rightarrow> nat \<Rightarrow> bytes" where
  "header t flags cid sid len =
     [word_of_nat PROTOCOL_VERSION, word_of_nat t] @ be_bytes 2 flags @ be_bytes 8 cid
       @ be_bytes 4 sid @ be_bytes 4 len"

lemma length_header [simp]: "length (header t flags cid sid len) = 20"
  by (simp add: header_def)

lemma header_fields:
  "header t flags cid sid len ! 0 = word_of_nat PROTOCOL_VERSION"
  "header t flags cid sid len ! Suc 0 = word_of_nat t"
  "get_uint 2 (header t flags cid sid len @ p) 2 = flags mod 2 ^ 16"
  "get_uint 8 (header t flags cid sid len @ p) 4 = cid mod 2 ^ 64"
  "get_uint 4 (header t flags cid sid len @ p) 12 = sid mod 2 ^ 32"
  "get_uint 4 (header t flags cid sid len @ p) 16 = len mod 2 ^ 32"
  by (simp_all add: header_def get_uint_def)

lemma encodeFrame_ok:
  assumes "encodeFrame opt = Inr b"
  obtains flags cid sid payload where
    "b = header (eo_type opt) (nat flags) (nat cid) (nat sid) (length payload) @ payload"
    "isFrameType (eo_type opt)" "length payload \<le> MAX_FRAME_PAYLOAD"
    "payload = nullish (eo_payload opt) []"
    "nullish (eo_flags opt) (js_int 0) = js_int flags"
    "0 \<le> flags" "unknown_flag_bits flags (eo_type opt) = 0"
    "nullish (eo_circuitId opt) 0 = cid" "0 \<le> cid" "cid < 2 ^ 64"
    "nullish (eo_streamId opt) (js_int 0) = js_int sid" "0 \<le> sid" "sid < 2 ^ 32"
proof -
  let ?f = "nullish (eo_flags opt) (js_int 0)" and ?s = "nullish (eo_streamId opt) (js_int 0)"
  from assms have int: "isInteger ?f" "isInteger ?s"
    by (simp_all add: encodeFrame_def Let_def split: if_splits)
  then have "?f = js_int (int_of ?f)" "?s = js_int (int_of ?s)"
    using isInteger_iff by blast+
  then show thesis
    using assms int
    by (intro that [of "int_of ?f" "nullish (eo_circuitId opt) 0" "int_of ?s"])
       (auto simp: encodeFrame_def Let_def header_def MAX_UINT64_def not_less split: if_splits)
qed

lemma decodeFrame_header:
  assumes "isFrameType t" "unknown_flag_bits (int (flags mod 2 ^ 16)) t = 0"
    "length p \<le> MAX_FRAME_PAYLOAD"
  shows "decodeFrame (header t flags cid sid (length p) @ p) =
    Inr \<lparr>f_version = PROTOCOL_VERSION, f_type = t, f_flags = flags mod 2 ^ 16,
      f_circuitId = cid mod 2 ^ 64, f_streamId = sid mod 2 ^ 32, f_payload = p\<rparr>"
  using assms isFrameType_less [OF assms(1)]
  by (simp add: decodeFrame_def Let_def header_fields nth_append wire_limits)

lemma split_two: "20 \<le> length b \<Longrightarrow> b = [b ! 0, b ! 1] @ drop 2 b"
  by (cases b; cases "tl b") auto

lemma take_drop_join: "take n (drop i xs) @ drop (i + n) xs = drop i xs"
  by (metis append_take_drop_id drop_drop add.commute)

lemma decodeFrame_ok:
  assumes "decodeFrame b = Inr f"
  shows "f_version f = PROTOCOL_VERSION" "isFrameType (f_type f)"
    "unknown_flag_bits (int (f_flags f)) (f_type f) = 0" "f_flags f < 2 ^ 16"
    "f_circuitId f < 2 ^ 64" "f_streamId f < 2 ^ 32" "length (f_payload f) \<le> MAX_FRAME_PAYLOAD"
    "b = header (f_type f) (f_flags f) (f_circuitId f) (f_streamId f) (length (f_payload f)) @ f_payload f"
proof -
  have len: "20 \<le> length b" and eq: "length b = 20 + get_uint 4 b 16"
    using assms by (auto simp: decodeFrame_def Let_def wire_limits split: if_splits)
  have f: "f = \<lparr>f_version = unat (b ! 0), f_type = unat (b ! 1), f_flags = get_uint 2 b 2,
      f_circuitId = get_uint 8 b 4, f_streamId = get_uint 4 b 12, f_payload = drop 20 b\<rparr>"
    using assms eq by (auto simp: decodeFrame_def Let_def wire_limits split: if_splits)
  show "f_version f = PROTOCOL_VERSION" "isFrameType (f_type f)"
    "unknown_flag_bits (int (f_flags f)) (f_type f) = 0"
    "length (f_payload f) \<le> MAX_FRAME_PAYLOAD"
    using assms f by (auto simp: decodeFrame_def Let_def wire_limits split: if_splits)
  show "f_flags f < 2 ^ 16" "f_circuitId f < 2 ^ 64" "f_streamId f < 2 ^ 32"
    using be_nat_less [of "take 2 (drop 2 b)"] be_nat_less [of "take 8 (drop 4 b)"]
      be_nat_less [of "take 4 (drop 12 b)"] len
    by (simp_all add: f get_uint_def)
  have b0: "b ! 0 = word_of_nat PROTOCOL_VERSION"
    using \<open>f_version f = PROTOCOL_VERSION\<close> by (auto simp: f intro: byte_eqI)
  have body: "b = [b ! 0, b ! 1] @ drop 2 b" using len by (rule split_two)
  have parts: "drop 2 b = take 2 (drop 2 b) @ take 8 (drop 4 b) @ take 4 (drop 12 b) @ take 4 (drop 16 b) @ drop 20 b"
    using take_drop_join [of 2 2 b] take_drop_join [of 8 4 b] take_drop_join [of 4 12 b]
      take_drop_join [of 4 16 b] by simp
  have "length (drop 20 b) = be_nat (take 4 (drop 16 b))"
    by (metis eq get_uint_def add_diff_cancel_left' length_drop)
  then have "header (f_type f) (f_flags f) (f_circuitId f) (f_streamId f) (length (f_payload f)) =
      [b ! 0, b ! 1] @ take 2 (drop 2 b) @ take 8 (drop 4 b) @ take 4 (drop 12 b) @ take 4 (drop 16 b)"
    using len by (simp add: header_def f get_uint_def b0 del: length_drop)
  moreover have "f_payload f = drop 20 b" by (simp add: f)
  ultimately show "b = header (f_type f) (f_flags f) (f_circuitId f) (f_streamId f) (length (f_payload f)) @ f_payload f"
    using body parts by (metis append_assoc)
qed

lemma encode_options_of:
  "encodeFrame (options_of f) =
     (if isFrameType (f_type f) \<and> length (f_payload f) \<le> MAX_FRAME_PAYLOAD \<and>
         unknown_flag_bits (int (f_flags f)) (f_type f) = 0 \<and>
         f_circuitId f < 2 ^ 64 \<and> f_streamId f < 2 ^ 32
      then Inr (header (f_type f) (f_flags f) (f_circuitId f) (f_streamId f) (length (f_payload f)) @ f_payload f)
      else Inl RangeError)"
  by (auto simp: encodeFrame_def options_of_def Let_def header_def MAX_UINT64_def not_less not_le)

lemma flags_fit: "unknown_flag_bits (int n) t = 0 \<Longrightarrow> n < 2 ^ 32 \<Longrightarrow> n mod 2 ^ 16 = n"
  using unknown_flag_bits_low [of "int n" t] by (simp add: nat_mod_as_int)

interpretation frame_codec: canonical_codec wf_frame "\<lambda>f. encodeFrame (options_of f)" decodeFrame
proof unfold_locales
  fix f w assume wf: "wf_frame f" and enc: "encodeFrame (options_of f) = Inr w"
  then have "decodeFrame w = Inr \<lparr>f_version = PROTOCOL_VERSION, f_type = f_type f, f_flags = f_flags f,
      f_circuitId = f_circuitId f, f_streamId = f_streamId f, f_payload = f_payload f\<rparr>"
    using flags_fit [of "f_flags f" "f_type f"]
    by (auto simp: encode_options_of wf_frame_def decodeFrame_header split: if_splits)
  with wf show "decodeFrame w = Inr f" by (simp add: wf_frame_def)
next
  fix w f assume "decodeFrame w = Inr f"
  note ok = decodeFrame_ok [OF this]
  from ok show "wf_frame f" by (simp add: wf_frame_def)
  from ok show "encodeFrame (options_of f) = Inr w" by (simp add: encode_options_of)
qed

section \<open>Truncation on a character boundary\<close>

lemma and_push_bit: "n AND push_bit k m = push_bit k (drop_bit k n AND (m :: nat))"
  by (auto simp: bit_eq_iff bit_simps)

lemma nat_and_c0: "n < 256 \<Longrightarrow> n AND 0xC0 = 64 * (n div 64 :: nat)"
proof -
  assume "n < 256"
  have "n AND 0xC0 = n AND push_bit 6 3" by (simp add: push_bit_eq_mult)
  also have "\<dots> = push_bit 6 (drop_bit 6 n AND 3)" by (rule and_push_bit)
  also have "drop_bit 6 n AND 3 = take_bit 2 (n div 64)"
    by (simp add: take_bit_eq_mask mask_eq_exp_minus_1 drop_bit_eq_div)
  also have "\<dots> = n div 64" using \<open>n < 256\<close> by (simp add: take_bit_eq_mod)
  finally show ?thesis by (simp add: push_bit_eq_mult)
qed

lemma cont_byte: "(b :: byte) AND 0xC0 = 0x80 \<longleftrightarrow> 128 \<le> unat b \<and> unat b < 192"
proof -
  have "b AND 0xC0 = 0x80 \<longleftrightarrow> unat b AND 0xC0 = 0x80"
    by (simp add: word_unat_eq_iff unsigned_and_eq)
  also have "\<dots> \<longleftrightarrow> 64 * (unat b div 64) = 128" using nat_and_c0 [OF unat_byte_less] by simp
  also have "\<dots> \<longleftrightarrow> 128 \<le> unat b \<and> unat b < 192" by auto
  finally show ?thesis .
qed

lemma utf8_char_shape:
  assumes "is_scalar c"
  shows "\<exists>x r. utf8_char c = x # r \<and> \<not> (128 \<le> unat x \<and> unat x < 192) \<and>
    (\<forall>y \<in> set r. 128 \<le> unat y \<and> unat y < 192)"
  using assms by (auto simp: utf8_char_def is_scalar_def simp del: of_nat_add)

abbreviation utf8 :: "nat list \<Rightarrow> bytes" where
  "utf8 cs \<equiv> concat (map utf8_char cs)"

text \<open>A byte of UTF-8 text starts a character exactly when it is not a continuation byte.\<close>

lemma boundary_iff:
  assumes "\<And>c. c \<in> set cs \<Longrightarrow> is_scalar c" and "p < length (utf8 cs)"
  shows "\<not> (128 \<le> unat (utf8 cs ! p) \<and> unat (utf8 cs ! p) < 192) \<longleftrightarrow>
    (\<exists>k < length cs. p = length (utf8 (take k cs)))"
  using assms
proof (induction cs arbitrary: p)
  case (Cons c cs)
  obtain x r where c: "utf8_char c = x # r" "\<not> (128 \<le> unat x \<and> unat x < 192)"
    "\<And>y. y \<in> set r \<Longrightarrow> 128 \<le> unat y \<and> unat y < 192"
    using utf8_char_shape [of c] Cons.prems(1) by auto
  have split: "(\<exists>k < length (c # cs). q = length (utf8 (take k (c # cs)))) \<longleftrightarrow>
      q = 0 \<or> (\<exists>k < length cs. q = Suc (length r) + length (utf8 (take k cs)))" for q
    using c(1) by (auto simp: less_Suc_eq_0_disj)
  consider "p = 0" | "0 < p" "p \<le> length r" | q where "p = Suc (length r) + q"
    by (metis add.commute le_Suc_eq less_eqE not_less_eq_eq not_gr0 add_Suc_right add_Suc)
  then show ?case
  proof cases
    case 1
    with c split [of 0] show ?thesis by simp
  next
    case 2
    then have "utf8 (c # cs) ! p \<in> set r" using c(1) by (cases p) (auto simp: nth_append)
    with 2 c split [of p] show ?thesis by fastforce
  next
    case 3
    then have "utf8 (c # cs) ! p = utf8 cs ! q" "q < length (utf8 cs)"
      using c(1) Cons.prems(2) by (auto simp: nth_append)
    with 3 Cons.IH [of q] Cons.prems(1) split [of p] show ?thesis by simp
  qed
qed simp

lemma back_up_le: "back_up e n \<le> n"
  by (induction n) auto

lemma back_up_stop: "back_up e n = 0 \<or> \<not> (128 \<le> unat (e ! back_up e n) \<and> unat (e ! back_up e n) < 192)"
  by (induction n) (auto simp: cont_byte)

lemma back_up_skips: "back_up e n < q \<Longrightarrow> q \<le> n \<Longrightarrow> 128 \<le> unat (e ! q) \<and> unat (e ! q) < 192"
  by (induction n) (auto simp: cont_byte le_Suc_eq split: if_splits)

lemma utf8_take_prefix: "utf8 cs = utf8 (take k cs) @ utf8 (drop k cs)"
  by (metis append_take_drop_id concat_append map_append)

lemma truncate_longest:
  assumes "\<And>u. u \<in> set v \<Longrightarrow> u < 0x10000"
  shows "\<exists>k \<le> length (usv v). truncateUtf8 v m = utf8 (take k (usv v)) \<and>
    length (truncateUtf8 v m) \<le> m \<and>
    (k < length (usv v) \<longrightarrow> m < length (utf8 (take (Suc k) (usv v))))"
proof (cases "length (textEncode v) \<le> m")
  case True
  then show ?thesis by (intro exI [of _ "length (usv v)"]) (auto simp: truncateUtf8_def textEncode_def)
next
  case False
  define cs where "cs = usv v"
  have sc: "\<And>c. c \<in> set cs \<Longrightarrow> is_scalar c" using usv_scalar assms by (auto simp: cs_def)
  define e where "e = back_up (utf8 cs) m"
  have m: "m < length (utf8 cs)" and e: "e \<le> m"
    using False back_up_le by (auto simp: textEncode_def cs_def e_def)
  have tr: "truncateUtf8 v m = take e (utf8 cs)"
    using False by (simp add: truncateUtf8_def Let_def textEncode_def cs_def e_def)
  have ne: "cs \<noteq> []" using m by auto
  obtain k where k: "k < length cs" "e = length (utf8 (take k cs))"
  proof (cases "e = 0")
    case True
    with ne show ?thesis by (intro that [of 0]) auto
  next
    case False
    then have "\<not> (128 \<le> unat (utf8 cs ! e) \<and> unat (utf8 cs ! e) < 192)"
      using back_up_stop [of "utf8 cs" m] by (simp add: e_def)
    with boundary_iff [OF sc] e m that show ?thesis by (meson le_less_trans)
  qed
  have "take e (utf8 cs) = utf8 (take k cs)"
    using k utf8_take_prefix [of cs k] by (metis append_eq_conv_conj)
  moreover have "m < length (utf8 (take (Suc k) cs))"
  proof (rule ccontr)
    let ?q = "length (utf8 (take (Suc k) cs))"
    assume "\<not> m < ?q"
    then have q: "?q \<le> m" by simp
    have "utf8_char (cs ! k) \<noteq> []" using utf8_char_shape sc k(1) by (metis list.distinct(1) nth_mem)
    then have eq: "e < ?q" using k by (simp add: take_Suc_conv_app_nth)
    have "Suc k < length cs" using q m by (metis k(1) Suc_lessI linorder_not_less take_all order_refl)
    then have "\<not> (128 \<le> unat (utf8 cs ! ?q) \<and> unat (utf8 cs ! ?q) < 192)"
      using boundary_iff [OF sc, where p = ?q] q m by auto
    with back_up_skips [of "utf8 cs" m ?q] eq q show False by (simp add: e_def)
  qed
  moreover have "length (take e (utf8 cs)) \<le> m" using e by simp
  ultimately show ?thesis using tr k(1) unfolding cs_def by (metis less_imp_le)
qed

lemma length_error_payload: "(\<And>u. u \<in> set (pe_detail e) \<Longrightarrow> u < 0x10000) \<Longrightarrow>
    length (error_payload e) \<le> 3 + MAX_ERROR_DETAIL"
  using truncate_longest [of "pe_detail e" MAX_ERROR_DETAIL] by (auto simp: error_payload_def)

lemma textDecode_utf8:
  "(\<And>c. c \<in> set cs \<Longrightarrow> is_scalar c) \<Longrightarrow> textDecode (utf8 cs) = concat (map utf16 (strip_bom cs))"
  by (simp add: textDecode_def u8_run_encode comp_def)

section \<open>Properties\<close>

text \<open>
  Round trip. Whatever \<^verbatim>\<open>encodeFrame\<close> accepts, \<^verbatim>\<open>decodeFrame\<close> accepts, and it returns the
  type, circuit id, stream id and payload that were given; the flags come back reduced
  modulo 2^32, because the encoder's mask test looks at 32 bits only.
\<close>

theorem frame_round_trip:
  assumes "encodeFrame opt = Inr b"
  shows "\<exists>f. decodeFrame b = Inr f \<and> f_type f = eo_type opt \<and>
    f_payload f = nullish (eo_payload opt) [] \<and>
    int (f_circuitId f) = nullish (eo_circuitId opt) 0 \<and>
    js_int (int (f_streamId f)) = nullish (eo_streamId opt) (js_int 0) \<and>
    int (f_flags f) = int_of (nullish (eo_flags opt) (js_int 0)) mod 2 ^ 32"
proof -
  obtain flags cid sid payload where
    b: "b = header (eo_type opt) (nat flags) (nat cid) (nat sid) (length payload) @ payload"
    and ok: "isFrameType (eo_type opt)" "length payload \<le> MAX_FRAME_PAYLOAD"
      "payload = nullish (eo_payload opt) []" "nullish (eo_flags opt) (js_int 0) = js_int flags"
      "0 \<le> flags" "unknown_flag_bits flags (eo_type opt) = 0"
      "nullish (eo_circuitId opt) 0 = cid" "0 \<le> cid" "cid < 2 ^ 64"
      "nullish (eo_streamId opt) (js_int 0) = js_int sid" "0 \<le> sid" "sid < 2 ^ 32"
    using assms by (rule encodeFrame_ok)
  have low: "int (nat flags mod 2 ^ 16) = flags mod 2 ^ 32"
    using ok(5) unknown_flag_bits_low(2) [OF ok(6)] by (simp add: of_nat_mod)
  have mask: "unknown_flag_bits (int (nat flags mod 2 ^ 16)) (eo_type opt) = 0"
    unfolding low unknown_flag_bits_mod by (rule ok(6))
  show ?thesis
    using decodeFrame_header [OF ok(1) mask ok(2), of "nat cid" "nat sid"] ok low
    by (simp add: b nat_mod_as_int)
qed

text \<open>
  C40. One frame, one encoding. The decoder accepts exactly the bytes the encoder
  produces for the frame it returns, for every byte string and every frame.
\<close>

theorem frame_canonical:
  "decodeFrame b = Inr f \<longleftrightarrow> wf_frame f \<and> encodeFrame (options_of f) = Inr b"
  by (rule frame_codec.decode_iff)

text \<open>
  Errors of the decoder. A frame of at least a header that speaks another version is
  reported as such before anything else is looked at; every other rejection is a protocol
  violation, and nothing but these two errors is thrown.
\<close>

theorem frame_decode_errors:
  "decodeFrame b = Inl e \<longleftrightarrow>
     (if HEADER_SIZE \<le> length b \<and> unat (b ! 0) \<noteq> PROTOCOL_VERSION
      then e = FrameDecodeError (ErrorCode UNSUPPORTED_VERSION)
      else e = FrameDecodeError (ErrorCode PROTOCOL_VIOLATION) \<and> (\<forall>f. decodeFrame b \<noteq> Inr f))"
  by (auto simp: decodeFrame_def Let_def)

text \<open>
  Error detail. The payload \<^verbatim>\<open>encodeError\<close> builds is accepted by \<^verbatim>\<open>decodeError\<close> with its code
  and scope, and the detail that arrives is the longest prefix of whole characters
  whose UTF-8 encoding fits the cap (less a leading byte order mark, which
  \<^verbatim>\<open>TextDecoder\<close> drops).
\<close>

theorem error_detail_truncated:
  assumes "pe_code e < 2 ^ 16" and "pe_scope e < 2 ^ 8"
    and units: "\<And>u. u \<in> set (pe_detail e) \<Longrightarrow> u < 0x10000"
  shows "\<exists>k \<le> length (usv (pe_detail e)).
    decodeError (error_payload e) = Inr (e\<lparr>pe_detail := concat (map utf16 (strip_bom (take k (usv (pe_detail e)))))\<rparr>) \<and>
    length (utf8 (take k (usv (pe_detail e)))) \<le> MAX_ERROR_DETAIL \<and>
    (k < length (usv (pe_detail e)) \<longrightarrow> MAX_ERROR_DETAIL < length (utf8 (take (Suc k) (usv (pe_detail e)))))"
proof -
  obtain k where k: "k \<le> length (usv (pe_detail e))"
    "truncateUtf8 (pe_detail e) MAX_ERROR_DETAIL = utf8 (take k (usv (pe_detail e)))"
    "length (truncateUtf8 (pe_detail e) MAX_ERROR_DETAIL) \<le> MAX_ERROR_DETAIL"
    "k < length (usv (pe_detail e)) \<longrightarrow> MAX_ERROR_DETAIL < length (utf8 (take (Suc k) (usv (pe_detail e))))"
    using truncate_longest [OF units] by blast
  have "\<And>c. c \<in> set (take k (usv (pe_detail e))) \<Longrightarrow> is_scalar c"
    using usv_scalar [of "pe_detail e"] units by (meson in_set_takeD)
  from textDecode_utf8 [OF this] k assms(1,2)
  have "decodeError (error_payload e) = Inr (e\<lparr>pe_detail := concat (map utf16 (strip_bom (take k (usv (pe_detail e)))))\<rparr>)"
    by (simp add: decodeError_def error_payload_def get_uint_def nth_append)
  with k show ?thesis by metis
qed

text \<open>Witnesses.\<close>

theorem frame_round_trip_witness:
  "\<exists>b f. encodeFrame \<lparr>eo_type = FrameType STREAM_CLOSE, eo_circuitId = Some 5, eo_streamId = Some (js_int 1),
      eo_flags = Some (js_int 3), eo_payload = Some [7, 8]\<rparr> = Inr b \<and>
    decodeFrame b = Inr f \<and> f_circuitId f = 5 \<and> f_payload f = [7, 8] \<and> f_flags f = 3"
proof -
  let ?o = "\<lparr>eo_type = FrameType STREAM_CLOSE, eo_circuitId = Some 5, eo_streamId = Some (js_int 1),
      eo_flags = Some (js_int 3), eo_payload = Some [7, 8]\<rparr> :: encode_options"
  have "encodeFrame ?o = encodeFrame (options_of \<lparr>f_version = 1, f_type = FrameType STREAM_CLOSE, f_flags = 3,
      f_circuitId = 5, f_streamId = 1, f_payload = [7, 8]\<rparr>)"
    by (simp add: options_of_def)
  also have "\<dots> = Inr (header (FrameType STREAM_CLOSE) 3 5 1 (length [7 :: byte, 8]) @ [7, 8])"
    using unknown_flag_bits_close [of 3] by (simp add: encode_options_of isFrameType_def FRAME_TYPE_VALUES_def wire_limits)
  finally have enc: "encodeFrame ?o = Inr (header (FrameType STREAM_CLOSE) 3 5 1 (length [7 :: byte, 8]) @ [7, 8])" .
  from frame_round_trip [OF enc] enc show ?thesis by auto
qed

theorem error_detail_truncated_witness:
  "\<exists>d. decodeError (error_payload \<lparr>pe_code = 1, pe_scope = 2, pe_detail = js ''no''\<rparr>) =
     Inr \<lparr>pe_code = 1, pe_scope = 2, pe_detail = d\<rparr>"
proof -
  let ?e = "\<lparr>pe_code = 1, pe_scope = 2, pe_detail = js ''no''\<rparr>"
  have "decodeError (error_payload ?e) = Inr d \<Longrightarrow> ?thesis"
    if "d = ?e\<lparr>pe_detail := x\<rparr>" for d x
    using that by auto
  moreover have "u < 0x10000" if "u \<in> set (pe_detail ?e)" for u
    using that by (auto simp: js_def)
  ultimately show ?thesis
    using error_detail_truncated [of ?e] by fastforce
qed

end
