(* ===== verification/Js_Value.thy ===== *)
theory Js_Value
  imports Tnp_Prelude
begin

text \<open>
  Values of type \<^verbatim>\<open>unknown\<close> as they come out of \<^verbatim>\<open>JSON.parse\<close>, with the tests the sources
  apply to them, and \<^verbatim>\<open>String.prototype.split\<close> on one separator.
\<close>

text \<open>
  An object lists its own enumerable properties in order, each key once. None of the
  property names the sources read is on \<^verbatim>\<open>Object.prototype\<close>, so an absent one reads as
  \<^verbatim>\<open>undefined\<close>.
\<close>

datatype jsval =
    Undefined
  | Null
  | JBool bool
  | JNum js_number
  | JStr jsstring
  | JArr "jsval list"
  | JObj "(jsstring \<times> jsval) list"

definition is_object :: "jsval \<Rightarrow> bool" where
  "is_object v = (case v of JObj _ \<Rightarrow> True | _ \<Rightarrow> False)"

fun object_keys :: "jsval \<Rightarrow> jsstring list" where
  "object_keys (JObj ps) = map fst ps"
| "object_keys _ = []"

fun js_prop :: "jsval \<Rightarrow> jsstring \<Rightarrow> jsval" where
  "js_prop (JObj ps) k = (case map_of ps k of None \<Rightarrow> Undefined | Some v \<Rightarrow> v)"
| "js_prop _ k = Undefined"

fun as_string :: "jsval \<Rightarrow> jsstring option" where
  "as_string (JStr s) = Some s"
| "as_string _ = None"

fun as_array :: "jsval \<Rightarrow> jsval list option" where
  "as_array (JArr xs) = Some xs"
| "as_array _ = None"

fun as_number :: "jsval \<Rightarrow> js_number option" where
  "as_number (JNum x) = Some x"
| "as_number _ = None"

lemma as_string_Some [simp]: "as_string v = Some s \<longleftrightarrow> v = JStr s"
  by (cases v) auto

lemma as_array_Some [simp]: "as_array v = Some xs \<longleftrightarrow> v = JArr xs"
  by (cases v) auto

lemma as_number_Some [simp]: "as_number v = Some x \<longleftrightarrow> v = JNum x"
  by (cases v) auto

lemma is_object_iff: "is_object v \<longleftrightarrow> (\<exists>ps. v = JObj ps)"
  by (cases v) (auto simp: is_object_def)

section \<open>Splitting strings\<close>

text \<open>\<open>split_on c s\<close> is \<^verbatim>\<open>s.split(c)\<close>: the empty string splits into one empty part.\<close>

fun split_on :: "nat \<Rightarrow> jsstring \<Rightarrow> jsstring list" where
  "split_on c [] = [[]]"
| "split_on c (x # xs) =
     (if x = c then [] # split_on c xs
      else (case split_on c xs of [] \<Rightarrow> [[x]] | p # ps \<Rightarrow> (x # p) # ps))"

fun join_with :: "nat \<Rightarrow> jsstring list \<Rightarrow> jsstring" where
  "join_with c [] = []"
| "join_with c [p] = p"
| "join_with c (p # q # ps) = p @ c # join_with c (q # ps)"

definition endsWith :: "jsstring \<Rightarrow> jsstring \<Rightarrow> bool" where
  "endsWith s t \<longleftrightarrow> length t \<le> length s \<and> drop (length s - length t) s = t"

lemma endsWith_iff: "endsWith s t \<longleftrightarrow> (\<exists>p. s = p @ t)"
proof
  assume "endsWith s t"
  then show "\<exists>p. s = p @ t" by (metis append_take_drop_id endsWith_def)
qed (auto simp: endsWith_def)

lemma split_on_ne [simp]: "split_on c s \<noteq> []"
  by (induction s) (auto split: list.splits)

lemma join_split [simp]: "join_with c (split_on c s) = s"
proof (induction s)
  case (Cons x s)
  obtain p ps where "split_on c s = p # ps" by (cases "split_on c s") auto
  with Cons show ?case by (cases ps) auto
qed simp

lemma split_join:
  "ps \<noteq> [] \<Longrightarrow> (\<And>p. p \<in> set ps \<Longrightarrow> c \<notin> set p) \<Longrightarrow> split_on c (join_with c ps) = ps"
proof (induction c ps rule: join_with.induct)
  case (2 c p)
  then show ?case by (induction p) auto
next
  case (3 c p q ps)
  have "c \<notin> set p" using 3 by simp
  then have "split_on c (p @ c # s) = p # split_on c s" for s
    by (induction p) auto
  with 3 show ?case by simp
qed simp

lemma split_on_no_sep: "p \<in> set (split_on c s) \<Longrightarrow> c \<notin> set p"
proof (induction s arbitrary: p)
  case (Cons x s)
  then show ?case by (auto split: if_splits list.splits)
qed simp

lemma split_on_append: "split_on c (s @ c # t) = split_on c s @ split_on c t"
  by (induction s) (auto split: list.splits)

lemma split_on_inj: "split_on c s = split_on c t \<Longrightarrow> s = t"
  by (metis join_split)

lemma set_split_on: "x \<in> set s \<Longrightarrow> x = c \<or> (\<exists>p \<in> set (split_on c s). x \<in> set p)"
proof (induction s)
  case (Cons y s)
  then show ?case by (auto split: list.splits)
qed simp

end
