(* ===== verification/Scope.thy ===== *)
theory Scope
  imports Js_Value Js_Text
begin

text \<open>
  \<^verbatim>\<open>packages/crypto/src/scope.ts\<close>: canonical DNS names as grant scopes, and when one scope lies
  inside another. The specification is the suffix order on lists of labels.
\<close>

definition alnum :: "nat \<Rightarrow> bool" where
  "alnum c \<longleftrightarrow> (97 \<le> c \<and> c \<le> 122) \<or> (48 \<le> c \<and> c \<le> 57)"

definition ldh :: "nat \<Rightarrow> bool" where
  "ldh c \<longleftrightarrow> alnum c \<or> c = 45"

text \<open>The test of \<^verbatim>\<open>/^[a-z0-9](?:[a-z0-9-]{0,61}[a-z0-9])?$/\<close>.\<close>

definition LABEL :: "jsstring \<Rightarrow> bool" where
  "LABEL s = (case s of
     [] \<Rightarrow> False
   | c # rest \<Rightarrow> alnum c \<and>
       (rest = [] \<or> length (butlast rest) \<le> 61 \<and> list_all ldh (butlast rest) \<and> alnum (last rest)))"

definition MAX_NAME_LENGTH :: nat where
  "MAX_NAME_LENGTH = 253"

definition valid_name :: "jsstring \<Rightarrow> bool" where
  "valid_name s \<longleftrightarrow> \<not> (length s = 0 \<or> length s > MAX_NAME_LENGTH) \<and> list_all LABEL (split_on 46 s)"

definition isValidScope :: "jsval \<Rightarrow> bool" where
  "isValidScope v = (case as_string v of None \<Rightarrow> False | Some s \<Rightarrow> valid_name s)"

definition scopeCovers :: "jsstring \<Rightarrow> jsstring \<Rightarrow> bool" where
  "scopeCovers outer inner =
     (if \<not> isValidScope (JStr outer) \<or> \<not> isValidScope (JStr inner) then False
      else inner = outer \<or> endsWith inner (46 # outer))"

section \<open>Names are lists of labels\<close>

definition labels :: "jsstring \<Rightarrow> jsstring list" where
  "labels s = split_on 46 s"

lemma isValidScope_JStr [simp]: "isValidScope (JStr s) = valid_name s"
  by (simp add: isValidScope_def)

lemma isValidScope_iff: "isValidScope v \<longleftrightarrow> (\<exists>s. v = JStr s \<and> valid_name s)"
  by (cases v) (simp_all add: isValidScope_def)

lemma LABEL_chars: "LABEL s \<Longrightarrow> c \<in> set s \<Longrightarrow> ldh c"
proof -
  assume l: "LABEL s" and c: "c \<in> set s"
  then obtain a rest where s: "s = a # rest" by (cases s) (auto simp: LABEL_def)
  show "ldh c"
  proof (cases "rest = []")
    case False
    then have "set rest = insert (last rest) (set (butlast rest))"
      by (metis append_butlast_last_id list.simps(15) rotate1.simps(2) set_rotate1)
    with l c s False show ?thesis by (auto simp: LABEL_def ldh_def list_all_iff)
  qed (use l c s in \<open>auto simp: LABEL_def ldh_def\<close>)
qed

lemma ldh_ascii: "ldh c \<Longrightarrow> c < 128"
  by (auto simp: ldh_def alnum_def)

lemma valid_name_ascii: "valid_name s \<Longrightarrow> ascii s"
proof -
  assume "valid_name s"
  then have "c < 128" if "c \<in> set s" for c
    using set_split_on [OF that, of 46] LABEL_chars ldh_ascii
    by (auto simp: valid_name_def list_all_iff)
  then show ?thesis by (simp add: ascii_def list_all_iff)
qed

lemma endsWith_dot: "endsWith inner (46 # outer) \<longleftrightarrow>
    (\<exists>p. labels inner = labels p @ labels outer)"
proof
  assume "endsWith inner (46 # outer)"
  then show "\<exists>p. labels inner = labels p @ labels outer"
    by (auto simp: endsWith_iff labels_def split_on_append)
next
  assume "\<exists>p. labels inner = labels p @ labels outer"
  then obtain p where "labels inner = labels (p @ 46 # outer)"
    by (auto simp: labels_def split_on_append)
  then have "inner = p @ 46 # outer" unfolding labels_def by (rule split_on_inj)
  then show "endsWith inner (46 # outer)" by (auto simp: endsWith_iff)
qed

lemma covers_labels:
  "scopeCovers outer inner \<longleftrightarrow> valid_name outer \<and> valid_name inner \<and> (\<exists>ps. labels inner = ps @ labels outer)"
proof -
  have "(\<exists>ps. labels inner = ps @ labels outer) \<longleftrightarrow> inner = outer \<or> (\<exists>p. labels inner = labels p @ labels outer)"
  proof
    assume "\<exists>ps. labels inner = ps @ labels outer"
    then obtain ps where ps: "labels inner = ps @ labels outer" ..
    show "inner = outer \<or> (\<exists>p. labels inner = labels p @ labels outer)"
    proof (cases "ps = []")
      case True
      with ps have "inner = outer" unfolding labels_def by (metis append_Nil split_on_inj)
      then show ?thesis ..
    next
      case False
      have "\<And>p. p \<in> set ps \<Longrightarrow> 46 \<notin> set p"
        using ps split_on_no_sep [of _ 46 inner] by (auto simp: labels_def)
      then have "labels (join_with 46 ps) = ps" unfolding labels_def using False split_join by blast
      with ps show ?thesis by metis
    qed
  qed (metis append_Nil)
  then show ?thesis by (auto simp: scopeCovers_def endsWith_dot)
qed

section \<open>The contract of a scope order\<close>

text \<open>
  Narrowing along a chain needs the relation to be reflexive on valid scopes,
  antisymmetric and transitive.
\<close>

locale scope_order =
  fixes valid :: "'s \<Rightarrow> bool" and covers :: "'s \<Rightarrow> 's \<Rightarrow> bool"
  assumes covers_valid: "covers a b \<Longrightarrow> valid a \<and> valid b"
    and covers_refl: "valid a \<Longrightarrow> covers a a"
    and covers_trans: "covers a b \<Longrightarrow> covers b c \<Longrightarrow> covers a c"
    and covers_antisym: "covers a b \<Longrightarrow> covers b a \<Longrightarrow> a = b"
begin

lemma covers_along: "successively (\<lambda>b a. covers a b) xs \<Longrightarrow> sorted_wrt (\<lambda>b a. covers a b) xs"
  using successively_conv_sorted_wrt [of "\<lambda>b a. covers a b" xs] covers_trans
  by (auto simp: transp_def)

end

text \<open>Scopes that may be absent: an absent one restricts nothing, and only it covers an absent one.\<close>

fun valid_opt :: "('s \<Rightarrow> bool) \<Rightarrow> 's option \<Rightarrow> bool" where
  "valid_opt valid None = True"
| "valid_opt valid (Some s) = valid s"

fun covers_opt :: "('s \<Rightarrow> bool) \<Rightarrow> ('s \<Rightarrow> 's \<Rightarrow> bool) \<Rightarrow> 's option \<Rightarrow> 's option \<Rightarrow> bool" where
  "covers_opt valid covers None b = valid_opt valid b"
| "covers_opt valid covers (Some a) None = False"
| "covers_opt valid covers (Some a) (Some b) = covers a b"

locale optional_scope = scope_order

sublocale optional_scope \<subseteq> opt: scope_order "valid_opt valid" "covers_opt valid covers"
proof unfold_locales
  fix a b c
  show "covers_opt valid covers a b \<Longrightarrow> valid_opt valid a \<and> valid_opt valid b"
    by (cases a; cases b) (auto dest: covers_valid)
  show "valid_opt valid a \<Longrightarrow> covers_opt valid covers a a"
    by (cases a) (auto intro: covers_refl)
  show "covers_opt valid covers a b \<Longrightarrow> covers_opt valid covers b c \<Longrightarrow> covers_opt valid covers a c"
    by (cases a; cases b; cases c) (auto intro: covers_trans dest: covers_valid)
  show "covers_opt valid covers a b \<Longrightarrow> covers_opt valid covers b a \<Longrightarrow> a = b"
    by (cases a; cases b) (auto intro: covers_antisym)
qed

interpretation scope: optional_scope valid_name scopeCovers
proof unfold_locales
  fix a b c
  show "scopeCovers a b \<Longrightarrow> valid_name a \<and> valid_name b" by (simp add: covers_labels)
  show "valid_name a \<Longrightarrow> scopeCovers a a" by (simp add: covers_labels)
  show "scopeCovers a c" if "scopeCovers a b" "scopeCovers b c"
    using that by (auto simp: covers_labels)
  show "a = b" if ab: "scopeCovers a b" and ba: "scopeCovers b a"
  proof -
    obtain ps where eq: "labels b = ps @ labels a" using ab unfolding covers_labels by blast
    obtain qs where "labels a = qs @ labels b" using ba unfolding covers_labels by blast
    then have len: "length (labels b) = length ps + length (labels a)"
      "length (labels a) = length qs + length (labels b)"
      using eq by (metis length_append)+
    from len have "ps = []" by simp
    with eq have "labels a = labels b" by simp
    then show "a = b" unfolding labels_def by (rule split_on_inj)
  qed
qed

section \<open>Properties\<close>

text \<open>
  Covering respects label boundaries. \<^verbatim>\<open>scopeCovers\<close> holds exactly when both names are
  canonical and the labels of the outer name are the last labels of the inner one.
\<close>

theorem scope_covers_label_suffix:
  "scopeCovers outer inner \<longleftrightarrow> isValidScope (JStr outer) \<and> isValidScope (JStr inner) \<and>
     (\<exists>ps. split_on 46 inner = ps @ split_on 46 outer)"
  by (simp add: covers_labels labels_def)

end
