(* ===== verification/Overlay.thy ===== *)
theory Overlay
  imports Frame Scope
begin

text \<open>
  \<^verbatim>\<open>packages/protocol/src/overlay.ts\<close>: the payloads of the single-hop overlay. Circuit creation
  with its routing name, the stream messages inside sealed records, the relay identity
  exchange and the AUTH proof of a service node. \<^verbatim>\<open>JSON.parse\<close> and \<^verbatim>\<open>JSON.stringify\<close> are
  arguments of the AUTH codec.
\<close>

definition E2E_STREAM_ID :: nat where "E2E_STREAM_ID = 1"
definition DESTROY_NORMAL :: nat where "DESTROY_NORMAL = 0"
definition MAX_ROUTING_NAME :: nat where "MAX_ROUTING_NAME = 253"

definition isCanonicalName :: "jsstring \<Rightarrow> bool" where
  "isCanonicalName v \<longleftrightarrow> length v > 0 \<and> length v \<le> MAX_ROUTING_NAME \<and> list_all LABEL (split_on 46 v)"

definition violation :: exn where
  "violation = FrameDecodeError (ErrorCode PROTOCOL_VIOLATION)"

section \<open>Circuit creation and destruction\<close>

definition encodeCircuitCreate :: "jsstring \<Rightarrow> bytes \<Rightarrow> bytes result" where
  "encodeCircuitCreate name message1 =
     (if \<not> isCanonicalName name then Inl RangeError
      else if length message1 \<noteq> HANDSHAKE_MESSAGE_SIZE then Inl RangeError
      else let nameBytes = textEncode name in
        Inr (word_of_nat (length nameBytes) # nameBytes @ message1))"

definition decodeCircuitCreate :: "bytes \<Rightarrow> (jsstring \<times> bytes) result" where
  "decodeCircuitCreate payload =
     (if length payload < 2 + HANDSHAKE_MESSAGE_SIZE then Inl violation
      else let nameLength = unat (payload ! 0) in
      if nameLength = 0 \<or> length payload \<noteq> 1 + nameLength + HANDSHAKE_MESSAGE_SIZE then Inl violation
      else case textDecodeFatal (take nameLength (drop 1 payload)) of
        Inl _ \<Rightarrow> Inl violation
      | Inr name \<Rightarrow>
          if \<not> isCanonicalName name then Inl violation
          else Inr (name, drop (1 + nameLength) payload))"

definition decodeCircuitCreated :: "bytes \<Rightarrow> bytes result" where
  "decodeCircuitCreated payload =
     (if length payload \<noteq> HANDSHAKE_MESSAGE_SIZE then Inl violation else Inr payload)"

definition encodeDestroy :: "js_number \<Rightarrow> bytes result" where
  "encodeDestroy reason =
     (if \<not> isInteger reason \<or> js_less reason (js_int 0) \<or> js_less (js_int 0xffff) reason
      then Inl RangeError else Inr (be_bytes 2 (nat (int_of reason))))"

definition decodeDestroy :: "bytes \<Rightarrow> js_number result" where
  "decodeDestroy payload =
     (if length payload \<noteq> 2 then Inl violation else Inr (js_int (int (get_uint 2 payload 0))))"

section \<open>Stream messages\<close>

datatype stream_message =
    Msg_open js_number
  | Msg_opened
  | Msg_data bytes
  | Msg_reset js_number
  | Msg_window js_number
  | Msg_fin

definition SM_OPEN :: nat where "SM_OPEN = 0x01"
definition SM_OPENED :: nat where "SM_OPENED = 0x02"
definition SM_DATA :: nat where "SM_DATA = 0x03"
definition SM_RESET :: nat where "SM_RESET = 0x04"
definition SM_WINDOW :: nat where "SM_WINDOW = 0x05"
definition SM_FIN :: nat where "SM_FIN = 0x06"

lemmas StreamMessageType =
  SM_OPEN_def SM_OPENED_def SM_DATA_def SM_RESET_def SM_WINDOW_def SM_FIN_def

definition MAX_STREAM_DATA :: nat where
  "MAX_STREAM_DATA = MAX_SEALED_PLAINTEXT - 1"

definition out_of_range :: "js_number \<Rightarrow> int \<Rightarrow> int \<Rightarrow> bool" where
  "out_of_range n lo hi \<longleftrightarrow> \<not> isInteger n \<or> js_less n (js_int lo) \<or> js_less (js_int hi) n"

fun encodeStreamMessage :: "stream_message \<Rightarrow> bytes result" where
  "encodeStreamMessage (Msg_open port) =
     (if out_of_range port 1 0xffff then Inl RangeError
      else Inr (word_of_nat SM_OPEN # be_bytes 2 (nat (int_of port))))"
| "encodeStreamMessage Msg_opened = Inr [word_of_nat SM_OPENED]"
| "encodeStreamMessage (Msg_data d) =
     (if length d = 0 \<or> length d > MAX_STREAM_DATA then Inl RangeError
      else Inr (word_of_nat SM_DATA # d))"
| "encodeStreamMessage (Msg_reset code) =
     (if out_of_range code 0 0xffff then Inl RangeError
      else Inr (word_of_nat SM_RESET # be_bytes 2 (nat (int_of code))))"
| "encodeStreamMessage Msg_fin = Inr [word_of_nat SM_FIN]"
| "encodeStreamMessage (Msg_window credit) =
     (if out_of_range credit 1 0xffffffff then Inl RangeError
      else Inr (word_of_nat SM_WINDOW # be_bytes 4 (nat (int_of credit))))"

definition decodeStreamMessage :: "bytes \<Rightarrow> stream_message result" where
  "decodeStreamMessage p =
     (if length p = 0 then Inl violation
      else let t = unat (p ! 0) in
      if t = SM_OPEN then
        (if length p \<noteq> 3 then Inl violation
         else let port = get_uint 2 p 1 in
           if port = 0 then Inl violation else Inr (Msg_open (js_int (int port))))
      else if t = SM_OPENED then
        (if length p \<noteq> 1 then Inl violation else Inr Msg_opened)
      else if t = SM_DATA then
        (if length p < 2 then Inl violation else Inr (Msg_data (drop 1 p)))
      else if t = SM_RESET then
        (if length p \<noteq> 3 then Inl violation else Inr (Msg_reset (js_int (int (get_uint 2 p 1)))))
      else if t = SM_WINDOW then
        (if length p \<noteq> 5 then Inl violation
         else let credit = get_uint 4 p 1 in
           if credit = 0 then Inl violation else Inr (Msg_window (js_int (int credit))))
      else if t = SM_FIN then
        (if length p \<noteq> 1 then Inl violation else Inr Msg_fin)
      else Inl violation)"

section \<open>Relay identity\<close>

definition RELAY_HELLO_NONCE_SIZE :: nat where "RELAY_HELLO_NONCE_SIZE = 32"
definition RELAY_HELLO_ACK_SIZE :: nat where "RELAY_HELLO_ACK_SIZE = 96"

definition encodeRelayHello :: "bytes \<Rightarrow> bytes result" where
  "encodeRelayHello nonce = (if length nonce \<noteq> RELAY_HELLO_NONCE_SIZE then Inl RangeError else Inr nonce)"

definition decodeRelayHello :: "bytes \<Rightarrow> bytes result" where
  "decodeRelayHello payload = (if length payload \<noteq> RELAY_HELLO_NONCE_SIZE then Inl violation else Inr payload)"

definition encodeRelayHelloAck :: "bytes \<Rightarrow> bytes \<Rightarrow> bytes result" where
  "encodeRelayHelloAck relayKey signature =
     (if length relayKey \<noteq> 32 \<or> length signature \<noteq> 64 then Inl RangeError
      else Inr (relayKey @ signature))"

definition decodeRelayHelloAck :: "bytes \<Rightarrow> (bytes \<times> bytes) result" where
  "decodeRelayHelloAck payload =
     (if length payload \<noteq> RELAY_HELLO_ACK_SIZE then Inl violation
      else Inr (take 32 payload, drop 32 payload))"

section \<open>Service-node registration\<close>

definition SERVICE_CHALLENGE_SIZE :: nat where "SERVICE_CHALLENGE_SIZE = 32"

definition decodeServiceHello :: "bytes \<Rightarrow> bytes result" where
  "decodeServiceHello payload = (if length payload \<noteq> SERVICE_CHALLENGE_SIZE then Inl violation else Inr payload)"

record service_auth =
  sa_name :: jsstring
  sa_chain :: "jsval list"
  sa_signature :: jsstring

definition auth_object :: "service_auth \<Rightarrow> jsval" where
  "auth_object a = JObj [(js ''name'', JStr (sa_name a)), (js ''chain'', JArr (sa_chain a)),
     (js ''signature'', JStr (sa_signature a))]"

definition encodeServiceAuth :: "(jsval \<Rightarrow> jsstring) \<Rightarrow> service_auth \<Rightarrow> bytes result" where
  "encodeServiceAuth stringify a =
     (let bs = textEncode (stringify (auth_object a)) in
      if length bs > MAX_FRAME_PAYLOAD then Inl RangeError else Inr bs)"

definition decodeServiceAuth :: "(jsstring \<Rightarrow> jsval option) \<Rightarrow> bytes \<Rightarrow> service_auth result" where
  "decodeServiceAuth parse payload =
     (case textDecodeFatal payload of
        Inl _ \<Rightarrow> Inl violation
      | Inr nb \<Rightarrow> (case parse nb of
          None \<Rightarrow> Inl violation
        | Some v \<Rightarrow>
            if \<not> is_object v then Inl violation
            else if \<not> list_all (\<lambda>k. k = js ''name'' \<or> k = js ''chain'' \<or> k = js ''signature'') (object_keys v)
              then Inl violation
            else (case as_string (js_prop v (js ''name'')) of
                None \<Rightarrow> Inl violation
              | Some name \<Rightarrow>
                  if \<not> isCanonicalName name then Inl violation
                  else (case as_array (js_prop v (js ''chain'')) of
                      None \<Rightarrow> Inl violation
                    | Some chain \<Rightarrow>
                        if length chain = 0 \<or> length chain > 4 then Inl violation
                        else (case as_string (js_prop v (js ''signature'')) of
                            None \<Rightarrow> Inl violation
                          | Some sig \<Rightarrow>
                              if length sig > 128 then Inl violation
                              else Inr \<lparr>sa_name = name, sa_chain = chain, sa_signature = sig\<rparr>)))))"

section \<open>Lemmas\<close>

lemma canonical_valid [simp]: "isCanonicalName = valid_name"
  by (auto simp: isCanonicalName_def valid_name_def MAX_ROUTING_NAME_def MAX_NAME_LENGTH_def)

lemma valid_name_length: "valid_name s \<Longrightarrow> 0 < length s \<and> length s \<le> 253"
  by (auto simp: valid_name_def MAX_NAME_LENGTH_def)

lemma encodeCircuitCreate_eq:
  "encodeCircuitCreate name m = (if valid_name name \<and> length m = 48
     then Inr (word_of_nat (length name) # map word_of_nat name @ m) else Inl RangeError)"
  using valid_name_ascii [of name]
  by (auto simp: encodeCircuitCreate_def Let_def textEncode_ascii wire_limits)

lemma decodeCircuitCreate_text:
  assumes "length nb < 256" "0 < length nb" "length m = 48"
  shows "decodeCircuitCreate (word_of_nat (length nb) # nb @ m) =
    (case textDecodeFatal nb of Inl _ \<Rightarrow> Inl violation
     | Inr name \<Rightarrow> if valid_name name then Inr (name, m) else Inl violation)"
  using assms
  by (simp add: decodeCircuitCreate_def Let_def wire_limits) (auto split: sum.splits)

lemma decodeCircuitCreate_split:
  assumes "decodeCircuitCreate p = Inr (name, m)"
  obtains nb where "p = word_of_nat (length nb) # nb @ m" "length nb < 256" "0 < length nb"
    "length m = 48" "textDecodeFatal nb = Inr name" "valid_name name"
proof (rule that [of "take (unat (p ! 0)) (drop 1 p)"])
  let ?n = "unat (p ! 0)"
  from assms have p: "length p = Suc ?n + 48" "0 < ?n" "m = drop (Suc ?n) p"
    by (auto simp: decodeCircuitCreate_def Let_def wire_limits split: if_splits sum.splits)
  then obtain x r where xr: "p = x # r" by (cases p) auto
  show "length (take ?n (drop 1 p)) < 256" "0 < length (take ?n (drop 1 p))" "length m = 48"
    using p unat_byte_less [of "p ! 0"] by auto
  show "p = word_of_nat (length (take ?n (drop 1 p))) # take ?n (drop 1 p) @ m"
    using p xr by (simp add: min_def)
  show "textDecodeFatal (take ?n (drop 1 p)) = Inr name" "valid_name name"
    using assms by (auto simp: decodeCircuitCreate_def Let_def wire_limits split: if_splits sum.splits)
qed

definition BOM :: bytes where "BOM = [0xEF, 0xBB, 0xBF]"

lemma textDecodeFatal_bom: "ascii s \<Longrightarrow> textDecodeFatal (BOM @ map word_of_nat s) = Inr s"
proof -
  assume a: "ascii s"
  have sc: "\<And>c. c \<in> set (0xFEFF # s) \<Longrightarrow> is_scalar c" using a by (auto simp: ascii_def is_scalar_def list_all_iff)
  have "BOM @ map word_of_nat s = utf8 (0xFEFF # s)"
    using textEncode_ascii [OF a] ascii_usv [OF a] by (simp add: textEncode_def BOM_def utf8_char_def)
  then have "u8_run Ground (BOM @ map word_of_nat s) = map Some (0xFEFF # s)"
    by (simp only: u8_run_encode [OF sc])
  moreover have "concat (map utf16 s) = s"
    using a by (induction s) (auto simp: ascii_def utf16_def)
  ultimately show ?thesis by (auto simp: textDecodeFatal_def strip_bom_def comp_def)
qed

lemma textDecodeFatal_name:
  "valid_name name \<Longrightarrow> textDecodeFatal nb = Inr name \<longleftrightarrow> nb = map word_of_nat name \<or> nb = BOM @ map word_of_nat name"
  using textDecodeFatal_to_ascii [of nb name] textDecodeFatal_ascii [of name] textDecodeFatal_bom [of name]
    textEncode_ascii [of name] valid_name_ascii [of name]
  by (auto simp: BOM_def)

section \<open>Every fixed-format payload is a canonical codec\<close>

interpretation create_codec: wire_decoder "\<lambda>_. True" "\<lambda>(name, m). encodeCircuitCreate name m" decodeCircuitCreate
proof unfold_locales
  fix x w assume "(case x of (name, m) \<Rightarrow> encodeCircuitCreate name m) = Inr w"
  then obtain name m where x: "x = (name, m)" and ok: "valid_name name" "length m = 48"
    and w: "w = word_of_nat (length name) # map word_of_nat name @ m"
    by (cases x) (auto simp: encodeCircuitCreate_eq split: if_splits)
  have "textDecodeFatal (map word_of_nat name) = Inr name" using ok(1) by (simp add: textDecodeFatal_name)
  with decodeCircuitCreate_text [of "map word_of_nat name" m] valid_name_length [OF ok(1)] ok w x
  show "decodeCircuitCreate w = Inr x" by simp
qed

interpretation destroy_codec: canonical_codec "\<lambda>_. True" encodeDestroy decodeDestroy
proof unfold_locales
  fix x w
  show "decodeDestroy w = Inr x" if "encodeDestroy x = Inr w"
  proof -
    have "isInteger x" using that by (simp add: encodeDestroy_def split: if_splits)
    then obtain i where "x = js_int i" by (rule isInteger_obtain)
    with that show ?thesis
      by (auto simp: encodeDestroy_def decodeDestroy_def get_uint_def split: if_splits)
  qed
  show "encodeDestroy x = Inr w" if "decodeDestroy w = Inr x"
    using that be_nat_less [of w] be_bytes_be_nat [of w 2]
    by (auto simp: encodeDestroy_def decodeDestroy_def get_uint_def split: if_splits)
qed simp_all

interpretation hello_codec: canonical_codec "\<lambda>_. True" encodeRelayHello decodeRelayHello
  by unfold_locales (auto simp: encodeRelayHello_def decodeRelayHello_def split: if_splits)

interpretation hello_ack_codec: canonical_codec "\<lambda>_. True" "\<lambda>(k, s). encodeRelayHelloAck k s" decodeRelayHelloAck
  by unfold_locales
     (auto simp: encodeRelayHelloAck_def decodeRelayHelloAck_def RELAY_HELLO_ACK_SIZE_def split: if_splits)

lemma out_of_range_js_int [simp]: "out_of_range (js_int i) lo hi \<longleftrightarrow> i < lo \<or> hi < i"
  by (auto simp: out_of_range_def)

lemma in_range_obtain:
  assumes "\<not> out_of_range n lo hi"
  obtains i where "n = js_int i" "lo \<le> i" "i \<le> hi"
  using assms isInteger_iff [of n] that [of "int_of n"] by (auto simp: out_of_range_def not_less)

lemma stream_decode_encode:
  assumes "encodeStreamMessage m = Inr p"
  shows "decodeStreamMessage p = Inr m \<and> length p \<le> MAX_SEALED_PLAINTEXT"
  using assms
  by (cases m)
     (auto simp: decodeStreamMessage_def StreamMessageType get_uint_def MAX_STREAM_DATA_def wire_limits
       split: if_splits elim!: in_range_obtain)

lemma get_uint_less: "get_uint n p i < 256 ^ n"
proof -
  have "be_nat (take n (drop i p)) < 256 ^ length (take n (drop i p))" by (rule be_nat_less)
  also have "\<dots> \<le> 256 ^ n" by (rule power_increasing) auto
  finally show ?thesis by (simp add: get_uint_def)
qed

lemma stream_encode_decode:
  assumes "decodeStreamMessage p = Inr m" and "length p \<le> MAX_SEALED_PLAINTEXT"
  shows "encodeStreamMessage m = Inr p"
proof -
  obtain x r where p: "p = x # r" using assms(1) by (cases p) (auto simp: decodeStreamMessage_def)
  have "get_uint 2 p 1 < 65536" "get_uint 4 p 1 < 4294967296"
    using get_uint_less [of 2 p 1] get_uint_less [of 4 p 1] by auto
  then show ?thesis
    using assms p
    by (auto simp: decodeStreamMessage_def Let_def get_uint_def MAX_STREAM_DATA_def wire_limits
        StreamMessageType split: if_splits dest!: byte_eqI)
qed

section \<open>Properties\<close>

text \<open>
  Stream messages. On every plaintext a sealed record can carry, the decoder accepts
  exactly what the encoder produces and inverts it: each type has one exact length, zero
  ports and zero credits do not exist, and no two plaintexts mean the same message.
\<close>

theorem stream_message_canonical:
  "encodeStreamMessage m = Inr p \<longleftrightarrow> decodeStreamMessage p = Inr m \<and> length p \<le> MAX_SEALED_PLAINTEXT"
  using stream_decode_encode stream_encode_decode by blast

text \<open>
  The routing prefix of CIRCUIT_CREATE. The decoder returns a name and handshake message
  exactly for the encoder's output and for one more spelling of it, in which the name
  is preceded by a byte order mark that \<^verbatim>\<open>TextDecoder\<close> drops.
\<close>

theorem circuit_create_spellings:
  "decodeCircuitCreate p = Inr (name, m) \<longleftrightarrow>
     encodeCircuitCreate name m = Inr p \<or>
     isCanonicalName name \<and> length name \<le> 252 \<and> length m = HANDSHAKE_MESSAGE_SIZE \<and>
     p = word_of_nat (3 + length name) # [0xEF, 0xBB, 0xBF] @ textEncode name @ m"
proof
  assume "decodeCircuitCreate p = Inr (name, m)"
  then obtain nb where p: "p = word_of_nat (length nb) # nb @ m" "length nb < 256" "length m = 48"
    and n: "textDecodeFatal nb = Inr name" "valid_name name" by (rule decodeCircuitCreate_split)
  with textDecodeFatal_name [of name nb] textEncode_ascii [OF valid_name_ascii [OF n(2)]]
  show "encodeCircuitCreate name m = Inr p \<or>
     isCanonicalName name \<and> length name \<le> 252 \<and> length m = HANDSHAKE_MESSAGE_SIZE \<and>
     p = word_of_nat (3 + length name) # [0xEF, 0xBB, 0xBF] @ textEncode name @ m"
    by (auto simp: encodeCircuitCreate_eq BOM_def wire_limits)
next
  assume "encodeCircuitCreate name m = Inr p \<or>
     isCanonicalName name \<and> length name \<le> 252 \<and> length m = HANDSHAKE_MESSAGE_SIZE \<and>
     p = word_of_nat (3 + length name) # [0xEF, 0xBB, 0xBF] @ textEncode name @ m"
  then show "decodeCircuitCreate p = Inr (name, m)"
  proof
    assume "encodeCircuitCreate name m = Inr p"
    then show ?thesis using create_codec.decode_encode [of "(name, m)" p] by simp
  next
    assume a: "isCanonicalName name \<and> length name \<le> 252 \<and> length m = HANDSHAKE_MESSAGE_SIZE \<and>
      p = word_of_nat (3 + length name) # [0xEF, 0xBB, 0xBF] @ textEncode name @ m"
    then have v: "valid_name name" by simp
    then have p: "p = word_of_nat (length (BOM @ map word_of_nat name)) # (BOM @ map word_of_nat name) @ m"
      using a textEncode_ascii [OF valid_name_ascii [OF v]] by (simp add: BOM_def)
    show ?thesis
      unfolding p using a v textDecodeFatal_name [OF v, of "BOM @ map word_of_nat name"]
      by (subst decodeCircuitCreate_text) (simp_all add: BOM_def wire_limits)
  qed
qed

text \<open>
  The relay's HELLO_ACK and the CIRCUIT_DESTROY reason: decoding accepts exactly the
  encoder's outputs, so a key, a signature or a reason has one payload.
\<close>

theorem control_payloads_canonical:
  "(decodeRelayHelloAck p = Inr (k, s) \<longleftrightarrow> encodeRelayHelloAck k s = Inr p) \<and>
   (decodeDestroy p = Inr r \<longleftrightarrow> encodeDestroy r = Inr p) \<and>
   (decodeRelayHello p = Inr n \<longleftrightarrow> encodeRelayHello n = Inr p)"
  using hello_ack_codec.decode_iff [of p "(k, s)"] destroy_codec.decode_iff [of p r] hello_codec.decode_iff [of p n]
  by simp

end
