(* ===== verification/Flow_Control.thy ===== *)
theory Flow_Control
  imports Wire_Constants
begin

text \<open>
  \<^verbatim>\<open>packages/protocol/src/flow-control.ts\<close>: one credit window, the pair of a stream's window
  with its circuit's, and all the streams of one circuit, which share its window. The
  interface \<open>credit_window\<close> states what a window promises a sender; a single window and a
  stream paired with its circuit both provide it.
\<close>

definition MAX_WINDOW_CREDIT :: int where
  "MAX_WINDOW_CREDIT = 0xffffffff"

definition assertCredit :: "js_number \<Rightarrow> unit result" where
  "assertCredit n = (if \<not> isInteger n \<or> js_less n (js_int 0) \<or> js_less (js_int MAX_WINDOW_CREDIT) n
     then Inl RangeError else Inr ())"

section \<open>FlowWindow\<close>

record flow_window =
  fw_available :: int
  fw_initial :: int

definition FlowWindow :: "js_number \<Rightarrow> flow_window result" where
  "FlowWindow initial = rbind (assertCredit initial) (\<lambda>_.
     if initial = js_int 0 then Inl RangeError
     else Inr \<lparr>fw_available = int_of initial, fw_initial = int_of initial\<rparr>)"

definition remaining :: "flow_window \<Rightarrow> int" where
  "remaining w = fw_available w"

definition exhausted :: "flow_window \<Rightarrow> bool" where
  "exhausted w \<longleftrightarrow> fw_available w = 0"

definition fw_consume :: "flow_window \<Rightarrow> js_number \<Rightarrow> (bool \<times> flow_window) result" where
  "fw_consume w n = rbind (assertCredit n) (\<lambda>_.
     if js_less (js_int (fw_available w)) n then Inr (False, w)
     else Inr (True, w\<lparr>fw_available := fw_available w - int_of n\<rparr>))"

definition fw_grant :: "flow_window \<Rightarrow> js_number \<Rightarrow> flow_window result" where
  "fw_grant w n = rbind (assertCredit n) (\<lambda>_.
     Inr (w\<lparr>fw_available := (if int_of n \<ge> fw_initial w - fw_available w then fw_initial w
                            else fw_available w + int_of n)\<rparr>))"

definition fw_reset :: "flow_window \<Rightarrow> flow_window" where
  "fw_reset w = w\<lparr>fw_available := fw_initial w\<rparr>"

section \<open>StreamFlow\<close>

record stream_flow =
  sf_stream :: flow_window
  sf_circuit :: flow_window

definition StreamFlow :: "flow_window \<Rightarrow> js_number option \<Rightarrow> stream_flow result" where
  "StreamFlow circuit streamWindow =
     rbind (FlowWindow (nullish streamWindow (js_int STREAM_WINDOW_INITIAL)))
       (\<lambda>w. Inr \<lparr>sf_stream = w, sf_circuit = circuit\<rparr>)"

definition sendable :: "stream_flow \<Rightarrow> int" where
  "sendable f = min (remaining (sf_stream f)) (remaining (sf_circuit f))"

definition sf_consume :: "stream_flow \<Rightarrow> js_number \<Rightarrow> (bool \<times> stream_flow) result" where
  "sf_consume f n = rbind (assertCredit n) (\<lambda>_.
     if js_less (js_int (sendable f)) n then Inr (False, f)
     else rbind (fw_consume (sf_stream f) n) (\<lambda>(_, s).
          rbind (fw_consume (sf_circuit f) n) (\<lambda>(_, c).
            Inr (True, \<lparr>sf_stream = s, sf_circuit = c\<rparr>))))"

definition sf_grant :: "stream_flow \<Rightarrow> js_number \<Rightarrow> stream_flow result" where
  "sf_grant f n = rbind (assertCredit n) (\<lambda>_.
     rbind (fw_grant (sf_stream f) n) (\<lambda>s.
     rbind (fw_grant (sf_circuit f) n) (\<lambda>c.
       Inr \<lparr>sf_stream = s, sf_circuit = c\<rparr>)))"

definition createCircuitWindow :: "js_number option \<Rightarrow> flow_window result" where
  "createCircuitWindow sz = FlowWindow (nullish sz (js_int CIRCUIT_WINDOW_INITIAL))"

section \<open>The streams of one circuit\<close>

text \<open>
  Every \<^verbatim>\<open>StreamFlow\<close> of a circuit holds a reference to the same circuit window. The state
  keeps that window once and the streams' own windows by position; a call on the stream
  at position \<open>i\<close> reads and writes the shared window. An operation that throws
  leaves the state as it was.
\<close>

record circuit_flow =
  cf_circuit :: flow_window
  cf_streams :: "flow_window list"

datatype flow_op =
    Open "js_number option"
  | Consume nat js_number
  | Grant nat js_number

definition view_stream :: "circuit_flow \<Rightarrow> nat \<Rightarrow> stream_flow" where
  "view_stream c i = \<lparr>sf_stream = cf_streams c ! i, sf_circuit = cf_circuit c\<rparr>"

definition put_stream :: "circuit_flow \<Rightarrow> nat \<Rightarrow> stream_flow \<Rightarrow> circuit_flow" where
  "put_stream c i f = \<lparr>cf_circuit = sf_circuit f, cf_streams = (cf_streams c)[i := sf_stream f]\<rparr>"

text \<open>One call, with the number of bytes it let the sender put on the wire.\<close>

fun flow_step :: "circuit_flow \<Rightarrow> flow_op \<Rightarrow> int \<times> circuit_flow" where
  "flow_step c (Open sz) = (case StreamFlow (cf_circuit c) sz of
     Inl _ \<Rightarrow> (0, c)
   | Inr f \<Rightarrow> (0, c\<lparr>cf_streams := cf_streams c @ [sf_stream f]\<rparr>))"
| "flow_step c (Consume i n) =
     (if i < length (cf_streams c)
      then (case sf_consume (view_stream c i) n of
              Inl _ \<Rightarrow> (0, c)
            | Inr (ok, f) \<Rightarrow> (if ok then int_of n else 0, put_stream c i f))
      else (0, c))"
| "flow_step c (Grant i n) =
     (if i < length (cf_streams c)
      then (case sf_grant (view_stream c i) n of
              Inl _ \<Rightarrow> (0, c)
            | Inr f \<Rightarrow> (0, put_stream c i f))
      else (0, c))"

fun flow_run :: "circuit_flow \<Rightarrow> flow_op list \<Rightarrow> int \<times> circuit_flow" where
  "flow_run c [] = (0, c)"
| "flow_run c (x # xs) =
     (let (sent, c') = flow_step c x; (sent', c'') = flow_run c' xs in (sent + sent', c''))"

section \<open>The contract of a window\<close>

definition valid_credit :: "js_number \<Rightarrow> bool" where
  "valid_credit n \<longleftrightarrow> isInteger n \<and> 0 \<le> int_of n \<and> int_of n \<le> MAX_WINDOW_CREDIT"

lemma assertCredit_eq [simp]: "assertCredit n = guard (valid_credit n) RangeError"
  by (auto simp: assertCredit_def valid_credit_def guard_def)

locale credit_window =
  fixes inv :: "'w \<Rightarrow> bool"
    and credit :: "'w \<Rightarrow> int"
    and capacity :: "'w \<Rightarrow> int"
    and consume :: "'w \<Rightarrow> js_number \<Rightarrow> (bool \<times> 'w) result"
    and grant :: "'w \<Rightarrow> js_number \<Rightarrow> 'w result"
  assumes bounds: "inv w \<Longrightarrow> 0 \<le> credit w \<and> credit w \<le> capacity w"
    and consume_invalid: "\<not> valid_credit n \<Longrightarrow> consume w n = Inl RangeError"
    and consume_refused: "inv w \<Longrightarrow> valid_credit n \<Longrightarrow> credit w < int_of n \<Longrightarrow> consume w n = Inr (False, w)"
    and consume_taken: "inv w \<Longrightarrow> valid_credit n \<Longrightarrow> int_of n \<le> credit w \<Longrightarrow>
      \<exists>w'. consume w n = Inr (True, w') \<and> inv w' \<and> credit w' = credit w - int_of n \<and> capacity w' = capacity w"
    and grant_invalid: "\<not> valid_credit n \<Longrightarrow> grant w n = Inl RangeError"
    and grant_clamped: "inv w \<Longrightarrow> valid_credit n \<Longrightarrow>
      \<exists>w'. grant w n = Inr w' \<and> inv w' \<and> credit w' = min (capacity w) (credit w + int_of n) \<and> capacity w' = capacity w"
begin

lemma consume_cases:
  assumes "inv w" "consume w n = Inr (ok, w')"
  shows "valid_credit n" "inv w'" "capacity w' = capacity w"
    "ok \<longleftrightarrow> int_of n \<le> credit w" "credit w' = credit w - (if ok then int_of n else 0)"
proof -
  show valid: "valid_credit n" using assms(2) consume_invalid by fastforce
  have "inv w' \<and> capacity w' = capacity w \<and> (ok \<longleftrightarrow> int_of n \<le> credit w) \<and>
      credit w' = credit w - (if ok then int_of n else 0)"
    using assms consume_taken [OF assms(1) valid] consume_refused [OF assms(1) valid]
    by (cases "int_of n \<le> credit w") auto
  then show "inv w'" "capacity w' = capacity w" "ok \<longleftrightarrow> int_of n \<le> credit w"
    "credit w' = credit w - (if ok then int_of n else 0)" by simp_all
qed

lemma grant_cases:
  assumes "inv w" "grant w n = Inr w'"
  shows "valid_credit n" "inv w'" "capacity w' = capacity w"
    "credit w' = min (capacity w) (credit w + int_of n)"
proof -
  show valid: "valid_credit n" using assms(2) grant_invalid by fastforce
  from grant_clamped [OF assms(1) this] assms(2)
  show "inv w'" "capacity w' = capacity w" "credit w' = min (capacity w) (credit w + int_of n)" by auto
qed

text \<open>
  A sender that alternates calls in any order has never put more on the wire than the
  window and the credit it was granted, and never holds more than the window.
\<close>

definition call :: "'w \<Rightarrow> bool \<times> js_number \<Rightarrow> int \<times> int \<times> 'w" where
  "call w x = (case x of
     (True, n) \<Rightarrow> (case grant w n of Inl _ \<Rightarrow> (0, 0, w) | Inr w' \<Rightarrow> (0, int_of n, w'))
   | (False, n) \<Rightarrow> (case consume w n of Inl _ \<Rightarrow> (0, 0, w)
                   | Inr (ok, w') \<Rightarrow> (if ok then int_of n else 0, 0, w')))"

fun run :: "'w \<Rightarrow> (bool \<times> js_number) list \<Rightarrow> int \<times> int \<times> 'w" where
  "run w [] = (0, 0, w)"
| "run w (x # xs) = (let (s, g, w') = call w x; (s', g', v) = run w' xs in (s + s', g + g', v))"

lemma call_bounded:
  assumes "inv w" "call w x = (s, g, v)"
  shows "inv v \<and> capacity v = capacity w \<and> s + credit v \<le> credit w + g"
proof (cases x)
  case (Pair is_grant n)
  show ?thesis
  proof (cases is_grant)
    case True
    show ?thesis
    proof (cases "grant w n")
      case (Inr w')
      from grant_cases [OF assms(1) this] assms(2) True Pair Inr show ?thesis by (simp add: call_def)
    qed (use assms True Pair in \<open>simp add: call_def\<close>)
  next
    case False
    show ?thesis
    proof (cases "consume w n")
      case (Inr p)
      then obtain ok w' where "consume w n = Inr (ok, w')" by (cases p) auto
      from consume_cases [OF assms(1) this] this assms(2) False Pair show ?thesis
        by (auto simp: call_def)
    qed (use assms False Pair in \<open>simp add: call_def\<close>)
  qed
qed

lemma run_bounded:
  assumes "inv w" "run w xs = (s, g, v)"
  shows "inv v \<and> capacity v = capacity w \<and> s + credit v \<le> credit w + g"
  using assms
proof (induction xs arbitrary: w s g)
  case (Cons x xs)
  obtain s1 g1 w' where c: "call w x = (s1, g1, w')" by (metis prod_cases3)
  obtain s2 g2 v' where r: "run w' xs = (s2, g2, v')" by (metis prod_cases3)
  from call_bounded [OF Cons.prems(1) c] Cons.IH [of w' s2 g2] r c Cons.prems(2) show ?case by auto
qed simp

end

section \<open>Both windows provide it\<close>

definition wf_window :: "flow_window \<Rightarrow> bool" where
  "wf_window w \<longleftrightarrow> 0 \<le> fw_available w \<and> fw_available w \<le> fw_initial w"

definition wf_stream_flow :: "stream_flow \<Rightarrow> bool" where
  "wf_stream_flow f \<longleftrightarrow> wf_window (sf_stream f) \<and> wf_window (sf_circuit f)"

lemma js_less_credit [simp]: "valid_credit n \<Longrightarrow> js_less (js_int k) n \<longleftrightarrow> k < int_of n"
  by (simp add: valid_credit_def)

lemma valid_credit_nonneg [simp]: "valid_credit n \<Longrightarrow> 0 \<le> int_of n"
  by (simp add: valid_credit_def)

lemma fw_consume_eq:
  "fw_consume w n = (if \<not> valid_credit n then Inl RangeError
     else if fw_available w < int_of n then Inr (False, w)
     else Inr (True, w\<lparr>fw_available := fw_available w - int_of n\<rparr>))"
  by (simp add: fw_consume_def)

lemma fw_grant_eq:
  "fw_grant w n = (if \<not> valid_credit n then Inl RangeError
     else Inr (w\<lparr>fw_available := min (fw_initial w) (fw_available w + int_of n)\<rparr>))"
  by (simp add: fw_grant_def min_def)

interpretation window: credit_window wf_window remaining fw_initial fw_consume fw_grant
  by unfold_locales (auto simp: wf_window_def remaining_def fw_consume_eq fw_grant_eq dest: valid_credit_nonneg)

lemma sf_consume_eq:
  "sf_consume f n = (if \<not> valid_credit n then Inl RangeError
     else if sendable f < int_of n then Inr (False, f)
     else Inr (True, \<lparr>sf_stream = sf_stream f\<lparr>fw_available := fw_available (sf_stream f) - int_of n\<rparr>,
                      sf_circuit = sf_circuit f\<lparr>fw_available := fw_available (sf_circuit f) - int_of n\<rparr>\<rparr>))"
  by (auto simp: sf_consume_def fw_consume_eq sendable_def remaining_def)

lemma sf_grant_eq:
  "sf_grant f n = (if \<not> valid_credit n then Inl RangeError
     else Inr \<lparr>sf_stream = sf_stream f\<lparr>fw_available :=
                  min (fw_initial (sf_stream f)) (fw_available (sf_stream f) + int_of n)\<rparr>,
               sf_circuit = sf_circuit f\<lparr>fw_available :=
                  min (fw_initial (sf_circuit f)) (fw_available (sf_circuit f) + int_of n)\<rparr>\<rparr>)"
  by (simp add: sf_grant_def fw_grant_eq)

definition sf_capacity :: "stream_flow \<Rightarrow> int" where
  "sf_capacity f = min (fw_initial (sf_stream f)) (fw_initial (sf_circuit f))"

interpretation paired: credit_window wf_stream_flow sendable sf_capacity sf_consume sf_grant
  by unfold_locales
     (auto simp: wf_stream_flow_def wf_window_def sendable_def sf_capacity_def remaining_def
        sf_consume_eq sf_grant_eq dest: valid_credit_nonneg)

lemma FlowWindow_ok:
  "FlowWindow n = Inr w \<longleftrightarrow> valid_credit n \<and> 0 < int_of n \<and> w = \<lparr>fw_available = int_of n, fw_initial = int_of n\<rparr>"
proof (cases "isInteger n")
  case True
  then obtain i where "n = js_int i" by (rule isInteger_obtain)
  then show ?thesis by (auto simp: FlowWindow_def rbind_eq_Inr valid_credit_def)
qed (simp add: FlowWindow_def valid_credit_def)

section \<open>Bytes in flight on a circuit\<close>

text \<open>
  What a window has lent out, the invariant of a circuit, and the peers that acknowledge
  only bytes they received on that stream.
\<close>

definition in_flight :: "flow_window \<Rightarrow> int" where
  "in_flight w = fw_initial w - fw_available w"

definition wf_circuit_flow :: "circuit_flow \<Rightarrow> bool" where
  "wf_circuit_flow c \<longleftrightarrow> wf_window (cf_circuit c) \<and> (\<forall>w \<in> set (cf_streams c). wf_window w)"

fun honest_op :: "circuit_flow \<Rightarrow> flow_op \<Rightarrow> bool" where
  "honest_op c (Grant i n) = (i < length (cf_streams c) \<longrightarrow> int_of n \<le> in_flight (cf_streams c ! i))"
| "honest_op c _ = True"

fun honest_run :: "circuit_flow \<Rightarrow> flow_op list \<Rightarrow> bool" where
  "honest_run c [] = True"
| "honest_run c (x # xs) = (honest_op c x \<and> honest_run (snd (flow_step c x)) xs)"

definition streams_in_flight :: "circuit_flow \<Rightarrow> int" where
  "streams_in_flight c = sum_list (map in_flight (cf_streams c))"

lemma wf_view: "wf_circuit_flow c \<Longrightarrow> i < length (cf_streams c) \<Longrightarrow> wf_stream_flow (view_stream c i)"
  by (simp add: wf_circuit_flow_def wf_stream_flow_def view_stream_def)

lemma wf_put: "wf_circuit_flow c \<Longrightarrow> wf_stream_flow f \<Longrightarrow> wf_circuit_flow (put_stream c i f)"
  unfolding wf_circuit_flow_def wf_stream_flow_def put_stream_def
  by (auto dest!: set_update_subset_insert [THEN subsetD])

lemma wf_flow_step: "wf_circuit_flow c \<Longrightarrow> wf_circuit_flow (snd (flow_step c x))"
proof (induction c x rule: flow_step.induct)
  case (1 c sz)
  then show ?case
    by (auto simp: StreamFlow_def FlowWindow_ok rbind_eq_Inr wf_circuit_flow_def wf_window_def split: sum.splits)
next
  case (2 c i n)
  then show ?case using paired.consume_cases(2) [OF wf_view] by (auto intro: wf_put split: sum.splits)
next
  case (3 c i n)
  then show ?case using paired.grant_cases(2) [OF wf_view] by (auto intro: wf_put split: sum.splits)
qed

lemma sum_list_update_diff:
  "i < length ws \<Longrightarrow> sum_list (map g (ws[i := w])) = sum_list (map g ws) - g (ws ! i) + (g w :: int)"
  by (induction ws arbitrary: i) (auto split: nat.splits)

lemma in_flight_step:
  assumes wf: "wf_circuit_flow c" and honest: "honest_op c x" and step: "flow_step c x = (sent, c')"
    and eq: "streams_in_flight c = in_flight (cf_circuit c)"
  shows "streams_in_flight c' = in_flight (cf_circuit c') \<and> fw_initial (cf_circuit c') = fw_initial (cf_circuit c)"
proof (cases x)
  case (Open sz)
  then show ?thesis using step eq
    by (auto simp: StreamFlow_def FlowWindow_ok rbind_eq_Inr streams_in_flight_def in_flight_def split: sum.splits)
next
  case (Consume i n)
  then show ?thesis using step eq
    by (auto simp: sf_consume_eq streams_in_flight_def sum_list_update_diff in_flight_def view_stream_def put_stream_def
        split: if_splits sum.splits)
next
  case (Grant i n)
  show ?thesis
  proof (cases "i < length (cf_streams c) \<and> valid_credit n")
    case True
    let ?s = "cf_streams c ! i"
    have "in_flight w \<ge> 0" if "w \<in> set (cf_streams c)" for w
      using wf that by (auto simp: wf_circuit_flow_def wf_window_def in_flight_def)
    then have "in_flight ?s \<le> streams_in_flight c"
      unfolding streams_in_flight_def
      using True member_le_sum_list [of "in_flight ?s" "map in_flight (cf_streams c)"] by auto
    then show ?thesis using True Grant step eq honest
      by (auto simp: sf_grant_eq streams_in_flight_def sum_list_update_diff in_flight_def view_stream_def
          put_stream_def min_def
          split: if_splits)
  next
    case False
    then show ?thesis using Grant step eq by (auto simp: sf_grant_eq split: if_splits)
  qed
qed

lemma in_flight_run:
  assumes "wf_circuit_flow c" "honest_run c xs" "flow_run c xs = (sent, c')"
    "streams_in_flight c = in_flight (cf_circuit c)"
  shows "streams_in_flight c' = in_flight (cf_circuit c') \<and> wf_circuit_flow c' \<and>
    fw_initial (cf_circuit c') = fw_initial (cf_circuit c)"
  using assms
proof (induction xs arbitrary: c sent)
  case (Cons x xs)
  obtain s1 c1 where st: "flow_step c x = (s1, c1)" by (metis surj_pair)
  obtain s2 where r: "flow_run c1 xs = (s2, c')" using Cons.prems(3) st by (auto split: prod.splits)
  from in_flight_step [OF Cons.prems(1) _ st Cons.prems(4)] wf_flow_step [OF Cons.prems(1), of x]
    Cons.IH [OF _ _ r] Cons.prems(2) st show ?case by auto
qed simp

fun granted :: "flow_op \<Rightarrow> int" where
  "granted (Grant i n) = (if valid_credit n then int_of n else 0)"
| "granted _ = 0"

lemma circuit_credit_step:
  assumes "wf_circuit_flow c" "flow_step c x = (sent, c')"
  shows "sent + remaining (cf_circuit c') \<le> remaining (cf_circuit c) + granted x"
  using assms
  by (cases x)
     (auto simp: StreamFlow_def sf_consume_eq sf_grant_eq put_stream_def view_stream_def remaining_def
        split: if_splits sum.splits dest: valid_credit_nonneg)

section \<open>Properties\<close>

text \<open>
  Both windows or neither. A stream's \<^verbatim>\<open>consume\<close> throws on anything but an integer credit
  in range; otherwise it succeeds exactly when both windows cover the amount, and then
  both are debited by that same amount; a refusal changes nothing.
\<close>

theorem consume_both_or_neither:
  "sf_consume f n =
     (if \<not> (\<exists>i. n = js_int i \<and> 0 \<le> i \<and> i \<le> MAX_WINDOW_CREDIT) then Inl RangeError
      else if int_of n \<le> fw_available (sf_stream f) \<and> int_of n \<le> fw_available (sf_circuit f)
      then Inr (True,
        \<lparr>sf_stream = \<lparr>fw_available = fw_available (sf_stream f) - int_of n, fw_initial = fw_initial (sf_stream f)\<rparr>,
         sf_circuit = \<lparr>fw_available = fw_available (sf_circuit f) - int_of n, fw_initial = fw_initial (sf_circuit f)\<rparr>\<rparr>)
      else Inr (False, f))"
proof -
  have "valid_credit n \<longleftrightarrow> (\<exists>i. n = js_int i \<and> 0 \<le> i \<and> i \<le> MAX_WINDOW_CREDIT)"
    unfolding valid_credit_def by (metis isInteger_iff isInteger_js_int int_of_js_int)
  then show ?thesis by (auto simp: sf_consume_eq sendable_def remaining_def)
qed

text \<open>
  The window invariant and the circuit as a ceiling on sending. Along every sequence of
  openings, sends and grants on the streams of a circuit, malformed amounts included, every
  window keeps \<open>0 \<le> available \<le> initial\<close>, and the bytes sent over all streams never exceed the
  credit the circuit had plus what the peer granted.
\<close>

theorem circuit_sent_bounded:
  assumes "wf_circuit_flow c" and "flow_run c xs = (sent, c')"
  shows "wf_circuit_flow c' \<and> sent + remaining (cf_circuit c') \<le> remaining (cf_circuit c) + sum_list (map granted xs)"
  using assms
proof (induction xs arbitrary: c sent)
  case (Cons x xs)
  obtain s1 c1 where st: "flow_step c x = (s1, c1)" by (metis surj_pair)
  obtain s2 where r: "flow_run c1 xs = (s2, c')" "sent = s1 + s2"
    using Cons.prems(2) st by (auto split: prod.splits)
  from circuit_credit_step [OF Cons.prems(1) st] wf_flow_step [OF Cons.prems(1), of x] Cons.IH [OF _ r(1)] st r(2)
  show ?case by auto
qed simp

theorem circuit_sent_bounded_witness:
  "\<exists>sent c'. flow_run \<lparr>cf_circuit = \<lparr>fw_available = 10, fw_initial = 10\<rparr>, cf_streams = []\<rparr>
      [Open (Some (js_int 8)), Consume 0 (js_int 5), Consume 0 NaN, Grant 0 (js_int 2)] = (sent, c') \<and>
    wf_circuit_flow c' \<and> sent + remaining (cf_circuit c') \<le> 12"
proof -
  let ?c = "\<lparr>cf_circuit = \<lparr>fw_available = 10, fw_initial = 10\<rparr>, cf_streams = []\<rparr> :: circuit_flow"
    and ?xs = "[Open (Some (js_int 8)), Consume 0 (js_int 5), Consume 0 NaN, Grant 0 (js_int 2)]"
  have wf: "wf_circuit_flow ?c" by (simp add: wf_circuit_flow_def wf_window_def)
  obtain sent c' where r: "flow_run ?c ?xs = (sent, c')" by (metis surj_pair)
  from circuit_sent_bounded [OF wf r] r show ?thesis
    by (auto simp: remaining_def valid_credit_def MAX_WINDOW_CREDIT_def simp del: flow_run.simps)
qed

text \<open>
  The circuit window is the ceiling across its streams. On a circuit made by
  \<^verbatim>\<open>createCircuitWindow\<close>, as long as the peer grants on a stream no more than that stream has
  unacknowledged, the bytes in flight on all streams together are exactly what
  the circuit window lent out, and so at most its initial size.
\<close>

theorem honest_circuit_ceiling:
  assumes "createCircuitWindow sz = Inr w"
    and "honest_run \<lparr>cf_circuit = w, cf_streams = []\<rparr> xs"
    and "flow_run \<lparr>cf_circuit = w, cf_streams = []\<rparr> xs = (sent, c')"
  shows "streams_in_flight c' = fw_initial w - remaining (cf_circuit c') \<and> streams_in_flight c' \<le> fw_initial w"
proof -
  let ?c = "\<lparr>cf_circuit = w, cf_streams = []\<rparr> :: circuit_flow"
  have "wf_circuit_flow ?c" "streams_in_flight ?c = in_flight (cf_circuit ?c)"
    using assms(1) by (auto simp: createCircuitWindow_def FlowWindow_ok wf_circuit_flow_def wf_window_def
        streams_in_flight_def in_flight_def)
  from in_flight_run [OF this(1) assms(2,3) this(2)]
  show ?thesis by (auto simp: in_flight_def remaining_def wf_circuit_flow_def wf_window_def)
qed

theorem honest_circuit_ceiling_witness:
  "\<exists>sent c'. flow_run \<lparr>cf_circuit = \<lparr>fw_available = 10, fw_initial = 10\<rparr>, cf_streams = []\<rparr>
      [Open (Some (js_int 8)), Consume 0 (js_int 5), Grant 0 (js_int 3)] = (sent, c') \<and>
    streams_in_flight c' \<le> 10"
proof -
  let ?w = "\<lparr>fw_available = 10, fw_initial = 10\<rparr> :: flow_window"
  let ?c = "\<lparr>cf_circuit = ?w, cf_streams = []\<rparr> :: circuit_flow"
    and ?xs = "[Open (Some (js_int 8)), Consume 0 (js_int 5), Grant 0 (js_int 3)]"
  have w: "createCircuitWindow (Some (js_int 10)) = Inr ?w"
    by (simp add: createCircuitWindow_def FlowWindow_ok valid_credit_def MAX_WINDOW_CREDIT_def)
  have honest: "honest_run ?c ?xs"
    by (simp add: StreamFlow_def FlowWindow_def sf_consume_eq valid_credit_def MAX_WINDOW_CREDIT_def
        view_stream_def put_stream_def in_flight_def sendable_def remaining_def)
  obtain sent c' where r: "flow_run ?c ?xs = (sent, c')" by (metis surj_pair)
  from honest_circuit_ceiling [OF w honest r] r show ?thesis by auto
qed

text \<open>
  Without that restriction the ceiling can be passed: a grant on an idle stream is clamped
  for the stream but restores credit of the circuit that another stream still has in
  flight.
\<close>

lemma over_grant_passes_ceiling:
  "\<exists>c'. flow_run \<lparr>cf_circuit = \<lparr>fw_available = 10, fw_initial = 10\<rparr>, cf_streams = []\<rparr>
      [Open (Some (js_int 8)), Open (Some (js_int 8)), Consume 0 (js_int 8), Grant 1 (js_int 8), Consume 1 (js_int 8)]
      = (16, c') \<and> streams_in_flight c' = 16 \<and> fw_initial (cf_circuit c') = 10"
  by (simp add: StreamFlow_def FlowWindow_def sf_consume_eq sf_grant_eq valid_credit_def MAX_WINDOW_CREDIT_def
        view_stream_def put_stream_def in_flight_def sendable_def remaining_def streams_in_flight_def)

end
