(* ===== verification/Circuit_Id.thy ===== *)
theory Circuit_Id
  imports Wire_Constants
begin

text \<open>
  \<^verbatim>\<open>packages/protocol/src/circuit-id.ts\<close>: random identifiers that are never the reserved
  zero, and the table of one connection's circuits. The random source is an
  argument: the list of the draws \<^verbatim>\<open>getRandomValues\<close> will deliver.
\<close>

definition RESERVED_CIRCUIT_ID :: nat where "RESERVED_CIRCUIT_ID = 0"
definition RESERVED_STREAM_ID :: nat where "RESERVED_STREAM_ID = 0"

definition id_of_bytes :: "bytes \<Rightarrow> nat" where
  "id_of_bytes bs = fold (\<lambda>b i. push_bit 8 i OR unat b) bs 0"

fun generateCircuitId :: "bytes list \<Rightarrow> (nat \<times> bytes list) option" where
  "generateCircuitId [] = None"
| "generateCircuitId (draw # rest) =
     (let i = id_of_bytes draw in
      if i \<noteq> RESERVED_CIRCUIT_ID then Some (i, rest) else generateCircuitId rest)"

fun generateStreamId :: "32 word list \<Rightarrow> (nat \<times> 32 word list) option" where
  "generateStreamId [] = None"
| "generateStreamId (draw # rest) =
     (if unat draw \<noteq> RESERVED_STREAM_ID then Some (unat draw, rest) else generateStreamId rest)"

section \<open>CircuitTable\<close>

text \<open>
  The entries of the \<^verbatim>\<open>Map\<close> in insertion order. The values are objects, so the truth test
  of \<^verbatim>\<open>delete\<close> asks only whether the entry exists.
\<close>

record 'a circuit_table =
  ct_circuits :: "(nat \<times> 'a) list"
  ct_max :: nat

definition CircuitTable :: "nat \<Rightarrow> 'a circuit_table" where
  "CircuitTable maxCircuits = \<lparr>ct_circuits = [], ct_max = maxCircuits\<rparr>"

definition ct_size :: "'a circuit_table \<Rightarrow> nat" where
  "ct_size t = length (ct_circuits t)"

definition atCapacity :: "'a circuit_table \<Rightarrow> bool" where
  "atCapacity t \<longleftrightarrow> ct_size t \<ge> ct_max t"

definition ct_get :: "'a circuit_table \<Rightarrow> nat \<Rightarrow> 'a option" where
  "ct_get t cid = map_of (ct_circuits t) cid"

definition ct_has :: "'a circuit_table \<Rightarrow> nat \<Rightarrow> bool" where
  "ct_has t cid \<longleftrightarrow> cid \<in> fst ` set (ct_circuits t)"

definition ct_add :: "'a circuit_table \<Rightarrow> nat \<Rightarrow> 'a \<Rightarrow> bool \<times> 'a circuit_table" where
  "ct_add t cid c =
     (if cid = RESERVED_CIRCUIT_ID then (False, t)
      else if ct_has t cid then (False, t)
      else if atCapacity t then (False, t)
      else (True, t\<lparr>ct_circuits := AList.update cid c (ct_circuits t)\<rparr>))"

definition ct_delete :: "'a circuit_table \<Rightarrow> nat \<Rightarrow> 'a option \<times> 'a circuit_table" where
  "ct_delete t cid = (case ct_get t cid of
     None \<Rightarrow> (None, t)
   | Some c \<Rightarrow> (Some c, t\<lparr>ct_circuits := AList.delete cid (ct_circuits t)\<rparr>))"

definition ct_drain :: "'a circuit_table \<Rightarrow> 'a list \<times> 'a circuit_table" where
  "ct_drain t = (map snd (ct_circuits t), t\<lparr>ct_circuits := []\<rparr>)"

definition ct_entries :: "'a circuit_table \<Rightarrow> (nat \<times> 'a) list" where
  "ct_entries t = ct_circuits t"

definition ct_inv :: "'a circuit_table \<Rightarrow> bool" where
  "ct_inv t \<longleftrightarrow> distinct (map fst (ct_circuits t)) \<and> RESERVED_CIRCUIT_ID \<notin> fst ` set (ct_circuits t) \<and>
     ct_size t \<le> ct_max t"

section \<open>The contract of a bounded table\<close>

text \<open>
  What a connection relies on: an insertion is refused rather than displacing an entry or
  passing the bound, and an insertion or deletion touches no other key.
\<close>

locale bounded_table =
  fixes inv :: "'t \<Rightarrow> bool"
    and lookup :: "'t \<Rightarrow> nat \<Rightarrow> 'a option"
    and used :: "'t \<Rightarrow> nat"
    and bound :: "'t \<Rightarrow> nat"
    and add :: "'t \<Rightarrow> nat \<Rightarrow> 'a \<Rightarrow> bool \<times> 't"
    and del :: "'t \<Rightarrow> nat \<Rightarrow> 'a option \<times> 't"
  assumes used_card: "inv t \<Longrightarrow> used t = card (dom (lookup t)) \<and> finite (dom (lookup t))"
    and used_bound: "inv t \<Longrightarrow> used t \<le> bound t"
    and reserved_free: "inv t \<Longrightarrow> lookup t 0 = None"
    and add_refused: "inv t \<Longrightarrow> k = 0 \<or> lookup t k \<noteq> None \<or> bound t \<le> used t \<Longrightarrow> add t k v = (False, t)"
    and add_taken: "inv t \<Longrightarrow> k \<noteq> 0 \<Longrightarrow> lookup t k = None \<Longrightarrow> used t < bound t \<Longrightarrow>
      \<exists>t'. add t k v = (True, t') \<and> inv t' \<and> lookup t' = (lookup t)(k \<mapsto> v) \<and> bound t' = bound t"
    and del_result: "inv t \<Longrightarrow>
      \<exists>t'. del t k = (lookup t k, t') \<and> inv t' \<and> lookup t' = (lookup t)(k := None) \<and> bound t' = bound t"
begin

lemma add_cases:
  assumes "inv t" "add t k v = (ok, t')"
  obtains (refused) "\<not> ok" "t' = t" "k = 0 \<or> lookup t k \<noteq> None \<or> bound t \<le> used t"
  | (taken) "ok" "k \<noteq> 0" "lookup t k = None" "used t < bound t" "inv t'" "lookup t' = (lookup t)(k \<mapsto> v)"
      "bound t' = bound t" "used t' = Suc (used t)"
proof (cases "k = 0 \<or> lookup t k \<noteq> None \<or> bound t \<le> used t")
  case True
  with add_refused [OF assms(1) True, of v] assms(2) refused show thesis by simp
next
  case False
  then have free: "k \<noteq> 0" "lookup t k = None" "used t < bound t" by auto
  from add_taken [OF assms(1) this, of v] assms(2)
  have t': "ok" "inv t'" "lookup t' = (lookup t)(k \<mapsto> v)" "bound t' = bound t" by auto
  moreover have "used t' = Suc (used t)"
    using used_card [OF assms(1)] used_card [OF t'(2)] t'(3) free(2)
    by (simp add: card_insert_if domIff)
  ultimately show thesis using taken free by blast
qed

text \<open>No sequence of insertions changes an entry that is there.\<close>

fun add_all :: "'t \<Rightarrow> (nat \<times> 'a) list \<Rightarrow> 't" where
  "add_all t [] = t"
| "add_all t ((k, v) # xs) = add_all (snd (add t k v)) xs"

lemma add_all_keeps:
  "inv t \<Longrightarrow> inv (add_all t xs) \<and> bound (add_all t xs) = bound t \<and> lookup t \<subseteq>\<^sub>m lookup (add_all t xs)"
proof (induction t xs rule: add_all.induct)
  case (2 t k v xs)
  obtain ok t' where a: "add t k v = (ok, t')" by (metis surj_pair)
  from \<open>inv t\<close> a show ?case
  proof (cases rule: add_cases)
    case refused
    with 2 a show ?thesis by simp
  next
    case taken
    then have "lookup t \<subseteq>\<^sub>m lookup t'" by (auto simp: map_le_def)
    with 2 a taken(5,7) show ?thesis using map_le_trans by fastforce
  qed
qed simp

end

lemma has_iff_get [simp]: "ct_has t k \<longleftrightarrow> ct_get t k \<noteq> None"
  by (auto simp: ct_has_def ct_get_def map_of_eq_None_iff)

lemma ct_get_add:
  "\<lbrakk>k \<noteq> 0; ct_get t k = None; ct_size t < ct_max t\<rbrakk> \<Longrightarrow>
    ct_add t k v = (True, t\<lparr>ct_circuits := AList.update k v (ct_circuits t)\<rparr>)"
  by (simp add: ct_add_def RESERVED_CIRCUIT_ID_def atCapacity_def)

lemma update_fresh: "map_of xs k = None \<Longrightarrow> AList.update k v xs = xs @ [(k, v)]"
  by (induction xs) (auto split: if_splits)

lemma length_delete: "distinct (map fst xs) \<Longrightarrow> length (AList.delete k xs) \<le> length xs"
  by (simp add: AList.delete_eq)

lemma set_delete_subset: "(a, b) \<in> set (AList.delete k xs) \<Longrightarrow> a \<in> fst ` set xs"
  by (force simp: AList.delete_eq)

interpretation circuit_table: bounded_table ct_inv ct_get ct_size ct_max ct_add ct_delete
proof unfold_locales
  fix t :: "'a circuit_table" and k v
  assume inv: "ct_inv t"
  show "ct_size t = card (dom (ct_get t)) \<and> finite (dom (ct_get t))"
    using inv distinct_card [of "map fst (ct_circuits t)"]
    unfolding ct_inv_def ct_get_def [abs_def] ct_size_def
    by (simp add: dom_map_of_conv_image_fst finite_dom_map_of)
  show "ct_size t \<le> ct_max t" using inv by (simp add: ct_inv_def)
  show "ct_get t 0 = None" using inv by (simp add: ct_inv_def ct_get_def RESERVED_CIRCUIT_ID_def map_of_eq_None_iff)
  show "k = 0 \<or> ct_get t k \<noteq> None \<or> ct_max t \<le> ct_size t \<Longrightarrow> ct_add t k v = (False, t)"
    by (auto simp: ct_add_def RESERVED_CIRCUIT_ID_def atCapacity_def)
  show "\<exists>t'. ct_add t k v = (True, t') \<and> ct_inv t' \<and> ct_get t' = (ct_get t)(k \<mapsto> v) \<and> ct_max t' = ct_max t"
    if free: "k \<noteq> 0" "ct_get t k = None" "ct_size t < ct_max t"
  proof -
    let ?t = "t\<lparr>ct_circuits := AList.update k v (ct_circuits t)\<rparr>"
    have "AList.update k v (ct_circuits t) = ct_circuits t @ [(k, v)]"
      using free(2) by (simp add: update_fresh ct_get_def)
    then have "ct_inv ?t"
      using inv free by (auto simp: ct_inv_def ct_get_def ct_size_def RESERVED_CIRCUIT_ID_def map_of_eq_None_iff)
    moreover have "ct_get ?t = (ct_get t)(k \<mapsto> v)" by (simp add: ct_get_def [abs_def] update_conv')
    ultimately show ?thesis using ct_get_add [OF free, of v] by simp
  qed
  show "\<exists>t'. ct_delete t k = (ct_get t k, t') \<and> ct_inv t' \<and> ct_get t' = (ct_get t)(k := None) \<and> ct_max t' = ct_max t"
    using inv length_delete [of "ct_circuits t" k]
    by (auto simp: ct_delete_def ct_inv_def ct_get_def ct_size_def delete_conv'
        delete_keys distinct_removeAll fun_upd_idem split: option.splits dest: set_delete_subset)
qed

section \<open>Identifiers\<close>

lemma shift_or: "push_bit 8 n OR unat (b :: byte) = 256 * n + unat b"
proof -
  have "push_bit 8 n AND unat b = 0"
    by (rule bit_eqI) (auto simp: bit_simps dest: bit_imp_le_length)
  then have "push_bit 8 n + unat b = push_bit 8 n OR unat b" by (rule disjunctive_add_eq_or)
  then show ?thesis by (simp add: push_bit_eq_mult)
qed

lemma fold_id: "fold (\<lambda>b i. push_bit 8 i OR unat b) bs n = n * 256 ^ length bs + be_nat bs"
  by (induction bs arbitrary: n) (simp_all add: shift_or algebra_simps)

lemma id_of_bytes_eq: "id_of_bytes bs = be_nat bs"
  by (simp add: id_of_bytes_def fold_id)

lemma id_of_bytes_zero: "id_of_bytes bs = 0 \<longleftrightarrow> set bs \<subseteq> {0}"
  by (induction bs) (auto simp: id_of_bytes_eq unsigned_eq_0_iff)

section \<open>Properties\<close>

text \<open>
  A circuit id is the first draw that is not all zero, read as a 64-bit number, so it
  is never the reserved 0 and fits the header field; the loop ends as soon as the
  source delivers a non-zero draw.
\<close>

theorem circuit_id_first_nonzero:
  assumes "\<And>d. d \<in> set draws \<Longrightarrow> length d = 8"
  shows "(case generateCircuitId draws of
       None \<Rightarrow> (\<forall>d \<in> set draws. set d = {0})
     | Some (i, rest) \<Rightarrow> 0 < i \<and> i < 2 ^ 64 \<and>
         (\<exists>zeros d. draws = zeros @ d # rest \<and> (\<forall>z \<in> set zeros. set z = {0}) \<and> i = be_nat d))"
  using assms
proof (induction draws)
  case (Cons d draws)
  have len: "length d = 8" using Cons.prems by simp
  show ?case
  proof (cases "id_of_bytes d = 0")
    case True
    then have zero: "set d = {0}" using len by (cases d) (auto simp: id_of_bytes_zero)
    show ?thesis
    proof (cases "generateCircuitId draws")
      case None
      with True zero Cons show ?thesis by (simp add: RESERVED_CIRCUIT_ID_def)
    next
      case (Some p)
      obtain i rest where p: "p = (i, rest)" by (cases p)
      with Some Cons obtain zeros e where "draws = zeros @ e # rest" "\<forall>z \<in> set zeros. set z = {0}" "i = be_nat e"
        and i: "0 < i" "i < 2 ^ 64" by auto
      then have "\<exists>zs e. d # draws = zs @ e # rest \<and> (\<forall>z \<in> set zs. set z = {0}) \<and> i = be_nat e"
        using zero by (intro exI [of _ "d # zeros"] exI [of _ e]) auto
      then have "case Some (i, rest) of None \<Rightarrow> (\<forall>d \<in> set (d # draws). set d = {0})
         | Some (i, rest) \<Rightarrow> 0 < i \<and> i < 2 ^ 64 \<and>
           (\<exists>zeros e. d # draws = zeros @ e # rest \<and> (\<forall>z \<in> set zeros. set z = {0}) \<and> i = be_nat e)"
        using i by simp
      then show ?thesis using True Some p by (simp only: generateCircuitId.simps RESERVED_CIRCUIT_ID_def Let_def simp_thms if_False)
    qed
  next
    case False
    with be_nat_less [of d] len show ?thesis by (force simp: RESERVED_CIRCUIT_ID_def id_of_bytes_eq)
  qed
qed simp

theorem circuit_id_first_nonzero_witness:
  "generateCircuitId [[0,0,0,0,0,0,0,0], [0,0,0,0,0,0,1,2], [9,9,9,9,9,9,9,9]] = Some (258, [[9,9,9,9,9,9,9,9]])
   \<and> (258 :: nat) < 2 ^ 64"
proof -
  let ?d = "[[0,0,0,0,0,0,0,0], [0,0,0,0,0,0,1,2], [9,9,9,9,9,9,9,9]] :: bytes list"
  have "generateCircuitId ?d = Some (258, [[9,9,9,9,9,9,9,9]])"
    by (simp add: id_of_bytes_eq RESERVED_CIRCUIT_ID_def)
  with circuit_id_first_nonzero [of ?d] show ?thesis by auto
qed

text \<open>
  A connection's table never displaces a circuit. Whatever insertions follow, an entry that
  is there stays what it was, the reserved id is never used and the bound holds;
  only \<^verbatim>\<open>delete\<close> of that id removes it, and it returns the entry.
\<close>

theorem table_never_displaces:
  assumes "ct_inv t"
  shows "ct_inv (circuit_table.add_all t xs) \<and> ct_size (circuit_table.add_all t xs) \<le> ct_max t \<and>
    ct_get t \<subseteq>\<^sub>m ct_get (circuit_table.add_all t xs) \<and>
    fst (ct_delete t k) = ct_get t k \<and> ct_get (snd (ct_delete t k)) = (ct_get t)(k := None) \<and>
    ct_inv (snd (ct_delete t k))"
  using circuit_table.add_all_keeps [OF assms, of xs] circuit_table.used_bound circuit_table.del_result [OF assms, of k]
  by fastforce

theorem table_never_displaces_witness:
  "ct_get (circuit_table.add_all (snd (ct_add (CircuitTable 2) 5 ''a'')) [(5, ''b''), (6, ''c''), (7, ''d'')]) 5 = Some ''a''"
proof -
  let ?t = "snd (ct_add (CircuitTable 2) 5 ''a'')"
  have "ct_inv ?t" "ct_get ?t 5 = Some ''a''"
    by (simp_all add: ct_add_def CircuitTable_def RESERVED_CIRCUIT_ID_def ct_get_def atCapacity_def ct_size_def ct_inv_def)
  moreover have "ct_get ?t \<subseteq>\<^sub>m ct_get (circuit_table.add_all ?t [(5, ''b''), (6, ''c''), (7, ''d'')])"
    using table_never_displaces [OF \<open>ct_inv ?t\<close>] by blast
  ultimately show ?thesis unfolding map_le_def by (metis domI)
qed

end
