(* ===== verification/Encoding.thy ===== *)
theory Encoding
  imports Js_Value Js_Text Codec
begin

text \<open>
  \<^verbatim>\<open>packages/crypto/src/encoding.ts\<close>: strict base64 and hex, keys at a fixed length, byte
  comparison, integer checks, and the writer of canonical byte strings that are signed.
\<close>

unbundle bit_operations_syntax

definition PUBLIC_KEY_LENGTH :: nat where "PUBLIC_KEY_LENGTH = 32"
definition SIGNATURE_LENGTH :: nat where "SIGNATURE_LENGTH = 64"

section \<open>Base64\<close>

definition ALPHABET :: jsstring where
  "ALPHABET = js ''ABCDEFGHIJKLMNOPQRSTUVWXYZabcdefghijklmnopqrstuvwxyz0123456789+/''"

definition DECODE :: "int list" where
  "DECODE = fold (\<lambda>i d. d[ALPHABET ! i := int i]) [0..<length ALPHABET] (replicate 128 (-1))"

definition b64_char :: "nat \<Rightarrow> nat \<Rightarrow> nat" where
  "b64_char n shift = ALPHABET ! (drop_bit shift n AND 63)"

fun encodeBase64 :: "bytes \<Rightarrow> jsstring" where
  "encodeBase64 (a # b # c # rest) =
     (let n = push_bit 16 (unat a) OR push_bit 8 (unat b) OR unat c in
      [b64_char n 18, b64_char n 12, b64_char n 6, b64_char n 0] @ encodeBase64 rest)"
| "encodeBase64 [a] =
     (let n = push_bit 16 (unat a) in [b64_char n 18, b64_char n 12] @ js ''=='')"
| "encodeBase64 [a, b] =
     (let n = push_bit 16 (unat a) OR push_bit 8 (unat b) in
      [b64_char n 18, b64_char n 12, b64_char n 6] @ js ''='')"
| "encodeBase64 [] = []"

definition b64_digit :: "nat \<Rightarrow> bool \<Rightarrow> int" where
  "b64_digit c isPad = (if isPad then 0 else if c < 128 then DECODE ! c else -1)"

fun b64_group :: "(nat \<times> bool) list \<Rightarrow> nat \<Rightarrow> nat result" where
  "b64_group [] n = Inr n"
| "b64_group ((c, padPos) # cs) n =
     (let d = b64_digit c (c = 61 \<and> padPos) in
      if d < 0 then Inl EncodingError else b64_group cs (push_bit 6 n OR nat d))"

definition b64_put :: "nat \<Rightarrow> nat \<Rightarrow> bytes \<Rightarrow> bytes" where
  "b64_put outlen v out = (if length out < outlen then out @ [word_of_nat (v AND 0xff)] else out)"

fun b64_groups :: "nat \<Rightarrow> nat \<Rightarrow> jsstring \<Rightarrow> bytes \<Rightarrow> bytes result" where
  "b64_groups padding outlen (a # b # c # d # rest) out =
     rbind (b64_group (zip [a, b, c, d] (map (\<lambda>j. rest = [] \<and> j \<ge> 4 - padding) [0..<4])) 0) (\<lambda>n.
       b64_groups padding outlen rest
         (b64_put outlen n (b64_put outlen (drop_bit 8 n) (b64_put outlen (drop_bit 16 n) out))))"
| "b64_groups padding outlen _ out = Inr out"

definition decodeBase64Strict :: "jsval \<Rightarrow> nat option \<Rightarrow> bytes result" where
  "decodeBase64Strict v expectedLength =
     (case as_string v of
        None \<Rightarrow> Inl EncodingError
      | Some s \<Rightarrow>
          if length s mod 4 \<noteq> 0 then Inl EncodingError
          else let padding = (if endsWith s (js ''=='') then 2 else if endsWith s (js ''='') then 1 else 0);
                   outlen = length s div 4 * 3 - padding in
            rbind (b64_groups padding outlen s []) (\<lambda>out.
              if encodeBase64 out \<noteq> s then Inl EncodingError
              else if expectedLength \<noteq> None \<and> Some (length out) \<noteq> expectedLength then Inl EncodingError
              else Inr out))"

section \<open>Hex and keys\<close>

definition hex_digit :: "nat \<Rightarrow> nat" where
  "hex_digit n = (if n < 10 then 48 + n else 87 + n)"

definition byte_to_string16 :: "nat \<Rightarrow> jsstring" where
  "byte_to_string16 n = (if n < 16 then [hex_digit n] else [hex_digit (n div 16), hex_digit (n mod 16)])"

definition padStart2 :: "jsstring \<Rightarrow> jsstring" where
  "padStart2 s = replicate (2 - length s) 48 @ s"

definition toHex :: "bytes \<Rightarrow> jsstring" where
  "toHex bs = concat (map (\<lambda>b. padStart2 (byte_to_string16 (unat b))) bs)"

datatype key_input = KeyString jsstring | KeyBytes bytes

definition parsePublicKey :: "key_input \<Rightarrow> bytes result" where
  "parsePublicKey k = (case k of
     KeyBytes b \<Rightarrow> if length b \<noteq> PUBLIC_KEY_LENGTH then Inl EncodingError else Inr b
   | KeyString s \<Rightarrow> decodeBase64Strict (JStr s) (Some PUBLIC_KEY_LENGTH))"

section \<open>Comparison\<close>

definition bytesEqual :: "bytes \<Rightarrow> bytes \<Rightarrow> bool" where
  "bytesEqual a b = (if length a \<noteq> length b then False
     else list_all (\<lambda>i. a ! i = b ! i) [0..<length a])"

definition constantTimeEqual :: "bytes \<Rightarrow> bytes \<Rightarrow> bool" where
  "constantTimeEqual a b = (if length a \<noteq> length b then False
     else fold (\<lambda>i diff. diff OR (a ! i XOR b ! i)) [0..<length a] 0 = 0)"

definition assertUint :: "jsval \<Rightarrow> nat result" where
  "assertUint v = (case as_number v of
     None \<Rightarrow> Inl EncodingError
   | Some x \<Rightarrow> if \<not> isSafeInteger x \<or> js_less x (js_int 0) then Inl EncodingError else Inr (nat (int_of x)))"

section \<open>CanonicalWriter\<close>

type_synonym canonical_writer = "bytes list"

definition w_bytesPrefixed :: "canonical_writer \<Rightarrow> bytes \<Rightarrow> canonical_writer" where
  "w_bytesPrefixed w bs = w @ [be_bytes 4 (length bs), bs]"

definition w_string :: "canonical_writer \<Rightarrow> jsstring \<Rightarrow> canonical_writer" where
  "w_string w s = w_bytesPrefixed w (textEncode s)"

definition w_fixed :: "canonical_writer \<Rightarrow> bytes \<Rightarrow> nat \<Rightarrow> canonical_writer result" where
  "w_fixed w bs n = (if length bs \<noteq> n then Inl EncodingError else Inr (w @ [bs]))"

definition w_uint :: "canonical_writer \<Rightarrow> jsval \<Rightarrow> canonical_writer result" where
  "w_uint w v = rbind (assertUint v) (\<lambda>n. Inr (w @ [be_bytes 8 n]))"

definition set_at :: "bytes \<Rightarrow> nat \<Rightarrow> bytes \<Rightarrow> bytes" where
  "set_at out off part = take off out @ part @ drop (off + length part) out"

definition concatBytes :: "bytes list \<Rightarrow> bytes" where
  "concatBytes parts =
     (let total = fold (\<lambda>p n. n + length p) parts 0 in
      snd (fold (\<lambda>part (offset, out). (offset + length part, set_at out offset part)) parts
            (0, replicate total 0)))"

definition w_finish :: "canonical_writer \<Rightarrow> bytes" where
  "w_finish w = concatBytes w"

section \<open>Base64 is canonical\<close>

lemma length_ALPHABET [simp]: "length ALPHABET = 64"
  by (simp add: ALPHABET_def js_def)

lemma ALPHABET_eq: "ALPHABET = [65..<91] @ [97..<123] @ [48..<58] @ [43, 47]"
  by (simp add: ALPHABET_def js_def upt_rec)

lemma distinct_ALPHABET: "distinct ALPHABET"
  by (auto simp: ALPHABET_eq)

lemma ALPHABET_bound: "c \<in> set ALPHABET \<Longrightarrow> c < 128 \<and> c \<noteq> 61"
  by (auto simp: ALPHABET_eq)

lemma fold_table_outside: "m \<notin> f ` set ks \<Longrightarrow> fold (\<lambda>i d. d[f i := int i]) ks e ! m = e ! m"
  by (induction ks arbitrary: e) auto

lemma fold_table:
  assumes "distinct (map f ks)" "\<And>i. i \<in> set ks \<Longrightarrow> f i < length d" "k \<in> set ks"
  shows "fold (\<lambda>i d. d[f i := int i]) ks d ! f k = int k"
  using assms
proof (induction ks arbitrary: d)
  case (Cons i ks)
  show ?case
  proof (cases "k = i")
    case True
    then show ?thesis using Cons.prems fold_table_outside [of "f i" f ks "d[f i := int i]"] by auto
  next
    case False
    then show ?thesis using Cons by auto
  qed
qed simp

lemma DECODE_ALPHABET: "i < 64 \<Longrightarrow> DECODE ! (ALPHABET ! i) = int i"
  unfolding DECODE_def
proof (rule fold_table)
  show "distinct (map ((!) ALPHABET) [0..<length ALPHABET])" by (metis map_nth distinct_ALPHABET)
qed (use ALPHABET_bound in auto)

lemma b64_digit_ALPHABET [simp]: "i < 64 \<Longrightarrow> b64_digit (ALPHABET ! i) (ALPHABET ! i = 61 \<and> p) = int i"
  using ALPHABET_bound [OF nth_mem, of i] by (simp add: b64_digit_def DECODE_ALPHABET)

lemma or_add: "b < 2 ^ k \<Longrightarrow> push_bit k n OR b = n * 2 ^ k + (b :: nat)"
proof -
  assume "b < 2 ^ k"
  then have b: "take_bit k b = b" by (simp add: take_bit_nat_eq_self_iff)
  have "push_bit k n AND take_bit k b = 0" by (rule bit_eqI) (auto simp: bit_simps)
  then have "push_bit k n + b = push_bit k n OR b" unfolding b by (rule disjunctive_add_eq_or)
  then show ?thesis by (simp add: push_bit_eq_mult)
qed

lemma and_63: "n AND 63 = n mod (64 :: nat)"
proof -
  have "n AND 63 = n AND mask 6" by (simp add: mask_eq_exp_minus_1)
  then show ?thesis by (simp add: take_bit_eq_mask [symmetric] take_bit_eq_mod)
qed

lemma and_255: "n AND 255 = n mod (256 :: nat)"
proof -
  have "n AND 255 = n AND mask 8" by (simp add: mask_eq_exp_minus_1)
  then show ?thesis by (simp add: take_bit_eq_mask [symmetric] take_bit_eq_mod)
qed

lemma b64_char_eq: "b64_char n k = ALPHABET ! (n div 2 ^ k mod 64)"
  by (simp add: b64_char_def and_63 drop_bit_eq_div)

lemma b64_char_plain: "b64_char n k < 128" "b64_char n k \<noteq> 61"
  using ALPHABET_bound [OF nth_mem, of "n div 2 ^ k mod 64"] by (simp_all add: b64_char_eq)

lemma b64_put_eq: "b64_put sz v out = (if length out < sz then out @ [word_of_nat (v mod 256)] else out)"
  by (simp add: b64_put_def and_255)

lemma group_char: "b64_group ((b64_char n k, p) # cs) m = b64_group cs (m * 64 + n div 2 ^ k mod 64)"
proof -
  have d: "b64_digit (b64_char n k) (b64_char n k = 61 \<and> p) = int (n div 2 ^ k mod 64)"
    by (simp add: b64_char_eq)
  have "push_bit 6 m OR n div 2 ^ k mod 64 = m * 64 + n div 2 ^ k mod 64"
    using or_add [of "n div 2 ^ k mod 64" 6 m] by simp
  then show ?thesis by (simp add: Let_def d)
qed

lemma group_pad: "b64_group ((61, True) # cs) m = b64_group cs (m * 64)"
  by (simp add: b64_digit_def push_bit_eq_mult)

lemma digits_24:
  assumes "n < (2 :: nat) ^ 24"
  shows "((n div 2 ^ 18 mod 64 * 64 + n div 2 ^ 12 mod 64) * 64 + n div 2 ^ 6 mod 64) * 64 + n mod 64 = n"
proof -
  have e: "n div 2 ^ 12 = n div 2 ^ 6 div 64" "n div 2 ^ 18 = n div 2 ^ 6 div 64 div 64"
    by (simp_all add: div_mult2_eq [symmetric])
  have "n div 2 ^ 6 div 64 div 64 < 64" using assms by (simp add: less_mult_imp_div_less div_mult2_eq [symmetric])
  then show ?thesis unfolding e by simp
qed

definition pack :: "nat \<Rightarrow> nat \<Rightarrow> nat \<Rightarrow> nat" where
  "pack a b c = a * 65536 + b * 256 + c"

lemma pack_or:
  assumes "b < 256" "c < 256"
  shows "push_bit 16 a OR push_bit 8 b OR c = pack a b c" "push_bit 16 a OR push_bit 8 b = pack a b 0"
    "push_bit 16 a = pack a 0 0"
  using assms or_add [of c 8 b] or_add [of "b * 256 + c" 16 a] or_add [of "b * 256" 16 a]
  by (simp_all add: pack_def push_bit_eq_mult)

lemma pack_bytes:
  assumes "a < 256" "b < 256" "c < 256"
  shows "pack a b c < 2 ^ 24" "pack a b c div 65536 mod 256 = a" "pack a b c div 256 mod 256 = b"
    "pack a b c mod 256 = c"
proof -
  have p: "pack a b c = (a * 256 + b) * 256 + c" by (simp add: pack_def)
  have d: "pack a b c div 256 = a * 256 + b" unfolding p using assms by simp
  show "pack a b c < 2 ^ 24" using assms by (simp add: pack_def)
  show "pack a b c mod 256 = c" unfolding p mod_mult_self3 using assms(3) by (rule mod_less)
  show "pack a b c div 256 mod 256 = b" unfolding d using assms by simp
  have "pack a b c div 65536 = pack a b c div 256 div 256" by (simp add: div_mult2_eq [symmetric])
  then show "pack a b c div 65536 mod 256 = a" unfolding d using assms by simp
qed

lemma group_full: "n < 2 ^ 24 \<Longrightarrow>
    b64_group [(b64_char n 18, p), (b64_char n 12, q), (b64_char n 6, r), (b64_char n 0, s)] 0 = Inr n"
  using digits_24 [of n] by (simp only: group_char b64_group.simps(1)) simp

lemma group_two:
  assumes "a < 256"
  shows "b64_group [(b64_char (pack a 0 0) 18, p), (b64_char (pack a 0 0) 12, q), (61, True), (61, True)] 0 = Inr (pack a 0 0)"
proof -
  have "pack a 0 0 mod 64 = 0" "pack a 0 0 div 2 ^ 6 mod 64 = 0" by (simp_all add: pack_def)
  with digits_24 [of "pack a 0 0"] pack_bytes [of a 0 0] assms show ?thesis
    by (simp only: group_char group_pad b64_group.simps(1)) simp
qed

lemma group_three:
  assumes "a < 256" "b < 256"
  shows "b64_group [(b64_char (pack a b 0) 18, p), (b64_char (pack a b 0) 12, q), (b64_char (pack a b 0) 6, r), (61, True)] 0
    = Inr (pack a b 0)"
proof -
  have "pack a b 0 mod 64 = 0" unfolding pack_def by presburger
  with digits_24 [of "pack a b 0"] pack_bytes [of a b 0] assms show ?thesis
    by (simp only: group_char group_pad b64_group.simps(1)) simp
qed

lemma upt_4: "[0..<4] = [0, 1, 2, 3]"
  by (simp add: upt_rec)

lemma encodeBase64_simps:
  "encodeBase64 (a # b # c # rest) = (let n = pack (unat a) (unat b) (unat c) in
     [b64_char n 18, b64_char n 12, b64_char n 6, b64_char n 0] @ encodeBase64 rest)"
  "encodeBase64 [a] = (let n = pack (unat a) 0 0 in [b64_char n 18, b64_char n 12, 61, 61])"
  "encodeBase64 [a, b] = (let n = pack (unat a) (unat b) 0 in [b64_char n 18, b64_char n 12, b64_char n 6, 61])"
  using pack_or(1) [OF unat_byte_less unat_byte_less, of "unat a" b c]
    pack_or(2) [OF unat_byte_less, of 0 "unat a" b] pack_or(3) [of 0 0 "unat a"]
  by (simp_all only: encodeBase64.simps) (simp_all add: js_def)

declare encodeBase64.simps(1-3) [simp del]

definition pad_of :: "bytes \<Rightarrow> nat" where
  "pad_of bs = (3 - length bs mod 3) mod 3"

lemma groups_encode:
  "padding = pad_of bs \<Longrightarrow> sz = length out + length bs \<Longrightarrow>
    b64_groups padding sz (encodeBase64 bs) out = Inr (out @ bs)"
proof (induction bs arbitrary: out rule: encodeBase64.induct)
  case (1 a b c rest)
  let ?n = "pack (unat a) (unat b) (unat c)"
  have n: "?n < 2 ^ 24" "?n div 65536 mod 256 = unat a" "?n div 256 mod 256 = unat b" "?n mod 256 = unat c"
    using pack_bytes [OF unat_byte_less unat_byte_less unat_byte_less, of a b c] by auto
  have "padding = pad_of rest" using 1(2) by (simp add: pad_of_def)
  then have "b64_groups padding sz (encodeBase64 rest) (out @ [a, b, c]) = Inr ((out @ [a, b, c]) @ rest)"
    using 1 by (intro "1.IH") auto
  moreover have "b64_put sz ?n (b64_put sz (drop_bit 8 ?n) (b64_put sz (drop_bit 16 ?n) out)) = out @ [a, b, c]"
    using 1(3) n by (simp add: b64_put_eq drop_bit_eq_div)
  ultimately show ?case
    using group_full [OF n(1)] by (simp add: encodeBase64_simps Let_def upt_4 del: b64_group.simps)
next
  case (2 a)
  then show ?case
    using group_two [OF unat_byte_less, of a] pack_bytes [OF unat_byte_less, of 0 0 a]
    by (simp add: encodeBase64_simps Let_def upt_4 pad_of_def b64_put_eq drop_bit_eq_div del: b64_group.simps)
next
  case (3 a b)
  then show ?case
    using group_three [OF unat_byte_less unat_byte_less, of a b] pack_bytes [OF unat_byte_less unat_byte_less, of 0 a b]
    by (simp add: encodeBase64_simps Let_def upt_4 pad_of_def b64_put_eq drop_bit_eq_div del: b64_group.simps)
qed simp

lemma length_encodeBase64: "length (encodeBase64 bs) = 4 * ((length bs + 2) div 3)"
proof (induction bs rule: encodeBase64.induct)
  case (1 a b c rest)
  have "(length (a # b # c # rest) + 2) div 3 = Suc ((length rest + 2) div 3)" by simp
  with 1 show ?case by (simp add: encodeBase64_simps Let_def)
qed (simp_all add: encodeBase64_simps Let_def)

lemma js_pad: "js ''='' = [61]" "js ''=='' = [61, 61]"
  by (simp_all add: js_def)

lemma endsWith_Cons: "length t \<le> length s \<Longrightarrow> endsWith (x # s) t \<longleftrightarrow> endsWith s t"
  by (simp add: endsWith_def Suc_diff_le)

lemma length_encodeBase64_ge: "bs \<noteq> [] \<Longrightarrow> 4 \<le> length (encodeBase64 bs)"
  by (cases bs) (auto simp: length_encodeBase64)

lemma encode_pads:
  "bs \<noteq> [] \<Longrightarrow> (endsWith (encodeBase64 bs) [61] \<longleftrightarrow> length bs mod 3 \<noteq> 0) \<and>
    (endsWith (encodeBase64 bs) [61, 61] \<longleftrightarrow> length bs mod 3 = 1)"
proof (induction bs rule: encodeBase64.induct)
  case (1 a b c rest)
  show ?case
  proof (cases "rest = []")
    case True
    then show ?thesis by (simp add: encodeBase64_simps Let_def endsWith_def b64_char_plain)
  next
    case False
    with 1 length_encodeBase64_ge [of rest] show ?thesis
      by (simp add: encodeBase64_simps Let_def endsWith_Cons)
  qed
qed (simp_all add: encodeBase64_simps Let_def endsWith_def b64_char_plain)

lemma pad_arith: "(n + 2) div 3 * 3 = n + (3 - n mod 3) mod (3 :: nat)"
proof -
  obtain q r where n: "n = r + q * 3" and "r < 3"
    by (metis add.commute div_mult_mod_eq mod_less_divisor zero_less_numeral)
  then consider "r = 0" | "r = 1" | "r = 2" by linarith
  moreover have "n mod 3 = r" using \<open>r < 3\<close> by (simp add: n)
  moreover have "n + 2 = (r + 2) + q * 3" by (simp add: n)
  ultimately show ?thesis by cases (simp_all add: n)
qed

lemma decode_encode64:
  "decodeBase64Strict (JStr (encodeBase64 bs)) n =
     (if n = None \<or> n = Some (length bs) then Inr bs else Inl EncodingError)"
proof -
  let ?s = "encodeBase64 bs"
  let ?p = "if endsWith ?s (js ''=='') then 2 else if endsWith ?s (js ''='') then 1 else (0 :: nat)"
  have p: "?p = pad_of bs"
  proof (cases "bs = []")
    case False
    have "length bs mod 3 < 3" by simp
    then consider "length bs mod 3 = 0" | "length bs mod 3 = 1" | "length bs mod 3 = 2" by linarith
    then show ?thesis using encode_pads [OF False] by cases (simp_all add: js_pad pad_of_def)
  qed (simp add: js_pad endsWith_def pad_of_def)
  have "length ?s div 4 * 3 = (length bs + 2) div 3 * 3" by (simp add: length_encodeBase64)
  also have "\<dots> = length bs + pad_of bs" unfolding pad_of_def by (rule pad_arith)
  finally have "length ?s div 4 * 3 - pad_of bs = length bs" by simp
  then have "b64_groups ?p (length ?s div 4 * 3 - ?p) ?s [] = Inr bs"
    unfolding p using groups_encode [of "pad_of bs" bs "length bs" "[]"] by simp
  then show ?thesis
    unfolding decodeBase64Strict_def Let_def by (cases n) (simp_all add: length_encodeBase64)
qed

lemma decode_ok_encode:
  assumes "decodeBase64Strict v n = Inr bs"
  shows "v = JStr (encodeBase64 bs) \<and> (n = None \<or> n = Some (length bs))"
  using assms by (auto simp: decodeBase64Strict_def Let_def rbind_eq_Inr split: option.splits if_splits)

lemma decode64_iff:
  "decodeBase64Strict v n = Inr bs \<longleftrightarrow> v = JStr (encodeBase64 bs) \<and> (n = None \<or> n = Some (length bs))"
  using decode_ok_encode decode_encode64 by fastforce

lemma encodeBase64_inj: "encodeBase64 a = encodeBase64 b \<longleftrightarrow> a = b"
  by (metis decode_encode64 Inr_inject)

interpretation base64: canonical_codec "\<lambda>_. True" "\<lambda>bs. Inr (JStr (encodeBase64 bs))" "\<lambda>v. decodeBase64Strict v None"
  by unfold_locales (auto simp: decode64_iff)

section \<open>Hex, keys, comparison\<close>

lemma hex_digit_inj: "m < 16 \<Longrightarrow> n < 16 \<Longrightarrow> hex_digit m = hex_digit n \<longleftrightarrow> m = n"
  by (auto simp: hex_digit_def)

lemma toHex_byte: "n < 256 \<Longrightarrow> padStart2 (byte_to_string16 n) = [hex_digit (n div 16), hex_digit (n mod 16)]"
  by (auto simp: padStart2_def byte_to_string16_def hex_digit_def)

lemma toHex_Nil [simp]: "toHex [] = []"
  by (simp add: toHex_def)

lemma toHex_Cons [simp]: "toHex (b # bs) = hex_digit (unat b div 16) # hex_digit (unat b mod 16) # toHex bs"
  by (simp add: toHex_def toHex_byte unat_byte_less)

lemma length_toHex [simp]: "length (toHex bs) = 2 * length bs"
  by (induction bs) auto

lemma toHex_inj: "toHex a = toHex b \<longleftrightarrow> a = b"
proof (induction a arbitrary: b)
  case Nil
  then show ?case by (cases b) auto
next
  case (Cons x a)
  show ?case
  proof (cases b)
    case (Cons y c)
    have "unat x div 16 = unat y div 16 \<Longrightarrow> unat x mod 16 = unat y mod 16 \<Longrightarrow> x = y"
      by (metis div_mult_mod_eq word_unat_eq_iff)
    moreover have "unat x div 16 < 16" "unat y div 16 < 16"
      using unat_byte_less [of x] unat_byte_less [of y] by auto
    ultimately show ?thesis using Cons Cons.IH by (auto simp: hex_digit_inj)
  qed simp
qed

lemma toHex_plain: "c \<in> set (toHex b) \<Longrightarrow> c \<noteq> 124"
proof (induction b)
  case (Cons x b)
  have "unat x div 16 < 16" using unat_byte_less [of x] by simp
  with Cons show ?case by (auto simp: hex_digit_def split: if_splits)
qed simp

lemma parsePublicKey_length: "parsePublicKey k = Inr b \<Longrightarrow> length b = 32"
  by (auto simp: parsePublicKey_def decode64_iff PUBLIC_KEY_LENGTH_def split: key_input.splits if_splits)

lemma bytesEqual_iff [simp]: "bytesEqual a b \<longleftrightarrow> a = b"
proof -
  have "bytesEqual a b \<longleftrightarrow> length a = length b \<and> (\<forall>i < length a. a ! i = b ! i)"
    by (auto simp: bytesEqual_def list_all_iff)
  then show ?thesis by (simp only: list_eq_iff_nth_eq)
qed

lemma fold_or_zero:
  "fold (\<lambda>i diff. diff OR f i) xs d = (0 :: byte) \<longleftrightarrow> d = 0 \<and> (\<forall>i \<in> set xs. f i = 0)"
proof (induction xs arbitrary: d)
  case (Cons x xs)
  have "d OR f x = 0 \<longleftrightarrow> d = 0 \<and> f x = 0" by (rule or_eq_0_iff)
  then show ?case using Cons.IH [of "d OR f x"] by simp
qed simp

lemma xor_byte_zero: "a XOR b = (0 :: byte) \<longleftrightarrow> a = b"
  using bit_eq_iff [of "a XOR b" 0] bit_eq_iff [of a b] by (simp add: bit_xor_iff)

lemma assertUint_iff:
  "assertUint v = Inr n \<longleftrightarrow> v = JNum (js_int (int n)) \<and> int n \<le> MAX_SAFE_INTEGER"
proof (cases v)
  case (JNum x)
  show ?thesis
  proof (cases "isInteger x")
    case True
    then obtain i where "x = js_int i" by (rule isInteger_obtain)
    with JNum show ?thesis by (auto simp: assertUint_def isSafeInteger_def)
  next
    case False
    with JNum show ?thesis by (auto simp: assertUint_def isSafeInteger_def)
  qed
qed (auto simp: assertUint_def)

section \<open>Canonical byte strings\<close>

lemma fold_length: "fold (\<lambda>p n. n + length p) parts k = k + length (concat parts)"
  by (induction parts arbitrary: k) auto

lemma concat_fold:
  assumes "length out = length pre + length (concat parts)" "take (length pre) out = pre"
  shows "snd (fold (\<lambda>part (offset, out). (offset + length part, set_at out offset part)) parts (length pre, out)) = pre @ concat parts"
  using assms
proof (induction parts arbitrary: pre out)
  case (Cons p parts)
  have "set_at out (length pre) p = (pre @ p) @ drop (length pre + length p) out"
    using Cons.prems by (simp add: set_at_def)
  moreover have "length out = length pre + (length p + length (concat parts))" using Cons.prems by simp
  ultimately have "snd (fold (\<lambda>part (offset, out). (offset + length part, set_at out offset part)) parts
      (length (pre @ p), set_at out (length pre) p)) = (pre @ p) @ concat parts"
    by (intro Cons.IH) simp_all
  then show ?case by simp
qed simp

lemma concatBytes_eq [simp]: "concatBytes parts = concat parts"
  using concat_fold [of "replicate (length (concat parts)) 0" "[]" parts]
  by (simp add: concatBytes_def fold_length)

lemma w_finish_simps [simp]:
  "w_finish [] = []"
  "w_finish (w_bytesPrefixed w bs) = w_finish w @ be_bytes 4 (length bs) @ bs"
  "w_finish (w_string w s) = w_finish w @ be_bytes 4 (length (textEncode s)) @ textEncode s"
  "w_finish (w @ [bs]) = w_finish w @ bs"
  by (simp_all add: w_finish_def w_bytesPrefixed_def w_string_def)

interpretation prefixed: field_code "\<lambda>bs. length bs < 2 ^ 32" "\<lambda>bs. be_bytes 4 (length bs) @ bs"
proof unfold_locales
  fix x y r s :: bytes
  assume len: "length x < 2 ^ 32" "length y < 2 ^ 32"
    and eq: "(be_bytes 4 (length x) @ x) @ r = (be_bytes 4 (length y) @ y) @ s"
  then have "be_bytes 4 (length x) = be_bytes 4 (length y)" "x @ r = y @ s" by auto
  moreover from this(1) have "length x = length y" using len be_bytes_inj [of 4] by simp
  ultimately show "x = y \<and> r = s" by simp
qed

interpretation u64: field_code "\<lambda>n. n < 2 ^ 64" "be_bytes 8"
proof unfold_locales
  fix x y :: nat and r s :: bytes
  assume "x < 2 ^ 64" "y < 2 ^ 64" "be_bytes 8 x @ r = be_bytes 8 y @ s"
  then show "x = y \<and> r = s" using be_bytes_inj [of 8 x y] by simp
qed

text \<open>
  A statement that is signed is a list of such fields. Two statements of the same format
  with the same bytes have the same fields.
\<close>

datatype field = Fixed bytes | Prefixed bytes | U64 nat

fun enc_field :: "field \<Rightarrow> bytes" where
  "enc_field (Fixed bs) = bs"
| "enc_field (Prefixed bs) = be_bytes 4 (length bs) @ bs"
| "enc_field (U64 n) = be_bytes 8 n"

fun field_ok :: "field \<Rightarrow> bool" where
  "field_ok (Fixed bs) = True"
| "field_ok (Prefixed bs) = (length bs < 2 ^ 32)"
| "field_ok (U64 n) = (n < 2 ^ 64)"

fun same_kind :: "field \<Rightarrow> field \<Rightarrow> bool" where
  "same_kind (Fixed a) (Fixed b) = (length a = length b)"
| "same_kind (Prefixed a) (Prefixed b) = True"
| "same_kind (U64 a) (U64 b) = True"
| "same_kind _ _ = False"

definition enc_fields :: "field list \<Rightarrow> bytes" where
  "enc_fields fs = concat (map enc_field fs)"

lemma enc_field_prefix:
  "same_kind f g \<Longrightarrow> field_ok f \<Longrightarrow> field_ok g \<Longrightarrow> enc_field f @ r = enc_field g @ s \<Longrightarrow> f = g \<and> r = s"
proof (induction f g rule: same_kind.induct)
  case (2 a b)
  then show ?case using prefixed.field_prefix [of a b r s] by simp
next
  case (3 a b)
  then have "a = b \<and> r = s" by (intro u64.field_prefix) (simp_all only: field_ok.simps enc_field.simps)
  then show ?case by simp
qed simp_all

lemma enc_fields_prefix:
  assumes "list_all2 same_kind fs gs" "list_all field_ok fs" "list_all field_ok gs"
    and "enc_fields fs @ r = enc_fields gs @ s"
  shows "fs = gs \<and> r = s"
  using assms
proof (induction rule: list_all2_induct)
  case (Cons f fs g gs)
  then have "enc_field f @ (enc_fields fs @ r) = enc_field g @ (enc_fields gs @ s)" by (simp add: enc_fields_def)
  with Cons.hyps(1) Cons.prems(1,2) enc_field_prefix [of f g] have "f = g" "enc_fields fs @ r = enc_fields gs @ s" by auto
  with Cons show ?case by simp
qed (simp add: enc_fields_def)

lemma enc_fields_inj:
  assumes "list_all2 same_kind fs gs" "list_all field_ok fs" "list_all field_ok gs"
    and "enc_fields fs = enc_fields gs"
  shows "fs = gs"
  using assms
proof (induction rule: list_all2_induct)
  case (Cons f fs g gs)
  then have "enc_field f @ enc_fields fs = enc_field g @ enc_fields gs" by (simp add: enc_fields_def)
  with Cons enc_field_prefix [of f g] show ?case by (simp add: enc_fields_def)
qed simp

section \<open>Properties\<close>

text \<open>
  Base64 has one spelling per value. For every input value, a string or not, strict
  decoding yields bytes exactly when the input is the string the encoder gives for those
  bytes and their number is the expected one.
\<close>

theorem base64_one_spelling:
  "decodeBase64Strict v expected = Inr bs \<longleftrightarrow>
     v = JStr (encodeBase64 bs) \<and> (expected = None \<or> expected = Some (length bs))"
  by (rule decode64_iff)

text \<open>
  The comparisons. \<^verbatim>\<open>bytesEqual\<close> and the branch-free \<^verbatim>\<open>constantTimeEqual\<close> both decide
  equality of byte strings.
\<close>

theorem constant_time_equal_is_equality:
  "constantTimeEqual a b = bytesEqual a b \<and> (bytesEqual a b \<longleftrightarrow> a = b)"
proof -
  have "constantTimeEqual a b \<longleftrightarrow> length a = length b \<and> (\<forall>i < length a. a ! i = b ! i)"
    by (auto simp: constantTimeEqual_def fold_or_zero xor_byte_zero)
  then show ?thesis by (simp only: bytesEqual_iff list_eq_iff_nth_eq)
qed

end
