(* ===== verification/Primitives.thy ===== *)
theory Primitives
  imports Encoding
begin

text \<open>
  \<^verbatim>\<open>packages/crypto/src/primitives.ts\<close>: the checks TNP puts around the primitives of
  \<^verbatim>\<open>tweetnacl\<close> and \<^verbatim>\<open>@noble\<close>. The primitives are the fields of a record that every
  definition using them takes as an argument.
\<close>

record crypto =
  cr_scalarMult :: "bytes \<Rightarrow> bytes \<Rightarrow> bytes"
  cr_scalarMultBase :: "bytes \<Rightarrow> bytes"
  cr_sha256 :: "bytes \<Rightarrow> bytes"
  cr_hmac :: "bytes \<Rightarrow> bytes \<Rightarrow> bytes"
  cr_hkdf :: "bytes \<Rightarrow> bytes \<Rightarrow> bytes \<Rightarrow> nat \<Rightarrow> bytes"
  cr_encrypt :: "bytes \<Rightarrow> bytes \<Rightarrow> bytes \<Rightarrow> bytes \<Rightarrow> bytes"
  cr_decrypt :: "bytes \<Rightarrow> bytes \<Rightarrow> bytes \<Rightarrow> bytes \<Rightarrow> bytes option"

definition X25519_KEY_LENGTH :: nat where "X25519_KEY_LENGTH = 32"
definition AEAD_KEY_LENGTH :: nat where "AEAD_KEY_LENGTH = 32"
definition AEAD_TAG_LENGTH :: nat where "AEAD_TAG_LENGTH = 16"
definition SHA256_LENGTH :: nat where "SHA256_LENGTH = 32"

record x25519_key_pair =
  kp_publicKey :: bytes
  kp_secretKey :: bytes

definition x25519KeyPairFromSecret :: "crypto \<Rightarrow> bytes \<Rightarrow> x25519_key_pair result" where
  "x25519KeyPairFromSecret c secretKey =
     (if length secretKey \<noteq> X25519_KEY_LENGTH then Inl KeyAgreementError
      else Inr \<lparr>kp_publicKey = cr_scalarMultBase c secretKey, kp_secretKey = secretKey\<rparr>)"

definition P :: nat where
  "P = 2 ^ 255 - 19"

definition littleEndianToBigInt :: "bytes \<Rightarrow> nat" where
  "littleEndianToBigInt bs = fold (\<lambda>b n. push_bit 8 n OR unat b) (rev bs) 0"

definition assertCanonicalX25519 :: "bytes \<Rightarrow> unit result" where
  "assertCanonicalX25519 publicKey =
     (if length publicKey \<noteq> X25519_KEY_LENGTH then Inl KeyAgreementError
      else if publicKey ! 31 AND 0x80 \<noteq> 0 \<or> littleEndianToBigInt publicKey \<ge> P then Inl KeyAgreementError
      else Inr ())"

definition isAllZero :: "bytes \<Rightarrow> bool" where
  "isAllZero bs \<longleftrightarrow> fold (\<lambda>b acc. acc OR b) bs 0 = 0"

definition LOW_ORDER_PROBE :: "crypto \<Rightarrow> bytes" where
  "LOW_ORDER_PROBE c = cr_sha256 c (textEncode (js ''tnp-x25519-low-order-probe-v1''))"

definition assertValidX25519PublicKey :: "crypto \<Rightarrow> bytes \<Rightarrow> unit result" where
  "assertValidX25519PublicKey c publicKey =
     rbind (assertCanonicalX25519 publicKey) (\<lambda>_.
       if isAllZero (cr_scalarMult c (LOW_ORDER_PROBE c) publicKey) then Inl KeyAgreementError else Inr ())"

definition x25519 :: "crypto \<Rightarrow> bytes \<Rightarrow> bytes \<Rightarrow> bytes result" where
  "x25519 c secretKey peerPublicKey =
     (if length secretKey \<noteq> X25519_KEY_LENGTH then Inl KeyAgreementError
      else rbind (assertCanonicalX25519 peerPublicKey) (\<lambda>_.
        let shared = cr_scalarMult c secretKey peerPublicKey in
        if isAllZero shared then Inl KeyAgreementError else Inr shared))"

definition sha256 :: "crypto \<Rightarrow> bytes \<Rightarrow> bytes" where
  "sha256 c d = cr_sha256 c d"

definition hmacSha256 :: "crypto \<Rightarrow> bytes \<Rightarrow> bytes \<Rightarrow> bytes" where
  "hmacSha256 c key d = cr_hmac c key d"

definition hkdfSha256 :: "crypto \<Rightarrow> bytes \<Rightarrow> bytes \<Rightarrow> bytes \<Rightarrow> nat \<Rightarrow> bytes" where
  "hkdfSha256 c ikm salt info len = cr_hkdf c ikm salt info len"

definition aeadSeal :: "crypto \<Rightarrow> bytes \<Rightarrow> bytes \<Rightarrow> bytes \<Rightarrow> bytes \<Rightarrow> bytes" where
  "aeadSeal c key nonce ad plaintext = cr_encrypt c key nonce ad plaintext"

definition aeadOpen :: "crypto \<Rightarrow> bytes \<Rightarrow> bytes \<Rightarrow> bytes \<Rightarrow> bytes \<Rightarrow> bytes option" where
  "aeadOpen c key nonce ad ciphertext =
     (if length ciphertext < AEAD_TAG_LENGTH then None else cr_decrypt c key nonce ad ciphertext)"

definition wipe :: "bytes \<Rightarrow> bytes" where
  "wipe bs = replicate (length bs) 0"

section \<open>What is relied on of the primitives\<close>

text \<open>
  Documented behaviour of ChaCha20-Poly1305: a sealed message opens under the same key, nonce and
  associated data, and carries a 16-byte tag; of SHA-256 and HMAC: 32-byte outputs; of
  X25519: the two sides of a Diffie-Hellman exchange agree.
\<close>

definition aead_correct :: "crypto \<Rightarrow> bool" where
  "aead_correct c \<longleftrightarrow> (\<forall>k n ad p. cr_decrypt c k n ad (cr_encrypt c k n ad p) = Some p \<and>
     length (cr_encrypt c k n ad p) = length p + 16)"

definition hash_lengths :: "crypto \<Rightarrow> bool" where
  "hash_lengths c \<longleftrightarrow> (\<forall>d. length (cr_sha256 c d) = 32) \<and> (\<forall>k d. length (cr_hmac c k d) = 32)"

definition dh_commutes :: "crypto \<Rightarrow> bool" where
  "dh_commutes c \<longleftrightarrow> (\<forall>a b. length a = 32 \<longrightarrow> length b = 32 \<longrightarrow>
     cr_scalarMult c a (cr_scalarMultBase c b) = cr_scalarMult c b (cr_scalarMultBase c a) \<and>
     length (cr_scalarMultBase c a) = 32)"

section \<open>Lemmas\<close>

lemma fold_le: "fold (\<lambda>b n. push_bit 8 n OR unat b) bs n = n * 256 ^ length bs + be_nat bs"
proof (induction bs arbitrary: n)
  case (Cons b bs)
  have "push_bit 8 n OR unat b = n * 256 + unat b" using or_add [of "unat b" 8 n] unat_byte_less [of b] by simp
  with Cons show ?case by (simp add: algebra_simps)
qed simp

lemma littleEndian_eq: "littleEndianToBigInt bs = be_nat (rev bs)"
  by (simp add: littleEndianToBigInt_def fold_le)

lemma littleEndian_inj: "length a = length b \<Longrightarrow> littleEndianToBigInt a = littleEndianToBigInt b \<Longrightarrow> a = b"
  unfolding littleEndian_eq using be_nat_inj [of "rev a" "rev b"] by simp

lemma isAllZero_iff: "isAllZero bs \<longleftrightarrow> set bs \<subseteq> {0}"
proof -
  have "fold (\<lambda>b acc. acc OR b) bs a = (0 :: byte) \<longleftrightarrow> a = 0 \<and> set bs \<subseteq> {0}" for a
    by (induction bs arbitrary: a) (auto simp: or_eq_0_iff)
  then show ?thesis by (simp add: isAllZero_def)
qed

lemma canonical_length: "assertCanonicalX25519 k = Inr u \<Longrightarrow> length k = 32"
  by (auto simp: assertCanonicalX25519_def X25519_KEY_LENGTH_def split: if_splits)

lemma aeadOpen_Seal: "aead_correct c \<Longrightarrow> aeadOpen c k n ad (aeadSeal c k n ad p) = Some p"
  by (simp add: aeadOpen_def aeadSeal_def aead_correct_def AEAD_TAG_LENGTH_def)

lemma length_aeadSeal: "aead_correct c \<Longrightarrow> length (aeadSeal c k n ad p) = length p + 16"
  by (simp add: aeadSeal_def aead_correct_def)

lemma valid_key_canonical: "assertValidX25519PublicKey c k = Inr u \<Longrightarrow> assertCanonicalX25519 k = Inr ()"
  by (auto simp: assertValidX25519PublicKey_def rbind_eq_Inr)

section \<open>Properties\<close>

text \<open>
  C31. One point, one spelling, no trivial secret. Two accepted X25519 keys with the same
  u-coordinate are the same 32 bytes, the coordinate is below the field prime, and a
  shared secret that \<^verbatim>\<open>x25519\<close> returns is never the all-zero string.
\<close>

theorem x25519_inputs_canonical:
  assumes "x25519 c sk k = Inr s" and "x25519 c' sk' k' = Inr s'"
    and "littleEndianToBigInt k = littleEndianToBigInt k'"
  shows "k = k' \<and> length k = 32 \<and> littleEndianToBigInt k < P \<and> (\<exists>b \<in> set s. b \<noteq> 0)"
proof -
  have can: "assertCanonicalX25519 k = Inr ()" "assertCanonicalX25519 k' = Inr ()"
    using assms(1,2) by (auto simp: x25519_def rbind_eq_Inr split: if_splits)
  then have "length k = 32" "length k' = 32" using canonical_length by auto
  moreover have "littleEndianToBigInt k < P" using can(1) by (auto simp: assertCanonicalX25519_def split: if_splits)
  moreover have "\<exists>b \<in> set s. b \<noteq> 0"
    using assms(1) by (auto simp: x25519_def rbind_eq_Inr Let_def isAllZero_iff split: if_splits)
  ultimately show ?thesis using littleEndian_inj assms(3) by auto
qed

definition sample_crypto :: crypto where
  "sample_crypto = \<lparr>cr_scalarMult = (\<lambda>a b. map2 (XOR) a b), cr_scalarMultBase = (\<lambda>a. a),
     cr_sha256 = (\<lambda>d. 1 # replicate 31 1), cr_hmac = (\<lambda>k d. 2 # replicate 31 2),
     cr_hkdf = (\<lambda>ikm salt info n. be_bytes n (be_nat ikm + be_nat salt + be_nat info)),
     cr_encrypt = (\<lambda>k n ad p. p @ replicate 16 0),
     cr_decrypt = (\<lambda>k n ad x. if drop (length x - 16) x = replicate 16 0 then Some (take (length x - 16) x) else None)\<rparr>"


abbreviation sample_key :: bytes where
  "sample_key \<equiv> 9 # replicate 31 0"

abbreviation sample_secret :: bytes where
  "sample_secret \<equiv> 1 # replicate 31 1"

lemma be_nat_zeros: "be_nat (replicate n 0 @ xs) = be_nat xs"
  by (induction n) auto

lemma sample_canonical: "assertCanonicalX25519 sample_key = Inr ()"
proof -
  have "be_nat (rev sample_key) = 9" using be_nat_zeros [of 31 "[9]"] by simp
  then show ?thesis by (simp add: assertCanonicalX25519_def X25519_KEY_LENGTH_def littleEndian_eq P_def)
qed

lemma sample_x25519: "x25519 sample_crypto sample_secret sample_key = Inr (map2 (XOR) sample_secret sample_key)"
proof -
  have "\<not> isAllZero (map2 (XOR) sample_secret sample_key)" by (simp add: isAllZero_iff)
  then show ?thesis
    unfolding x25519_def by (simp add: sample_canonical X25519_KEY_LENGTH_def sample_crypto_def Let_def)
qed

lemma sample_valid_key: "assertValidX25519PublicKey sample_crypto sample_key = Inr ()"
proof -
  have "\<not> isAllZero (map2 (XOR) sample_secret sample_key)" by (simp add: isAllZero_iff)
  then show ?thesis
    unfolding assertValidX25519PublicKey_def by (simp add: sample_canonical LOW_ORDER_PROBE_def sample_crypto_def)
qed

theorem x25519_inputs_canonical_witness:
  "\<exists>s. x25519 sample_crypto sample_secret sample_key = Inr s \<and> littleEndianToBigInt sample_key < P \<and> (\<exists>b \<in> set s. b \<noteq> 0)"
  using x25519_inputs_canonical [OF sample_x25519 sample_x25519 refl] sample_x25519 by blast

end
