(* ===== verification/Noise.thy ===== *)
theory Noise
  imports Primitives Wire_Constants
begin

text \<open>
  \<^verbatim>\<open>packages/protocol/src/noise.ts\<close>: the handshake \<^verbatim>\<open>Noise_NK_25519_ChaChaPoly_SHA256\<close>. Methods that mutate
  an object and may throw return the result together with the object's new state, since
  the mutations made before a throw remain.
\<close>

definition HASHLEN :: nat where "HASHLEN = 32"
definition DHLEN :: nat where "DHLEN = 32"

definition noiseNonce :: "nat \<Rightarrow> bytes" where
  "noiseNonce n = replicate 4 0 @ rev (be_bytes 8 n)"

definition encryptWithAd :: "crypto \<Rightarrow> bytes \<Rightarrow> nat \<Rightarrow> bytes \<Rightarrow> bytes \<Rightarrow> bytes" where
  "encryptWithAd c k n ad plaintext = aeadSeal c k (noiseNonce n) ad plaintext"

definition decryptWithAd :: "crypto \<Rightarrow> bytes \<Rightarrow> nat \<Rightarrow> bytes \<Rightarrow> bytes \<Rightarrow> bytes option" where
  "decryptWithAd c k n ad ciphertext = aeadOpen c k (noiseNonce n) ad ciphertext"

definition MAX_NONCE :: nat where "MAX_NONCE = 0xffffffffffffffff"

definition rekey :: "crypto \<Rightarrow> bytes \<Rightarrow> bytes" where
  "rekey c k = take 32 (encryptWithAd c k MAX_NONCE [] (replicate 32 0))"

definition hkdf2 :: "crypto \<Rightarrow> bytes \<Rightarrow> bytes \<Rightarrow> bytes \<times> bytes" where
  "hkdf2 c ck ikm = (let out = hkdfSha256 c ikm ck [] (2 * HASHLEN) in (take HASHLEN out, drop HASHLEN out))"

section \<open>SymmetricState\<close>

record symmetric_state =
  ss_ck :: bytes
  ss_h :: bytes
  ss_k :: "bytes option"
  ss_n :: nat

definition SymmetricState :: "crypto \<Rightarrow> jsstring \<Rightarrow> symmetric_state" where
  "SymmetricState c protocolName =
     (let name = textEncode protocolName;
          h = (if length name \<le> HASHLEN then name @ replicate (HASHLEN - length name) 0 else sha256 c name)
      in \<lparr>ss_ck = h, ss_h = h, ss_k = None, ss_n = 0\<rparr>)"

definition mixHash :: "crypto \<Rightarrow> bytes \<Rightarrow> symmetric_state \<Rightarrow> symmetric_state" where
  "mixHash c d st = st\<lparr>ss_h := sha256 c (ss_h st @ d)\<rparr>"

definition mixKey :: "crypto \<Rightarrow> bytes \<Rightarrow> symmetric_state \<Rightarrow> symmetric_state" where
  "mixKey c ikm st = (let (ck, tempK) = hkdf2 c (ss_ck st) ikm in
     st\<lparr>ss_ck := ck, ss_k := Some tempK, ss_n := 0\<rparr>)"

definition encryptAndHash :: "crypto \<Rightarrow> bytes \<Rightarrow> symmetric_state \<Rightarrow> bytes \<times> symmetric_state" where
  "encryptAndHash c plaintext st = (case ss_k st of
     None \<Rightarrow> (plaintext, mixHash c plaintext st)
   | Some k \<Rightarrow> (let ciphertext = encryptWithAd c k (ss_n st) (ss_h st) plaintext in
       (ciphertext, mixHash c ciphertext (st\<lparr>ss_n := ss_n st + 1\<rparr>))))"

definition decryptAndHash :: "crypto \<Rightarrow> bytes \<Rightarrow> symmetric_state \<Rightarrow> bytes result \<times> symmetric_state" where
  "decryptAndHash c ciphertext st = (case ss_k st of
     None \<Rightarrow> (Inr ciphertext, mixHash c ciphertext st)
   | Some k \<Rightarrow> (case decryptWithAd c k (ss_n st) (ss_h st) ciphertext of
       None \<Rightarrow> (Inl (NoiseError NK_decrypt), st)
     | Some plaintext \<Rightarrow> (Inr plaintext, mixHash c ciphertext (st\<lparr>ss_n := ss_n st + 1\<rparr>))))"

definition ss_split :: "crypto \<Rightarrow> symmetric_state \<Rightarrow> (bytes \<times> bytes) \<times> symmetric_state" where
  "ss_split c st = (hkdf2 c (ss_ck st) [], st\<lparr>ss_ck := wipe (ss_ck st), ss_k := None\<rparr>)"

record noise_split =
  ns_sendKey :: bytes
  ns_receiveKey :: bytes
  ns_handshakeHash :: bytes

definition dh :: "crypto \<Rightarrow> bytes \<Rightarrow> bytes \<Rightarrow> bytes result" where
  "dh c secretKey publicKey = (case x25519 c secretKey publicKey of
     Inl _ \<Rightarrow> Inl (NoiseError NK_dh) | Inr s \<Rightarrow> Inr s)"

section \<open>Initiator\<close>

datatype ni_step = Write1 | Read2 | InitDone

record nk_initiator =
  ni_ss :: symmetric_state
  ni_rs :: bytes
  ni_e :: x25519_key_pair
  ni_step :: ni_step

definition NkInitiator :: "crypto \<Rightarrow> bytes \<Rightarrow> bytes \<Rightarrow> x25519_key_pair \<Rightarrow> nk_initiator" where
  "NkInitiator c prologue responderStatic ephemeral =
     \<lparr>ni_ss = mixHash c responderStatic (mixHash c prologue (SymmetricState c NOISE_PROTOCOL_NAME)),
      ni_rs = responderStatic, ni_e = ephemeral, ni_step = Write1\<rparr>"

definition writeMessage1 :: "crypto \<Rightarrow> bytes \<Rightarrow> nk_initiator \<Rightarrow> bytes result \<times> nk_initiator" where
  "writeMessage1 c payload st =
     (if ni_step st \<noteq> Write1 then (Inl (NoiseError NK_state), st)
      else let ss = mixHash c (kp_publicKey (ni_e st)) (ni_ss st);
               st' = st\<lparr>ni_step := Read2, ni_ss := ss\<rparr> in
        case dh c (kp_secretKey (ni_e st)) (ni_rs st) of
          Inl e \<Rightarrow> (Inl e, st')
        | Inr s \<Rightarrow>
            let (ct, ss') = encryptAndHash c payload (mixKey c s ss) in
            (Inr (kp_publicKey (ni_e st) @ ct), st'\<lparr>ni_ss := ss'\<rparr>))"

definition wipe_e :: "x25519_key_pair \<Rightarrow> x25519_key_pair" where
  "wipe_e e = e\<lparr>kp_secretKey := wipe (kp_secretKey e)\<rparr>"

definition readMessage2 :: "crypto \<Rightarrow> bytes \<Rightarrow> nk_initiator \<Rightarrow> (bytes \<times> noise_split) result \<times> nk_initiator" where
  "readMessage2 c message st =
     (if ni_step st \<noteq> Read2 then (Inl (NoiseError NK_state), st)
      else let st' = st\<lparr>ni_step := InitDone, ni_e := wipe_e (ni_e st)\<rparr> in
        if length message < DHLEN then (Inl (NoiseError NK_decrypt), st')
        else let re = take DHLEN message; ss = mixHash c re (ni_ss st) in
          case dh c (kp_secretKey (ni_e st)) re of
            Inl e \<Rightarrow> (Inl e, st'\<lparr>ni_ss := ss\<rparr>)
          | Inr s \<Rightarrow>
              (case decryptAndHash c (drop DHLEN message) (mixKey c s ss) of
                (Inl e, ss2) \<Rightarrow> (Inl e, st'\<lparr>ni_ss := ss2\<rparr>)
              | (Inr payload, ss2) \<Rightarrow>
                  let ((k1, k2), ss3) = ss_split c ss2 in
                  (Inr (payload, \<lparr>ns_sendKey = k1, ns_receiveKey = k2, ns_handshakeHash = ss_h ss2\<rparr>),
                   st'\<lparr>ni_ss := ss3\<rparr>)))"

section \<open>Responder\<close>

datatype nr_step = Read1 | Write2 | RespDone

record nk_responder =
  nr_ss :: symmetric_state
  nr_s :: x25519_key_pair
  nr_e :: x25519_key_pair
  nr_step :: nr_step
  nr_re :: "bytes option"

definition NkResponder :: "crypto \<Rightarrow> bytes \<Rightarrow> x25519_key_pair \<Rightarrow> x25519_key_pair \<Rightarrow> nk_responder" where
  "NkResponder c prologue staticKey ephemeral =
     \<lparr>nr_ss = mixHash c (kp_publicKey staticKey) (mixHash c prologue (SymmetricState c NOISE_PROTOCOL_NAME)),
      nr_s = staticKey, nr_e = ephemeral, nr_step = Read1, nr_re = None\<rparr>"

definition readMessage1 :: "crypto \<Rightarrow> bytes \<Rightarrow> nk_responder \<Rightarrow> bytes result \<times> nk_responder" where
  "readMessage1 c message st =
     (if nr_step st \<noteq> Read1 then (Inl (NoiseError NK_state), st)
      else let st' = st\<lparr>nr_step := Write2\<rparr>; dead = st'\<lparr>nr_e := wipe_e (nr_e st)\<rparr> in
        if length message < DHLEN then (Inl (NoiseError NK_decrypt), dead)
        else let re = take DHLEN message; ss = mixHash c re (nr_ss st) in
          case dh c (kp_secretKey (nr_s st)) re of
            Inl e \<Rightarrow> (Inl e, dead\<lparr>nr_ss := ss\<rparr>)
          | Inr s \<Rightarrow>
              (case decryptAndHash c (drop DHLEN message) (mixKey c s ss) of
                (Inl e, ss2) \<Rightarrow> (Inl e, dead\<lparr>nr_ss := ss2\<rparr>)
              | (Inr payload, ss2) \<Rightarrow> (Inr payload, st'\<lparr>nr_ss := ss2, nr_re := Some re\<rparr>)))"

definition writeMessage2 :: "crypto \<Rightarrow> bytes \<Rightarrow> nk_responder \<Rightarrow> (bytes \<times> noise_split) result \<times> nk_responder" where
  "writeMessage2 c payload st = (case (nr_step st, nr_re st) of
     (Write2, Some re) \<Rightarrow>
       let ss = mixHash c (kp_publicKey (nr_e st)) (nr_ss st);
           st' = st\<lparr>nr_step := RespDone, nr_e := wipe_e (nr_e st)\<rparr> in
       (case dh c (kp_secretKey (nr_e st)) re of
          Inl e \<Rightarrow> (Inl e, st'\<lparr>nr_ss := ss\<rparr>)
        | Inr s \<Rightarrow>
            let (ct, ss2) = encryptAndHash c payload (mixKey c s ss);
                ((k1, k2), ss3) = ss_split c ss2 in
            (Inr (kp_publicKey (nr_e st) @ ct, \<lparr>ns_sendKey = k2, ns_receiveKey = k1, ns_handshakeHash = ss_h ss2\<rparr>),
             st'\<lparr>nr_ss := ss3\<rparr>))
   | _ \<Rightarrow> (Inl (NoiseError NK_state), st))"

section \<open>Agreement\<close>

text \<open>A key pair whose public half belongs to its secret, in canonical form.\<close>

definition good_pair :: "crypto \<Rightarrow> x25519_key_pair \<Rightarrow> bool" where
  "good_pair c kp \<longleftrightarrow> length (kp_secretKey kp) = 32 \<and> kp_publicKey kp = cr_scalarMultBase c (kp_secretKey kp) \<and>
     assertCanonicalX25519 (kp_publicKey kp) = Inr ()"

lemma dh_agrees:
  assumes "dh_commutes c" "good_pair c a" "good_pair c b"
  shows "dh c (kp_secretKey a) (kp_publicKey b) = dh c (kp_secretKey b) (kp_publicKey a)"
proof -
  have eq: "cr_scalarMult c (kp_secretKey a) (kp_publicKey b) = cr_scalarMult c (kp_secretKey b) (kp_publicKey a)"
    using assms by (simp add: dh_commutes_def good_pair_def)
  have ok: "assertCanonicalX25519 (kp_publicKey a) = Inr ()" "assertCanonicalX25519 (kp_publicKey b) = Inr ()"
    "length (kp_secretKey a) = 32" "length (kp_secretKey b) = 32"
    using assms(2,3) unfolding good_pair_def by blast+
  show ?thesis unfolding dh_def x25519_def eq by (simp add: ok X25519_KEY_LENGTH_def)
qed

lemma decrypt_encrypt_hash:
  assumes "aead_correct c" "encryptAndHash c p st = (ct, st')"
  shows "decryptAndHash c ct st = (Inr p, st')"
proof (cases "ss_k st")
  case None
  with assms(2) show ?thesis by (auto simp: encryptAndHash_def decryptAndHash_def)
next
  case (Some k)
  with assms(2) aeadOpen_Seal [OF assms(1)] show ?thesis
    by (auto simp: encryptAndHash_def decryptAndHash_def encryptWithAd_def decryptWithAd_def Let_def)
qed

lemma read_write_message1:
  assumes "aead_correct c" "dh_commutes c" "good_pair c s" "good_pair c ei"
    and "writeMessage1 c p (NkInitiator c prologue (kp_publicKey s) ei) = (Inr m, st)"
  shows "ni_step st = Read2" "ni_e st = ei" "length (kp_publicKey ei) = 32"
    "readMessage1 c m (NkResponder c prologue s er) = (Inr p, \<lparr>nr_ss = ni_ss st, nr_s = s, nr_e = er,
       nr_step = Write2, nr_re = Some (kp_publicKey ei)\<rparr>)"
proof -
  show len: "length (kp_publicKey ei) = 32" using assms(4) canonical_length by (auto simp: good_pair_def)
  let ?ss0 = "mixHash c (kp_publicKey s) (mixHash c prologue (SymmetricState c NOISE_PROTOCOL_NAME))"
  let ?ss = "mixHash c (kp_publicKey ei) ?ss0"
  obtain sh where sh: "dh c (kp_secretKey ei) (kp_publicKey s) = Inr sh"
    using assms(5) by (auto simp: writeMessage1_def NkInitiator_def Let_def split: sum.splits)
  obtain ct ss' where ct: "encryptAndHash c p (mixKey c sh ?ss) = (ct, ss')" by fastforce
  have m: "m = kp_publicKey ei @ ct" "ni_ss st = ss'" and st: "ni_step st = Read2" "ni_e st = ei"
    using assms(5) sh ct by (auto simp: writeMessage1_def NkInitiator_def Let_def)
  show "ni_step st = Read2" "ni_e st = ei" using st .
  have "dh c (kp_secretKey s) (kp_publicKey ei) = Inr sh" using dh_agrees [OF assms(2,4,3)] sh by simp
  with decrypt_encrypt_hash [OF assms(1) ct] m len
  show "readMessage1 c m (NkResponder c prologue s er) = (Inr p, \<lparr>nr_ss = ni_ss st, nr_s = s, nr_e = er,
       nr_step = Write2, nr_re = Some (kp_publicKey ei)\<rparr>)"
    by (simp add: readMessage1_def NkResponder_def Let_def DHLEN_def)
qed

lemma read_write_message2:
  assumes "aead_correct c" "dh_commutes c" "good_pair c ei" "good_pair c er" "ni_step st = Read2" "ni_e st = ei"
    and w: "writeMessage2 c p \<lparr>nr_ss = ni_ss st, nr_s = s, nr_e = er, nr_step = Write2, nr_re = Some (kp_publicKey ei)\<rparr>
      = (Inr (m, spR), rt)"
  shows "\<exists>spI st'. readMessage2 c m st = (Inr (p, spI), st') \<and> ns_sendKey spI = ns_receiveKey spR \<and>
    ns_receiveKey spI = ns_sendKey spR \<and> ns_handshakeHash spI = ns_handshakeHash spR"
proof -
  have len: "length (kp_publicKey er) = 32" using assms(4) canonical_length by (auto simp: good_pair_def)
  let ?ss = "mixHash c (kp_publicKey er) (ni_ss st)"
  obtain sh where sh: "dh c (kp_secretKey er) (kp_publicKey ei) = Inr sh"
    using w by (auto simp: writeMessage2_def Let_def split: sum.splits)
  obtain ct ss2 where ct: "encryptAndHash c p (mixKey c sh ?ss) = (ct, ss2)" by fastforce
  obtain k1 k2 ss3 where sp: "ss_split c ss2 = ((k1, k2), ss3)" by (metis surj_pair)
  have m: "m = kp_publicKey er @ ct" "spR = \<lparr>ns_sendKey = k2, ns_receiveKey = k1, ns_handshakeHash = ss_h ss2\<rparr>"
    using w sh ct sp by (auto simp: writeMessage2_def Let_def)
  have "dh c (kp_secretKey ei) (kp_publicKey er) = Inr sh" using dh_agrees [OF assms(2,3,4)] sh by simp
  with decrypt_encrypt_hash [OF assms(1) ct] m len sp assms(5,6) show ?thesis
    by (simp add: readMessage2_def Let_def DHLEN_def)
qed

lemma readMessage2_step: "ni_step st = Read2 \<Longrightarrow> readMessage2 c m st = (r, st') \<Longrightarrow>
    ni_step st' = InitDone \<and> ni_e st' = wipe_e (ni_e st)"
  by (auto simp: readMessage2_def Let_def split: if_splits sum.splits prod.splits)

lemma writeMessage2_step: "nr_step st = Write2 \<Longrightarrow> nr_re st = Some re \<Longrightarrow> writeMessage2 c p st = (r, st') \<Longrightarrow>
    nr_step st' = RespDone \<and> nr_e st' = wipe_e (nr_e st)"
  by (auto simp: writeMessage2_def Let_def split: sum.splits prod.splits)

section \<open>Properties\<close>

text \<open>
  C21. The two sides agree. With correct AEAD and commuting Diffie-Hellman, key pairs that belong together and the same
  prologue: whatever message 1 the initiator writes, the responder reads with its
  payload; and whatever message 2 it then writes, the initiator reads with its payload, and the
  initiator's sending key is the responder's receiving key, and conversely, with the
  same handshake hash.
\<close>

theorem noise_agreement:
  assumes "aead_correct c" and "dh_commutes c"
    and "good_pair c s" and "good_pair c ei" and "good_pair c er"
    and "writeMessage1 c p1 (NkInitiator c prologue (kp_publicKey s) ei) = (Inr m1, i1)"
  shows "\<exists>r1. readMessage1 c m1 (NkResponder c prologue s er) = (Inr p1, r1) \<and>
    (\<forall>m2 spR r2. writeMessage2 c p2 r1 = (Inr (m2, spR), r2) \<longrightarrow>
      (\<exists>spI i2. readMessage2 c m2 i1 = (Inr (p2, spI), i2) \<and> ns_sendKey spI = ns_receiveKey spR \<and>
        ns_receiveKey spI = ns_sendKey spR \<and> ns_handshakeHash spI = ns_handshakeHash spR))"
proof -
  note r = read_write_message1 [OF assms(1-4,6)]
  show ?thesis
    using r(4) [of er] read_write_message2 [OF assms(1,2,4,5) r(1,2)] by blast
qed

text \<open>
  A handshake object is used once. Whatever message 2 arrives, genuine or not, reading it
  ends the initiator and erases its ephemeral secret; from then on both of its
  operations refuse without changing it.
\<close>

theorem initiator_single_use:
  assumes "ni_step st = Read2" and "readMessage2 c m st = (r, st')"
  shows "set (kp_secretKey (ni_e st')) \<subseteq> {0} \<and>
    readMessage2 c m' st' = (Inl (NoiseError NK_state), st') \<and> writeMessage1 c p st' = (Inl (NoiseError NK_state), st')"
  using readMessage2_step [OF assms]
  by (auto simp: readMessage2_def writeMessage1_def wipe_e_def wipe_def)

text \<open>Witnesses.\<close>

lemma sample_dh: "dh_commutes sample_crypto"
proof -
  have "map2 (XOR) a b = map2 (XOR) b (a :: bytes)" for a b
    by (induction a b rule: list_induct2') (auto simp: xor.commute)
  then show ?thesis by (simp add: dh_commutes_def sample_crypto_def)
qed

lemma sample_aead: "aead_correct sample_crypto"
  by (simp add: aead_correct_def sample_crypto_def)

abbreviation sample_pair :: "byte \<Rightarrow> x25519_key_pair" where
  "sample_pair b \<equiv> \<lparr>kp_publicKey = b # replicate 31 0, kp_secretKey = b # replicate 31 0\<rparr>"

lemma sample_good_pair: "good_pair sample_crypto (sample_pair b)"
proof -
  have "be_nat (rev (b # replicate 31 0)) = unat b" using be_nat_zeros [of 31 "[b]"] by simp
  then show ?thesis using unat_byte_less [of b]
    by (simp add: good_pair_def sample_crypto_def assertCanonicalX25519_def X25519_KEY_LENGTH_def littleEndian_eq P_def)
qed

lemma sample_write1:
  "\<exists>m st. writeMessage1 sample_crypto [] (NkInitiator sample_crypto [1] (kp_publicKey (sample_pair 9)) (sample_pair 3)) = (Inr m, st)"
proof -
  have "assertCanonicalX25519 (9 # replicate 31 0) = Inr ()"
    using sample_good_pair [of 9] by (simp add: good_pair_def)
  moreover have "\<not> isAllZero (map2 (XOR) (3 # replicate 31 0) (9 # replicate 31 (0 :: byte)))"
    by (simp add: isAllZero_iff)
  ultimately have "dh sample_crypto (3 # replicate 31 0) (9 # replicate 31 0) = Inr (map2 (XOR) (3 # replicate 31 0) (9 # replicate 31 0))"
    unfolding dh_def x25519_def by (simp add: X25519_KEY_LENGTH_def sample_crypto_def Let_def)
  then show ?thesis
    by (simp add: writeMessage1_def NkInitiator_def Let_def split: prod.splits)
qed

theorem noise_agreement_witness:
  "\<exists>m st r1. writeMessage1 sample_crypto [] (NkInitiator sample_crypto [1] (kp_publicKey (sample_pair 9)) (sample_pair 3)) = (Inr m, st) \<and>
    readMessage1 sample_crypto m (NkResponder sample_crypto [1] (sample_pair 9) (sample_pair 5)) = (Inr [], r1)"
proof -
  obtain m st where w: "writeMessage1 sample_crypto [] (NkInitiator sample_crypto [1] (kp_publicKey (sample_pair 9)) (sample_pair 3)) = (Inr m, st)"
    using sample_write1 by blast
  from noise_agreement [OF sample_aead sample_dh sample_good_pair sample_good_pair sample_good_pair w] w
  show ?thesis by blast
qed

theorem initiator_single_use_witness:
  "\<exists>m st st'. writeMessage1 sample_crypto [] (NkInitiator sample_crypto [1] (kp_publicKey (sample_pair 9)) (sample_pair 3)) = (Inr m, st) \<and>
    readMessage2 sample_crypto [1, 2, 3] st = (Inl (NoiseError NK_decrypt), st') \<and> set (kp_secretKey (ni_e st')) \<subseteq> {0}"
proof -
  obtain m st where w: "writeMessage1 sample_crypto [] (NkInitiator sample_crypto [1] (kp_publicKey (sample_pair 9)) (sample_pair 3)) = (Inr m, st)"
    using sample_write1 by blast
  have st: "ni_step st = Read2"
    using read_write_message1(1) [OF sample_aead sample_dh sample_good_pair sample_good_pair w] .
  then obtain st' where r: "readMessage2 sample_crypto [1, 2, 3] st = (Inl (NoiseError NK_decrypt), st')"
    by (simp add: readMessage2_def DHLEN_def Let_def)
  from initiator_single_use [OF st r] w r show ?thesis by blast
qed

end
