(* ===== verification/Grants.thy ===== *)
theory Grants
  imports Encoding Scope "HOL-Library.List_Lexorder"
begin

text \<open>
  \<^verbatim>\<open>packages/crypto/src/grants.ts\<close>: grants, their canonical bytes, signing, and the verification
  of a chain of grants from a leaf key to a trusted root. The Ed25519 functions of
  \<^verbatim>\<open>tweetnacl\<close> are arguments: \<open>verify message signature key\<close> and \<open>sign message secret\<close>.
\<close>

type_synonym ed_verify = "bytes \<Rightarrow> bytes \<Rightarrow> bytes \<Rightarrow> bool"
type_synonym ed_sign = "bytes \<Rightarrow> bytes \<Rightarrow> bytes"

section \<open>Data\<close>

datatype purpose = DELEGATE | SERVICE_NODE | DOMAIN_RECORDS | RELAY | CLIENT

fun GrantPurpose :: "purpose \<Rightarrow> jsstring" where
  "GrantPurpose DELEGATE = js ''delegate''"
| "GrantPurpose SERVICE_NODE = js ''service-node''"
| "GrantPurpose DOMAIN_RECORDS = js ''domain-records''"
| "GrantPurpose RELAY = js ''relay''"
| "GrantPurpose CLIENT = js ''client''"

definition SCOPED_PURPOSES :: "purpose list" where
  "SCOPED_PURPOSES = [SERVICE_NODE, DOMAIN_RECORDS, RELAY]"

definition PURPOSES :: "purpose list" where
  "PURPOSES = [DELEGATE, SERVICE_NODE, DOMAIN_RECORDS, RELAY, CLIENT]"

definition purpose_of :: "jsstring \<Rightarrow> purpose option" where
  "purpose_of s = find (\<lambda>p. GrantPurpose p = s) PURPOSES"

datatype verify_failure =
    Bad_signature | Not_yet_valid | Expired | Revoked | Purpose_not_granted | Scope_mismatch
  | Scope_required | Window_not_nested | Chain_broken | Chain_too_long | Untrusted_root
  | Rolled_back | Malformed

record verified_chain =
  vc_purposes :: "purpose list"
  vc_subject :: bytes
  vc_scope :: "jsstring option"
  vc_notBefore :: nat
  vc_notAfter :: nat
  vc_serials :: "(jsstring \<times> nat) list"

datatype verify_result = Verified verified_chain | Failed verify_failure

definition MAX_CHAIN_DEPTH :: nat where "MAX_CHAIN_DEPTH = 4"

definition GRANT_CONTEXT :: jsstring where "GRANT_CONTEXT = js ''tnp-grant-v2''"

definition GRANT_FIELDS :: "jsstring list" where
  "GRANT_FIELDS = [js ''issuer'', js ''subject'', js ''purposes'', js ''notBefore'', js ''notAfter'',
     js ''serial'', js ''scope'', js ''signature'']"

record parsed_grant =
  pg_issuer :: bytes
  pg_subject :: bytes
  pg_issuerHex :: jsstring
  pg_subjectHex :: jsstring
  pg_purposes :: "purpose list"
  pg_notBefore :: nat
  pg_notAfter :: nat
  pg_serial :: nat
  pg_scope :: "jsstring option"

section \<open>Parsing\<close>

fun parse_purposes :: "jsval list \<Rightarrow> purpose list \<Rightarrow> purpose list result" where
  "parse_purposes [] acc = Inr acc"
| "parse_purposes (p # ps) acc =
     (case as_string p of
        None \<Rightarrow> Inl EncodingError
      | Some s \<Rightarrow> (case purpose_of s of
          None \<Rightarrow> Inl EncodingError
        | Some q \<Rightarrow> if q \<in> set acc then Inl EncodingError else parse_purposes ps (acc @ [q])))"

definition parse_scope :: "jsval \<Rightarrow> purpose list \<Rightarrow> jsstring option result" where
  "parse_scope v purposes =
     (if v \<noteq> Undefined then
        (if \<not> isValidScope v then Inl EncodingError else Inr (as_string v))
      else if DELEGATE \<notin> set purposes \<and> list_ex (\<lambda>p. p \<in> set SCOPED_PURPOSES) purposes
        then Inl EncodingError
      else Inr None)"

definition parseUnsigned :: "jsval \<Rightarrow> bool \<Rightarrow> parsed_grant result" where
  "parseUnsigned g allowSignature =
     (if \<not> is_object g then Inl EncodingError
      else if list_ex (\<lambda>key. key \<notin> set GRANT_FIELDS \<or> key = js ''signature'' \<and> \<not> allowSignature) (object_keys g)
        then Inl EncodingError
      else case (as_string (js_prop g (js ''issuer'')), as_string (js_prop g (js ''subject''))) of
        (Some i, Some s) \<Rightarrow>
          rbind (parsePublicKey (KeyString i)) (\<lambda>issuer.
          rbind (parsePublicKey (KeyString s)) (\<lambda>subject.
            if bytesEqual issuer subject then Inl EncodingError
            else case as_array (js_prop g (js ''purposes'')) of
              None \<Rightarrow> Inl EncodingError
            | Some ps \<Rightarrow>
                if length ps = 0 then Inl EncodingError
                else rbind (parse_purposes ps []) (\<lambda>purposes.
                  rbind (assertUint (js_prop g (js ''notBefore''))) (\<lambda>notBefore.
                  rbind (assertUint (js_prop g (js ''notAfter''))) (\<lambda>notAfter.
                  rbind (assertUint (js_prop g (js ''serial''))) (\<lambda>serial.
                    if notAfter \<le> notBefore then Inl EncodingError
                    else rbind (parse_scope (js_prop g (js ''scope'')) purposes) (\<lambda>scope.
                      Inr \<lparr>pg_issuer = issuer, pg_subject = subject,
                           pg_issuerHex = toHex issuer, pg_subjectHex = toHex subject,
                           pg_purposes = purposes, pg_notBefore = notBefore, pg_notAfter = notAfter,
                           pg_serial = serial, pg_scope = scope\<rparr>)))))))
      | _ \<Rightarrow> Inl EncodingError)"

definition js_nat :: "nat \<Rightarrow> jsval" where
  "js_nat n = JNum (js_int (int n))"

definition encodeParsed :: "parsed_grant \<Rightarrow> bytes result" where
  "encodeParsed g =
     rbind (w_fixed (w_string [] GRANT_CONTEXT) (pg_issuer g) PUBLIC_KEY_LENGTH) (\<lambda>w.
     rbind (w_fixed w (pg_subject g) PUBLIC_KEY_LENGTH) (\<lambda>w.
     rbind (w_uint (w_string w (join_with 44 (sort (map GrantPurpose (pg_purposes g))))) (js_nat (pg_notBefore g))) (\<lambda>w.
     rbind (w_uint w (js_nat (pg_notAfter g))) (\<lambda>w.
     rbind (w_uint w (js_nat (pg_serial g))) (\<lambda>w.
       Inr (w_finish (w_string w (nullish (pg_scope g) []))))))))"

definition canonicalGrantBytes :: "jsval \<Rightarrow> bytes result" where
  "canonicalGrantBytes g = rbind (parseUnsigned g False) encodeParsed"

section \<open>Signing\<close>

definition SECRET_KEY_LENGTH :: nat where
  "SECRET_KEY_LENGTH = 64" \<comment> \<open>\<open>nacl.sign.secretKeyLength\<close>\<close>

definition assertSecretMatches :: "bytes \<Rightarrow> bytes \<Rightarrow> unit result" where
  "assertSecretMatches secretKey publicKey =
     (if length secretKey \<noteq> SECRET_KEY_LENGTH then Inl EncodingError
      else if \<not> bytesEqual (drop 32 secretKey) publicKey then Inl EncodingError
      else Inr ())"

text \<open>The object spread \<^verbatim>\<open>{ ...grant, signature }\<close>: the property is replaced in place or added last.\<close>

fun with_prop :: "jsval \<Rightarrow> jsstring \<Rightarrow> jsval \<Rightarrow> jsval" where
  "with_prop (JObj ps) k v = JObj (AList.update k v ps)"
| "with_prop x k v = x"

definition signGrant :: "ed_sign \<Rightarrow> jsval \<Rightarrow> bytes \<Rightarrow> jsval result" where
  "signGrant sign g issuerSecretKey =
     rbind (parseUnsigned g False) (\<lambda>parsed.
     rbind (assertSecretMatches issuerSecretKey (pg_issuer parsed)) (\<lambda>_.
     rbind (encodeParsed parsed) (\<lambda>msg.
       Inr (with_prop g (js ''signature'') (JStr (encodeBase64 (sign msg issuerSecretKey)))))))"

definition serialKey :: "key_input \<Rightarrow> key_input \<Rightarrow> jsstring result" where
  "serialKey issuer subject =
     rbind (parsePublicKey issuer) (\<lambda>i. rbind (parsePublicKey subject) (\<lambda>s.
       Inr (toHex i @ [124] @ toHex s)))"

section \<open>Verification\<close>

record verify_options =
  vo_trustedRoots :: "key_input list"
  vo_now :: js_number
  vo_revoked :: "key_input list option"
  vo_knownSerials :: "(jsstring \<rightharpoonup> js_number) option"
  vo_requirePurpose :: purpose
  vo_requireScope :: "jsstring option"

definition seen_serial :: "verify_options \<Rightarrow> parsed_grant \<Rightarrow> js_number option" where
  "seen_serial opts g = (case vo_knownSerials opts of
     None \<Rightarrow> None | Some m \<Rightarrow> m (pg_issuerHex g @ [124] @ pg_subjectHex g))"

text \<open>The checks of one grant and of its link to the grant below it, in the order of the loop body.\<close>

definition check_self :: "ed_verify \<Rightarrow> jsstring list \<Rightarrow> verify_options \<Rightarrow> parsed_grant \<Rightarrow> bytes
    \<Rightarrow> verify_failure option result" where
  "check_self verify revoked opts g signature =
     (if pg_subjectHex g \<in> set revoked then Inr (Some Revoked)
      else if pg_issuerHex g \<in> set revoked then Inr (Some Revoked)
      else if int_of (vo_now opts) < int (pg_notBefore g) then Inr (Some Not_yet_valid)
      else if int_of (vo_now opts) \<ge> int (pg_notAfter g) then Inr (Some Expired)
      else if (case seen_serial opts g of None \<Rightarrow> False
               | Some seen \<Rightarrow> js_less (js_int (int (pg_serial g))) seen) then Inr (Some Rolled_back)
      else rbind (encodeParsed g) (\<lambda>msg.
        if \<not> verify msg signature (pg_issuer g) then Inr (Some Bad_signature) else Inr None))"

definition check_link :: "parsed_grant \<Rightarrow> parsed_grant \<Rightarrow> verify_failure option" where
  "check_link child g =
     (if \<not> bytesEqual (pg_subject g) (pg_issuer child) then Some Chain_broken
      else if DELEGATE \<notin> set (pg_purposes g) then Some Purpose_not_granted
      else if find (\<lambda>p. p \<notin> set (pg_purposes g)) (pg_purposes child) \<noteq> None then Some Purpose_not_granted
      else if (case pg_scope g of None \<Rightarrow> False
               | Some outer \<Rightarrow> (case pg_scope child of None \<Rightarrow> True | Some inner \<Rightarrow> \<not> scopeCovers outer inner))
        then Some Scope_mismatch
      else if pg_notBefore child < pg_notBefore g \<or> pg_notAfter child > pg_notAfter g then Some Window_not_nested
      else None)"

fun check_all :: "ed_verify \<Rightarrow> jsstring list \<Rightarrow> verify_options \<Rightarrow> parsed_grant option
    \<Rightarrow> (parsed_grant \<times> bytes) list \<Rightarrow> verify_failure option result" where
  "check_all verify revoked opts child [] = Inr None"
| "check_all verify revoked opts child ((g, signature) # rest) =
     rbind (check_self verify revoked opts g signature) (\<lambda>r. case r of
       Some f \<Rightarrow> Inr (Some f)
     | None \<Rightarrow> (case (case child of None \<Rightarrow> None | Some c \<Rightarrow> check_link c g) of
         Some f \<Rightarrow> Inr (Some f)
       | None \<Rightarrow> check_all verify revoked opts (Some g) rest))"

definition parse_signed :: "jsval \<Rightarrow> (parsed_grant \<times> bytes) result" where
  "parse_signed g = rbind (parseUnsigned g True) (\<lambda>p.
     rbind (decodeBase64Strict (js_prop g (js ''signature'')) (Some SIGNATURE_LENGTH)) (\<lambda>s. Inr (p, s)))"

text \<open>What follows the loop: repeated keys, the root, the leaf's purpose, and the result.\<close>

definition chain_outcome :: "jsstring list \<Rightarrow> verify_options \<Rightarrow> parsed_grant list \<Rightarrow> verify_result" where
  "chain_outcome roots opts parsed =
     (let leaf = hd parsed;
          keys = pg_subjectHex leaf # map pg_issuerHex parsed;
          root = last parsed in
      if card (set keys) \<noteq> length keys then Failed Malformed
      else if pg_issuerHex root \<notin> set roots then Failed Untrusted_root
      else if vo_requirePurpose opts \<notin> set (pg_purposes leaf) then Failed Purpose_not_granted
      else Verified \<lparr>vc_purposes = pg_purposes leaf, vc_subject = pg_subject leaf,
             vc_scope = pg_scope leaf, vc_notBefore = pg_notBefore leaf, vc_notAfter = pg_notAfter leaf,
             vc_serials = map (\<lambda>g. (pg_issuerHex g @ [124] @ pg_subjectHex g, pg_serial g)) parsed\<rparr>)"

definition verifyChainCore :: "ed_verify \<Rightarrow> jsval \<Rightarrow> verify_options \<Rightarrow> verify_result result" where
  "verifyChainCore verify chain opts =
     (if \<not> isSafeInteger (vo_now opts) \<or> js_less (vo_now opts) (js_int 0) then Inl EncodingError
      else rbind (rmap parsePublicKey (vo_trustedRoots opts)) (\<lambda>rootKeys.
        rbind (rmap parsePublicKey (nullish (vo_revoked opts) [])) (\<lambda>revokedKeys.
          let roots = map toHex rootKeys; revoked = map toHex revokedKeys in
          case as_array chain of
            None \<Rightarrow> Inr (Failed Malformed)
          | Some grants \<Rightarrow>
              if length grants = 0 then Inr (Failed Malformed)
              else if length grants > MAX_CHAIN_DEPTH then Inr (Failed Chain_too_long)
              else (case rmap parse_signed grants of
                Inl _ \<Rightarrow> Inr (Failed Malformed)
              | Inr links \<Rightarrow>
                  rbind (check_all verify revoked opts None links) (\<lambda>failure.
                    case failure of
                      Some f \<Rightarrow> Inr (Failed f)
                    | None \<Rightarrow> Inr (chain_outcome roots opts (map fst links)))))))"

definition verifyChain :: "ed_verify \<Rightarrow> jsval \<Rightarrow> verify_options \<Rightarrow> verify_result result" where
  "verifyChain verify chain opts =
     (if (vo_requireScope opts \<noteq> None \<or> vo_requirePurpose opts \<in> set SCOPED_PURPOSES) \<and>
         \<not> (case vo_requireScope opts of None \<Rightarrow> isValidScope Undefined | Some s \<Rightarrow> isValidScope (JStr s))
      then Inr (Failed Scope_required)
      else rbind (verifyChainCore verify chain opts) (\<lambda>r. case r of
        Failed f \<Rightarrow> Inr (Failed f)
      | Verified v \<Rightarrow>
          if vo_requireScope opts \<noteq> None \<and> vc_scope v \<noteq> vo_requireScope opts then Inr (Failed Scope_mismatch)
          else Inr (Verified v)))"

section \<open>Parsed grants\<close>

lemma GrantPurpose_inject [simp]: "GrantPurpose p = GrantPurpose q \<longleftrightarrow> p = q"
  by (cases p; cases q) (simp_all add: js_def)

lemma purpose_of_iff: "purpose_of s = Some p \<longleftrightarrow> s = GrantPurpose p"
proof
  assume "purpose_of s = Some p"
  then show "s = GrantPurpose p" by (auto simp: purpose_of_def find_Some_iff)
next
  assume "s = GrantPurpose p"
  then show "purpose_of s = Some p" by (cases p) (simp_all add: purpose_of_def PURPOSES_def js_def)
qed

lemma parse_purposes_ok:
  "parse_purposes ps acc = Inr qs \<Longrightarrow> distinct acc \<Longrightarrow>
    distinct qs \<and> length qs = length acc + length ps \<and> qs = acc @ drop (length acc) qs"
proof (induction ps arbitrary: acc)
  case (Cons p ps)
  then obtain q where "parse_purposes ps (acc @ [q]) = Inr qs" "q \<notin> set acc"
    by (auto split: option.splits if_splits)
  with Cons.IH [of "acc @ [q]"] Cons.prems(2)
  have "distinct qs" "length qs = Suc (length acc + length ps)" "qs = acc @ q # drop (Suc (length acc)) qs" by auto
  then show ?case by (metis add_Suc_right append_eq_conv_conj list.size(4) add.right_neutral)
qed simp

definition wf_grant :: "parsed_grant \<Rightarrow> bool" where
  "wf_grant g \<longleftrightarrow> length (pg_issuer g) = 32 \<and> length (pg_subject g) = 32 \<and> pg_issuer g \<noteq> pg_subject g \<and>
     pg_issuerHex g = toHex (pg_issuer g) \<and> pg_subjectHex g = toHex (pg_subject g) \<and>
     pg_purposes g \<noteq> [] \<and> distinct (pg_purposes g) \<and>
     pg_notBefore g < pg_notAfter g \<and> int (pg_notAfter g) \<le> MAX_SAFE_INTEGER \<and>
     int (pg_serial g) \<le> MAX_SAFE_INTEGER \<and>
     (case pg_scope g of
        None \<Rightarrow> DELEGATE \<in> set (pg_purposes g) \<or> set (pg_purposes g) \<inter> set SCOPED_PURPOSES = {}
      | Some s \<Rightarrow> valid_name s)"

lemma parse_scope_ok:
  "parse_scope v ps = Inr sc \<Longrightarrow> (case sc of
     None \<Rightarrow> v = Undefined \<and> (DELEGATE \<in> set ps \<or> set ps \<inter> set SCOPED_PURPOSES = {})
   | Some s \<Rightarrow> v = JStr s \<and> valid_name s)"
  by (auto simp: parse_scope_def isValidScope_iff list_ex_iff split: if_splits)

lemma parseUnsigned_wf: "parseUnsigned g allow = Inr p \<Longrightarrow> wf_grant p"
proof -
  assume "parseUnsigned g allow = Inr p"
  then obtain i s ps purposes sc where
    k: "parsePublicKey (KeyString i) = Inr (pg_issuer p)" "parsePublicKey (KeyString s) = Inr (pg_subject p)"
      "pg_issuer p \<noteq> pg_subject p" "pg_issuerHex p = toHex (pg_issuer p)" "pg_subjectHex p = toHex (pg_subject p)"
    and ps: "ps \<noteq> []" "parse_purposes ps [] = Inr (pg_purposes p)"
    and n: "assertUint (js_prop g (js ''notBefore'')) = Inr (pg_notBefore p)"
      "assertUint (js_prop g (js ''notAfter'')) = Inr (pg_notAfter p)"
      "assertUint (js_prop g (js ''serial'')) = Inr (pg_serial p)" "pg_notBefore p < pg_notAfter p"
    and sc: "parse_scope (js_prop g (js ''scope'')) (pg_purposes p) = Inr (pg_scope p)"
    unfolding parseUnsigned_def
    by (auto simp: rbind_eq_Inr not_le split: if_splits option.splits)
  from parse_purposes_ok [OF ps(2)] ps(1) have "distinct (pg_purposes p)" "pg_purposes p \<noteq> []" by auto
  with k n parse_scope_ok [OF sc] show ?thesis
    by (auto simp: wf_grant_def assertUint_iff parsePublicKey_length split: option.splits)
qed

section \<open>The signed bytes determine the grant\<close>

definition purpose_text :: "parsed_grant \<Rightarrow> jsstring" where
  "purpose_text g = join_with 44 (sort (map GrantPurpose (pg_purposes g)))"

definition grant_fields :: "parsed_grant \<Rightarrow> field list" where
  "grant_fields g =
     [Prefixed (textEncode GRANT_CONTEXT), Fixed (pg_issuer g), Fixed (pg_subject g),
      Prefixed (textEncode (purpose_text g)), U64 (pg_notBefore g), U64 (pg_notAfter g), U64 (pg_serial g),
      Prefixed (textEncode (nullish (pg_scope g) []))]"

abbreviation grant_bytes :: "parsed_grant \<Rightarrow> bytes" where
  "grant_bytes g \<equiv> enc_fields (grant_fields g)"

lemma assertUint_js_nat: "assertUint (js_nat n) = (if int n \<le> MAX_SAFE_INTEGER then Inr n else Inl EncodingError)"
  by (simp add: assertUint_def js_nat_def isSafeInteger_def)

lemma encodeParsed_ok: "wf_grant g \<Longrightarrow> encodeParsed g = Inr (grant_bytes g)"
  by (simp add: encodeParsed_def w_fixed_def w_uint_def assertUint_js_nat wf_grant_def PUBLIC_KEY_LENGTH_def
      grant_fields_def enc_fields_def purpose_text_def)

lemma ascii_append [simp]: "ascii (s @ t) \<longleftrightarrow> ascii s \<and> ascii t"
  by (simp add: ascii_def)

lemma ascii_Cons [simp]: "ascii (c # t) \<longleftrightarrow> c < 128 \<and> ascii t"
  by (simp add: ascii_def)

lemma ascii_Nil [simp]: "ascii []"
  by (simp add: ascii_def)

lemma ascii_join: "c < 128 \<Longrightarrow> (\<And>p. p \<in> set ps \<Longrightarrow> ascii p) \<Longrightarrow> ascii (join_with c ps)"
  by (induction c ps rule: join_with.induct) auto

lemma length_join: "(\<And>p. p \<in> set ps \<Longrightarrow> length p \<le> k) \<Longrightarrow> length (join_with c ps) \<le> length ps * Suc k"
proof (induction c ps rule: join_with.induct)
  case (2 c p)
  then show ?case by (simp add: le_SucI)
next
  case (3 c p q ps)
  have "length p \<le> k" "length (join_with c (q # ps)) \<le> length (q # ps) * Suc k" using 3 by auto
  then show ?case by simp
qed simp

lemma GrantPurpose_text: "ascii (GrantPurpose p) \<and> 44 \<notin> set (GrantPurpose p) \<and> length (GrantPurpose p) \<le> 14"
  by (cases p) (simp_all add: js_def)

lemma purposes_le_5: "distinct ps \<Longrightarrow> length (ps :: purpose list) \<le> 5"
proof -
  assume "distinct ps"
  then have "length ps = card (set ps)" by (simp add: distinct_card)
  also have "set ps \<subseteq> {DELEGATE, SERVICE_NODE, DOMAIN_RECORDS, RELAY, CLIENT}"
    using purpose.exhaust by blast
  then have "card (set ps) \<le> card {DELEGATE, SERVICE_NODE, DOMAIN_RECORDS, RELAY, CLIENT}"
    by (intro card_mono) auto
  finally show ?thesis by simp
qed

lemma purpose_text_ascii: "ascii (purpose_text g)"
  unfolding purpose_text_def by (rule ascii_join) (auto simp: GrantPurpose_text)

lemma purpose_text_length: "wf_grant g \<Longrightarrow> length (textEncode (purpose_text g)) < 2 ^ 32"
proof -
  assume "wf_grant g"
  then have "length (pg_purposes g) \<le> 5" by (simp add: wf_grant_def purposes_le_5)
  moreover have "length (purpose_text g) \<le> length (sort (map GrantPurpose (pg_purposes g))) * Suc 14"
    unfolding purpose_text_def by (rule length_join) (auto simp: GrantPurpose_text)
  ultimately show ?thesis by (simp add: length_textEncode_ascii [OF purpose_text_ascii])
qed

lemma purpose_text_inj:
  assumes "wf_grant g" "wf_grant h" "purpose_text g = purpose_text h"
  shows "set (pg_purposes g) = set (pg_purposes h)"
proof -
  have split: "split_on 44 (purpose_text f) = sort (map GrantPurpose (pg_purposes f))" if "wf_grant f" for f
    unfolding purpose_text_def
  proof (rule split_join)
    show "sort (map GrantPurpose (pg_purposes f)) \<noteq> []"
      using that by (metis wf_grant_def map_is_Nil_conv set_sort set_empty)
  qed (auto simp: GrantPurpose_text)
  have "GrantPurpose ` set (pg_purposes g) = GrantPurpose ` set (pg_purposes h)"
    using split [OF assms(1)] split [OF assms(2)] assms(3) by (metis set_map set_sort)
  then show ?thesis by (simp add: inj_image_eq_iff inj_def)
qed

lemma wf_scope_ascii: "wf_grant g \<Longrightarrow> ascii (nullish (pg_scope g) []) \<and> length (nullish (pg_scope g) []) \<le> 253"
  by (auto simp: wf_grant_def valid_name_ascii valid_name_def MAX_NAME_LENGTH_def split: option.splits)

lemma wf_scope_inj:
  assumes "wf_grant g" "wf_grant h" "nullish (pg_scope g) [] = nullish (pg_scope h) []"
  shows "pg_scope g = pg_scope h"
  using assms by (cases "pg_scope g"; cases "pg_scope h") (auto simp: wf_grant_def valid_name_def)

lemma grant_bytes_inj:
  assumes wf: "wf_grant g" "wf_grant h" and eq: "grant_bytes g = grant_bytes h"
  shows "pg_issuer g = pg_issuer h \<and> pg_subject g = pg_subject h \<and> set (pg_purposes g) = set (pg_purposes h) \<and>
    pg_notBefore g = pg_notBefore h \<and> pg_notAfter g = pg_notAfter h \<and> pg_serial g = pg_serial h \<and>
    pg_scope g = pg_scope h"
proof -
  have scope: "length (textEncode (nullish (pg_scope f) [])) < 2 ^ 32" if "wf_grant f" for f
    using wf_scope_ascii [OF that] by (simp add: length_textEncode_ascii)
  have ok: "list_all field_ok (grant_fields f)" if "wf_grant f" for f
    using that scope [OF that] purpose_text_length [OF that]
    by (auto simp: grant_fields_def wf_grant_def MAX_SAFE_INTEGER_def GRANT_CONTEXT_def js_def textEncode_ascii)
  have "list_all2 same_kind (grant_fields g) (grant_fields h)"
    using wf by (simp add: grant_fields_def wf_grant_def)
  from enc_fields_inj [OF this ok [OF wf(1)] ok [OF wf(2)] eq]
  have e: "pg_issuer g = pg_issuer h" "pg_subject g = pg_subject h"
    "textEncode (purpose_text g) = textEncode (purpose_text h)"
    "pg_notBefore g = pg_notBefore h" "pg_notAfter g = pg_notAfter h" "pg_serial g = pg_serial h"
    "textEncode (nullish (pg_scope g) []) = textEncode (nullish (pg_scope h) [])"
    by (simp_all add: grant_fields_def)
  have "purpose_text g = purpose_text h" using e(3) textEncode_ascii_inj purpose_text_ascii by blast
  moreover have "nullish (pg_scope g) [] = nullish (pg_scope h) []"
    using e(7) textEncode_ascii_inj wf_scope_ascii wf by blast
  ultimately show ?thesis using e purpose_text_inj [OF wf] wf_scope_inj [OF wf] by simp
qed

section \<open>What an accepted chain is\<close>

text \<open>
  The specification of acceptance, on keys as bytes: each grant is current, unrevoked and
  signed; each grant authorizes the issuer of the one below it and is at least as broad; no
  key repeats; the last issuer is a trusted root.
\<close>

definition grant_ok :: "ed_verify \<Rightarrow> bytes list \<Rightarrow> verify_options \<Rightarrow> parsed_grant \<Rightarrow> bytes \<Rightarrow> bool" where
  "grant_ok verify revoked opts g signature \<longleftrightarrow>
     pg_subject g \<notin> set revoked \<and> pg_issuer g \<notin> set revoked \<and>
     int (pg_notBefore g) \<le> int_of (vo_now opts) \<and> int_of (vo_now opts) < int (pg_notAfter g) \<and>
     (\<forall>seen. seen_serial opts g = Some seen \<longrightarrow> \<not> js_less (js_int (int (pg_serial g))) seen) \<and>
     verify (grant_bytes g) signature (pg_issuer g)"

definition link_ok :: "parsed_grant \<Rightarrow> parsed_grant \<Rightarrow> bool" where
  "link_ok child g \<longleftrightarrow>
     pg_subject g = pg_issuer child \<and> DELEGATE \<in> set (pg_purposes g) \<and>
     set (pg_purposes child) \<subseteq> set (pg_purposes g) \<and>
     covers_opt valid_name scopeCovers (pg_scope g) (pg_scope child) \<and>
     pg_notBefore g \<le> pg_notBefore child \<and> pg_notAfter child \<le> pg_notAfter g"

definition accepted :: "ed_verify \<Rightarrow> bytes list \<Rightarrow> bytes list \<Rightarrow> verify_options \<Rightarrow> (parsed_grant \<times> bytes) list \<Rightarrow> bool" where
  "accepted verify roots revoked opts links \<longleftrightarrow>
     links \<noteq> [] \<and> length links \<le> MAX_CHAIN_DEPTH \<and>
     (\<forall>(g, signature) \<in> set links. grant_ok verify revoked opts g signature) \<and>
     successively link_ok (map fst links) \<and>
     distinct (pg_subject (fst (hd links)) # map (pg_issuer \<circ> fst) links) \<and>
     pg_issuer (fst (last links)) \<in> set roots \<and>
     vo_requirePurpose opts \<in> set (pg_purposes (fst (hd links)))"

lemma wf_scope_opt: "wf_grant g \<Longrightarrow> valid_opt valid_name (pg_scope g)"
  by (cases "pg_scope g") (auto simp: wf_grant_def)

lemma check_self_None:
  assumes "wf_grant g"
  shows "check_self verify (map toHex revoked) opts g signature = Inr None \<longleftrightarrow> grant_ok verify revoked opts g signature"
proof -
  have "toHex k \<in> set (map toHex revoked) \<longleftrightarrow> k \<in> set revoked" for k by (auto simp: toHex_inj)
  with assms show ?thesis
    by (auto simp: check_self_def grant_ok_def encodeParsed_ok wf_grant_def not_less not_le
        split: option.splits if_splits)
qed

lemma check_self_total: "wf_grant g \<Longrightarrow> \<exists>r. check_self verify revoked opts g signature = Inr r"
  by (auto simp: check_self_def encodeParsed_ok)

lemma check_link_None: "wf_grant child \<Longrightarrow> check_link child g = None \<longleftrightarrow> link_ok child g"
  using wf_scope_opt [of child]
  by (auto simp: check_link_def link_ok_def find_None_iff not_less split: option.splits if_splits)

lemma check_all_None:
  assumes "\<And>l. l \<in> set links \<Longrightarrow> wf_grant (fst l)" "\<And>c. child = Some c \<Longrightarrow> wf_grant c"
  shows "check_all verify (map toHex revoked) opts child links = Inr None \<longleftrightarrow>
    (\<forall>(g, signature) \<in> set links. grant_ok verify revoked opts g signature) \<and>
    successively link_ok (case child of None \<Rightarrow> map fst links | Some c \<Rightarrow> c # map fst links)"
  using assms
proof (induction links arbitrary: child)
  case Nil
  then show ?case by (auto split: option.splits)
next
  case (Cons l links)
  obtain g s where l: "l = (g, s)" by (cases l)
  have g: "wf_grant g" using Cons.prems(1) [of l] l by simp
  have IH: "check_all verify (map toHex revoked) opts (Some g) links = Inr None \<longleftrightarrow>
      (\<forall>(g, signature) \<in> set links. grant_ok verify revoked opts g signature) \<and> successively link_ok (g # map fst links)"
    using Cons.IH [of "Some g"] Cons.prems(1) g by simp
  show ?case
  proof (cases child)
    case None
    then show ?thesis using IH check_self_None [OF g, of verify revoked opts s] l
      by (auto simp: rbind_eq_Inr split: option.splits)
  next
    case (Some c)
    then show ?thesis
      using IH check_self_None [OF g, of verify revoked opts s] check_link_None [of c g] Cons.prems(2) l
      by (auto simp: rbind_eq_Inr split: option.splits)
  qed
qed

lemma check_all_total:
  "(\<And>l. l \<in> set links \<Longrightarrow> wf_grant (fst l)) \<Longrightarrow> \<exists>r. check_all verify revoked opts child links = Inr r"
proof (induction links arbitrary: child)
  case (Cons l links)
  obtain g s where l: "l = (g, s)" by (cases l)
  obtain r where "check_self verify revoked opts g s = Inr r"
    using check_self_total Cons.prems [of l] l by force
  then show ?case using Cons l by (auto split: option.splits)
qed simp

lemma parse_signed_wf: "rmap parse_signed cs = Inr links \<Longrightarrow> l \<in> set links \<Longrightarrow> wf_grant (fst l)"
proof -
  assume l: "rmap parse_signed cs = Inr links" "l \<in> set links"
  then obtain c where "parse_signed c = Inr l"
    by (auto simp: rmap_eq_Inr list_all2_conv_all_nth in_set_conv_nth)
  then show ?thesis by (auto simp: parse_signed_def rbind_eq_Inr dest: parseUnsigned_wf)
qed

definition summary :: "parsed_grant list \<Rightarrow> verified_chain" where
  "summary gs = \<lparr>vc_purposes = pg_purposes (hd gs), vc_subject = pg_subject (hd gs), vc_scope = pg_scope (hd gs),
     vc_notBefore = pg_notBefore (hd gs), vc_notAfter = pg_notAfter (hd gs),
     vc_serials = map (\<lambda>g. (toHex (pg_issuer g) @ [124] @ toHex (pg_subject g), pg_serial g)) gs\<rparr>"

definition good_options :: "verify_options \<Rightarrow> bytes list \<Rightarrow> bytes list \<Rightarrow> bool" where
  "good_options opts roots revoked \<longleftrightarrow>
     isSafeInteger (vo_now opts) \<and> 0 \<le> int_of (vo_now opts) \<and>
     rmap parsePublicKey (vo_trustedRoots opts) = Inr roots \<and>
     rmap parsePublicKey (nullish (vo_revoked opts) []) = Inr revoked"

lemma card_keys: "card (set (map toHex ks)) = length ks \<longleftrightarrow> distinct ks"
proof -
  have "distinct (map toHex ks) \<longleftrightarrow> distinct ks" by (simp add: distinct_map inj_on_def toHex_inj)
  then show ?thesis using card_distinct [of "map toHex ks"] distinct_card [of "map toHex ks"] by auto
qed

lemma chain_outcome_eq:
  assumes wf: "\<And>g. g \<in> set gs \<Longrightarrow> wf_grant g" and ne: "gs \<noteq> []"
  shows "chain_outcome (map toHex roots) opts gs =
    (if \<not> distinct (pg_subject (hd gs) # map pg_issuer gs) then Failed Malformed
     else if pg_issuer (last gs) \<notin> set roots then Failed Untrusted_root
     else if vo_requirePurpose opts \<notin> set (pg_purposes (hd gs)) then Failed Purpose_not_granted
     else Verified (summary gs))"
proof -
  have leaf: "pg_subjectHex (hd gs) = toHex (pg_subject (hd gs))"
    using wf [OF list.set_sel(1) [OF ne]] by (simp add: wf_grant_def)
  have root: "pg_issuerHex (last gs) = toHex (pg_issuer (last gs))"
    using wf [OF last_in_set [OF ne]] by (simp add: wf_grant_def)
  have issuers: "map pg_issuerHex gs = map toHex (map pg_issuer gs)" using wf by (auto simp: wf_grant_def)
  have serials: "map (\<lambda>g. (pg_issuerHex g @ [124] @ pg_subjectHex g, pg_serial g)) gs =
      map (\<lambda>g. (toHex (pg_issuer g) @ [124] @ toHex (pg_subject g), pg_serial g)) gs"
    using wf by (auto simp: wf_grant_def)
  have keys: "card (set (toHex (pg_subject (hd gs)) # map toHex (map pg_issuer gs))) =
      length (toHex (pg_subject (hd gs)) # map toHex (map pg_issuer gs)) \<longleftrightarrow>
      distinct (pg_subject (hd gs) # map pg_issuer gs)"
    using card_keys [of "pg_subject (hd gs) # map pg_issuer gs"] by simp
  have mem: "toHex k \<in> set (map toHex roots) \<longleftrightarrow> k \<in> set roots" for k by (auto simp: toHex_inj)
  show ?thesis unfolding chain_outcome_def Let_def leaf root issuers serials keys mem summary_def by (rule refl)
qed

lemma core_links:
  assumes "good_options opts roots revoked" "rmap parse_signed cs = Inr links" "cs \<noteq> []" "length cs \<le> MAX_CHAIN_DEPTH"
  shows "verifyChainCore verify (JArr cs) opts =
    rbind (check_all verify (map toHex revoked) opts None links) (\<lambda>failure. case failure of
      Some f \<Rightarrow> Inr (Failed f)
    | None \<Rightarrow> Inr (chain_outcome (map toHex roots) opts (map fst links)))"
proof -
  have "\<not> js_less (vo_now opts) (js_int 0)"
    using assms(1) by (simp add: good_options_def isSafeInteger_def not_less)
  with assms show ?thesis by (simp add: verifyChainCore_def good_options_def)
qed

lemma links_wf:
  assumes "rmap parse_signed cs = Inr links"
  shows "length links = length cs" "\<And>l. l \<in> set links \<Longrightarrow> wf_grant (fst l)"
    "\<And>g. g \<in> set (map fst links) \<Longrightarrow> wf_grant g"
  using assms parse_signed_wf [OF assms] by (auto simp: rmap_eq_Inr list_all2_lengthD)

lemma accepted_iff:
  assumes "rmap parse_signed cs = Inr links" "cs \<noteq> []" "length cs \<le> MAX_CHAIN_DEPTH"
  shows "accepted verify roots revoked opts links \<and> v = summary (map fst links) \<longleftrightarrow>
    check_all verify (map toHex revoked) opts None links = Inr None \<and>
    chain_outcome (map toHex roots) opts (map fst links) = Verified v"
proof -
  note wf = links_wf [OF assms(1)]
  have ne: "links \<noteq> []" using wf(1) assms(2) by auto
  have "chain_outcome (map toHex roots) opts (map fst links) = Verified v \<longleftrightarrow>
      distinct (pg_subject (fst (hd links)) # map (pg_issuer \<circ> fst) links) \<and>
      pg_issuer (fst (last links)) \<in> set roots \<and> vo_requirePurpose opts \<in> set (pg_purposes (fst (hd links))) \<and>
      v = summary (map fst links)"
    using chain_outcome_eq [of "map fst links" roots opts] wf(3) ne by (auto simp: hd_map last_map)
  moreover have "check_all verify (map toHex revoked) opts None links = Inr None \<longleftrightarrow>
      (\<forall>(g, signature) \<in> set links. grant_ok verify revoked opts g signature) \<and> successively link_ok (map fst links)"
    using check_all_None [of links None verify revoked opts] wf(2) by simp
  ultimately show ?thesis using ne wf(1) assms(3) unfolding accepted_def by auto
qed

lemma verifyChainCore_Verified:
  "verifyChainCore verify chain opts = Inr (Verified v) \<longleftrightarrow>
     (\<exists>roots revoked cs links. good_options opts roots revoked \<and> chain = JArr cs \<and>
       rmap parse_signed cs = Inr links \<and> accepted verify roots revoked opts links \<and> v = summary (map fst links))"
proof
  assume v: "verifyChainCore verify chain opts = Inr (Verified v)"
  then obtain roots revoked where o: "good_options opts roots revoked"
    unfolding verifyChainCore_def good_options_def isSafeInteger_def
    by (auto simp: rbind_eq_Inr not_less split: if_splits)
  with v obtain cs where c: "chain = JArr cs" "cs \<noteq> []" "length cs \<le> MAX_CHAIN_DEPTH"
    by (auto simp: verifyChainCore_def good_options_def isSafeInteger_def not_less split: option.splits if_splits)
  with v o obtain links where l: "rmap parse_signed cs = Inr links"
    by (auto simp: verifyChainCore_def good_options_def isSafeInteger_def not_less split: sum.splits)
  have "check_all verify (map toHex revoked) opts None links = Inr None \<and>
      chain_outcome (map toHex roots) opts (map fst links) = Verified v"
    using v unfolding c(1) core_links [OF o l c(2,3)] by (auto simp: rbind_eq_Inr split: option.splits)
  with accepted_iff [OF l c(2,3)] o c l
  show "\<exists>roots revoked cs links. good_options opts roots revoked \<and> chain = JArr cs \<and>
       rmap parse_signed cs = Inr links \<and> accepted verify roots revoked opts links \<and> v = summary (map fst links)"
    by metis
next
  assume "\<exists>roots revoked cs links. good_options opts roots revoked \<and> chain = JArr cs \<and>
       rmap parse_signed cs = Inr links \<and> accepted verify roots revoked opts links \<and> v = summary (map fst links)"
  then obtain roots revoked cs links where o: "good_options opts roots revoked" and c: "chain = JArr cs"
    and l: "rmap parse_signed cs = Inr links" and a: "accepted verify roots revoked opts links"
    and v: "v = summary (map fst links)" by blast
  have cs: "cs \<noteq> []" "length cs \<le> MAX_CHAIN_DEPTH" using a links_wf(1) [OF l] by (auto simp: accepted_def)
  then show "verifyChainCore verify chain opts = Inr (Verified v)"
    using accepted_iff [OF l cs, of verify roots revoked opts v] a v
    unfolding c core_links [OF o l cs] by simp
qed

definition scope_demand :: "verify_options \<Rightarrow> jsstring option \<Rightarrow> bool" where
  "scope_demand opts leaf_scope \<longleftrightarrow> (case vo_requireScope opts of
     None \<Rightarrow> vo_requirePurpose opts \<notin> set SCOPED_PURPOSES
   | Some s \<Rightarrow> valid_name s \<and> leaf_scope = Some s)"

lemma verifyChain_Verified:
  "verifyChain verify chain opts = Inr (Verified v) \<longleftrightarrow>
     verifyChainCore verify chain opts = Inr (Verified v) \<and> scope_demand opts (vc_scope v)"
proof (cases "verifyChainCore verify chain opts")
  case (Inr r)
  then show ?thesis
    by (cases r) (auto simp: verifyChain_def scope_demand_def isValidScope_def split: option.splits)
qed (auto simp: verifyChain_def)

section \<open>Authority only narrows\<close>

definition narrower :: "parsed_grant \<Rightarrow> parsed_grant \<Rightarrow> bool" where
  "narrower child g \<longleftrightarrow> set (pg_purposes child) \<subseteq> set (pg_purposes g) \<and>
     covers_opt valid_name scopeCovers (pg_scope g) (pg_scope child) \<and>
     pg_notBefore g \<le> pg_notBefore child \<and> pg_notAfter child \<le> pg_notAfter g"

lemma narrower_trans: "transp narrower"
  unfolding transp_def narrower_def using scope.opt.covers_trans by (meson order_trans)

lemma narrower_refl: "wf_grant g \<Longrightarrow> narrower g g"
  by (simp add: narrower_def scope.opt.covers_refl wf_scope_opt)

lemma links_narrow:
  assumes "successively link_ok gs" "gs \<noteq> []" "\<And>g. g \<in> set gs \<Longrightarrow> wf_grant g" "g \<in> set gs"
  shows "narrower (hd gs) g"
proof -
  have "successively narrower gs"
    using assms(1) by (rule successively_mono) (auto simp: link_ok_def narrower_def)
  then have sorted: "sorted_wrt narrower gs" by (simp add: successively_conv_sorted_wrt narrower_trans)
  obtain h t where gs: "gs = h # t" using assms(2) by (cases gs) auto
  show ?thesis
  proof (cases "g = h")
    case True
    then show ?thesis using gs narrower_refl assms(3) [of h] by simp
  next
    case False
    then show ?thesis using sorted gs assms(4) by simp
  qed
qed

text \<open>
  The grants presented, read in order, are a path from the leaf key of \<open>v\<close> to a root: each grant was given to the very key that issued the
  one below it and lets that key delegate, no key comes twice, every grant is signed, current and names no revoked key, and authority only
  widens towards the root.
\<close>

definition delegates :: "parsed_grant \<Rightarrow> parsed_grant \<Rightarrow> bool" where
  "delegates child g \<longleftrightarrow> pg_subject g = pg_issuer child \<and> DELEGATE \<in> set (pg_purposes g)"

definition trusted_path :: "ed_verify \<Rightarrow> verify_options \<Rightarrow> bytes list \<Rightarrow> bytes list \<Rightarrow> (parsed_grant \<times> bytes) list
    \<Rightarrow> verified_chain \<Rightarrow> bool" where
  "trusted_path verify opts roots revoked links v \<longleftrightarrow> links \<noteq> [] \<and>
    length links \<le> MAX_CHAIN_DEPTH \<and>
    vc_subject v = pg_subject (fst (hd links)) \<and> pg_issuer (fst (last links)) \<in> set roots \<and>
    successively delegates (map fst links) \<and>
    distinct (pg_subject (fst (hd links)) # map (pg_issuer \<circ> fst) links) \<and>
    (\<forall>(g, s) \<in> set links. verify (grant_bytes g) s (pg_issuer g) \<and>
       pg_issuer g \<notin> set revoked \<and> pg_subject g \<notin> set revoked \<and>
       set (vc_purposes v) \<subseteq> set (pg_purposes g) \<and>
       covers_opt valid_name scopeCovers (pg_scope g) (vc_scope v) \<and>
       pg_notBefore g \<le> vc_notBefore v \<and> vc_notAfter v \<le> pg_notAfter g \<and>
       int (pg_notBefore g) \<le> int_of (vo_now opts) \<and> int_of (vo_now opts) < int (pg_notAfter g)) \<and>
    vo_requirePurpose opts \<in> set (vc_purposes v)"

lemma core_authority:
  assumes "verifyChainCore verify chain opts = Inr (Verified v)"
  shows "\<exists>roots revoked cs links. good_options opts roots revoked \<and> chain = JArr cs \<and> rmap parse_signed cs = Inr links \<and>
    trusted_path verify opts roots revoked links v"
proof -
  obtain roots revoked cs links where o: "good_options opts roots revoked" and c: "chain = JArr cs"
    and l: "rmap parse_signed cs = Inr links" and a: "accepted verify roots revoked opts links"
    and v: "v = summary (map fst links)"
    using assms unfolding verifyChainCore_Verified by blast
  have ne: "links \<noteq> []" using a by (simp add: accepted_def)
  have "narrower (hd (map fst links)) g" if "(g, s) \<in> set links" for g s
    using a links_wf(3) [OF l] ne that by (intro links_narrow) (auto simp: accepted_def rev_image_eqI)
  then have "set (vc_purposes v) \<subseteq> set (pg_purposes g) \<and> covers_opt valid_name scopeCovers (pg_scope g) (vc_scope v) \<and>
      pg_notBefore g \<le> vc_notBefore v \<and> vc_notAfter v \<le> pg_notAfter g" if "(g, s) \<in> set links" for g s
    using that by (simp add: narrower_def v summary_def)
  moreover have "grant_ok verify revoked opts g s" if "(g, s) \<in> set links" for g s
    using a that by (auto simp: accepted_def)
  moreover have "vc_subject v = pg_subject (fst (hd links))" "pg_issuer (fst (last links)) \<in> set roots"
    "vo_requirePurpose opts \<in> set (vc_purposes v)" "length links \<le> MAX_CHAIN_DEPTH"
    "distinct (pg_subject (fst (hd links)) # map (pg_issuer \<circ> fst) links)"
    using a ne by (simp_all add: v summary_def accepted_def hd_map)
  moreover have "successively link_ok (map fst links)" using a by (simp add: accepted_def)
  then have "successively delegates (map fst links)"
    by (rule successively_mono) (simp add: link_ok_def delegates_def)
  ultimately have "trusted_path verify opts roots revoked links v"
    using ne unfolding trusted_path_def grant_ok_def by blast
  with o c l show ?thesis by blast
qed

lemma is_ok_rmap: "is_ok (rmap f xs) \<longleftrightarrow> (\<forall>x \<in> set xs. is_ok (f x))"
proof (induction xs)
  case (Cons x xs)
  then show ?case by (cases "f x"; cases "rmap f xs") auto
qed simp

lemma core_total: "good_options opts roots revoked \<Longrightarrow> is_ok (verifyChainCore verify chain opts)"
proof (cases "as_array chain")
  case (Some cs)
  assume o: "good_options opts roots revoked"
  then have now: "isSafeInteger (vo_now opts) \<and> \<not> js_less (vo_now opts) (js_int 0)"
    by (auto simp: good_options_def isSafeInteger_def)
  show ?thesis
  proof (cases "cs \<noteq> [] \<and> length cs \<le> MAX_CHAIN_DEPTH \<and> is_ok (rmap parse_signed cs)")
    case True
    then obtain links where l: "rmap parse_signed cs = Inr links" by (auto simp: is_ok_iff)
    obtain r where "check_all verify (map toHex revoked) opts None links = Inr r"
      using check_all_total [of links verify "map toHex revoked" opts None] links_wf(2) [OF l] by blast
    with core_links [OF o l] True Some show ?thesis by (auto simp: is_ok_iff split: option.splits)
  next
    case False
    with o now Some show ?thesis
      by (auto simp: verifyChainCore_def good_options_def is_ok_iff split: sum.splits)
  qed
next
  case None
  assume "good_options opts roots revoked"
  then show ?thesis using None by (auto simp: verifyChainCore_def good_options_def isSafeInteger_def is_ok_iff)
qed

lemma core_throws: "is_ok (verifyChainCore verify chain opts) \<longleftrightarrow> (\<exists>roots revoked. good_options opts roots revoked)"
proof
  assume "is_ok (verifyChainCore verify chain opts)"
  then show "\<exists>roots revoked. good_options opts roots revoked"
    unfolding verifyChainCore_def good_options_def isSafeInteger_def
    by (auto simp: is_ok_iff rbind_eq_Inr not_less split: if_splits)
qed (use core_total in blast)

section \<open>A grant that was signed verifies\<close>

text \<open>What the development relies on of \<^verbatim>\<open>tweetnacl\<close>: a detached signature has 64 bytes and verifies under the public half of its key.\<close>

definition ed_correct :: "ed_sign \<Rightarrow> ed_verify \<Rightarrow> bool" where
  "ed_correct sign verify \<longleftrightarrow>
     (\<forall>m sk. length sk = 64 \<longrightarrow> length (sign m sk) = 64 \<and> verify m (sign m sk) (drop 32 sk))"

lemma js_prop_with: "is_object g \<Longrightarrow> js_prop (with_prop g k v) k' = (if k' = k then v else js_prop g k')"
  by (cases g) (auto simp: is_object_def update_conv' split: option.splits)

lemma object_keys_with: "is_object g \<Longrightarrow> set (object_keys (with_prop g k v)) = insert k (set (object_keys g))"
proof (cases g)
  case (JObj ps)
  have "fst ` set (AList.update k v ps) = dom (map_of (AList.update k v ps))" by (simp add: dom_map_of_conv_image_fst)
  also have "\<dots> = insert k (fst ` set ps)" by (auto simp: update_conv' dom_map_of_conv_image_fst)
  finally show ?thesis using JObj by simp
qed (auto simp: is_object_def)

lemma is_object_with: "is_object (with_prop g k v) = is_object g"
  by (cases g) (simp_all add: is_object_def)

lemma parse_with_signature:
  assumes "parseUnsigned g False = Inr p"
  shows "parseUnsigned (with_prop g (js ''signature'') v) True = Inr p"
proof -
  let ?h = "with_prop g (js ''signature'') v"
  have obj: "is_object g" and keys: "\<forall>k \<in> set (object_keys g). k \<in> set GRANT_FIELDS \<and> k \<noteq> js ''signature''"
    using assms by (auto simp: parseUnsigned_def list_ex_iff split: if_splits)
  have hkeys: "\<not> list_ex (\<lambda>key. key \<notin> set GRANT_FIELDS \<or> key = js ''signature'' \<and> \<not> True) (object_keys ?h)"
    using keys object_keys_with [OF obj, of "js ''signature''" v] by (auto simp: list_ex_iff GRANT_FIELDS_def)
  have gkeys: "\<not> list_ex (\<lambda>key. key \<notin> set GRANT_FIELDS \<or> key = js ''signature'' \<and> \<not> False) (object_keys g)"
    using keys by (auto simp: list_ex_iff)
  have props: "js_prop ?h (js ''issuer'') = js_prop g (js ''issuer'')" "js_prop ?h (js ''subject'') = js_prop g (js ''subject'')"
    "js_prop ?h (js ''purposes'') = js_prop g (js ''purposes'')" "js_prop ?h (js ''notBefore'') = js_prop g (js ''notBefore'')"
    "js_prop ?h (js ''notAfter'') = js_prop g (js ''notAfter'')" "js_prop ?h (js ''serial'') = js_prop g (js ''serial'')"
    "js_prop ?h (js ''scope'') = js_prop g (js ''scope'')"
    by (simp_all add: js_prop_with [OF obj]) (simp_all add: js_def)
  have "is_object ?h" using obj by (simp add: is_object_with)
  with assms obj hkeys gkeys show ?thesis unfolding parseUnsigned_def props by simp
qed

lemma signed_grant_accepted:
  assumes "ed_correct sign verify" "signGrant sign g sk = Inr h" "parseUnsigned g False = Inr p"
    "good_options opts roots revoked" "pg_issuer p \<in> set roots"
    "pg_issuer p \<notin> set revoked" "pg_subject p \<notin> set revoked"
    "int (pg_notBefore p) \<le> int_of (vo_now opts)" "int_of (vo_now opts) < int (pg_notAfter p)"
    "vo_knownSerials opts = None" "vo_requirePurpose opts \<in> set (pg_purposes p)"
    "scope_demand opts (pg_scope p)"
  shows "verifyChain verify (JArr [h]) opts = Inr (Verified (summary [p]))"
proof -
  have wf: "wf_grant p" using assms(3) by (rule parseUnsigned_wf)
  have sk: "length sk = 64" "drop 32 sk = pg_issuer p"
    using assms(2,3) by (auto simp: signGrant_def rbind_eq_Inr assertSecretMatches_def SECRET_KEY_LENGTH_def split: if_splits)
  let ?s = "sign (grant_bytes p) sk"
  have h: "h = with_prop g (js ''signature'') (JStr (encodeBase64 ?s))"
    using assms(2,3) encodeParsed_ok [OF wf] by (auto simp: signGrant_def rbind_eq_Inr)
  have s: "length ?s = 64" "verify (grant_bytes p) ?s (pg_issuer p)"
    using assms(1) sk unfolding ed_correct_def by metis+
  have obj: "is_object g" using assms(3) by (auto simp: parseUnsigned_def split: if_splits)
  have "parse_signed h = Inr (p, ?s)"
    unfolding h parse_signed_def
    using parse_with_signature [OF assms(3)] s(1)
    by (simp add: js_prop_with [OF obj] decode_encode64 SIGNATURE_LENGTH_def)
  then have l: "rmap parse_signed [h] = Inr [(p, ?s)]" by simp
  moreover have "accepted verify roots revoked opts [(p, ?s)]"
    using assms s(2) wf by (auto simp: accepted_def grant_ok_def MAX_CHAIN_DEPTH_def seen_serial_def wf_grant_def)
  moreover have "vc_scope (summary [p]) = pg_scope p" by (simp add: summary_def)
  ultimately show ?thesis
    using assms(4,12) unfolding verifyChain_Verified verifyChainCore_Verified by (metis list.map(1,2) fst_conv)
qed

text \<open>A concrete grant for a service node, its issuer's key, and options that ask for it.\<close>

definition sample_grant :: jsval where
  "sample_grant = JObj [(js ''issuer'', JStr (encodeBase64 (replicate 32 1))), (js ''subject'', JStr (encodeBase64 (replicate 32 2))),
     (js ''purposes'', JArr [JStr (js ''service-node'')]), (js ''notBefore'', js_nat 10), (js ''notAfter'', js_nat 20),
     (js ''serial'', js_nat 1), (js ''scope'', JStr (js ''a.ox''))]"

definition sample_parsed :: parsed_grant where
  "sample_parsed = \<lparr>pg_issuer = replicate 32 1, pg_subject = replicate 32 2, pg_issuerHex = toHex (replicate 32 1),
     pg_subjectHex = toHex (replicate 32 2), pg_purposes = [SERVICE_NODE], pg_notBefore = 10, pg_notAfter = 20,
     pg_serial = 1, pg_scope = Some (js ''a.ox'')\<rparr>"

definition sample_options :: verify_options where
  "sample_options = \<lparr>vo_trustedRoots = [KeyBytes (replicate 32 1)], vo_now = js_int 15, vo_revoked = None,
     vo_knownSerials = None, vo_requirePurpose = SERVICE_NODE, vo_requireScope = Some (js ''a.ox'')\<rparr>"

abbreviation sample_sign :: ed_sign where
  "sample_sign \<equiv> \<lambda>m sk. replicate 64 7"

abbreviation sample_verify :: ed_verify where
  "sample_verify \<equiv> \<lambda>m s k. s = replicate 64 7"

definition sample_signed :: jsval where
  "sample_signed = with_prop sample_grant (js ''signature'') (JStr (encodeBase64 (replicate 64 7)))"

lemma sample_correct: "ed_correct sample_sign sample_verify"
  by (simp add: ed_correct_def)

lemma sample_name: "valid_name (js ''a.ox'')"
  by (simp add: valid_name_def js_def MAX_NAME_LENGTH_def LABEL_def alnum_def)

lemma sample_parse: "parseUnsigned sample_grant False = Inr sample_parsed"
proof -
  have ne: "replicate 32 (1 :: byte) \<noteq> replicate 32 2" by simp
  show ?thesis
    unfolding sample_grant_def sample_parsed_def parseUnsigned_def
    using sample_name ne
    by (simp add: is_object_def GRANT_FIELDS_def js_def list_ex_iff parsePublicKey_def decode_encode64
        PUBLIC_KEY_LENGTH_def purpose_of_def PURPOSES_def assertUint_js_nat MAX_SAFE_INTEGER_def parse_scope_def
        del: replicate.simps)
qed

lemma sample_signGrant: "signGrant sample_sign sample_grant (replicate 64 1) = Inr sample_signed"
proof -
  have "wf_grant sample_parsed" using sample_parse by (rule parseUnsigned_wf)
  then show ?thesis
    by (simp add: signGrant_def sample_parse encodeParsed_ok assertSecretMatches_def SECRET_KEY_LENGTH_def
        sample_signed_def sample_parsed_def)
qed

lemma sample_good: "good_options sample_options [replicate 32 1] []"
  by (simp add: good_options_def sample_options_def isSafeInteger_def MAX_SAFE_INTEGER_def parsePublicKey_def
      PUBLIC_KEY_LENGTH_def)

lemma sample_accepted:
  "verifyChain sample_verify (JArr [sample_signed]) sample_options = Inr (Verified (summary [sample_parsed]))"
  by (rule signed_grant_accepted [OF sample_correct sample_signGrant sample_parse sample_good])
     (simp_all add: sample_parsed_def sample_options_def scope_demand_def sample_name del: replicate.simps)

section \<open>Properties\<close>

text \<open>
  C1. Acceptance, exactly. \<^verbatim>\<open>verifyChain\<close> accepts if and only if the caller's options are well
  formed, the chain is a non-empty array of at most four well-formed signed grants, every
  grant is current, unrevoked, not rolled back and signed by its issuer, every link holds
  (connected, delegating, narrowing in purposes, scope and window), no key repeats, the
  last issuer is a trusted root, the leaf carries the purpose, and a scoped
  purpose was asked for with the leaf's exact scope.
\<close>

theorem verify_chain_accepts_iff:
  "verifyChain verify chain opts = Inr (Verified v) \<longleftrightarrow>
     (\<exists>roots revoked cs links. good_options opts roots revoked \<and> chain = JArr cs \<and>
        rmap parse_signed cs = Inr links \<and> accepted verify roots revoked opts links \<and>
        v = summary (map fst links) \<and> scope_demand opts (vc_scope v))"
  unfolding verifyChain_Verified verifyChainCore_Verified by blast

text \<open>
  C2. Authority only narrows, along an unbroken path. If a chain is accepted, then the grants presented, from the first to the last,
  are a path from the leaf key to a trusted root: each grant was given to the key that issued the one below it and
  lets that key delegate; no key is on the path twice; the path has at most the permitted number of grants; and
  every grant on it is signed by its issuer over its canonical bytes, names no revoked key, holds every purpose the leaf has, covers the
  leaf's scope, and is valid now and for the leaf's whole window. For a scoped purpose the leaf is bound to exactly the requested name.
\<close>

theorem verified_chain_authority:
  assumes "verifyChain verify chain opts = Inr (Verified v)"
  shows "\<exists>roots revoked cs links. good_options opts roots revoked \<and>
    chain = JArr cs \<and> rmap parse_signed cs = Inr links \<and> links \<noteq> [] \<and> length links \<le> MAX_CHAIN_DEPTH \<and>
    vc_subject v = pg_subject (fst (hd links)) \<and> pg_issuer (fst (last links)) \<in> set roots \<and>
    (\<forall>i. Suc i < length links \<longrightarrow> pg_subject (fst (links ! Suc i)) = pg_issuer (fst (links ! i)) \<and>
       DELEGATE \<in> set (pg_purposes (fst (links ! Suc i)))) \<and>
    distinct (vc_subject v # map (pg_issuer \<circ> fst) links) \<and>
    (\<forall>(g, s) \<in> set links. verify (grant_bytes g) s (pg_issuer g) \<and>
       pg_issuer g \<notin> set revoked \<and> pg_subject g \<notin> set revoked \<and>
       set (vc_purposes v) \<subseteq> set (pg_purposes g) \<and>
       covers_opt valid_name scopeCovers (pg_scope g) (vc_scope v) \<and>
       pg_notBefore g \<le> vc_notBefore v \<and> vc_notAfter v \<le> pg_notAfter g \<and>
       int (pg_notBefore g) \<le> int_of (vo_now opts) \<and> int_of (vo_now opts) < int (pg_notAfter g)) \<and>
    vo_requirePurpose opts \<in> set (vc_purposes v) \<and>
    (vo_requirePurpose opts \<in> set SCOPED_PURPOSES \<longrightarrow> vo_requireScope opts \<noteq> None \<and> vc_scope v = vo_requireScope opts)"
proof -
  have "verifyChainCore verify chain opts = Inr (Verified v)" and d: "scope_demand opts (vc_scope v)"
    using assms unfolding verifyChain_Verified by blast+
  from core_authority [OF this(1)] obtain roots revoked cs links
    where c: "good_options opts roots revoked" "chain = JArr cs" "rmap parse_signed cs = Inr links"
      and path: "trusted_path verify opts roots revoked links v" by blast
  have "pg_subject (fst (links ! Suc i)) = pg_issuer (fst (links ! i)) \<and> DELEGATE \<in> set (pg_purposes (fst (links ! Suc i)))"
    if "Suc i < length links" for i
    using path that by (auto simp: trusted_path_def successively_conv_nth delegates_def)
  moreover have "vo_requirePurpose opts \<in> set SCOPED_PURPOSES \<longrightarrow>
      vo_requireScope opts \<noteq> None \<and> vc_scope v = vo_requireScope opts"
    using d by (auto simp: scope_demand_def split: option.splits)
  moreover have "distinct (vc_subject v # map (pg_issuer \<circ> fst) links)" using path by (simp add: trusted_path_def)
  ultimately show ?thesis using c path unfolding trusted_path_def by blast
qed

text \<open>
  Remote input never throws. Whether \<^verbatim>\<open>verifyChain\<close> throws does not depend on the chain: it returns a
  result exactly when the demanded scope is missing or malformed, or the caller's own
  time, roots and revocation list are well formed.
\<close>

theorem verify_chain_throws_only_on_options:
  "is_ok (verifyChain verify chain opts) \<longleftrightarrow>
     (case vo_requireScope opts of None \<Rightarrow> vo_requirePurpose opts \<in> set SCOPED_PURPOSES | Some s \<Rightarrow> \<not> valid_name s) \<or>
     (\<exists>roots revoked. good_options opts roots revoked)"
proof -
  have "is_ok (rbind m (\<lambda>r. case r of Failed f \<Rightarrow> Inr (Failed f)
      | Verified v \<Rightarrow> if P v then Inr (Failed Scope_mismatch) else Inr (Verified v))) \<longleftrightarrow> is_ok m"
    for m :: "verify_result result" and P
    by (cases m) (auto split: verify_result.splits)
  then show ?thesis
    unfolding verifyChain_def core_throws [symmetric, of opts verify chain]
    by (auto simp: isValidScope_def split: option.splits)
qed

text \<open>
  A signature covers one grant. Two well-formed grants whose canonical bytes agree name the
  same issuer, subject, set of purposes, window, serial and scope.
\<close>

theorem signed_bytes_determine_grant:
  assumes "canonicalGrantBytes g = Inr b" and "canonicalGrantBytes h = Inr b"
  shows "\<exists>p q. parseUnsigned g False = Inr p \<and> parseUnsigned h False = Inr q \<and>
    pg_issuer p = pg_issuer q \<and> pg_subject p = pg_subject q \<and> set (pg_purposes p) = set (pg_purposes q) \<and>
    pg_notBefore p = pg_notBefore q \<and> pg_notAfter p = pg_notAfter q \<and> pg_serial p = pg_serial q \<and>
    pg_scope p = pg_scope q"
proof -
  obtain p q where pq: "parseUnsigned g False = Inr p" "parseUnsigned h False = Inr q"
    "encodeParsed p = Inr b" "encodeParsed q = Inr b"
    using assms by (auto simp: canonicalGrantBytes_def rbind_eq_Inr)
  then have "grant_bytes p = grant_bytes q" using encodeParsed_ok parseUnsigned_wf by fastforce
  with pq grant_bytes_inj parseUnsigned_wf show ?thesis by blast
qed

text \<open>
  Signing and verifying fit together. Given correct Ed25519, what \<^verbatim>\<open>signGrant\<close> returns is accepted as a
  one-link chain by every verifier that trusts the issuer, asks inside the window, has revoked
  neither key, and asks for a purpose and scope the grant has.
\<close>

theorem signed_grant_verifies:
  assumes "ed_correct sign verify"
    and "signGrant sign g sk = Inr h" and "parseUnsigned g False = Inr p"
    and "good_options opts roots revoked" and "pg_issuer p \<in> set roots"
    and "pg_issuer p \<notin> set revoked" and "pg_subject p \<notin> set revoked"
    and "int (pg_notBefore p) \<le> int_of (vo_now opts)" and "int_of (vo_now opts) < int (pg_notAfter p)"
    and "vo_knownSerials opts = None" and "vo_requirePurpose opts \<in> set (pg_purposes p)"
    and "scope_demand opts (pg_scope p)"
  shows "\<exists>v. verifyChain verify (JArr [h]) opts = Inr (Verified v) \<and> vc_subject v = pg_subject p"
  using signed_grant_accepted [OF assms] by (simp add: summary_def)

text \<open>Witnesses.\<close>

theorem verified_chain_authority_witness:
  "\<exists>v roots revoked cs links. verifyChain sample_verify (JArr [sample_signed]) sample_options = Inr (Verified v) \<and>
     good_options sample_options roots revoked \<and> JArr [sample_signed] = JArr cs \<and> rmap parse_signed cs = Inr links \<and> links \<noteq> [] \<and>
     pg_issuer (fst (last links)) \<in> set roots"
proof -
  obtain roots revoked cs links
    where "good_options sample_options roots revoked" "JArr [sample_signed] = JArr cs" "rmap parse_signed cs = Inr links" "links \<noteq> []"
    "pg_issuer (fst (last links)) \<in> set roots"
    using verified_chain_authority [OF sample_accepted] by (elim exE conjE)
  then show ?thesis using sample_accepted by (intro exI conjI)
qed

theorem signed_bytes_determine_grant_witness:
  "\<exists>p. parseUnsigned sample_grant False = Inr p \<and> pg_serial p = 1"
proof -
  have "wf_grant sample_parsed" using sample_parse by (rule parseUnsigned_wf)
  then have b: "canonicalGrantBytes sample_grant = Inr (grant_bytes sample_parsed)"
    by (simp add: canonicalGrantBytes_def sample_parse encodeParsed_ok)
  from signed_bytes_determine_grant [OF b b] sample_parse show ?thesis by (auto simp: sample_parsed_def)
qed

theorem signed_grant_verifies_witness:
  "\<exists>v. verifyChain sample_verify (JArr [sample_signed]) sample_options = Inr (Verified v) \<and> vc_subject v = replicate 32 2"
proof -
  have "\<exists>v. verifyChain sample_verify (JArr [sample_signed]) sample_options = Inr (Verified v) \<and> vc_subject v = pg_subject sample_parsed"
    by (rule signed_grant_verifies [OF sample_correct sample_signGrant sample_parse sample_good])
       (simp_all add: sample_parsed_def sample_options_def scope_demand_def sample_name del: replicate.simps)
  moreover have "pg_subject sample_parsed = replicate 32 2" by (simp add: sample_parsed_def)
  ultimately show ?thesis by simp
qed

end
