(* ===== verification/Key_Agreement.thy ===== *)
theory Key_Agreement
  imports Grants Primitives
begin

text \<open>
  \<^verbatim>\<open>packages/crypto/src/key-agreement.ts\<close>: certificates that bind an X25519 key to an authorized node
  key, their verification, and the registry of keys that passed it, which the handshake
  consults. The registry (\<^verbatim>\<open>verifiedKeys\<close>) is explicit state: a verified key is an object with
  a fresh identity, and the registry is the set of the identities the verifier handed out.
\<close>

datatype ka_role = KA_SERVICE_NODE | KA_RELAY

fun KeyAgreementRole :: "ka_role \<Rightarrow> jsstring" where
  "KeyAgreementRole KA_SERVICE_NODE = js ''service-node''"
| "KeyAgreementRole KA_RELAY = js ''relay''"

fun ROLE_PURPOSE :: "ka_role \<Rightarrow> purpose" where
  "ROLE_PURPOSE KA_SERVICE_NODE = SERVICE_NODE"
| "ROLE_PURPOSE KA_RELAY = RELAY"

definition MAX_KEY_AGREEMENT_LIFETIME :: nat where
  "MAX_KEY_AGREEMENT_LIFETIME = 7 * 24 * 60 * 60"

definition KEY_AGREEMENT_CONTEXT :: jsstring where
  "KEY_AGREEMENT_CONTEXT = js ''tnp-key-agreement-v1''"

definition CERT_FIELDS :: "jsstring list" where
  "CERT_FIELDS = [js ''signer'', js ''key'', js ''role'', js ''scope'', js ''notBefore'', js ''notAfter'',
     js ''serial'', js ''signature'']"

record parsed_certificate =
  pc_signer :: bytes
  pc_key :: bytes
  pc_role :: ka_role
  pc_scope :: jsstring
  pc_notBefore :: nat
  pc_notAfter :: nat
  pc_serial :: nat

definition parse_role :: "jsval \<Rightarrow> ka_role result" where
  "parse_role v =
     (if v \<noteq> JStr (KeyAgreementRole KA_SERVICE_NODE) \<and> v \<noteq> JStr (KeyAgreementRole KA_RELAY) then Inl EncodingError
      else Inr (if v = JStr (KeyAgreementRole KA_SERVICE_NODE) then KA_SERVICE_NODE else KA_RELAY))"

definition parseCertificate :: "crypto \<Rightarrow> jsval \<Rightarrow> bool \<Rightarrow> parsed_certificate result" where
  "parseCertificate c cert allowSignature =
     (if \<not> is_object cert then Inl EncodingError
      else if list_ex (\<lambda>f. f \<notin> set CERT_FIELDS \<or> f = js ''signature'' \<and> \<not> allowSignature) (object_keys cert)
        then Inl EncodingError
      else case (as_string (js_prop cert (js ''signer'')), as_string (js_prop cert (js ''key''))) of
        (Some sg, Some k) \<Rightarrow>
          rbind (parsePublicKey (KeyString sg)) (\<lambda>signer.
          rbind (parsePublicKey (KeyString k)) (\<lambda>key.
          rbind (case assertValidX25519PublicKey c key of Inl _ \<Rightarrow> Inl EncodingError | Inr u \<Rightarrow> Inr u) (\<lambda>_.
          rbind (parse_role (js_prop cert (js ''role''))) (\<lambda>role.
            if \<not> isValidScope (js_prop cert (js ''scope'')) then Inl EncodingError
            else rbind (assertUint (js_prop cert (js ''notBefore''))) (\<lambda>notBefore.
              rbind (assertUint (js_prop cert (js ''notAfter''))) (\<lambda>notAfter.
              rbind (assertUint (js_prop cert (js ''serial''))) (\<lambda>serial.
                if notAfter \<le> notBefore then Inl EncodingError
                else if notAfter - notBefore > MAX_KEY_AGREEMENT_LIFETIME then Inl EncodingError
                else Inr \<lparr>pc_signer = signer, pc_key = key, pc_role = role,
                       pc_scope = nullish (as_string (js_prop cert (js ''scope''))) [],
                       pc_notBefore = notBefore, pc_notAfter = notAfter, pc_serial = serial\<rparr>)))))))
      | _ \<Rightarrow> Inl EncodingError)"

definition encodeCertificate :: "parsed_certificate \<Rightarrow> bytes result" where
  "encodeCertificate cert =
     rbind (w_fixed (w_string [] KEY_AGREEMENT_CONTEXT) (pc_signer cert) PUBLIC_KEY_LENGTH) (\<lambda>w.
     rbind (w_fixed w (pc_key cert) PUBLIC_KEY_LENGTH) (\<lambda>w.
     rbind (w_uint (w_string (w_string w (KeyAgreementRole (pc_role cert))) (pc_scope cert)) (js_nat (pc_notBefore cert))) (\<lambda>w.
     rbind (w_uint w (js_nat (pc_notAfter cert))) (\<lambda>w.
     rbind (w_uint w (js_nat (pc_serial cert))) (\<lambda>w. Inr (w_finish w))))))"

definition canonicalKeyAgreementBytes :: "crypto \<Rightarrow> jsval \<Rightarrow> bytes result" where
  "canonicalKeyAgreementBytes c cert = rbind (parseCertificate c cert False) encodeCertificate"

definition signKeyAgreementCertificate :: "crypto \<Rightarrow> ed_sign \<Rightarrow> jsval \<Rightarrow> bytes \<Rightarrow> jsval result" where
  "signKeyAgreementCertificate c sign cert signerSecretKey =
     rbind (parseCertificate c cert False) (\<lambda>parsed.
     rbind (assertSecretMatches signerSecretKey (pc_signer parsed)) (\<lambda>_.
     rbind (encodeCertificate parsed) (\<lambda>msg.
       Inr (with_prop cert (js ''signature'') (JStr (encodeBase64 (sign msg signerSecretKey)))))))"

section \<open>The registry of verified keys\<close>

record verified_key =
  vk_ref :: nat
  vk_publicKey :: bytes
  vk_role :: ka_role
  vk_scope :: jsstring
  vk_notAfter :: nat

record key_registry =
  kr_next :: nat
  kr_verified :: "nat list"

definition makeVerifiedKey :: "parsed_certificate \<Rightarrow> key_registry \<Rightarrow> verified_key \<times> key_registry" where
  "makeVerifiedKey cert r =
     (\<lparr>vk_ref = kr_next r, vk_publicKey = pc_key cert, vk_role = pc_role cert, vk_scope = pc_scope cert,
       vk_notAfter = pc_notAfter cert\<rparr>,
      \<lparr>kr_next = Suc (kr_next r), kr_verified = kr_next r # kr_verified r\<rparr>)"

definition isVerifiedKeyAgreementKey :: "verified_key \<Rightarrow> key_registry \<Rightarrow> bool" where
  "isVerifiedKeyAgreementKey k r \<longleftrightarrow> vk_ref k \<in> set (kr_verified r)"

section \<open>Verification\<close>

record ka_options =
  ko_base :: verify_options \<comment> \<open>roots, time, revocations and serials; the purpose and scope fields are not read\<close>
  ko_role :: ka_role
  ko_name :: jsstring

record ka_verified =
  kv_key :: verified_key
  kv_chain :: verified_chain
  kv_serialKey :: jsstring
  kv_serial :: nat

datatype ka_result = KA_ok ka_verified | KA_failed verify_failure

fun key_revoked :: "key_input list \<Rightarrow> bytes \<Rightarrow> bool result" where
  "key_revoked [] key = Inr False"
| "key_revoked (k # ks) key = rbind (parsePublicKey k) (\<lambda>b. if bytesEqual b key then Inr True else key_revoked ks key)"

text \<open>The checks that follow a verified chain, and the key that comes out.\<close>

definition check_certificate :: "ed_verify \<Rightarrow> ka_options \<Rightarrow> verified_chain \<Rightarrow> parsed_certificate \<Rightarrow> bytes
    \<Rightarrow> verify_failure option result" where
  "check_certificate verify opts chain cert signature =
     (if \<not> bytesEqual (vc_subject chain) (pc_signer cert) then Inr (Some Chain_broken)
      else if pc_role cert \<noteq> ko_role opts then Inr (Some Purpose_not_granted)
      else if pc_scope cert \<noteq> ko_name opts then Inr (Some Scope_mismatch)
      else if (case vc_scope chain of None \<Rightarrow> True | Some s \<Rightarrow> \<not> scopeCovers s (pc_scope cert)) then Inr (Some Scope_mismatch)
      else if pc_notBefore cert < vc_notBefore chain \<or> pc_notAfter cert > vc_notAfter chain then Inr (Some Window_not_nested)
      else if int_of (vo_now (ko_base opts)) < int (pc_notBefore cert) then Inr (Some Not_yet_valid)
      else if int_of (vo_now (ko_base opts)) \<ge> int (pc_notAfter cert) then Inr (Some Expired)
      else rbind (key_revoked (nullish (vo_revoked (ko_base opts)) []) (pc_key cert)) (\<lambda>r.
        if r then Inr (Some Revoked)
        else if (case vo_knownSerials (ko_base opts) of None \<Rightarrow> False
                 | Some m \<Rightarrow> (case m (toHex (pc_signer cert) @ [124] @ toHex (pc_key cert)) of None \<Rightarrow> False
                            | Some seen \<Rightarrow> js_less (js_int (int (pc_serial cert))) seen)) then Inr (Some Rolled_back)
        else rbind (encodeCertificate cert) (\<lambda>msg.
          if \<not> verify msg signature (pc_signer cert) then Inr (Some Bad_signature) else Inr None)))"

definition parse_signed_certificate :: "crypto \<Rightarrow> jsval \<Rightarrow> (parsed_certificate \<times> bytes) result" where
  "parse_signed_certificate c cert = rbind (parseCertificate c cert True) (\<lambda>p.
     rbind (decodeBase64Strict (js_prop cert (js ''signature'')) (Some SIGNATURE_LENGTH)) (\<lambda>s. Inr (p, s)))"

definition verifyKeyAgreementCertificate :: "crypto \<Rightarrow> ed_verify \<Rightarrow> jsval \<Rightarrow> jsval \<Rightarrow> ka_options \<Rightarrow> key_registry
    \<Rightarrow> (ka_result \<times> key_registry) result" where
  "verifyKeyAgreementCertificate c verify cert chain opts reg =
     (if \<not> isValidScope (JStr (ko_name opts)) then Inr (KA_failed Scope_required, reg)
      else case parse_signed_certificate c cert of
        Inl _ \<Rightarrow> Inr (KA_failed Malformed, reg)
      | Inr (parsed, signature) \<Rightarrow>
          rbind (verifyChainCore verify chain ((ko_base opts)\<lparr>vo_requirePurpose := ROLE_PURPOSE (ko_role opts)\<rparr>)) (\<lambda>r.
            case r of
              Failed f \<Rightarrow> Inr (KA_failed f, reg)
            | Verified v \<Rightarrow>
                rbind (check_certificate verify opts v parsed signature) (\<lambda>failure.
                  case failure of
                    Some f \<Rightarrow> Inr (KA_failed f, reg)
                  | None \<Rightarrow>
                      let (key, reg') = makeVerifiedKey parsed reg in
                      Inr (KA_ok \<lparr>kv_key = key, kv_chain = v,
                             kv_serialKey = toHex (pc_signer parsed) @ [124] @ toHex (pc_key parsed),
                             kv_serial = pc_serial parsed\<rparr>, reg'))))"

section \<open>Parsed certificates and their bytes\<close>

definition wf_cert :: "crypto \<Rightarrow> parsed_certificate \<Rightarrow> bool" where
  "wf_cert c p \<longleftrightarrow> length (pc_signer p) = 32 \<and> length (pc_key p) = 32 \<and>
     assertValidX25519PublicKey c (pc_key p) = Inr () \<and> valid_name (pc_scope p) \<and>
     pc_notBefore p < pc_notAfter p \<and> pc_notAfter p - pc_notBefore p \<le> MAX_KEY_AGREEMENT_LIFETIME \<and>
     int (pc_notAfter p) \<le> MAX_SAFE_INTEGER \<and> int (pc_serial p) \<le> MAX_SAFE_INTEGER"

lemma parseCertificate_wf:
  assumes "parseCertificate c cert allow = Inr p"
  shows "wf_cert c p"
proof -
  from assms obtain sg k where
    "parsePublicKey (KeyString sg) = Inr (pc_signer p)" "parsePublicKey (KeyString k) = Inr (pc_key p)"
    "assertValidX25519PublicKey c (pc_key p) = Inr ()" "isValidScope (js_prop cert (js ''scope''))"
    "pc_scope p = nullish (as_string (js_prop cert (js ''scope''))) []"
    "assertUint (js_prop cert (js ''notBefore'')) = Inr (pc_notBefore p)"
    "assertUint (js_prop cert (js ''notAfter'')) = Inr (pc_notAfter p)"
    "assertUint (js_prop cert (js ''serial'')) = Inr (pc_serial p)"
    "pc_notBefore p < pc_notAfter p" "pc_notAfter p - pc_notBefore p \<le> MAX_KEY_AGREEMENT_LIFETIME"
    unfolding parseCertificate_def
    by (auto simp: rbind_eq_Inr not_le not_less split: if_splits option.splits sum.splits)
  then show ?thesis
    by (auto simp: wf_cert_def parsePublicKey_length isValidScope_iff assertUint_iff)
qed

definition cert_fields :: "parsed_certificate \<Rightarrow> field list" where
  "cert_fields p =
     [Prefixed (textEncode KEY_AGREEMENT_CONTEXT), Fixed (pc_signer p), Fixed (pc_key p),
      Prefixed (textEncode (KeyAgreementRole (pc_role p))), Prefixed (textEncode (pc_scope p)),
      U64 (pc_notBefore p), U64 (pc_notAfter p), U64 (pc_serial p)]"

lemma encodeCertificate_ok: "wf_cert c p \<Longrightarrow> encodeCertificate p = Inr (enc_fields (cert_fields p))"
  by (simp add: encodeCertificate_def w_fixed_def w_uint_def assertUint_js_nat wf_cert_def PUBLIC_KEY_LENGTH_def
      cert_fields_def enc_fields_def)

lemma ascii_names: "ascii (KeyAgreementRole r)" "ascii KEY_AGREEMENT_CONTEXT"
  by (cases r) (simp_all add: js_def KEY_AGREEMENT_CONTEXT_def)

lemma valid_name_encoded: "valid_name s \<Longrightarrow> length (textEncode s) < 2 ^ 32"
  by (simp add: length_textEncode_ascii [OF valid_name_ascii] valid_name_def MAX_NAME_LENGTH_def)

lemma cert_fields_ok: "wf_cert c p \<Longrightarrow> list_all field_ok (cert_fields p)"
  using valid_name_encoded [of "pc_scope p"] ascii_names(1) [of "pc_role p"] ascii_names(2)
  by (cases "pc_role p")
     (auto simp: cert_fields_def wf_cert_def MAX_SAFE_INTEGER_def length_textEncode_ascii KEY_AGREEMENT_CONTEXT_def js_def)

lemma cert_fields_inj:
  assumes wf: "wf_cert c p" "wf_cert d q" and eq: "enc_fields (cert_fields p) = enc_fields (cert_fields q)"
  shows "p = q"
proof -
  have "list_all2 same_kind (cert_fields p) (cert_fields q)" using wf by (simp add: cert_fields_def wf_cert_def)
  from enc_fields_inj [OF this cert_fields_ok [OF wf(1)] cert_fields_ok [OF wf(2)] eq]
  have e: "pc_signer p = pc_signer q" "pc_key p = pc_key q"
    "textEncode (KeyAgreementRole (pc_role p)) = textEncode (KeyAgreementRole (pc_role q))"
    "textEncode (pc_scope p) = textEncode (pc_scope q)" "pc_notBefore p = pc_notBefore q"
    "pc_notAfter p = pc_notAfter q" "pc_serial p = pc_serial q" by (simp_all add: cert_fields_def)
  have "pc_scope p = pc_scope q" using e(4) wf valid_name_ascii textEncode_ascii_inj by (metis wf_cert_def)
  moreover have "KeyAgreementRole (pc_role p) = KeyAgreementRole (pc_role q)"
    using e(3) ascii_names textEncode_ascii_inj by blast
  then have "pc_role p = pc_role q" by (cases "pc_role p"; cases "pc_role q") (simp_all add: js_def)
  ultimately show ?thesis using e by (cases p; cases q) simp
qed

section \<open>What an accepted certificate is\<close>

lemma key_revoked_eq: "rmap parsePublicKey ks = Inr bs \<Longrightarrow> key_revoked ks key = Inr (key \<in> set bs)"
  by (induction ks arbitrary: bs) (auto simp: rbind_eq_Inr)

definition serial_fresh :: "ka_options \<Rightarrow> parsed_certificate \<Rightarrow> bool" where
  "serial_fresh opts p \<longleftrightarrow> \<not> (case vo_knownSerials (ko_base opts) of None \<Rightarrow> False
     | Some m \<Rightarrow> (case m (toHex (pc_signer p) @ [124] @ toHex (pc_key p)) of None \<Rightarrow> False
                | Some seen \<Rightarrow> js_less (js_int (int (pc_serial p))) seen))"

definition cert_accepted :: "ed_verify \<Rightarrow> ka_options \<Rightarrow> bytes list \<Rightarrow> verified_chain \<Rightarrow> parsed_certificate \<Rightarrow> bytes \<Rightarrow> bool" where
  "cert_accepted verify opts revoked v p s \<longleftrightarrow>
     vc_subject v = pc_signer p \<and> pc_role p = ko_role opts \<and> pc_scope p = ko_name opts \<and>
     (\<exists>leaf. vc_scope v = Some leaf \<and> scopeCovers leaf (ko_name opts)) \<and>
     vc_notBefore v \<le> pc_notBefore p \<and> pc_notAfter p \<le> vc_notAfter v \<and>
     int (pc_notBefore p) \<le> int_of (vo_now (ko_base opts)) \<and> int_of (vo_now (ko_base opts)) < int (pc_notAfter p) \<and>
     pc_key p \<notin> set revoked \<and> serial_fresh opts p \<and>
     verify (enc_fields (cert_fields p)) s (pc_signer p)"

lemma check_certificate_None:
  assumes "wf_cert c p" "rmap parsePublicKey (nullish (vo_revoked (ko_base opts)) []) = Inr revoked"
  shows "check_certificate verify opts v p s = Inr None \<longleftrightarrow> cert_accepted verify opts revoked v p s"
  unfolding check_certificate_def key_revoked_eq [OF assms(2)] encodeCertificate_ok [OF assms(1)]
    cert_accepted_def serial_fresh_def
  by (cases "vc_scope v") (auto simp: not_less not_le)

lemma check_certificate_total:
  assumes "wf_cert c p" "rmap parsePublicKey (nullish (vo_revoked (ko_base opts)) []) = Inr revoked"
  shows "\<exists>r. check_certificate verify opts v p s = Inr r"
  by (auto simp: check_certificate_def key_revoked_eq [OF assms(2)] encodeCertificate_ok [OF assms(1)])

abbreviation ka_chain_options :: "ka_options \<Rightarrow> verify_options" where
  "ka_chain_options opts \<equiv> (ko_base opts)\<lparr>vo_requirePurpose := ROLE_PURPOSE (ko_role opts)\<rparr>"

lemma parse_signed_certificate_wf: "parse_signed_certificate c cert = Inr (p, s) \<Longrightarrow> wf_cert c p"
  by (auto simp: parse_signed_certificate_def rbind_eq_Inr dest: parseCertificate_wf)

lemma makeVerifiedKey_fields:
  "makeVerifiedKey p reg = (k, reg') \<Longrightarrow> vk_ref k = kr_next reg \<and> vk_publicKey k = pc_key p \<and> vk_scope k = pc_scope p \<and>
    vk_role k = pc_role p \<and> vk_notAfter k = pc_notAfter p \<and>
    reg' = \<lparr>kr_next = Suc (kr_next reg), kr_verified = kr_next reg # kr_verified reg\<rparr>"
  by (auto simp: makeVerifiedKey_def)

lemma ka_ok_steps:
  assumes "verifyKeyAgreementCertificate c verify cert chain opts reg = Inr (KA_ok k, reg')"
  obtains p s v where "valid_name (ko_name opts)" "parse_signed_certificate c cert = Inr (p, s)"
    "verifyChainCore verify chain (ka_chain_options opts) = Inr (Verified v)"
    "check_certificate verify opts v p s = Inr None"
    "makeVerifiedKey p reg = (kv_key k, reg')" "kv_chain k = v" "kv_serial k = pc_serial p"
proof -
  obtain p s where ps: "parse_signed_certificate c cert = Inr (p, s)" and name: "valid_name (ko_name opts)"
    using assms by (auto simp: verifyKeyAgreementCertificate_def split: if_splits sum.splits)
  obtain r where r: "verifyChainCore verify chain (ka_chain_options opts) = Inr r"
    using assms ps name by (auto simp: verifyKeyAgreementCertificate_def rbind_eq_Inr)
  obtain v where v: "r = Verified v"
    using assms ps name r by (cases r) (auto simp: verifyKeyAgreementCertificate_def)
  obtain failure where f: "check_certificate verify opts v p s = Inr failure"
    using assms ps name r v by (auto simp: verifyKeyAgreementCertificate_def rbind_eq_Inr)
  have "failure = None"
    using assms ps name r v f by (cases failure) (auto simp: verifyKeyAgreementCertificate_def)
  moreover obtain key reg2 where m: "makeVerifiedKey p reg = (key, reg2)" by (cases "makeVerifiedKey p reg")
  ultimately have "k = \<lparr>kv_key = key, kv_chain = v, kv_serialKey = toHex (pc_signer p) @ [124] @ toHex (pc_key p),
      kv_serial = pc_serial p\<rparr>" "reg' = reg2"
    using assms ps name r v f by (auto simp: verifyKeyAgreementCertificate_def)
  with m name ps r v f \<open>failure = None\<close> show thesis by (intro that) auto
qed

lemma ka_accepts:
  assumes "verifyKeyAgreementCertificate c verify cert chain opts reg = Inr (KA_ok k, reg')"
  shows "\<exists>p s v roots revoked. valid_name (ko_name opts) \<and> parse_signed_certificate c cert = Inr (p, s) \<and>
    good_options (ka_chain_options opts) roots revoked \<and>
    verifyChainCore verify chain (ka_chain_options opts) = Inr (Verified v) \<and>
    cert_accepted verify opts revoked v p s \<and>
    makeVerifiedKey p reg = (kv_key k, reg') \<and> kv_chain k = v \<and> kv_serial k = pc_serial p"
proof -
  obtain p s v where name: "valid_name (ko_name opts)" and ps: "parse_signed_certificate c cert = Inr (p, s)"
    and v: "verifyChainCore verify chain (ka_chain_options opts) = Inr (Verified v)"
    and ch: "check_certificate verify opts v p s = Inr None"
    and k: "makeVerifiedKey p reg = (kv_key k, reg')" "kv_chain k = v" "kv_serial k = pc_serial p"
    using assms by (rule ka_ok_steps)
  obtain roots revoked where o: "good_options (ka_chain_options opts) roots revoked"
    using core_throws [of verify chain "ka_chain_options opts"] v by auto
  then have "rmap parsePublicKey (nullish (vo_revoked (ko_base opts)) []) = Inr revoked" by (simp add: good_options_def)
  with check_certificate_None [OF parse_signed_certificate_wf [OF ps]] ch
  have "cert_accepted verify opts revoked v p s" by blast
  with name ps o v k show ?thesis by blast
qed

lemma ka_failed_keeps:
  assumes "verifyKeyAgreementCertificate c verify cert chain opts reg = Inr (KA_failed f, reg')"
  shows "reg' = reg"
proof (cases "parse_signed_certificate c cert")
  case (Inr ps)
  obtain p s where ps: "ps = (p, s)" by (cases ps)
  show ?thesis
  proof (cases "verifyChainCore verify chain (ka_chain_options opts)")
    case r: (Inr r)
    show ?thesis
    proof (cases r)
      case (Verified v)
      with assms Inr ps r show ?thesis
        by (cases "check_certificate verify opts v p s")
           (auto simp: verifyKeyAgreementCertificate_def split: if_splits option.splits prod.splits)
    qed (use assms Inr ps r in \<open>auto simp: verifyKeyAgreementCertificate_def split: if_splits\<close>)
  qed (use assms Inr ps in \<open>auto simp: verifyKeyAgreementCertificate_def split: if_splits\<close>)
qed (use assms in \<open>auto simp: verifyKeyAgreementCertificate_def split: if_splits\<close>)

section \<open>Properties\<close>

text \<open>
  A verified key-agreement key is chained to a root. When the verifier hands out a key, the key is a
  large-order canonical X25519 key named in a certificate for exactly the requested name and role,
  signed by a node key that the grants presented authorize as an unbroken path, each signed, unrevoked and current, from
  a trusted root; the leaf's scope and every scope above it cover the name; and the key's
  validity is at most seven days, contains now, and ends no later than any grant on the path.
\<close>

theorem key_agreement_key_is_chained:
  assumes "verifyKeyAgreementCertificate c verify cert chain opts reg = Inr (KA_ok k, reg')"
  shows "\<exists>p s roots revoked cs links.
    chain = JArr cs \<and> rmap parse_signed cs = Inr links \<and>
    assertValidX25519PublicKey c (vk_publicKey (kv_key k)) = Inr () \<and> vk_publicKey (kv_key k) = pc_key p \<and>
    vk_scope (kv_key k) = ko_name opts \<and> vk_role (kv_key k) = ko_role opts \<and> pc_scope p = ko_name opts \<and>
    verify (enc_fields (cert_fields p)) s (pc_signer p) \<and> pc_key p \<notin> set revoked \<and>
    good_options (ka_chain_options opts) roots revoked \<and>
    trusted_path verify (ka_chain_options opts) roots revoked links (kv_chain k) \<and>
    vc_subject (kv_chain k) = pc_signer p \<and>
    (\<forall>(g, s) \<in> set links. covers_opt valid_name scopeCovers (pg_scope g) (Some (ko_name opts)) \<and>
       pg_notBefore g \<le> pc_notBefore p \<and> vk_notAfter (kv_key k) \<le> pg_notAfter g) \<and>
    int (pc_notBefore p) \<le> int_of (vo_now (ko_base opts)) \<and> int_of (vo_now (ko_base opts)) < int (vk_notAfter (kv_key k)) \<and>
    vk_notAfter (kv_key k) \<le> pc_notBefore p + MAX_KEY_AGREEMENT_LIFETIME"
proof -
  obtain p s v roots0 revoked0 where ps: "parse_signed_certificate c cert = Inr (p, s)"
    and v: "verifyChainCore verify chain (ka_chain_options opts) = Inr (Verified v)"
    and o0: "good_options (ka_chain_options opts) roots0 revoked0"
    and acc: "cert_accepted verify opts revoked0 v p s"
    and k: "makeVerifiedKey p reg = (kv_key k, reg')" "kv_chain k = v"
    using ka_accepts [OF assms] by blast
  have wf: "wf_cert c p" using ps by (rule parse_signed_certificate_wf)
  from core_authority [OF v] obtain roots revoked cs links where o: "good_options (ka_chain_options opts) roots revoked"
    and cs: "chain = JArr cs" "rmap parse_signed cs = Inr links"
    and path: "trusted_path verify (ka_chain_options opts) roots revoked links v" by blast
  have rev: "revoked0 = revoked" using o0 o by (simp add: good_options_def)
  have key: "vk_publicKey (kv_key k) = pc_key p" "vk_scope (kv_key k) = pc_scope p" "vk_role (kv_key k) = pc_role p"
    "vk_notAfter (kv_key k) = pc_notAfter p" using makeVerifiedKey_fields [OF k(1)] by auto
  obtain leaf where leaf: "vc_scope v = Some leaf" "scopeCovers leaf (ko_name opts)" using acc by (auto simp: cert_accepted_def)
  have "covers_opt valid_name scopeCovers (pg_scope g) (Some (ko_name opts)) \<and>
      pg_notBefore g \<le> pc_notBefore p \<and> pc_notAfter p \<le> pg_notAfter g" if "(g, t) \<in> set links" for g t
  proof -
    have g: "covers_opt valid_name scopeCovers (pg_scope g) (Some leaf)" "pg_notBefore g \<le> vc_notBefore v" "vc_notAfter v \<le> pg_notAfter g"
      using path that leaf by (auto simp: trusted_path_def)
    then have "covers_opt valid_name scopeCovers (pg_scope g) (Some (ko_name opts))"
      using scope.opt.covers_trans leaf(2) by (metis covers_opt.simps(3))
    with g acc show ?thesis by (auto simp: cert_accepted_def)
  qed
  then have nested: "\<forall>(g, s) \<in> set links. covers_opt valid_name scopeCovers (pg_scope g) (Some (ko_name opts)) \<and>
      pg_notBefore g \<le> pc_notBefore p \<and> pc_notAfter p \<le> pg_notAfter g" by blast
  show ?thesis
    using acc wf o cs path nested unfolding key k(2) rev cert_accepted_def wf_cert_def
    by (intro exI [of _ p] exI [of _ s] exI [of _ roots] exI [of _ revoked] exI [of _ cs] exI [of _ links]) auto
qed

text \<open>
  Only the verifier registers keys. A refusal leaves the registry as it was; an acceptance adds the
  identity of the returned key, which no earlier object has, and nothing else.
\<close>

theorem registry_only_verified:
  assumes "verifyKeyAgreementCertificate c verify cert chain opts reg = Inr (r, reg')"
    and "\<And>x. x \<in> set (kr_verified reg) \<Longrightarrow> x < kr_next reg"
  shows "case r of
      KA_failed f \<Rightarrow> reg' = reg
    | KA_ok k \<Rightarrow> isVerifiedKeyAgreementKey (kv_key k) reg' \<and> vk_ref (kv_key k) \<notin> set (kr_verified reg) \<and>
        (\<forall>x. isVerifiedKeyAgreementKey x reg' \<longleftrightarrow> isVerifiedKeyAgreementKey x reg \<or> vk_ref x = vk_ref (kv_key k)) \<and>
        (\<forall>x \<in> set (kr_verified reg'). x < kr_next reg')"
proof (cases r)
  case (KA_ok k)
  then obtain p where "makeVerifiedKey p reg = (kv_key k, reg')" using ka_accepts assms(1) by blast
  from makeVerifiedKey_fields [OF this] assms(2) KA_ok show ?thesis
    by (auto simp: isVerifiedKeyAgreementKey_def less_Suc_eq)
next
  case (KA_failed f)
  then show ?thesis using ka_failed_keeps assms(1) by simp
qed

text \<open>A concrete certificate under the concrete grant.\<close>

definition sample_cert :: jsval where
  "sample_cert = JObj [(js ''signer'', JStr (encodeBase64 (replicate 32 2))), (js ''key'', JStr (encodeBase64 sample_key)),
     (js ''role'', JStr (js ''service-node'')), (js ''scope'', JStr (js ''a.ox'')), (js ''notBefore'', js_nat 12),
     (js ''notAfter'', js_nat 18), (js ''serial'', js_nat 1), (js ''signature'', JStr (encodeBase64 (replicate 64 7)))]"

definition sample_cert_parsed :: parsed_certificate where
  "sample_cert_parsed = \<lparr>pc_signer = replicate 32 2, pc_key = sample_key, pc_role = KA_SERVICE_NODE,
     pc_scope = js ''a.ox'', pc_notBefore = 12, pc_notAfter = 18, pc_serial = 1\<rparr>"

definition sample_ka_options :: ka_options where
  "sample_ka_options = \<lparr>ko_base = sample_options, ko_role = KA_SERVICE_NODE, ko_name = js ''a.ox''\<rparr>"

abbreviation empty_registry :: key_registry where
  "empty_registry \<equiv> \<lparr>kr_next = 0, kr_verified = []\<rparr>"

lemma sample_cert_parse: "parse_signed_certificate sample_crypto sample_cert = Inr (sample_cert_parsed, replicate 64 7)"
proof -
  have len: "length sample_key = 32" "length (replicate 32 (2 :: byte)) = 32" by simp_all
  show ?thesis
    unfolding sample_cert_def sample_cert_parsed_def parse_signed_certificate_def parseCertificate_def
    using sample_name len
    by (simp add: is_object_def CERT_FIELDS_def js_def list_ex_iff parsePublicKey_def decode_encode64 parse_role_def
        PUBLIC_KEY_LENGTH_def sample_valid_key assertUint_js_nat MAX_SAFE_INTEGER_def MAX_KEY_AGREEMENT_LIFETIME_def
        SIGNATURE_LENGTH_def del: replicate.simps)
qed

lemma sample_core: "verifyChainCore sample_verify (JArr [sample_signed]) (ka_chain_options sample_ka_options) =
    Inr (Verified (summary [sample_parsed]))"
proof -
  have "ka_chain_options sample_ka_options = sample_options" by (simp add: sample_ka_options_def sample_options_def)
  then show ?thesis using sample_accepted unfolding verifyChain_Verified by simp
qed

lemma sample_ka:
  "\<exists>k reg'. verifyKeyAgreementCertificate sample_crypto sample_verify sample_cert (JArr [sample_signed]) sample_ka_options
     empty_registry = Inr (KA_ok k, reg')"
proof -
  have wf: "wf_cert sample_crypto sample_cert_parsed" using sample_cert_parse by (rule parse_signed_certificate_wf)
  have rev: "rmap parsePublicKey (nullish (vo_revoked (ko_base sample_ka_options)) []) = Inr []"
    by (simp add: sample_ka_options_def sample_options_def)
  have "scopeCovers (js ''a.ox'') (js ''a.ox'')" using sample_name by (rule scope.covers_refl)
  then have "cert_accepted sample_verify sample_ka_options [] (summary [sample_parsed]) sample_cert_parsed (replicate 64 7)"
    by (simp add: cert_accepted_def summary_def sample_parsed_def sample_cert_parsed_def sample_ka_options_def
        sample_options_def serial_fresh_def del: replicate.simps)
  then have "check_certificate sample_verify sample_ka_options (summary [sample_parsed]) sample_cert_parsed (replicate 64 7) = Inr None"
    using check_certificate_None [OF wf rev] by blast
  moreover have "isValidScope (JStr (ko_name sample_ka_options))" by (simp add: sample_ka_options_def sample_name)
  ultimately show ?thesis
    unfolding verifyKeyAgreementCertificate_def sample_cert_parse using sample_core
    by (simp add: makeVerifiedKey_def del: replicate.simps)
qed

theorem key_agreement_key_is_chained_witness:
  "\<exists>k reg'. verifyKeyAgreementCertificate sample_crypto sample_verify sample_cert (JArr [sample_signed]) sample_ka_options
     empty_registry = Inr (KA_ok k, reg') \<and> vk_scope (kv_key k) = js ''a.ox''"
proof -
  obtain k reg' where k: "verifyKeyAgreementCertificate sample_crypto sample_verify sample_cert (JArr [sample_signed])
      sample_ka_options empty_registry = Inr (KA_ok k, reg')" using sample_ka by blast
  have "vk_scope (kv_key k) = ko_name sample_ka_options"
    using key_agreement_key_is_chained [OF k] by (elim exE conjE)
  with k show ?thesis by (intro exI conjI) (simp_all add: sample_ka_options_def)
qed

theorem registry_only_verified_witness:
  "\<exists>k reg'. verifyKeyAgreementCertificate sample_crypto sample_verify sample_cert (JArr [sample_signed]) sample_ka_options
     empty_registry = Inr (KA_ok k, reg') \<and> isVerifiedKeyAgreementKey (kv_key k) reg'"
proof -
  obtain k reg' where k: "verifyKeyAgreementCertificate sample_crypto sample_verify sample_cert (JArr [sample_signed])
      sample_ka_options empty_registry = Inr (KA_ok k, reg')" using sample_ka by blast
  from registry_only_verified [OF k] k show ?thesis by (intro exI conjI) auto
qed

end
