(* ===== verification/Session.thy ===== *)
theory Session
  imports Noise Key_Agreement
begin

text \<open>
  \<^verbatim>\<open>packages/protocol/src/session.ts\<close>: the client and server handshakes and the session cipher that seals and opens
  records. As in the handshake, an operation that may throw returns its result with the new
  state of the object.
\<close>

definition SESSION_CONTEXT :: jsstring where "SESSION_CONTEXT = js ''tnp-session-v1''"

section \<open>Limits and prologue\<close>

record session_limits =
  sl_maxRecordsPerKey :: "js_number option"
  sl_keyUpdateInterval :: "js_number option"

record resolved_limits =
  rl_maxRecordsPerKey :: int
  rl_keyUpdateInterval :: int

definition resolveLimits :: "session_limits option \<Rightarrow> resolved_limits result" where
  "resolveLimits limits =
     (let maxRecordsPerKey = nullish (Option.bind limits sl_maxRecordsPerKey) (js_int MAX_RECORDS_PER_KEY) in
      if \<not> isSafeInteger maxRecordsPerKey \<or> js_less maxRecordsPerKey (js_int 2) \<or>
         js_less (js_int MAX_RECORDS_PER_KEY) maxRecordsPerKey then Inl RangeError
      else let intervalCeiling = min KEY_UPDATE_INTERVAL (int_of maxRecordsPerKey - 1);
               keyUpdateInterval = nullish (Option.bind limits sl_keyUpdateInterval) (js_int intervalCeiling) in
        if \<not> isSafeInteger keyUpdateInterval \<or> js_less keyUpdateInterval (js_int 1) \<or>
           js_less (js_int intervalCeiling) keyUpdateInterval then Inl RangeError
        else Inr \<lparr>rl_maxRecordsPerKey = int_of maxRecordsPerKey, rl_keyUpdateInterval = int_of keyUpdateInterval\<rparr>)"

definition sessionPrologue :: "ka_role \<Rightarrow> jsstring \<Rightarrow> bytes result" where
  "sessionPrologue role name =
     rbind (w_fixed (w_string [] SESSION_CONTEXT) [word_of_nat PROTOCOL_VERSION] 1) (\<lambda>w.
       Inr (w_finish (w_string (w_string w (KeyAgreementRole role)) name)))"

fun toSessionError :: "exn \<Rightarrow> exn" where
  "toSessionError (SessionError code) = SessionError code"
| "toSessionError (NoiseError NK_dh) = SessionError (ErrorCode PROTOCOL_VIOLATION)"
| "toSessionError (NoiseError NK_state) = SessionError (ErrorCode PROTOCOL_VIOLATION)"
| "toSessionError _ = SessionError (ErrorCode AUTH_FAILED)"

section \<open>SessionCipher\<close>

record session_cipher =
  sc_sendKey :: bytes
  sc_receiveKey :: bytes
  sc_sendCounter :: nat
  sc_receiveCounter :: nat
  sc_sentClose :: bool
  sc_receivedClose :: bool
  sc_failed :: "exn option"
  sc_hash :: bytes
  sc_limits :: resolved_limits

definition SessionCipher :: "bytes \<Rightarrow> bytes \<Rightarrow> bytes \<Rightarrow> resolved_limits \<Rightarrow> session_cipher" where
  "SessionCipher sendKey receiveKey handshakeHash limits =
     \<lparr>sc_sendKey = sendKey, sc_receiveKey = receiveKey, sc_sendCounter = 0, sc_receiveCounter = 0,
      sc_sentClose = False, sc_receivedClose = False, sc_failed = None, sc_hash = handshakeHash, sc_limits = limits\<rparr>"

definition RT_DATA :: nat where "RT_DATA = 0x00"
definition RT_CLOSE :: nat where "RT_CLOSE = 0x01"
definition RT_KEY_UPDATE :: nat where "RT_KEY_UPDATE = 0x02"

lemmas RecordType = RT_DATA_def RT_CLOSE_def RT_KEY_UPDATE_def

datatype opened_record = Opened_data bytes | Opened_close | Opened_key_update

record record_header =
  rh_type :: nat
  rh_flags :: js_number
  rh_streamId :: js_number

definition needsKeyUpdate :: "session_cipher \<Rightarrow> bool" where
  "needsKeyUpdate s \<longleftrightarrow> int (sc_sendCounter s) \<ge> rl_keyUpdateInterval (sc_limits s)"

definition frameAssociatedData :: "nat \<Rightarrow> js_number \<Rightarrow> js_number \<Rightarrow> bytes result" where
  "frameAssociatedData t flags streamId =
     (if \<not> isFrameType t then Inl RangeError
      else if \<not> isInteger flags \<or> js_less flags (js_int 0) \<or> unknown_flag_bits (int_of flags) t \<noteq> 0 then Inl RangeError
      else if \<not> isInteger streamId \<or> js_less streamId (js_int 0) \<or> js_less (js_int 0xffffffff) streamId then Inl RangeError
      else Inr ([word_of_nat PROTOCOL_VERSION, word_of_nat t] @ be_bytes 2 (nat (int_of flags))
             @ be_bytes 4 (nat (int_of streamId))))"

abbreviation header_ad :: "record_header \<Rightarrow> bytes result" where
  "header_ad h \<equiv> frameAssociatedData (rh_type h) (rh_flags h) (rh_streamId h)"

definition assertCanSend :: "session_cipher \<Rightarrow> unit result" where
  "assertCanSend s = (case sc_failed s of
     Some e \<Rightarrow> Inl e
   | None \<Rightarrow>
       if sc_sentClose s then Inl (SessionError (ErrorCode PROTOCOL_VIOLATION))
       else if int (sc_sendCounter s) \<ge> rl_maxRecordsPerKey (sc_limits s) then Inl RekeyRequiredError
       else Inr ())"

definition sealRecord :: "crypto \<Rightarrow> nat \<Rightarrow> bytes \<Rightarrow> record_header \<Rightarrow> session_cipher \<Rightarrow> bytes result \<times> session_cipher" where
  "sealRecord c t body h s = (case header_ad h of
     Inl e \<Rightarrow> (Inl e, s)
   | Inr ad \<Rightarrow>
       let inner = word_of_nat t # body;
           counter = sc_sendCounter s;
           sealed = encryptWithAd c (sc_sendKey s) counter ad inner in
       (Inr (be_bytes 8 counter @ sealed), s\<lparr>sc_sendCounter := counter + 1\<rparr>))"

definition seal :: "crypto \<Rightarrow> bytes \<Rightarrow> record_header \<Rightarrow> session_cipher \<Rightarrow> bytes result \<times> session_cipher" where
  "seal c plaintext h s =
     (if length plaintext > MAX_SEALED_PLAINTEXT then (Inl RangeError, s)
      else case assertCanSend s of
        Inl e \<Rightarrow> (Inl e, s)
      | Inr _ \<Rightarrow>
          if int (sc_sendCounter s) \<ge> rl_maxRecordsPerKey (sc_limits s) - 1 then (Inl RekeyRequiredError, s)
          else sealRecord c RT_DATA plaintext h s)"

definition close :: "crypto \<Rightarrow> record_header \<Rightarrow> session_cipher \<Rightarrow> bytes result \<times> session_cipher" where
  "close c h s = (case assertCanSend s of
     Inl e \<Rightarrow> (Inl e, s)
   | Inr _ \<Rightarrow> (case sealRecord c RT_CLOSE [] h s of
       (Inl e, s') \<Rightarrow> (Inl e, s')
     | (Inr r, s') \<Rightarrow> (Inr r, s'\<lparr>sc_sentClose := True, sc_sendKey := wipe (sc_sendKey s')\<rparr>)))"

definition updateKey :: "crypto \<Rightarrow> record_header \<Rightarrow> session_cipher \<Rightarrow> bytes result \<times> session_cipher" where
  "updateKey c h s = (case assertCanSend s of
     Inl e \<Rightarrow> (Inl e, s)
   | Inr _ \<Rightarrow> (case sealRecord c RT_KEY_UPDATE [] h s of
       (Inl e, s') \<Rightarrow> (Inl e, s')
     | (Inr r, s') \<Rightarrow> (Inr r, s'\<lparr>sc_sendKey := rekey c (sc_sendKey s'), sc_sendCounter := 0\<rparr>)))"

definition poison :: "exn \<Rightarrow> session_cipher \<Rightarrow> session_cipher" where
  "poison e s = (case sc_failed s of
     Some _ \<Rightarrow> s
   | None \<Rightarrow> s\<lparr>sc_failed := Some e, sc_sendKey := wipe (sc_sendKey s), sc_receiveKey := wipe (sc_receiveKey s)\<rparr>)"

definition openRecord :: "crypto \<Rightarrow> bytes \<Rightarrow> bytes \<Rightarrow> session_cipher \<Rightarrow> opened_record result \<times> session_cipher" where
  "openRecord c rec ad s =
     (if sc_receivedClose s then (Inl (SessionError (ErrorCode PROTOCOL_VIOLATION)), s)
      else if length rec < SEALED_RECORD_OVERHEAD \<or> length rec > MAX_FRAME_PAYLOAD
        then (Inl (SessionError (ErrorCode PROTOCOL_VIOLATION)), s)
      else let counter = be_nat (take 8 rec); expected = sc_receiveCounter s in
      if counter < expected then (Inl (SessionError (ErrorCode REPLAY_DETECTED)), s)
      else if counter > expected then (Inl (SessionError (ErrorCode PROTOCOL_VIOLATION)), s)
      else if int (sc_receiveCounter s) \<ge> rl_maxRecordsPerKey (sc_limits s)
        then (Inl (SessionError (ErrorCode PROTOCOL_VIOLATION)), s)
      else case decryptWithAd c (sc_receiveKey s) counter ad (drop 8 rec) of
        None \<Rightarrow> (Inl (SessionError (ErrorCode DECRYPT_FAILED)), s)
      | Some inner \<Rightarrow>
          let s' = s\<lparr>sc_receiveCounter := sc_receiveCounter s + 1\<rparr> in
          (case inner of
             [] \<Rightarrow> (Inl (SessionError (ErrorCode PROTOCOL_VIOLATION)), s')
           | t # body \<Rightarrow>
               if unat t = RT_DATA then
                 (if int (sc_receiveCounter s') \<ge> rl_maxRecordsPerKey (sc_limits s)
                  then (Inl (SessionError (ErrorCode PROTOCOL_VIOLATION)), s')
                  else (Inr (Opened_data body), s'))
               else if length inner \<noteq> 1 then (Inl (SessionError (ErrorCode PROTOCOL_VIOLATION)), s')
               else if unat t = RT_CLOSE then
                 (Inr Opened_close, s'\<lparr>sc_receivedClose := True, sc_receiveKey := wipe (sc_receiveKey s)\<rparr>)
               else if unat t = RT_KEY_UPDATE then
                 (Inr Opened_key_update, s'\<lparr>sc_receiveKey := rekey c (sc_receiveKey s), sc_receiveCounter := 0\<rparr>)
               else (Inl (SessionError (ErrorCode PROTOCOL_VIOLATION)), s')))"

fun is_session_error :: "exn \<Rightarrow> bool" where
  "is_session_error (SessionError _) = True"
| "is_session_error _ = False"

definition open_record :: "crypto \<Rightarrow> bytes \<Rightarrow> record_header \<Rightarrow> session_cipher \<Rightarrow> opened_record result \<times> session_cipher" where
  "open_record c rec h s = (case sc_failed s of
     Some e \<Rightarrow> (Inl e, s)
   | None \<Rightarrow> (case header_ad h of
       Inl e \<Rightarrow> (Inl e, s)
     | Inr ad \<Rightarrow> (case openRecord c rec ad s of
         (Inl e, s') \<Rightarrow> (Inl e, if is_session_error e then poison e s' else s')
       | (Inr r, s') \<Rightarrow> (Inr r, s'))))"

definition transportEnded :: "session_cipher \<Rightarrow> unit result \<times> session_cipher" where
  "transportEnded s = (case sc_failed s of
     Some e \<Rightarrow> (Inl e, s)
   | None \<Rightarrow>
       if \<not> sc_receivedClose s
       then (Inl (SessionError (ErrorCode TRUNCATED)), poison (SessionError (ErrorCode TRUNCATED)) s)
       else (Inr (), s))"

section \<open>ClientHandshake\<close>

record client_options =
  co_serverKey :: verified_key
  co_name :: jsstring
  co_now :: js_number
  co_limits :: "session_limits option"

datatype ch_state = HS_new | HS_started | HS_done

record client_handshake =
  ch_noise :: nk_initiator
  ch_limits :: resolved_limits
  ch_state :: ch_state

text \<open>The argument \<open>ephemeral\<close> is what \<^verbatim>\<open>generateX25519KeyPair\<close> returns.\<close>

definition ClientHandshake :: "crypto \<Rightarrow> key_registry \<Rightarrow> client_options \<Rightarrow> x25519_key_pair \<Rightarrow> client_handshake result" where
  "ClientHandshake c reg opts ephemeral =
     (if \<not> isVerifiedKeyAgreementKey (co_serverKey opts) reg then Inl (SessionError (ErrorCode AUTH_FAILED))
      else if co_name opts \<noteq> vk_scope (co_serverKey opts) then Inl (SessionError (ErrorCode AUTH_FAILED))
      else if \<not> isSafeInteger (co_now opts) \<or>
              \<not> js_less (co_now opts) (js_int (int (vk_notAfter (co_serverKey opts))))
        then Inl (SessionError (ErrorCode AUTH_EXPIRED))
      else rbind (resolveLimits (co_limits opts)) (\<lambda>limits.
        rbind (sessionPrologue (vk_role (co_serverKey opts)) (co_name opts)) (\<lambda>prologue.
          Inr \<lparr>ch_noise = NkInitiator c prologue (vk_publicKey (co_serverKey opts)) ephemeral,
               ch_limits = limits, ch_state = HS_new\<rparr>)))"

definition start :: "crypto \<Rightarrow> client_handshake \<Rightarrow> bytes result \<times> client_handshake" where
  "start c st =
     (if ch_state st \<noteq> HS_new then (Inl (SessionError (ErrorCode PROTOCOL_VIOLATION)), st)
      else let (m, n) = writeMessage1 c [] (ch_noise st) in
        (m, st\<lparr>ch_state := HS_started, ch_noise := n\<rparr>))"

definition finish :: "crypto \<Rightarrow> bytes \<Rightarrow> client_handshake \<Rightarrow> session_cipher result \<times> client_handshake" where
  "finish c message2 st =
     (if ch_state st \<noteq> HS_started then (Inl (SessionError (ErrorCode PROTOCOL_VIOLATION)), st)
      else if length message2 \<noteq> HANDSHAKE_MESSAGE_SIZE
        then (Inl (SessionError (ErrorCode PROTOCOL_VIOLATION)), st\<lparr>ch_state := HS_done\<rparr>)
      else case readMessage2 c message2 (ch_noise st) of
        (Inl e, n) \<Rightarrow> (Inl (toSessionError e), st\<lparr>ch_state := HS_done, ch_noise := n\<rparr>)
      | (Inr (_, sp), n) \<Rightarrow>
          (Inr (SessionCipher (ns_sendKey sp) (ns_receiveKey sp) (ns_handshakeHash sp) (ch_limits st)),
           st\<lparr>ch_state := HS_done, ch_noise := n\<rparr>))"

section \<open>ServerHandshake\<close>

record server_options =
  so_staticKey :: x25519_key_pair
  so_name :: jsstring
  so_role :: "ka_role option"
  so_limits :: "session_limits option"

record server_handshake =
  sh_noise :: nk_responder
  sh_limits :: resolved_limits
  sh_used :: bool

definition ServerHandshake :: "crypto \<Rightarrow> server_options \<Rightarrow> x25519_key_pair \<Rightarrow> server_handshake result" where
  "ServerHandshake c opts ephemeral =
     rbind (x25519KeyPairFromSecret c (kp_secretKey (so_staticKey opts))) (\<lambda>derived.
       if \<not> bytesEqual (kp_publicKey derived) (kp_publicKey (so_staticKey opts)) then Inl RangeError
       else rbind (assertValidX25519PublicKey c (kp_publicKey derived)) (\<lambda>_.
         rbind (resolveLimits (so_limits opts)) (\<lambda>limits.
         rbind (sessionPrologue (nullish (so_role opts) KA_SERVICE_NODE) (so_name opts)) (\<lambda>prologue.
           Inr \<lparr>sh_noise = NkResponder c prologue derived ephemeral, sh_limits = limits, sh_used = False\<rparr>))))"

definition respond :: "crypto \<Rightarrow> bytes \<Rightarrow> server_handshake \<Rightarrow> (bytes \<times> session_cipher) result \<times> server_handshake" where
  "respond c message1 st =
     (if sh_used st then (Inl (SessionError (ErrorCode PROTOCOL_VIOLATION)), st)
      else if length message1 \<noteq> HANDSHAKE_MESSAGE_SIZE
        then (Inl (SessionError (ErrorCode PROTOCOL_VIOLATION)), st\<lparr>sh_used := True\<rparr>)
      else case readMessage1 c message1 (sh_noise st) of
        (Inl e, n) \<Rightarrow> (Inl (toSessionError e), st\<lparr>sh_used := True, sh_noise := n\<rparr>)
      | (Inr _, n) \<Rightarrow> (case writeMessage2 c [] n of
          (Inl e, n') \<Rightarrow> (Inl (toSessionError e), st\<lparr>sh_used := True, sh_noise := n'\<rparr>)
        | (Inr (message, sp), n') \<Rightarrow>
            (Inr (message, SessionCipher (ns_sendKey sp) (ns_receiveKey sp) (ns_handshakeHash sp) (sh_limits st)),
             st\<lparr>sh_used := True, sh_noise := n'\<rparr>)))"

section \<open>Lemmas\<close>

lemma resolveLimits_bounds:
  assumes "resolveLimits l = Inr r"
  shows "2 \<le> rl_maxRecordsPerKey r" "rl_maxRecordsPerKey r \<le> 2 ^ 32"
    "1 \<le> rl_keyUpdateInterval r" "rl_keyUpdateInterval r < rl_maxRecordsPerKey r" "rl_keyUpdateInterval r \<le> 2 ^ 24"
  using assms unfolding resolveLimits_def Let_def
  by (auto simp: isSafeInteger_def MAX_RECORDS_PER_KEY_def KEY_UPDATE_INTERVAL_def split: if_splits)

lemma frameAssociatedData_Inr:
  assumes "frameAssociatedData t flags sid = Inr ad"
  shows "isFrameType t" "isInteger flags" "unknown_flag_bits (int_of flags) t = 0" "0 \<le> int_of flags"
    "isInteger sid" "0 \<le> int_of sid" "int_of sid < 2 ^ 32"
    "ad = [word_of_nat PROTOCOL_VERSION, word_of_nat t] @ be_bytes 2 (nat (int_of flags)) @ be_bytes 4 (nat (int_of sid))"
  using assms by (auto simp: frameAssociatedData_def split: if_splits)

lemma seal_record_facts:
  assumes "sealRecord c t body h s = (Inr r, s')"
  obtains ad where "header_ad h = Inr ad"
    "r = be_bytes 8 (sc_sendCounter s) @ encryptWithAd c (sc_sendKey s) (sc_sendCounter s) ad (word_of_nat t # body)"
    "s' = s\<lparr>sc_sendCounter := sc_sendCounter s + 1\<rparr>"
  using assms by (auto simp: sealRecord_def Let_def split: sum.splits)

lemma sealRecord_error: "sealRecord c t body h s = (Inl e, s') \<Longrightarrow> s' = s"
  by (auto simp: sealRecord_def Let_def split: sum.splits)

lemma assertCanSend_Inr: "assertCanSend s = Inr u \<longleftrightarrow>
    sc_failed s = None \<and> \<not> sc_sentClose s \<and> int (sc_sendCounter s) < rl_maxRecordsPerKey (sc_limits s)"
  by (auto simp: assertCanSend_def split: option.splits if_splits)

text \<open>The one outcome of \<^verbatim>\<open>openRecord\<close> that accepts, with the state it leaves.\<close>

lemma openRecord_Inr:
  assumes "openRecord c rec ad s = (Inr r, s')"
  obtains t body where "\<not> sc_receivedClose s" "be_nat (take 8 rec) = sc_receiveCounter s"
    "SEALED_RECORD_OVERHEAD \<le> length rec" "length rec \<le> MAX_FRAME_PAYLOAD"
    "int (sc_receiveCounter s) < rl_maxRecordsPerKey (sc_limits s)"
    "decryptWithAd c (sc_receiveKey s) (sc_receiveCounter s) ad (drop 8 rec) = Some (t # body)"
    "r = Opened_data body \<and> unat t = RT_DATA \<and> int (sc_receiveCounter s) + 1 < rl_maxRecordsPerKey (sc_limits s) \<and>
       s' = s\<lparr>sc_receiveCounter := sc_receiveCounter s + 1\<rparr> \<or>
     r = Opened_close \<and> unat t = RT_CLOSE \<and> body = [] \<and>
       s' = s\<lparr>sc_receiveCounter := sc_receiveCounter s + 1, sc_receivedClose := True, sc_receiveKey := wipe (sc_receiveKey s)\<rparr> \<or>
     r = Opened_key_update \<and> unat t = RT_KEY_UPDATE \<and> body = [] \<and>
       s' = s\<lparr>sc_receiveCounter := 0, sc_receiveKey := rekey c (sc_receiveKey s)\<rparr>"
  using assms unfolding openRecord_def Let_def
  by (fastforce split: if_splits option.splits list.splits)

lemma openRecord_Inl: "openRecord c rec ad s = (Inl e, s') \<Longrightarrow> is_session_error e \<and> sc_failed s' = sc_failed s \<and>
    sc_receivedClose s' = sc_receivedClose s"
  unfolding openRecord_def Let_def by (auto split: if_splits option.splits list.splits)

lemma open_record_Inr: "open_record c rec h s = (Inr r, s') \<longleftrightarrow>
    sc_failed s = None \<and> (\<exists>ad. header_ad h = Inr ad \<and> openRecord c rec ad s = (Inr r, s'))"
  by (auto simp: open_record_def split: option.splits sum.splits prod.splits)

lemma poison_failed [simp]: "sc_failed (poison e s) = Some (case sc_failed s of None \<Rightarrow> e | Some e' \<Rightarrow> e')"
  by (simp add: poison_def split: option.splits)

text \<open>A refused record either left the session untouched, because the header itself was malformed, or ended it.\<close>

lemma open_record_Inl:
  assumes "open_record c rec h s = (Inl e, s')"
  obtains "s' = s" | "sc_failed s' = Some e" "sc_receivedClose s' = sc_receivedClose s"
  using assms openRecord_Inl
  by (auto simp: open_record_def poison_def split: option.splits sum.splits prod.splits if_splits)

section \<open>Failure is final\<close>

text \<open>
  C26. A failed session stays failed. When \<^verbatim>\<open>open\<close> or \<^verbatim>\<open>transportEnded\<close> throws a
  SessionError, both keys are zeroed and every later operation in either direction throws that
  same error and changes nothing.
\<close>

theorem session_failure_final:
  assumes "open_record c rec h s = (Inl (SessionError code), s') \<or> transportEnded s = (Inl (SessionError code), s')"
    and "sc_failed s = None"
  shows "set (sc_sendKey s') \<subseteq> {0} \<and> set (sc_receiveKey s') \<subseteq> {0} \<and>
    open_record c rec' h' s' = (Inl (SessionError code), s') \<and> transportEnded s' = (Inl (SessionError code), s') \<and>
    close c h' s' = (Inl (SessionError code), s') \<and> updateKey c h' s' = (Inl (SessionError code), s') \<and>
    (length p \<le> MAX_SEALED_PLAINTEXT \<longrightarrow> seal c p h' s' = (Inl (SessionError code), s'))"
proof -
  have no_se: "header_ad h \<noteq> Inl (SessionError code)"
    by (auto simp: frameAssociatedData_def)
  have "\<exists>s0. sc_failed s0 = None \<and> s' = poison (SessionError code) s0"
    using assms no_se openRecord_Inl [of c rec _ s "SessionError code"]
    by (auto simp: open_record_def transportEnded_def split: sum.splits prod.splits if_splits)
  then obtain s0 where "sc_failed s0 = None" "s' = poison (SessionError code) s0" by blast
  then show ?thesis
    by (auto simp: poison_def wipe_def open_record_def transportEnded_def close_def updateKey_def seal_def assertCanSend_def)
qed

text \<open>
  C32. What each refusal means. On a live session and a well-formed header, the error codes tell the cases apart:
  REPLAY_DETECTED exactly for a record of plausible size whose counter is below the expected one,
  DECRYPT_FAILED exactly when the counter is the expected one, within the limit, and the AEAD
  rejects the rest.
\<close>

theorem open_error_codes:
  assumes "sc_failed s = None" and "header_ad h = Inr ad" and "\<not> sc_receivedClose s"
    and "SEALED_RECORD_OVERHEAD \<le> length rec" and "length rec \<le> MAX_FRAME_PAYLOAD"
  shows "(fst (open_record c rec h s) = Inl (SessionError (ErrorCode REPLAY_DETECTED)) \<longleftrightarrow>
       be_nat (take 8 rec) < sc_receiveCounter s) \<and>
     (fst (open_record c rec h s) = Inl (SessionError (ErrorCode DECRYPT_FAILED)) \<longleftrightarrow>
       be_nat (take 8 rec) = sc_receiveCounter s \<and> int (sc_receiveCounter s) < rl_maxRecordsPerKey (sc_limits s) \<and>
       decryptWithAd c (sc_receiveKey s) (sc_receiveCounter s) ad (drop 8 rec) = None)"
proof -
  have "fst (open_record c rec h s) = fst (openRecord c rec ad s)"
    using assms(1,2) by (auto simp: open_record_def split: prod.splits sum.splits)
  then show ?thesis
    using assms(3-5) by (auto simp: openRecord_def Let_def split: option.splits list.splits)
qed

text \<open>Sending after an own close is refused with a SessionError, and yet the session lives on.\<close>

lemma closed_sender_not_poisoned:
  assumes "sc_failed s = None" "sc_sentClose s"
  shows "close c h s = (Inl (SessionError (ErrorCode PROTOCOL_VIOLATION)), s) \<and> sc_failed (snd (close c h s)) = None"
  using assms by (simp add: close_def assertCanSend_def)

text \<open>Witnesses.\<close>

definition sample_limits :: resolved_limits where
  "sample_limits = \<lparr>rl_maxRecordsPerKey = 4, rl_keyUpdateInterval = 3\<rparr>"

definition sample_session :: session_cipher where
  "sample_session = SessionCipher (replicate 32 7) (replicate 32 9) [] sample_limits"

definition sample_header :: record_header where
  "sample_header = \<lparr>rh_type = FrameType STREAM_DATA, rh_flags = js_int 0, rh_streamId = js_int 5\<rparr>"

lemma sample_be: "be_bytes 2 0 = [0, 0]" "be_bytes 4 5 = [0, 0, 0, 5]"
  by (rule be_nat_inj; simp)+

lemma sample_header_ad: "header_ad sample_header = Inr [1, 0x22, 0, 0, 0, 0, 0, 5]"
  unfolding frameAssociatedData_def sample_header_def
  by (simp add: unknown_flag_bits_def PROTOCOL_VERSION_def sample_be isFrameType_def FRAME_TYPE_VALUES_def)

theorem session_failure_final_witness:
  "\<exists>s'. open_record sample_crypto [] sample_header sample_session = (Inl (SessionError (ErrorCode PROTOCOL_VIOLATION)), s') \<and>
    set (sc_sendKey s') \<subseteq> {0} \<and> transportEnded s' = (Inl (SessionError (ErrorCode PROTOCOL_VIOLATION)), s')"
proof -
  have r: "\<exists>s'. open_record sample_crypto [] sample_header sample_session = (Inl (SessionError (ErrorCode PROTOCOL_VIOLATION)), s')"
    by (simp add: open_record_def sample_header_ad openRecord_def sample_session_def SessionCipher_def wire_limits)
  then obtain s' where "open_record sample_crypto [] sample_header sample_session = (Inl (SessionError (ErrorCode PROTOCOL_VIOLATION)), s')"
    by blast
  moreover have "sc_failed sample_session = None" by (simp add: sample_session_def SessionCipher_def)
  ultimately show ?thesis using session_failure_final [of sample_crypto "[]" sample_header sample_session] by blast
qed

theorem open_error_codes_witness:
  "fst (open_record sample_crypto (replicate 25 0) sample_header (sample_session\<lparr>sc_receiveCounter := 1\<rparr>))
    = Inl (SessionError (ErrorCode REPLAY_DETECTED))"
proof -
  let ?s = "sample_session\<lparr>sc_receiveCounter := 1\<rparr>"
  have "sc_failed ?s = None" "\<not> sc_receivedClose ?s" by (simp_all add: sample_session_def SessionCipher_def)
  moreover have "be_nat (take 8 (replicate 25 0)) = 0" using be_nat_zeros [of 8 "[]"] by (simp del: replicate.simps)
  ultimately show ?thesis
    using open_error_codes [OF _ sample_header_ad, of ?s "replicate 25 0" sample_crypto] by (simp add: wire_limits)
qed

end
