(* ===== verification/Channel.thy ===== *)
theory Channel
  imports Session "HOL-Library.Sublist"
begin

text \<open>
  What the records of \<^verbatim>\<open>session.ts\<close> give an application: a sequence of sends on one \<^verbatim>\<open>SessionCipher\<close>, a network
  that may drop, reorder, replay, alter or invent records and headers, and a sequence of opens on the
  other. The first part is a small theory of receivers that accept numbered messages; the session is
  an instance of it.
\<close>

section \<open>Receivers of numbered messages\<close>

text \<open>
  A receiver takes what the network delivers, one item at a time, and accepts some of it as a
  message. It stands at a position; an accepted message was numbered with that position and moves
  it to the next.
\<close>

primrec accept_all :: "('d \<Rightarrow> 's \<Rightarrow> 'm option \<times> 's) \<Rightarrow> 'd list \<Rightarrow> 's \<Rightarrow> 'm list \<times> 's" where
  "accept_all step [] s = ([], s)"
| "accept_all step (d # ds) s = (case step d s of
     (None, s') \<Rightarrow> accept_all step ds s'
   | (Some m, s') \<Rightarrow> (case accept_all step ds s' of (ms, s'') \<Rightarrow> (m # ms, s'')))"

locale numbered_receiver =
  fixes step :: "'d \<Rightarrow> 's \<Rightarrow> 'm option \<times> 's"
    and stands :: "'s \<Rightarrow> 'p \<Rightarrow> bool"
    and opens :: "'d \<Rightarrow> 'p \<Rightarrow> 'm \<Rightarrow> bool"
    and succ :: "'p \<Rightarrow> 'm \<Rightarrow> 'p"
    and below :: "'p \<Rightarrow> 'p \<Rightarrow> bool"
  assumes below_succ: "below p (succ p m)"
    and below_trans: "below p q \<Longrightarrow> below q r \<Longrightarrow> below p r"
    and below_irrefl: "\<not> below p p"
    and accept_opens: "step d s = (Some m, s') \<Longrightarrow> stands s p \<Longrightarrow> opens d p m \<and> stands s' (succ p m)"
    and refuse_at: "step d s = (None, s') \<Longrightarrow> stands s p \<Longrightarrow> stands s' p"
begin

text \<open>A history whose entries carry consecutive positions from \<open>p\<close> on.\<close>

fun consecutive :: "'p \<Rightarrow> ('p \<times> 'm) list \<Rightarrow> bool" where
  "consecutive p [] = True"
| "consecutive p ((q, m) # hist) = (q = p \<and> consecutive (succ p m) hist)"

lemma consecutive_above: "consecutive p hist \<Longrightarrow> (q, m) \<in> set hist \<Longrightarrow> q = p \<or> below p q"
proof (induction p hist rule: consecutive.induct)
  case (2 p q' m' hist)
  then show ?case using below_succ [of p m'] below_trans [of p "succ p m'" q] by auto
qed simp

lemma consecutive_unique: "consecutive p ((p, m) # hist) \<Longrightarrow> (p, m') \<in> set ((p, m) # hist) \<Longrightarrow> m' = m"
  using consecutive_above [of "succ p m" hist p m'] below_succ [of p m] below_irrefl [of p] below_trans [of p "succ p m" p]
  by auto

lemma consecutive_distinct: "consecutive p hist \<Longrightarrow> distinct (map fst hist)"
proof (induction p hist rule: consecutive.induct)
  case (2 p q m hist)
  have "p \<notin> fst ` set hist"
    using consecutive_above [of "succ p m" hist p] below_succ [of p m] below_irrefl [of p] below_trans [of p "succ p m" p] 2
    by fastforce
  with 2 show ?case by simp
qed simp

text \<open>The positions a sender of \<open>hist\<close> stood at, from \<open>p\<close> on.\<close>

fun positions :: "'p \<Rightarrow> ('p \<times> 'm) list \<Rightarrow> 'p set" where
  "positions p [] = {p}"
| "positions p ((q, m) # hist) = insert p (positions (succ p m) hist)"

lemma positions_start: "p \<in> positions p hist"
  by (cases hist) auto

lemma positions_succ: "consecutive p (past @ (q, m) # hist) \<Longrightarrow> succ q m \<in> positions p (past @ (q, m) # hist)"
proof (induction past arbitrary: p)
  case Nil
  then show ?case using positions_start by auto
next
  case (Cons x past)
  then show ?case by (cases x) auto
qed

text \<open>
  If whatever opens at a position the sender stood at is what the history holds there, the
  accepted messages are an initial part of the history.
\<close>

theorem accepted_prefix:
  assumes "consecutive p (past @ hist)" and "consecutive q hist" and "stands s q" and "q \<in> positions p (past @ hist)"
    and "\<forall>d \<in> set ds. \<forall>r \<in> positions p (past @ hist). \<forall>m. opens d r m \<longrightarrow> (r, m) \<in> set (past @ hist)"
    and "\<forall>(r, m) \<in> set past. below r q"
  shows "prefix (fst (accept_all step ds s)) (map snd hist)"
  using assms
proof (induction ds arbitrary: past hist q s)
  case (Cons d ds)
  obtain r s' where step: "step d s = (r, s')" by fastforce
  show ?case
  proof (cases r)
    case None
    with refuse_at [of d s s' q] step Cons show ?thesis by simp
  next
    case (Some m)
    with accept_opens step Cons.prems(3) have opens: "opens d q m" and at': "stands s' (succ q m)" by blast+
    with Cons.prems(4,5) have "(q, m) \<in> set (past @ hist)" by (meson list.set_intros(1))
    with Cons.prems(6) below_irrefl have "(q, m) \<in> set hist" by fastforce
    moreover from this Cons.prems(2) obtain m0 hist' where hist: "hist = (q, m0) # hist'"
      by (cases hist) auto
    ultimately have m0: "m0 = m" using consecutive_unique Cons.prems(2) by blast
    then have split: "past @ hist = (past @ [(q, m)]) @ hist'" using hist by simp
    have "prefix (fst (accept_all step ds s')) (map snd hist')"
    proof (rule Cons.IH)
      show "consecutive p ((past @ [(q, m)]) @ hist')" using Cons.prems(1) split by simp
      show "consecutive (succ q m) hist'" using Cons.prems(2) hist m0 by simp
      show "succ q m \<in> positions p ((past @ [(q, m)]) @ hist')"
        using positions_succ [of p past q m hist'] Cons.prems(1) hist m0 by simp
      show "\<forall>d \<in> set ds. \<forall>r \<in> positions p ((past @ [(q, m)]) @ hist'). \<forall>m'. opens d r m'
          \<longrightarrow> (r, m') \<in> set ((past @ [(q, m)]) @ hist')"
        using Cons.prems(5) unfolding split by simp
      show "\<forall>(r, m') \<in> set (past @ [(q, m)]). below r (succ q m)"
        using Cons.prems(6) below_succ below_trans by auto
    qed (rule at')
    then show ?thesis using step Some hist m0 by (cases "accept_all step ds s'") simp
  qed
qed simp

corollary accepted_prefix_from_start:
  assumes "consecutive p hist" and "stands s p"
    and "\<forall>d \<in> set ds. \<forall>r \<in> positions p hist. \<forall>m. opens d r m \<longrightarrow> (r, m) \<in> set hist"
  shows "prefix (fst (accept_all step ds s)) (map snd hist)"
  using accepted_prefix [of p "[]" hist p s ds] assms positions_start by simp

end

section \<open>Sending\<close>

datatype send_op = Send_data bytes | Send_close | Send_key_update

fun do_send :: "crypto \<Rightarrow> send_op \<Rightarrow> record_header \<Rightarrow> session_cipher \<Rightarrow> bytes result \<times> session_cipher" where
  "do_send c (Send_data p) h s = seal c p h s"
| "do_send c Send_close h s = close c h s"
| "do_send c Send_key_update h s = updateKey c h s"

fun inner_of :: "send_op \<Rightarrow> bytes" where
  "inner_of (Send_data p) = word_of_nat RT_DATA # p"
| "inner_of Send_close = [word_of_nat RT_CLOSE]"
| "inner_of Send_key_update = [word_of_nat RT_KEY_UPDATE]"

fun seen_as :: "send_op \<Rightarrow> opened_record" where
  "seen_as (Send_data p) = Opened_data p"
| "seen_as Send_close = Opened_close"
| "seen_as Send_key_update = Opened_key_update"

text \<open>
  What the sender put on the wire: the successful sends in order, each with the key epoch (the number of
  key updates before it), the counter, the frame header, the operation and the record.
\<close>

record sent =
  sent_epoch :: nat
  sent_counter :: nat
  sent_header :: record_header
  sent_op :: send_op
  sent_record :: bytes

fun send_all :: "crypto \<Rightarrow> nat \<Rightarrow> (send_op \<times> record_header) list \<Rightarrow> session_cipher \<Rightarrow> sent list" where
  "send_all c e [] s = []"
| "send_all c e ((x, h) # ops) s = (case do_send c x h s of
     (Inl _, s') \<Rightarrow> send_all c e ops s'
   | (Inr r, s') \<Rightarrow> \<lparr>sent_epoch = e, sent_counter = sc_sendCounter s, sent_header = h, sent_op = x, sent_record = r\<rparr>
       # send_all c (if x = Send_key_update then e + 1 else e) ops s')"

text \<open>What the receiver got: the records it opened, each with the associated data of the frame it came in.\<close>

definition receive :: "crypto \<Rightarrow> bytes \<times> record_header \<Rightarrow> session_cipher \<Rightarrow> (bytes result \<times> opened_record) option \<times> session_cipher" where
  "receive c d s = (case open_record c (fst d) (snd d) s of
     (Inl _, s') \<Rightarrow> (None, s') | (Inr r, s') \<Rightarrow> (Some (header_ad (snd d), r), s'))"

abbreviation deliver :: "crypto \<Rightarrow> (bytes \<times> record_header) list \<Rightarrow> session_cipher \<Rightarrow> (bytes result \<times> opened_record) list \<times> session_cipher" where
  "deliver c \<equiv> accept_all (receive c)"

abbreviation content :: "sent \<Rightarrow> bytes result \<times> opened_record" where
  "content x \<equiv> (header_ad (sent_header x), seen_as (sent_op x))"

lemma do_send_Inr:
  assumes "do_send c x h s = (Inr r, s')"
  obtains ad where "header_ad h = Inr ad"
    "r = be_bytes 8 (sc_sendCounter s) @ encryptWithAd c (sc_sendKey s) (sc_sendCounter s) ad (inner_of x)"
    "sc_failed s = None" "\<not> sc_sentClose s" "int (sc_sendCounter s) < rl_maxRecordsPerKey (sc_limits s)"
    "case x of Send_data p \<Rightarrow> length p \<le> MAX_SEALED_PLAINTEXT \<and> int (sc_sendCounter s) + 1 < rl_maxRecordsPerKey (sc_limits s)
      | _ \<Rightarrow> True"
    "s' = (case x of
       Send_data _ \<Rightarrow> s\<lparr>sc_sendCounter := sc_sendCounter s + 1\<rparr>
     | Send_close \<Rightarrow> s\<lparr>sc_sendCounter := sc_sendCounter s + 1, sc_sentClose := True, sc_sendKey := wipe (sc_sendKey s)\<rparr>
     | Send_key_update \<Rightarrow> s\<lparr>sc_sendCounter := 0, sc_sendKey := rekey c (sc_sendKey s)\<rparr>)"
proof (cases x)
  case (Send_data p)
  with assms show ?thesis
    by (auto simp: seal_def assertCanSend_Inr elim!: seal_record_facts intro!: that split: if_splits sum.splits)
next
  case Send_close
  with assms show ?thesis
    by (auto simp: close_def assertCanSend_Inr elim!: seal_record_facts intro!: that split: if_splits sum.splits prod.splits)
next
  case Send_key_update
  with assms show ?thesis
    by (auto simp: updateKey_def assertCanSend_Inr elim!: seal_record_facts intro!: that split: if_splits sum.splits prod.splits)
qed

lemma do_send_Inl: "do_send c x h s = (Inl e, s') \<Longrightarrow> s' = s"
  by (cases x) (auto simp: seal_def close_def updateKey_def dest: sealRecord_error split: if_splits sum.splits prod.splits)

lemma do_send_closed: "sc_sentClose s \<Longrightarrow> \<exists>e. do_send c x h s = (Inl e, s)"
  by (cases x) (auto simp: seal_def close_def updateKey_def assertCanSend_def split: option.splits)

lemma send_all_closed: "sc_sentClose s \<Longrightarrow> send_all c e ops s = []"
proof (induction ops)
  case (Cons op ops)
  obtain x h where "op = (x, h)" by fastforce
  moreover obtain err where "do_send c x h s = (Inl err, s)" using do_send_closed Cons.prems by blast
  ultimately show ?case using Cons by simp
qed simp

section \<open>The session as a receiver of numbered messages\<close>

text \<open>
  A position is a key epoch and a counter. The key of epoch \<open>e\<close> is the initial key rekeyed \<open>e\<close>
  times. The receiver of the instance carries its epoch beside the session.
\<close>

fun inner_opened :: "opened_record \<Rightarrow> bytes" where
  "inner_opened (Opened_data p) = word_of_nat RT_DATA # p"
| "inner_opened Opened_close = [word_of_nat RT_CLOSE]"
| "inner_opened Opened_key_update = [word_of_nat RT_KEY_UPDATE]"

lemma inner_opened_seen_as [simp]: "inner_opened (seen_as x) = inner_of x"
  by (cases x) auto

lemma inner_opened_inject: "inner_opened a = inner_opened b \<Longrightarrow> a = b"
  by (cases a; cases b) (auto simp: RecordType)

definition epoch_key :: "crypto \<Rightarrow> bytes \<Rightarrow> nat \<Rightarrow> bytes" where
  "epoch_key c k e = (rekey c ^^ e) k"

lemma epoch_key_simps [simp]: "epoch_key c k 0 = k" "rekey c (epoch_key c k e) = epoch_key c k (Suc e)"
  by (simp_all add: epoch_key_def)

definition receive_epoch :: "crypto \<Rightarrow> bytes \<times> record_header \<Rightarrow> nat \<times> session_cipher
    \<Rightarrow> (bytes result \<times> opened_record) option \<times> nat \<times> session_cipher" where
  "receive_epoch c d es = (case receive c d (snd es) of
     (None, s') \<Rightarrow> (None, fst es, s')
   | (Some m, s') \<Rightarrow> (Some m, (if snd m = Opened_key_update then Suc (fst es) else fst es), s'))"

definition stands_at :: "crypto \<Rightarrow> bytes \<Rightarrow> nat \<times> session_cipher \<Rightarrow> nat \<times> nat \<Rightarrow> bool" where
  "stands_at c k es p \<longleftrightarrow> sc_failed (snd es) \<noteq> None \<or> sc_receivedClose (snd es) \<or>
     p = (fst es, sc_receiveCounter (snd es)) \<and> sc_receiveKey (snd es) = epoch_key c k (fst es)"

definition opens_at :: "crypto \<Rightarrow> bytes \<Rightarrow> bytes \<times> record_header \<Rightarrow> nat \<times> nat \<Rightarrow> bytes result \<times> opened_record \<Rightarrow> bool" where
  "opens_at c k d p m \<longleftrightarrow> (\<exists>ad. header_ad (snd d) = Inr ad \<and> fst m = Inr ad \<and> be_nat (take 8 (fst d)) = snd p \<and>
     decryptWithAd c (epoch_key c k (fst p)) (snd p) ad (drop 8 (fst d)) = Some (inner_opened (snd m)))"

definition next_position :: "nat \<times> nat \<Rightarrow> bytes result \<times> opened_record \<Rightarrow> nat \<times> nat" where
  "next_position p m = (if snd m = Opened_key_update then (Suc (fst p), 0) else (fst p, Suc (snd p)))"

lemma next_position_pair: "next_position (e, n) (a, r) = (if r = Opened_key_update then (Suc e, 0) else (e, Suc n))"
  by (simp add: next_position_def)

definition earlier :: "nat \<times> nat \<Rightarrow> nat \<times> nat \<Rightarrow> bool" where
  "earlier p q \<longleftrightarrow> fst p < fst q \<or> fst p = fst q \<and> snd p < snd q"

lemma receive_epoch_accepts:
  assumes "receive_epoch c d es = (Some m, es')" "stands_at c k es p"
  shows "opens_at c k d p m \<and> stands_at c k es' (next_position p m)"
proof -
  obtain s' where s': "open_record c (fst d) (snd d) (snd es) = (Inr (snd m), s')" "fst m = header_ad (snd d)"
    "es' = (if snd m = Opened_key_update then Suc (fst es) else fst es, s')"
    using assms(1) by (auto simp: receive_epoch_def receive_def split: prod.splits option.splits sum.splits)
  then obtain ad where ad: "header_ad (snd d) = Inr ad" "openRecord c (fst d) ad (snd es) = (Inr (snd m), s')"
    and live: "sc_failed (snd es) = None"
    by (auto simp: open_record_Inr)
  have byte: "unat t = n \<Longrightarrow> t = (word_of_nat n :: byte)" for t n by auto
  show ?thesis
    using ad(2)
  proof (rule openRecord_Inr)
    fix t body
    assume *: "\<not> sc_receivedClose (snd es)" "be_nat (take 8 (fst d)) = sc_receiveCounter (snd es)"
      "decryptWithAd c (sc_receiveKey (snd es)) (sc_receiveCounter (snd es)) ad (drop 8 (fst d)) = Some (t # body)"
    then have p: "p = (fst es, sc_receiveCounter (snd es))" "sc_receiveKey (snd es) = epoch_key c k (fst es)"
      using assms(2) live by (auto simp: stands_at_def)
    assume "snd m = Opened_data body \<and> unat t = RT_DATA \<and> int (sc_receiveCounter (snd es)) + 1 < rl_maxRecordsPerKey (sc_limits (snd es)) \<and>
        s' = snd es\<lparr>sc_receiveCounter := sc_receiveCounter (snd es) + 1\<rparr> \<or>
      snd m = Opened_close \<and> unat t = RT_CLOSE \<and> body = [] \<and>
        s' = snd es\<lparr>sc_receiveCounter := sc_receiveCounter (snd es) + 1, sc_receivedClose := True, sc_receiveKey := wipe (sc_receiveKey (snd es))\<rparr> \<or>
      snd m = Opened_key_update \<and> unat t = RT_KEY_UPDATE \<and> body = [] \<and>
        s' = snd es\<lparr>sc_receiveCounter := 0, sc_receiveKey := rekey c (sc_receiveKey (snd es))\<rparr>"
    then show ?thesis
      using * p s' ad(1) by (auto simp: opens_at_def stands_at_def next_position_def dest!: byte)
  qed
qed

lemma receive_epoch_refuses:
  assumes "receive_epoch c d es = (None, es')" "stands_at c k es p"
  shows "stands_at c k es' p"
proof -
  obtain e s' where "open_record c (fst d) (snd d) (snd es) = (Inl e, s')" "es' = (fst es, s')"
    using assms(1) by (auto simp: receive_epoch_def receive_def split: prod.splits option.splits sum.splits)
  then show ?thesis using assms(2) by (auto simp: stands_at_def elim!: open_record_Inl)
qed

interpretation records: numbered_receiver "receive_epoch c" "stands_at c k" "opens_at c k" next_position earlier for c k
proof
  show "earlier p (next_position p m)" for p m by (simp add: earlier_def next_position_def)
  show "earlier p q \<Longrightarrow> earlier q r \<Longrightarrow> earlier p r" for p q r by (auto simp: earlier_def)
  show "\<not> earlier p p" for p by (simp add: earlier_def)
qed (use receive_epoch_accepts receive_epoch_refuses in blast)+

lemma deliver_epoch: "fst (accept_all (receive_epoch c) ds (e, s)) = fst (deliver c ds s) \<and>
    snd (snd (accept_all (receive_epoch c) ds (e, s))) = snd (deliver c ds s)"
proof (induction ds arbitrary: e s)
  case (Cons d ds)
  obtain r s' where r: "receive c d s = (r, s')" by fastforce
  define e' where "e' = (case r of None \<Rightarrow> e | Some m \<Rightarrow> if snd m = Opened_key_update then Suc e else e)"
  have step: "receive_epoch c d (e, s) = (r, e', s')" using r by (simp add: receive_epoch_def e'_def split: option.splits)
  obtain ms s2 where rest: "accept_all (receive_epoch c) ds (e', s') = (ms, s2)" by (metis surj_pair)
  obtain ms' s2' where rest': "deliver c ds s' = (ms', s2')" by (metis surj_pair)
  from Cons.IH [of e' s'] rest rest' r step show ?case by (cases r) auto
qed simp

section \<open>The history of a sender\<close>

abbreviation numbered :: "sent list \<Rightarrow> ((nat \<times> nat) \<times> bytes result \<times> opened_record) list" where
  "numbered hist \<equiv> map (\<lambda>x. ((sent_epoch x, sent_counter x), content x)) hist"

lemma seen_as_simps [simp]: "seen_as x = Opened_key_update \<longleftrightarrow> x = Send_key_update" "seen_as x = Opened_close \<longleftrightarrow> x = Send_close"
  by (cases x; simp)+

lemma send_all_consecutive: "records.consecutive (e, sc_sendCounter s) (numbered (send_all c e ops s))"
proof (induction ops arbitrary: e s)
  case (Cons op ops)
  obtain x h where op: "op = (x, h)" by fastforce
  obtain r s' where r: "do_send c x h s = (r, s')" by fastforce
  show ?case
  proof (cases r)
    case (Inl err)
    with do_send_Inl r have "s' = s" by blast
    with Inl r Cons.IH [of e s] op show ?thesis by simp
  next
    case (Inr rec)
    with r have "do_send c x h s = (Inr rec, s')" by simp
    then show ?thesis
    proof (rule do_send_Inr)
      assume s': "s' = (case x of
         Send_data _ \<Rightarrow> s\<lparr>sc_sendCounter := sc_sendCounter s + 1\<rparr>
       | Send_close \<Rightarrow> s\<lparr>sc_sendCounter := sc_sendCounter s + 1, sc_sentClose := True, sc_sendKey := wipe (sc_sendKey s)\<rparr>
       | Send_key_update \<Rightarrow> s\<lparr>sc_sendCounter := 0, sc_sendKey := rekey c (sc_sendKey s)\<rparr>)"
      then have "sc_sendCounter s' = snd (next_position (e, sc_sendCounter s) (content \<lparr>sent_epoch = e, sent_counter = sc_sendCounter s,
          sent_header = h, sent_op = x, sent_record = rec\<rparr>))"
        by (cases x) (auto simp: next_position_pair)
      with Cons.IH [of "if x = Send_key_update then e + 1 else e" s'] show ?thesis
        using op r Inr by (auto simp: next_position_pair)
    qed
  qed
qed simp

text \<open>After a close nothing is sent, so a close is the last entry of a history.\<close>

lemma send_all_close_last: "send_all c e ops s = xs @ x # ys \<Longrightarrow> sent_op x = Send_close \<Longrightarrow> ys = []"
proof (induction ops arbitrary: e s xs)
  case (Cons op ops)
  obtain y h where op: "op = (y, h)" by fastforce
  obtain r s' where r: "do_send c y h s = (r, s')" by fastforce
  show ?case
  proof (cases r)
    case (Inl err)
    with r op Cons show ?thesis by auto
  next
    case (Inr rec)
    let ?rest = "send_all c (if y = Send_key_update then e + 1 else e) ops s'"
    have list: "send_all c e (op # ops) s = \<lparr>sent_epoch = e, sent_counter = sc_sendCounter s, sent_header = h,
        sent_op = y, sent_record = rec\<rparr> # ?rest"
      using op r Inr by simp
    show ?thesis
    proof (cases xs)
      case Nil
      with list Cons.prems have y: "y = Send_close" "ys = ?rest" by auto
      with r Inr have "do_send c Send_close h s = (Inr rec, s')" by simp
      then have "sc_sentClose s'" by (rule do_send_Inr) simp
      with y send_all_closed show ?thesis by simp
    next
      case (Cons z zs)
      with list Cons.prems have "?rest = zs @ x # ys" by auto
      with Cons.IH Cons.prems(2) show ?thesis by blast
    qed
  qed
qed simp

definition key_updates :: "sent list \<Rightarrow> nat" where
  "key_updates hist = length (filter (\<lambda>x. sent_op x = Send_key_update) hist)"

lemma positions_epoch: "p \<in> records.positions (e, n) (numbered hist) \<Longrightarrow> fst p \<le> e + key_updates hist"
proof (induction hist arbitrary: e n)
  case (Cons x hist)
  then show ?case by (fastforce simp: next_position_pair key_updates_def split: if_splits)
qed (simp add: key_updates_def)

section \<open>Integrity of the stream of records\<close>

text \<open>
  The hypothesis on the AEAD: no forgery among the records the network delivers. Whatever of them opens under
  a key the sender has used, at a counter and with associated data, the sender sealed in
  that epoch, with that counter and that associated data.
\<close>

definition unforged :: "crypto \<Rightarrow> bytes \<Rightarrow> sent list \<Rightarrow> (bytes \<times> record_header) list \<Rightarrow> bool" where
  "unforged c k hist ds \<longleftrightarrow> (\<forall>(rec, h) \<in> set ds. \<forall>e \<le> key_updates hist. \<forall>ad inner.
     header_ad h = Inr ad \<longrightarrow> decryptWithAd c (epoch_key c k e) (be_nat (take 8 rec)) ad (drop 8 rec) = Some inner \<longrightarrow>
     (\<exists>x \<in> set hist. sent_epoch x = e \<and> sent_counter x = be_nat (take 8 rec) \<and>
        header_ad (sent_header x) = Inr ad \<and> inner_of (sent_op x) = inner))"

lemma unforged_opens:
  assumes "unforged c k hist ds" "d \<in> set ds" "fst p \<le> key_updates hist" "opens_at c k d p m"
  shows "(p, m) \<in> set (numbered hist)"
proof -
  obtain ad where ad: "header_ad (snd d) = Inr ad" "fst m = Inr ad" "be_nat (take 8 (fst d)) = snd p"
    "decryptWithAd c (epoch_key c k (fst p)) (snd p) ad (drop 8 (fst d)) = Some (inner_opened (snd m))"
    using assms(4) by (auto simp: opens_at_def)
  obtain rec h where d: "d = (rec, h)" by fastforce
  have "header_ad h = Inr ad \<longrightarrow> decryptWithAd c (epoch_key c k (fst p)) (be_nat (take 8 rec)) ad (drop 8 rec) = Some (inner_opened (snd m)) \<longrightarrow>
     (\<exists>x \<in> set hist. sent_epoch x = fst p \<and> sent_counter x = be_nat (take 8 rec) \<and>
        header_ad (sent_header x) = Inr ad \<and> inner_of (sent_op x) = inner_opened (snd m))"
    using bspec [OF assms(1) [unfolded unforged_def] assms(2)] assms(3) unfolding d split_conv by blast
  with ad d obtain x where x: "x \<in> set hist" "sent_epoch x = fst p" "sent_counter x = snd p"
    "header_ad (sent_header x) = Inr ad" "inner_of (sent_op x) = inner_opened (snd m)"
    by auto
  then have "seen_as (sent_op x) = snd m" by (metis inner_opened_inject inner_opened_seen_as)
  with x ad show ?thesis by (auto intro!: image_eqI [of _ _ x] prod_eqI)
qed

lemma received_prefix:
  assumes "unforged c (sc_receiveKey B) (send_all c 0 ops A) ds" and "sc_sendCounter A = sc_receiveCounter B"
  shows "prefix (fst (deliver c ds B)) (map content (send_all c 0 ops A))"
proof -
  let ?hist = "send_all c 0 ops A" and ?p = "(0, sc_receiveCounter B)"
  have "prefix (fst (accept_all (receive_epoch c) ds (0, B))) (map snd (numbered ?hist))"
  proof (rule records.accepted_prefix_from_start)
    show "records.consecutive ?p (numbered ?hist)" using send_all_consecutive [of 0 A] assms(2) by simp
    show "stands_at c (sc_receiveKey B) (0, B) ?p" by (simp add: stands_at_def)
    show "\<forall>d \<in> set ds. \<forall>r \<in> records.positions ?p (numbered ?hist). \<forall>m. opens_at c (sc_receiveKey B) d r m \<longrightarrow> (r, m) \<in> set (numbered ?hist)"
      using unforged_opens [OF assms(1)] positions_epoch [of _ 0] by fastforce
  qed
  then show ?thesis using deliver_epoch [of c ds 0 B] by (simp add: comp_def)
qed

section \<open>After an error\<close>

lemma accept_all_split: "accept_all step (ds1 @ ds2) s =
    (case accept_all step ds1 s of (ms1, s1) \<Rightarrow> (case accept_all step ds2 s1 of (ms2, s2) \<Rightarrow> (ms1 @ ms2, s2)))"
  by (induction ds1 arbitrary: s) (auto split: prod.splits option.splits)

lemma failed_receives_nothing: "sc_failed s = Some e \<Longrightarrow> deliver c ds s = ([], s)"
  by (induction ds) (simp_all add: receive_def open_record_def)

lemma error_ends_delivery:
  assumes "fst (open_record c (fst d) (snd d) (snd (deliver c ds1 s))) = Inl (SessionError code)"
  shows "fst (deliver c (ds1 @ d # ds2) s) = fst (deliver c ds1 s)"
proof -
  obtain ms1 s1 where one: "deliver c ds1 s = (ms1, s1)" by fastforce
  then obtain s2 where two: "open_record c (fst d) (snd d) s1 = (Inl (SessionError code), s2)"
    using assms by (cases "open_record c (fst d) (snd d) s1") simp
  have "header_ad (snd d) \<noteq> Inl (SessionError code)" by (auto simp: frameAssociatedData_def)
  with two have "sc_failed s2 \<noteq> None"
    using openRecord_Inl by (auto simp: open_record_def split: option.splits sum.splits prod.splits if_splits)
  then have "deliver c ds2 s2 = ([], s2)" using failed_receives_nothing by blast
  then show ?thesis by (simp add: accept_all_split one receive_def two)
qed

section \<open>Truncation\<close>

lemma receive_closed: "receive c d s = (r, s') \<Longrightarrow> sc_receivedClose s' \<Longrightarrow>
    sc_receivedClose s \<or> (\<exists>a. r = Some (a, Opened_close))"
proof (cases "open_record c (fst d) (snd d) s")
  case (Pair q s2)
  assume r: "receive c d s = (r, s')" and cl: "sc_receivedClose s'"
  show ?thesis
  proof (cases q)
    case (Inl e)
    with Pair r have "s' = s2" by (simp add: receive_def)
    with Pair Inl cl show ?thesis by (auto elim!: open_record_Inl)
  next
    case (Inr o')
    with Pair r have s': "s' = s2" "r = Some (header_ad (snd d), o')" by (auto simp: receive_def)
    from Pair Inr obtain ad where "openRecord c (fst d) ad s = (Inr o', s2)" by (auto simp: open_record_Inr)
    then show ?thesis by (rule openRecord_Inr) (use s' cl in auto)
  qed
qed

lemma deliver_closed: "deliver c ds s = (ms, s') \<Longrightarrow> sc_receivedClose s' \<Longrightarrow>
    sc_receivedClose s \<or> Opened_close \<in> snd ` set ms"
proof (induction ds arbitrary: s ms s')
  case (Cons d ds)
  obtain r s2 where r: "receive c d s = (r, s2)" by fastforce
  obtain ms2 s3 where rest: "deliver c ds s2 = (ms2, s3)" by fastforce
  show ?case
  proof (cases r)
    case None
    with Cons.IH [OF rest] Cons.prems r rest receive_closed [OF r] show ?thesis by auto
  next
    case (Some m)
    with Cons.prems r rest have "ms = m # ms2" "s3 = s'" by simp_all
    with Cons.IH [OF rest] Cons.prems(2) receive_closed [OF r] Some show ?thesis by force
  qed
qed simp

section \<open>Delivery in order\<close>

text \<open>Two ends of one direction that agree on its key and counter, unless the sender has closed.\<close>

definition in_step :: "session_cipher \<Rightarrow> session_cipher \<Rightarrow> bool" where
  "in_step A B \<longleftrightarrow> sc_failed B = None \<and>
     rl_maxRecordsPerKey (sc_limits A) \<le> rl_maxRecordsPerKey (sc_limits B) \<and> rl_maxRecordsPerKey (sc_limits B) \<le> 2 ^ 32 \<and>
     (\<not> sc_sentClose A \<longrightarrow> \<not> sc_receivedClose B \<and> sc_receiveKey B = sc_sendKey A \<and> sc_receiveCounter B = sc_sendCounter A)"

lemma counter_bytes: "int n < 2 ^ 32 \<Longrightarrow> be_nat (be_bytes 8 n) = n"
proof -
  assume "int n < 2 ^ 32"
  then have "n < 256 ^ 8" by simp
  then show ?thesis by simp
qed

lemma open_sent:
  assumes "aead_correct c" "in_step A B" "do_send c x h A = (Inr r, A')"
  shows "\<exists>B'. open_record c r h B = (Inr (seen_as x), B') \<and> in_step A' B'"
  using assms(3)
proof (rule do_send_Inr)
  fix ad
  let ?n = "sc_sendCounter A" and ?ct = "encryptWithAd c (sc_sendKey A) (sc_sendCounter A) ad (inner_of x)"
  assume ad: "header_ad h = Inr ad" and r: "r = be_bytes 8 ?n @ ?ct"
    and live: "\<not> sc_sentClose A" and n: "int ?n < rl_maxRecordsPerKey (sc_limits A)"
    and sz: "case x of Send_data p \<Rightarrow> length p \<le> MAX_SEALED_PLAINTEXT \<and> int ?n + 1 < rl_maxRecordsPerKey (sc_limits A) | _ \<Rightarrow> True"
    and A': "A' = (case x of
       Send_data _ \<Rightarrow> A\<lparr>sc_sendCounter := ?n + 1\<rparr>
     | Send_close \<Rightarrow> A\<lparr>sc_sendCounter := ?n + 1, sc_sentClose := True, sc_sendKey := wipe (sc_sendKey A)\<rparr>
     | Send_key_update \<Rightarrow> A\<lparr>sc_sendCounter := 0, sc_sendKey := rekey c (sc_sendKey A)\<rparr>)"
  have B: "sc_failed B = None" "\<not> sc_receivedClose B" "sc_receiveKey B = sc_sendKey A" "sc_receiveCounter B = ?n"
    "rl_maxRecordsPerKey (sc_limits A) \<le> rl_maxRecordsPerKey (sc_limits B)" "rl_maxRecordsPerKey (sc_limits B) \<le> 2 ^ 32"
    using assms(2) live by (auto simp: in_step_def)
  have ctr: "be_nat (take 8 r) = ?n" using counter_bytes [of ?n] r n B(5,6) by simp
  have dec: "decryptWithAd c (sc_sendKey A) ?n ad (drop 8 r) = Some (inner_of x)"
    using r aeadOpen_Seal [OF assms(1)] by (simp add: decryptWithAd_def encryptWithAd_def)
  have len: "SEALED_RECORD_OVERHEAD \<le> length r" "length r \<le> MAX_FRAME_PAYLOAD"
    using sz r length_aeadSeal [OF assms(1)] by (cases x; simp add: encryptWithAd_def wire_limits)+
  have "\<exists>B'. openRecord c r ad B = (Inr (seen_as x), B') \<and> in_step A' B'"
    using B len n sz ctr dec A'
    by (cases x) (auto simp: openRecord_def Let_def RecordType in_step_def)
  then show ?thesis using ad B(1) by (auto simp: open_record_Inr)
qed

lemma delivered_in_order:
  assumes "aead_correct c" "in_step A B"
  shows "fst (deliver c (map (\<lambda>x. (sent_record x, sent_header x)) (send_all c e ops A)) B) = map content (send_all c e ops A)"
  using assms(2)
proof (induction ops arbitrary: e A B)
  case (Cons op ops)
  obtain x h where op: "op = (x, h)" by fastforce
  obtain r A' where r: "do_send c x h A = (r, A')" by fastforce
  show ?case
  proof (cases r)
    case (Inl err)
    with r do_send_Inl have "A' = A" by blast
    with Inl r op Cons show ?thesis by simp
  next
    case (Inr rec)
    with open_sent [OF assms(1) Cons.prems] r obtain B' where
      B': "open_record c rec h B = (Inr (seen_as x), B')" "in_step A' B'" by blast
    define e' where "e' = (if x = Send_key_update then e + 1 else e)"
    obtain ms B2 where rest: "deliver c (map (\<lambda>x. (sent_record x, sent_header x)) (send_all c e' ops A')) B' = (ms, B2)"
      by fastforce
    have "receive c (rec, h) B = (Some (header_ad h, seen_as x), B')" using B'(1) by (simp add: receive_def)
    with Cons.IH [OF B'(2), of e'] rest op r Inr show ?thesis by (simp add: e'_def [symmetric])
  qed
qed simp

section \<open>The handshake\<close>

text \<open>A client that pinned the server's static key and the same name, role and limits as the server.\<close>

definition matching :: "client_options \<Rightarrow> server_options \<Rightarrow> bool" where
  "matching co so \<longleftrightarrow> vk_publicKey (co_serverKey co) = kp_publicKey (so_staticKey so) \<and>
     vk_role (co_serverKey co) = nullish (so_role so) KA_SERVICE_NODE \<and> co_name co = so_name so \<and>
     co_limits co = so_limits so"

lemma ClientHandshake_Inr:
  assumes "ClientHandshake c reg co ei = Inr ch"
  obtains limits prologue where "resolveLimits (co_limits co) = Inr limits"
    "sessionPrologue (vk_role (co_serverKey co)) (co_name co) = Inr prologue"
    "ch = \<lparr>ch_noise = NkInitiator c prologue (vk_publicKey (co_serverKey co)) ei, ch_limits = limits, ch_state = HS_new\<rparr>"
  using assms by (auto simp: ClientHandshake_def rbind_eq_Inr split: if_splits)

lemma ServerHandshake_Inr:
  assumes "ServerHandshake c so er = Inr sh"
  obtains limits prologue derived where "resolveLimits (so_limits so) = Inr limits"
    "sessionPrologue (nullish (so_role so) KA_SERVICE_NODE) (so_name so) = Inr prologue"
    "kp_publicKey derived = kp_publicKey (so_staticKey so)" "good_pair c derived"
    "sh = \<lparr>sh_noise = NkResponder c prologue derived er, sh_limits = limits, sh_used = False\<rparr>"
proof -
  obtain derived where d: "x25519KeyPairFromSecret c (kp_secretKey (so_staticKey so)) = Inr derived"
    "bytesEqual (kp_publicKey derived) (kp_publicKey (so_staticKey so))" "assertValidX25519PublicKey c (kp_publicKey derived) = Inr ()"
    using assms by (auto simp: ServerHandshake_def rbind_eq_Inr split: if_splits)
  moreover have "good_pair c derived"
    using d valid_key_canonical [OF d(3)]
    by (auto simp: x25519KeyPairFromSecret_def good_pair_def X25519_KEY_LENGTH_def split: if_splits)
  ultimately show thesis
    using assms that by (auto simp: ServerHandshake_def rbind_eq_Inr bytesEqual_iff split: if_splits)
qed

lemma start_Inr:
  assumes "start c ch = (Inr m1, ch1)"
  shows "writeMessage1 c [] (ch_noise ch) = (Inr m1, ch_noise ch1)" "ch_state ch1 = HS_started" "ch_limits ch1 = ch_limits ch"
  using assms by (auto simp: start_def split: if_splits prod.splits)

lemma respond_Inr:
  assumes "respond c m1 sh = (Inr (m2, B), sh1)"
  obtains p n n' sp where "readMessage1 c m1 (sh_noise sh) = (Inr p, n)" "writeMessage2 c [] n = (Inr (m2, sp), n')"
    "B = SessionCipher (ns_sendKey sp) (ns_receiveKey sp) (ns_handshakeHash sp) (sh_limits sh)"
  using assms by (auto simp: respond_def split: if_splits prod.splits sum.splits)

lemma writeMessage2_length:
  assumes "aead_correct c" "nr_step st = Write2" "nr_re st = Some re" "writeMessage2 c [] st = (Inr (m, sp), st')"
    "length (kp_publicKey (nr_e st)) = 32"
  shows "length m = HANDSHAKE_MESSAGE_SIZE"
proof -
  have "mixKey c k ss = ss\<lparr>ss_ck := fst (hkdf2 c (ss_ck ss) k), ss_k := Some (snd (hkdf2 c (ss_ck ss) k)), ss_n := 0\<rparr>" for k ss
    by (simp add: mixKey_def split: prod.splits)
  then show ?thesis
    using assms length_aeadSeal [OF assms(1)]
    by (auto simp: writeMessage2_def Let_def encryptAndHash_def encryptWithAd_def HANDSHAKE_MESSAGE_SIZE_def split: sum.splits prod.splits)
qed

lemma handshake_in_step:
  assumes "aead_correct c" and "dh_commutes c" and "good_pair c ei" and "good_pair c er" and "matching co so"
    and "ClientHandshake c reg co ei = Inr ch" and "ServerHandshake c so er = Inr sh"
    and "start c ch = (Inr m1, ch1)" and "respond c m1 sh = (Inr (m2, B), sh1)"
  shows "\<exists>A ch2. finish c m2 ch1 = (Inr A, ch2) \<and> in_step A B \<and> in_step B A \<and> sc_hash A = sc_hash B \<and>
    sc_sendCounter A = 0 \<and> sc_receiveCounter A = 0 \<and> sc_sendCounter B = 0 \<and> sc_receiveCounter B = 0"
proof -
  obtain limits prologue where cl: "resolveLimits (co_limits co) = Inr limits"
    "sessionPrologue (vk_role (co_serverKey co)) (co_name co) = Inr prologue"
    "ch = \<lparr>ch_noise = NkInitiator c prologue (vk_publicKey (co_serverKey co)) ei, ch_limits = limits, ch_state = HS_new\<rparr>"
    using ClientHandshake_Inr [OF assms(6)] by blast
  obtain limits' prologue' s where sv: "resolveLimits (so_limits so) = Inr limits'"
    "sessionPrologue (nullish (so_role so) KA_SERVICE_NODE) (so_name so) = Inr prologue'"
    "kp_publicKey s = kp_publicKey (so_staticKey so)" "good_pair c s"
    "sh = \<lparr>sh_noise = NkResponder c prologue' s er, sh_limits = limits', sh_used = False\<rparr>"
    using ServerHandshake_Inr [OF assms(7)] by blast
  have same: "limits' = limits" "prologue' = prologue" "vk_publicKey (co_serverKey co) = kp_publicKey s"
    using assms(5) cl sv by (auto simp: matching_def)
  note st = start_Inr [OF assms(8)]
  have w: "writeMessage1 c [] (NkInitiator c prologue (kp_publicKey s) ei) = (Inr m1, ch_noise ch1)"
    using st(1) cl(3) same by simp
  note r1 = read_write_message1 [OF assms(1,2) sv(4) assms(3) w]
  obtain p n n' sp where rs: "readMessage1 c m1 (sh_noise sh) = (Inr p, n)" "writeMessage2 c [] n = (Inr (m2, sp), n')"
    "B = SessionCipher (ns_sendKey sp) (ns_receiveKey sp) (ns_handshakeHash sp) (sh_limits sh)"
    using assms(9) by (rule respond_Inr)
  have n: "n = \<lparr>nr_ss = ni_ss (ch_noise ch1), nr_s = s, nr_e = er, nr_step = Write2, nr_re = Some (kp_publicKey ei)\<rparr>"
    using r1(4) [of er] rs(1) sv(5) same by simp
  obtain spI i2 where rd: "readMessage2 c m2 (ch_noise ch1) = (Inr ([], spI), i2)" "ns_sendKey spI = ns_receiveKey sp"
    "ns_receiveKey spI = ns_sendKey sp" "ns_handshakeHash spI = ns_handshakeHash sp"
    using read_write_message2 [OF assms(1-4) r1(1,2) rs(2) [unfolded n]] by blast
  have "length m2 = HANDSHAKE_MESSAGE_SIZE"
    using writeMessage2_length [OF assms(1) _ _ rs(2)] n assms(4) canonical_length by (auto simp: good_pair_def)
  moreover have "ch_limits ch1 = limits" "sh_limits sh = limits" using st(3) cl(3) sv(5) same by auto
  ultimately show ?thesis
    using rd rs(3) st(2) resolveLimits_bounds [OF cl(1)]
    by (simp add: finish_def SessionCipher_def in_step_def)
qed

lemma noiseNonce_inj: "noiseNonce a = noiseNonce b \<Longrightarrow> a < 256 ^ 8 \<Longrightarrow> b < 256 ^ 8 \<Longrightarrow> a = b"
  unfolding noiseNonce_def using be_bytes_inj [of 8 a b] by simp

lemma sent_counter_bound: "x \<in> set (send_all c e ops A) \<Longrightarrow> int (sent_counter x) < rl_maxRecordsPerKey (sc_limits A)"
proof (induction ops arbitrary: e A)
  case (Cons op ops)
  obtain y h where op: "op = (y, h)" by fastforce
  obtain r A' where r: "do_send c y h A = (r, A')" by fastforce
  show ?case
  proof (cases r)
    case (Inl err)
    with r do_send_Inl have "A' = A" by blast
    with Inl r op Cons show ?thesis by auto
  next
    case (Inr rec)
    then have "do_send c y h A = (Inr rec, A')" using r by simp
    then have lim: "sc_limits A' = sc_limits A" "int (sc_sendCounter A) < rl_maxRecordsPerKey (sc_limits A)"
      by (rule do_send_Inr; cases y; simp)+
    have "x = \<lparr>sent_epoch = e, sent_counter = sc_sendCounter A, sent_header = h, sent_op = y, sent_record = rec\<rparr> \<or>
        x \<in> set (send_all c (if y = Send_key_update then e + 1 else e) ops A')"
      using Cons.prems op r Inr by simp
    then show ?thesis
    proof
      assume "x \<in> set (send_all c (if y = Send_key_update then e + 1 else e) ops A')"
      from Cons.IH [OF this] lim show ?thesis by simp
    qed (use lim in simp)
  qed
qed simp

definition sealed_as :: "crypto \<Rightarrow> bytes \<Rightarrow> sent \<Rightarrow> bool" where
  "sealed_as c k x \<longleftrightarrow> (\<exists>ad. header_ad (sent_header x) = Inr ad \<and>
     sent_record x = be_bytes 8 (sent_counter x) @ encryptWithAd c (epoch_key c k (sent_epoch x)) (sent_counter x) ad (inner_of (sent_op x)))"

lemma sent_sealed_as:
  "x \<in> set (send_all c e ops A) \<Longrightarrow> sc_sendKey A = epoch_key c k e \<Longrightarrow> sealed_as c k x"
proof (induction ops arbitrary: e A)
  case (Cons op ops)
  obtain y h where op: "op = (y, h)" by fastforce
  obtain r A' where r: "do_send c y h A = (r, A')" by fastforce
  show ?case
  proof (cases r)
    case (Inl err)
    with r do_send_Inl have "A' = A" by blast
    with Inl r op Cons show ?thesis by auto
  next
    case (Inr rec)
    let ?rest = "send_all c (if y = Send_key_update then e + 1 else e) ops A'"
    have "do_send c y h A = (Inr rec, A')" using r Inr by simp
    then obtain ad where ad: "header_ad h = Inr ad"
      "rec = be_bytes 8 (sc_sendCounter A) @ encryptWithAd c (sc_sendKey A) (sc_sendCounter A) ad (inner_of y)"
      "A' = (case y of
         Send_data _ \<Rightarrow> A\<lparr>sc_sendCounter := sc_sendCounter A + 1\<rparr>
       | Send_close \<Rightarrow> A\<lparr>sc_sendCounter := sc_sendCounter A + 1, sc_sentClose := True, sc_sendKey := wipe (sc_sendKey A)\<rparr>
       | Send_key_update \<Rightarrow> A\<lparr>sc_sendCounter := 0, sc_sendKey := rekey c (sc_sendKey A)\<rparr>)"
      by (rule do_send_Inr)
    have "sealed_as c k \<lparr>sent_epoch = e, sent_counter = sc_sendCounter A, sent_header = h, sent_op = y, sent_record = rec\<rparr>"
      using ad Cons.prems(2) by (simp add: sealed_as_def)
    moreover have "sealed_as c k x" if "x \<in> set ?rest"
    proof (cases "y = Send_close")
      case True
      with ad(3) that send_all_closed [of A'] show ?thesis by simp
    next
      case False
      with ad(3) have "sc_sendKey A' = epoch_key c k (if y = Send_key_update then e + 1 else e)"
        using Cons.prems(2) by (cases y) simp_all
      from Cons.IH [OF that this] show ?thesis .
    qed
    ultimately show ?thesis using Cons.prems(1) op r Inr by auto
  qed
qed simp

section \<open>Properties\<close>

text \<open>
  C22. Integrity. Whatever a network without forgeries delivers, in whatever order, with replays, deletions, altered headers or
  foreign bytes: the records the receiver opens are, in order, an initial part of those the sender
  sealed, each in a frame with the header it was sealed for, across any number of key updates. And once \<^verbatim>\<open>open\<close> has thrown a
  SessionError for one of them, no later one is opened.
\<close>

theorem record_stream_integrity:
  assumes "unforged c (sc_receiveKey B) (send_all c 0 ops A) ds" and "sc_sendCounter A = sc_receiveCounter B"
  shows "prefix (fst (deliver c ds B)) (map content (send_all c 0 ops A)) \<and>
    (\<forall>before d after code. ds = before @ d # after \<longrightarrow>
       fst (open_record c (fst d) (snd d) (snd (deliver c before B))) = Inl (SessionError code) \<longrightarrow>
       fst (deliver c ds B) = fst (deliver c before B))"
  using received_prefix [OF assms] error_ends_delivery by blast

text \<open>
  C23. Truncation is detected. When \<^verbatim>\<open>transportEnded\<close> returns instead of throwing, the receiver has
  opened every record the sender ever sealed, and the last of them is the sender's close.
\<close>

theorem truncation_detected:
  assumes "unforged c (sc_receiveKey B) (send_all c 0 ops A) ds" and "sc_sendCounter A = sc_receiveCounter B"
    and "\<not> sc_receivedClose B" and "deliver c ds B = (ms, B')" and "fst (transportEnded B') = Inr ()"
  shows "ms = map content (send_all c 0 ops A) \<and> ms \<noteq> [] \<and> snd (last ms) = Opened_close"
proof -
  let ?hist = "send_all c 0 ops A"
  have "sc_receivedClose B'" using assms(5) by (auto simp: transportEnded_def split: option.splits if_splits)
  with deliver_closed [OF assms(4)] assms(3) have "Opened_close \<in> snd ` set ms" by blast
  then obtain m where m: "m \<in> set ms" "snd m = Opened_close" by force
  then obtain xs ys where ms: "ms = xs @ m # ys" by (meson split_list)
  obtain zs where all: "map content ?hist = ms @ zs"
    using received_prefix [OF assms(1,2)] assms(4) by (auto simp: prefix_def)
  then obtain us vs where hist: "?hist = us @ vs" "map content us = xs" "map content vs = m # ys @ zs"
    unfolding ms by (auto simp: map_eq_append_conv)
  then obtain v vs' where v: "vs = v # vs'" "content v = m" "map content vs' = ys @ zs" by auto
  with m(2) have "sent_op v = Send_close" by auto
  with send_all_close_last [of c 0 ops A us v vs'] hist v have "vs' = []" by blast
  with v ms all m show ?thesis by auto
qed

text \<open>
  C25. No nonce is used twice. Among everything a session ever seals, no two records share both key epoch and
  nonce, and none uses the nonce that \<^verbatim>\<open>rekey\<close> reserves for deriving the next key; and each record is sealed
  under the session's first key rekeyed once per epoch, with the nonce of its counter.
\<close>

theorem nonces_never_repeat:
  assumes "rl_maxRecordsPerKey (sc_limits A) \<le> 2 ^ 32"
  shows "distinct (map (\<lambda>x. (sent_epoch x, noiseNonce (sent_counter x))) (send_all c 0 ops A)) \<and>
    (\<forall>x \<in> set (send_all c 0 ops A). noiseNonce (sent_counter x) \<noteq> noiseNonce MAX_NONCE \<and> sealed_as c (sc_sendKey A) x)"
proof -
  let ?hist = "send_all c 0 ops A"
  have small: "sent_counter x < 2 ^ 32" if "x \<in> set ?hist" for x
    using sent_counter_bound [OF that] assms by simp
  have "distinct (map (\<lambda>x. (sent_epoch x, sent_counter x)) ?hist)"
    using records.consecutive_distinct [OF send_all_consecutive [of 0 A c ops]] by (simp add: comp_def)
  moreover have "inj_on (\<lambda>(e, n). (e, noiseNonce n)) ((\<lambda>x. (sent_epoch x, sent_counter x)) ` set ?hist)"
    by (rule inj_onI) (use noiseNonce_inj small in fastforce)
  ultimately have "distinct (map ((\<lambda>(e, n). (e, noiseNonce n)) \<circ> (\<lambda>x. (sent_epoch x, sent_counter x))) ?hist)"
    unfolding distinct_map by (auto simp: comp_inj_on image_comp [symmetric])
  moreover have "noiseNonce (sent_counter x) \<noteq> noiseNonce MAX_NONCE" if "x \<in> set ?hist" for x
    using noiseNonce_inj [of "sent_counter x" MAX_NONCE] small [OF that] by (auto simp: MAX_NONCE_def)
  moreover have "sealed_as c (sc_sendKey A) x" if "x \<in> set ?hist" for x
    by (rule sent_sealed_as [OF that]) simp
  ultimately show ?thesis by (simp add: comp_def)
qed

text \<open>
  C24. A handshake gives a channel. A client and a server with matching options that complete \<^verbatim>\<open>start\<close>, \<^verbatim>\<open>respond\<close> and \<^verbatim>\<open>finish\<close> hold the same handshake
  hash, and over a network that delivers in order each of them opens exactly what the other sealed,
  whatever either tries to send.
\<close>

theorem handshake_gives_channel:
  assumes "aead_correct c" and "dh_commutes c" and "good_pair c ei" and "good_pair c er" and "matching co so"
    and "ClientHandshake c reg co ei = Inr ch" and "ServerHandshake c so er = Inr sh"
    and "start c ch = (Inr m1, ch1)" and "respond c m1 sh = (Inr (m2, B), sh1)"
  shows "\<exists>A ch2. finish c m2 ch1 = (Inr A, ch2) \<and> sc_hash A = sc_hash B \<and>
    (\<forall>ops. fst (deliver c (map (\<lambda>x. (sent_record x, sent_header x)) (send_all c 0 ops A)) B) = map content (send_all c 0 ops A)) \<and>
    (\<forall>ops. fst (deliver c (map (\<lambda>x. (sent_record x, sent_header x)) (send_all c 0 ops B)) A) = map content (send_all c 0 ops B))"
  using handshake_in_step [OF assms] delivered_in_order [OF assms(1)] by blast

text \<open>
  Witnesses: a toy AEAD whose tag is the first half of the key, and a sender that sends two bytes and closes, with a
  replay in between.
\<close>

definition keyed_crypto :: crypto where
  "keyed_crypto = sample_crypto\<lparr>cr_encrypt := (\<lambda>k n ad p. p @ take 16 k),
     cr_decrypt := (\<lambda>k n ad x. if drop (length x - 16) x = take 16 k then Some (take (length x - 16) x) else None)\<rparr>"

definition sample_receiver :: session_cipher where
  "sample_receiver = SessionCipher (replicate 32 9) (replicate 32 7) [] sample_limits"

definition sample_sends :: "(send_op \<times> record_header) list" where
  "sample_sends = [(Send_data [1, 2], sample_header), (Send_close, sample_header)]"

abbreviation sample_record :: "nat \<Rightarrow> bytes \<Rightarrow> bytes" where
  "sample_record n inner \<equiv> be_bytes 8 n @ inner @ replicate 16 7"

lemma sample_history: "send_all keyed_crypto 0 sample_sends sample_session =
   [\<lparr>sent_epoch = 0, sent_counter = 0, sent_header = sample_header, sent_op = Send_data [1, 2], sent_record = sample_record 0 [0, 1, 2]\<rparr>,
    \<lparr>sent_epoch = 0, sent_counter = 1, sent_header = sample_header, sent_op = Send_close, sent_record = sample_record 1 [1]\<rparr>]"
  by (simp add: sample_sends_def sample_session_def SessionCipher_def sample_limits_def seal_def close_def assertCanSend_def
      sealRecord_def sample_header_ad encryptWithAd_def aeadSeal_def keyed_crypto_def RecordType wire_limits Let_def
      del: replicate.simps be_bytes.simps)

lemma sample_decrypt:
  "decryptWithAd keyed_crypto (epoch_key keyed_crypto (replicate 32 7) 0) n ad (inner @ replicate 16 7) = Some inner"
  by (simp add: decryptWithAd_def aeadOpen_def keyed_crypto_def AEAD_TAG_LENGTH_def del: replicate.simps)

lemma sample_decrypts:
  "decryptWithAd keyed_crypto (replicate 32 7) n ad (0 # 1 # 2 # replicate 16 7) = Some [0, 1, 2]"
  "decryptWithAd keyed_crypto (replicate 32 7) n ad (1 # replicate 16 7) = Some [1]"
  using sample_decrypt [of n ad "[0, 1, 2]"] sample_decrypt [of n ad "[1]"] by (simp_all del: replicate.simps)

lemma sample_unforged:
  "unforged keyed_crypto (sc_receiveKey sample_receiver) (send_all keyed_crypto 0 sample_sends sample_session)
    [(sample_record 0 [0, 1, 2], sample_header), (sample_record 1 [1], sample_header)]"
  unfolding unforged_def sample_history key_updates_def
  by (simp add: sample_receiver_def SessionCipher_def sample_header_ad sample_decrypts RecordType
      del: replicate.simps be_bytes.simps)

lemma sample_deliver:
  "\<exists>B'. deliver keyed_crypto [(sample_record 0 [0, 1, 2], sample_header), (sample_record 1 [1], sample_header)] sample_receiver =
     ([(header_ad sample_header, Opened_data [1, 2]), (header_ad sample_header, Opened_close)], B') \<and>
     fst (transportEnded B') = Inr ()"
  by (simp add: receive_def open_record_def openRecord_def sample_header_ad sample_receiver_def SessionCipher_def sample_limits_def
      sample_decrypts RecordType wire_limits Let_def transportEnded_def del: replicate.simps be_bytes.simps)

text \<open>The first record, a replay of it, and the second: the replay ends the session.\<close>

theorem record_stream_integrity_witness:
  "prefix (fst (deliver keyed_crypto [(sample_record 0 [0, 1, 2], sample_header), (sample_record 0 [0, 1, 2], sample_header),
       (sample_record 1 [1], sample_header)] sample_receiver))
     [(header_ad sample_header, Opened_data [1, 2]), (header_ad sample_header, Opened_close)] \<and>
   fst (deliver keyed_crypto [(sample_record 0 [0, 1, 2], sample_header), (sample_record 0 [0, 1, 2], sample_header),
       (sample_record 1 [1], sample_header)] sample_receiver) = [(header_ad sample_header, Opened_data [1, 2])]"
proof -
  let ?d = "(sample_record 0 [0, 1, 2], sample_header)" and ?e = "(sample_record 1 [1], sample_header)"
  have u: "unforged keyed_crypto (sc_receiveKey sample_receiver) (send_all keyed_crypto 0 sample_sends sample_session) [?d, ?d, ?e]"
    using sample_unforged by (simp only: unforged_def set_simps insert_absorb2)
  have n: "sc_sendCounter sample_session = sc_receiveCounter sample_receiver"
    by (simp add: sample_session_def sample_receiver_def SessionCipher_def)
  have one: "fst (deliver keyed_crypto [?d] sample_receiver) = [(header_ad sample_header, Opened_data [1, 2])]"
    "fst (open_record keyed_crypto (fst ?d) (snd ?d) (snd (deliver keyed_crypto [?d] sample_receiver))) = Inl (SessionError (ErrorCode REPLAY_DETECTED))"
    by (simp_all add: receive_def open_record_def openRecord_def sample_header_ad sample_receiver_def SessionCipher_def sample_limits_def
      sample_decrypts RecordType wire_limits Let_def del: replicate.simps be_bytes.simps)
  note integrity = record_stream_integrity [OF u n]
  have "[?d, ?d, ?e] = [?d] @ ?d # [?e]" by simp
  from integrity [THEN conjunct2, rule_format, OF this one(2)] one(1)
  have "fst (deliver keyed_crypto [?d, ?d, ?e] sample_receiver) = [(header_ad sample_header, Opened_data [1, 2])]" by (rule trans)
  moreover have "map content (send_all keyed_crypto 0 sample_sends sample_session) =
      [(header_ad sample_header, Opened_data [1, 2]), (header_ad sample_header, Opened_close)]"
    by (simp add: sample_history)
  ultimately show ?thesis using integrity [THEN conjunct1] by (simp only: simp_thms)
qed

theorem truncation_detected_witness:
  "\<exists>ms B'. deliver keyed_crypto [(sample_record 0 [0, 1, 2], sample_header), (sample_record 1 [1], sample_header)] sample_receiver = (ms, B') \<and>
     ms = map content (send_all keyed_crypto 0 sample_sends sample_session) \<and> snd (last ms) = Opened_close"
proof -
  obtain ms B' where d: "deliver keyed_crypto [(sample_record 0 [0, 1, 2], sample_header), (sample_record 1 [1], sample_header)] sample_receiver = (ms, B')"
    "fst (transportEnded B') = Inr ()"
    using sample_deliver by blast
  have "sc_sendCounter sample_session = sc_receiveCounter sample_receiver" "\<not> sc_receivedClose sample_receiver"
    by (simp_all add: sample_session_def sample_receiver_def SessionCipher_def)
  from truncation_detected [OF sample_unforged this d] d(1) show ?thesis by blast
qed

theorem nonces_never_repeat_witness:
  "distinct (map (\<lambda>x. (sent_epoch x, noiseNonce (sent_counter x))) (send_all keyed_crypto 0 sample_sends sample_session))"
  using nonces_never_repeat [of sample_session keyed_crypto sample_sends]
  by (simp add: sample_session_def SessionCipher_def sample_limits_def)

text \<open>A handshake between fixed key pairs.\<close>

definition sample_registry :: key_registry where
  "sample_registry = \<lparr>kr_next = 1, kr_verified = [0]\<rparr>"

definition sample_client :: client_options where
  "sample_client = \<lparr>co_serverKey = \<lparr>vk_ref = 0, vk_publicKey = 9 # replicate 31 0, vk_role = KA_SERVICE_NODE, vk_scope = js ''a.ox'',
     vk_notAfter = 20\<rparr>, co_name = js ''a.ox'', co_now = js_int 15, co_limits = None\<rparr>"

definition sample_server :: server_options where
  "sample_server = \<lparr>so_staticKey = sample_pair 9, so_name = js ''a.ox'', so_role = None, so_limits = None\<rparr>"

lemma sample_matching: "matching sample_client sample_server"
  by (simp add: matching_def sample_client_def sample_server_def)

lemma default_limits: "\<exists>l. resolveLimits None = Inr l"
  by (simp add: resolveLimits_def isSafeInteger_def MAX_RECORDS_PER_KEY_def KEY_UPDATE_INTERVAL_def MAX_SAFE_INTEGER_def Let_def)

lemma sample_prologue: "\<exists>p. sessionPrologue r n = Inr p"
  by (simp add: sessionPrologue_def w_fixed_def)

lemma sample_client_ok: "\<exists>ch. ClientHandshake sample_crypto sample_registry sample_client (sample_pair 3) = Inr ch"
proof -
  obtain l p where "resolveLimits None = Inr l" "sessionPrologue KA_SERVICE_NODE (js ''a.ox'') = Inr p"
    using default_limits sample_prologue by blast
  then show ?thesis
    by (simp add: ClientHandshake_def sample_client_def sample_registry_def isVerifiedKeyAgreementKey_def isSafeInteger_def MAX_SAFE_INTEGER_def)
qed

lemma sample_server_ok: "\<exists>sh. ServerHandshake sample_crypto sample_server (sample_pair 5) = Inr sh"
proof -
  obtain l p where "resolveLimits None = Inr l" "sessionPrologue KA_SERVICE_NODE (js ''a.ox'') = Inr p"
    using default_limits sample_prologue by blast
  moreover have "x25519KeyPairFromSecret sample_crypto (9 # replicate 31 0) = Inr (sample_pair 9)"
    by (simp add: x25519KeyPairFromSecret_def X25519_KEY_LENGTH_def sample_crypto_def)
  ultimately show ?thesis
    using sample_valid_key by (simp add: ServerHandshake_def sample_server_def bytesEqual_iff del: replicate.simps)
qed

lemma sample_dh_ok: "a XOR b \<noteq> 0 \<Longrightarrow>
    dh sample_crypto (a # replicate 31 0) (b # replicate 31 0) = Inr (map2 (XOR) (a # replicate 31 0) (b # replicate 31 0))"
  using sample_good_pair [of b] unfolding dh_def x25519_def good_pair_def
  by (simp add: X25519_KEY_LENGTH_def sample_crypto_def Let_def isAllZero_iff del: replicate.simps)

lemma writeMessage1_ok: "ni_step st = Write1 \<Longrightarrow> dh c (kp_secretKey (ni_e st)) (ni_rs st) = Inr k \<Longrightarrow>
    \<exists>m st'. writeMessage1 c p st = (Inr m, st')"
  by (simp add: writeMessage1_def Let_def split: prod.splits)

lemma writeMessage2_ok: "nr_step st = Write2 \<Longrightarrow> nr_re st = Some re \<Longrightarrow> dh c (kp_secretKey (nr_e st)) re = Inr k \<Longrightarrow>
    \<exists>m sp st'. writeMessage2 c p st = (Inr (m, sp), st')"
  by (simp add: writeMessage2_def Let_def split: prod.splits)

lemma start_ok: "ch_state ch = HS_new \<Longrightarrow> writeMessage1 c [] (ch_noise ch) = (Inr m, n) \<Longrightarrow> \<exists>ch1. start c ch = (Inr m, ch1)"
  by (simp add: start_def)

lemma respond_ok: "\<not> sh_used sh \<Longrightarrow> length m1 = HANDSHAKE_MESSAGE_SIZE \<Longrightarrow> readMessage1 c m1 (sh_noise sh) = (Inr p, n) \<Longrightarrow>
    writeMessage2 c [] n = (Inr (m2, sp), n') \<Longrightarrow> \<exists>B sh1. respond c m1 sh = (Inr (m2, B), sh1)"
  by (simp add: respond_def)

theorem handshake_gives_channel_witness:
  "\<exists>ch sh m1 ch1 m2 B sh1 A ch2. ClientHandshake sample_crypto sample_registry sample_client (sample_pair 3) = Inr ch \<and>
     ServerHandshake sample_crypto sample_server (sample_pair 5) = Inr sh \<and> start sample_crypto ch = (Inr m1, ch1) \<and>
     respond sample_crypto m1 sh = (Inr (m2, B), sh1) \<and> finish sample_crypto m2 ch1 = (Inr A, ch2) \<and> sc_hash A = sc_hash B"
proof -
  obtain ch where ch: "ClientHandshake sample_crypto sample_registry sample_client (sample_pair 3) = Inr ch"
    using sample_client_ok by blast
  obtain sh where sh: "ServerHandshake sample_crypto sample_server (sample_pair 5) = Inr sh"
    using sample_server_ok by blast
  obtain l p where cl: "ch = \<lparr>ch_noise = NkInitiator sample_crypto p (9 # replicate 31 0) (sample_pair 3), ch_limits = l, ch_state = HS_new\<rparr>"
    "sessionPrologue KA_SERVICE_NODE (js ''a.ox'') = Inr p"
    using ch by (rule ClientHandshake_Inr) (simp add: sample_client_def del: replicate.simps)
  obtain l' s where sv: "sh = \<lparr>sh_noise = NkResponder sample_crypto p s (sample_pair 5), sh_limits = l', sh_used = False\<rparr>"
    "good_pair sample_crypto s" "kp_publicKey s = 9 # replicate 31 0"
    using sh by (rule ServerHandshake_Inr) (use cl(2) in \<open>simp add: sample_server_def del: replicate.simps\<close>)
  obtain m1 ch1 where st: "start sample_crypto ch = (Inr m1, ch1)"
    using writeMessage1_ok [of "ch_noise ch" sample_crypto _ "[]"] start_ok [of ch sample_crypto] cl(1) sample_dh_ok [of 3 9]
    unfolding NkInitiator_def by fastforce
  have w: "writeMessage1 sample_crypto [] (NkInitiator sample_crypto p (kp_publicKey s) (sample_pair 3)) = (Inr m1, ch_noise ch1)"
    using start_Inr(1) [OF st] cl(1) sv(3) by simp
  have len: "length m1 = HANDSHAKE_MESSAGE_SIZE"
    using w sample_dh_ok [of 3 9] sv(3) length_aeadSeal [OF sample_aead]
    by (auto simp: writeMessage1_def NkInitiator_def Let_def encryptAndHash_def mixKey_def encryptWithAd_def HANDSHAKE_MESSAGE_SIZE_def
        simp del: replicate.simps split: prod.splits)
  note r1 = read_write_message1(4) [OF sample_aead sample_dh sv(2) sample_good_pair w, of "sample_pair 5"]
  let ?n = "\<lparr>nr_ss = ni_ss (ch_noise ch1), nr_s = s, nr_e = sample_pair 5, nr_step = Write2, nr_re = Some (kp_publicKey (sample_pair 3))\<rparr>"
  have "dh sample_crypto (kp_secretKey (nr_e ?n)) (kp_publicKey (sample_pair 3)) = Inr (map2 (XOR) (5 # replicate 31 0) (3 # replicate 31 0))"
    using sample_dh_ok [of 5 3] by (simp del: replicate.simps)
  then obtain m2 sp n' where wr: "writeMessage2 sample_crypto [] ?n = (Inr (m2, sp), n')"
    using writeMessage2_ok [of ?n "kp_publicKey (sample_pair 3)"] by (metis nk_responder.select_convs(4,5))
  obtain B sh1 where rs: "respond sample_crypto m1 sh = (Inr (m2, B), sh1)"
    using respond_ok [OF _ len _ wr, of sh] r1 sv(1) by auto
  from handshake_gives_channel [OF sample_aead sample_dh sample_good_pair sample_good_pair sample_matching ch sh st rs] ch sh st rs
  show ?thesis by blast
qed

end
