(* ===== verification/Service_Auth.thy ===== *)
theory Service_Auth
  imports Grants
begin

text \<open>
  \<^verbatim>\<open>packages/crypto/src/service-auth.ts\<close>: the statement a service node signs to prove to one relay,
  on one connection, that it holds its node key.
\<close>

definition SERVICE_AUTH_CONTEXT :: jsstring where
  "SERVICE_AUTH_CONTEXT = js ''tnp-relay-service-auth-v1''"

definition SERVICE_AUTH_CHALLENGE_SIZE :: nat where "SERVICE_AUTH_CHALLENGE_SIZE = 32"

definition MAX_ENDPOINT_LENGTH :: nat where "MAX_ENDPOINT_LENGTH = 512"

record service_auth_statement =
  sas_name :: jsstring
  sas_endpoint :: jsstring
  sas_challenge :: bytes
  sas_nodeKey :: key_input

definition encodeStatement :: "service_auth_statement \<Rightarrow> bytes result" where
  "encodeStatement st =
     (if \<not> isValidScope (JStr (sas_name st)) then Inl EncodingError
      else if length (sas_endpoint st) = 0 \<or> length (sas_endpoint st) > MAX_ENDPOINT_LENGTH then Inl EncodingError
      else if length (sas_challenge st) \<noteq> SERVICE_AUTH_CHALLENGE_SIZE then Inl EncodingError
      else rbind (w_fixed (w_string (w_string (w_string [] SERVICE_AUTH_CONTEXT) (sas_name st)) (sas_endpoint st))
              (sas_challenge st) SERVICE_AUTH_CHALLENGE_SIZE) (\<lambda>w.
        rbind (parsePublicKey (sas_nodeKey st)) (\<lambda>nodeKey.
        rbind (w_fixed w nodeKey PUBLIC_KEY_LENGTH) (\<lambda>w. Inr (w_finish w)))))"

definition signServiceAuth :: "ed_sign \<Rightarrow> service_auth_statement \<Rightarrow> bytes \<Rightarrow> jsstring result" where
  "signServiceAuth sign st nodeSecretKey =
     rbind (encodeStatement st) (\<lambda>bs.
     rbind (parsePublicKey (sas_nodeKey st)) (\<lambda>nodeKey.
     rbind (assertSecretMatches nodeSecretKey nodeKey) (\<lambda>_.
       Inr (encodeBase64 (sign bs nodeSecretKey)))))"

definition verifyServiceAuth :: "ed_verify \<Rightarrow> service_auth_statement \<Rightarrow> jsstring \<Rightarrow> bool" where
  "verifyServiceAuth verify st signature =
     (case rbind (encodeStatement st) (\<lambda>bs.
           rbind (decodeBase64Strict (JStr signature) (Some SIGNATURE_LENGTH)) (\<lambda>sig.
           rbind (parsePublicKey (sas_nodeKey st)) (\<lambda>nodeKey. Inr (verify bs sig nodeKey)))) of
        Inl _ \<Rightarrow> False
      | Inr ok \<Rightarrow> ok)"

section \<open>The signed bytes\<close>

definition statement_fields :: "service_auth_statement \<Rightarrow> bytes \<Rightarrow> field list" where
  "statement_fields st key =
     [Prefixed (textEncode SERVICE_AUTH_CONTEXT), Prefixed (textEncode (sas_name st)),
      Prefixed (textEncode (sas_endpoint st)), Fixed (sas_challenge st), Fixed key]"

lemma encodeStatement_iff:
  "encodeStatement st = Inr b \<longleftrightarrow> valid_name (sas_name st) \<and> 0 < length (sas_endpoint st) \<and>
     length (sas_endpoint st) \<le> MAX_ENDPOINT_LENGTH \<and> length (sas_challenge st) = 32 \<and>
     (\<exists>key. parsePublicKey (sas_nodeKey st) = Inr key \<and> b = enc_fields (statement_fields st key))"
proof (cases "parsePublicKey (sas_nodeKey st)")
  case (Inr key)
  with parsePublicKey_length [OF this] show ?thesis
    by (auto simp: encodeStatement_def w_fixed_def rbind_eq_Inr statement_fields_def enc_fields_def
        SERVICE_AUTH_CHALLENGE_SIZE_def PUBLIC_KEY_LENGTH_def w_finish_def w_string_def w_bytesPrefixed_def)
qed (auto simp: encodeStatement_def rbind_eq_Inr)

lemma length_utf8_char: "length (utf8_char c) \<le> 4"
  by (simp add: utf8_char_def)

lemma length_usv: "length (usv s) \<le> length s"
  by (induction s rule: usv.induct) auto

lemma length_textEncode: "length (textEncode s) \<le> 4 * length s"
proof -
  have "length (concat (map utf8_char cs)) \<le> 4 * length cs" for cs
  proof (induction cs)
    case (Cons c cs)
    with length_utf8_char [of c] show ?case by simp
  qed simp
  then have "length (textEncode s) \<le> 4 * length (usv s)" by (simp add: textEncode_def)
  with length_usv [of s] show ?thesis by linarith
qed

lemma statement_fields_ok:
  "encodeStatement st = Inr b \<Longrightarrow> list_all field_ok (statement_fields st key)"
  using length_textEncode [of "sas_endpoint st"] length_textEncode [of "sas_name st"]
  by (auto simp: encodeStatement_iff statement_fields_def MAX_ENDPOINT_LENGTH_def valid_name_def MAX_NAME_LENGTH_def
      SERVICE_AUTH_CONTEXT_def js_def textEncode_ascii)

section \<open>Properties\<close>

text \<open>
  A proof is for one relay, one name, one connection, one key. If a signature over one statement is
  presented for another and both statements encode to the same bytes, then the names, the
  challenges and the keys are equal, and so are the endpoints (as Unicode strings).
\<close>

theorem service_auth_binds:
  assumes "encodeStatement st = Inr b" and "encodeStatement st' = Inr b"
    and "well_formed16 (sas_endpoint st)" and "well_formed16 (sas_endpoint st')"
  shows "sas_name st = sas_name st' \<and> sas_endpoint st = sas_endpoint st' \<and> sas_challenge st = sas_challenge st' \<and>
    parsePublicKey (sas_nodeKey st) = parsePublicKey (sas_nodeKey st')"
proof -
  obtain k k' where k: "parsePublicKey (sas_nodeKey st) = Inr k" "b = enc_fields (statement_fields st k)"
    "parsePublicKey (sas_nodeKey st') = Inr k'" "b = enc_fields (statement_fields st' k')"
    using assms(1,2) by (auto simp: encodeStatement_iff)
  have "list_all2 same_kind (statement_fields st k) (statement_fields st' k')"
    using assms(1,2) parsePublicKey_length [OF k(1)] parsePublicKey_length [OF k(3)]
    by (auto simp: statement_fields_def encodeStatement_iff)
  from enc_fields_inj [OF this statement_fields_ok [OF assms(1)] statement_fields_ok [OF assms(2)]] k
  have e: "textEncode (sas_name st) = textEncode (sas_name st')" "textEncode (sas_endpoint st) = textEncode (sas_endpoint st')"
    "sas_challenge st = sas_challenge st'" "k = k'"
    by (simp_all add: statement_fields_def)
  have "sas_name st = sas_name st'"
    using e(1) assms(1,2) valid_name_ascii textEncode_ascii_inj by (auto simp: encodeStatement_iff)
  with e k assms(3,4) textEncode_inj show ?thesis by auto
qed

text \<open>
  Signing and verifying fit together, and verifying never throws: given correct Ed25519, what
  \<^verbatim>\<open>signServiceAuth\<close> returns verifies for the same statement.
\<close>

theorem service_auth_round_trip:
  assumes "ed_correct sign verify" and "signServiceAuth sign st sk = Inr sg"
  shows "verifyServiceAuth verify st sg"
proof -
  obtain bs k where b: "encodeStatement st = Inr bs" "parsePublicKey (sas_nodeKey st) = Inr k"
    "assertSecretMatches sk k = Inr ()" "sg = encodeBase64 (sign bs sk)"
    using assms(2) by (auto simp: signServiceAuth_def rbind_eq_Inr)
  have sk: "length sk = 64" "drop 32 sk = k"
    using b(3) by (auto simp: assertSecretMatches_def SECRET_KEY_LENGTH_def split: if_splits)
  with assms(1) have "length (sign bs sk) = 64" "verify bs (sign bs sk) k" unfolding ed_correct_def by metis+
  with b show ?thesis by (simp add: verifyServiceAuth_def decode_encode64 SIGNATURE_LENGTH_def)
qed

definition sample_statement_auth :: service_auth_statement where
  "sample_statement_auth = \<lparr>sas_name = js ''a.ox'', sas_endpoint = js ''wss://r'', sas_challenge = replicate 32 5,
     sas_nodeKey = KeyBytes (replicate 32 1)\<rparr>"

lemma sample_encode: "\<exists>b. encodeStatement sample_statement_auth = Inr b"
  using sample_name
  by (simp add: encodeStatement_iff sample_statement_auth_def js_def MAX_ENDPOINT_LENGTH_def parsePublicKey_def
      PUBLIC_KEY_LENGTH_def del: replicate.simps)

theorem service_auth_binds_witness:
  "\<exists>b. encodeStatement sample_statement_auth = Inr b \<and> sas_name sample_statement_auth = js ''a.ox''"
proof -
  obtain b where b: "encodeStatement sample_statement_auth = Inr b" using sample_encode by blast
  have w: "well_formed16 (sas_endpoint sample_statement_auth)"
    by (simp add: sample_statement_auth_def js_def is_high_def is_low_def)
  from service_auth_binds [OF b b w w] b show ?thesis by (simp add: sample_statement_auth_def)
qed

theorem service_auth_round_trip_witness:
  "\<exists>sg. signServiceAuth sample_sign sample_statement_auth (replicate 64 1) = Inr sg \<and>
    verifyServiceAuth sample_verify sample_statement_auth sg"
proof -
  obtain b where b: "encodeStatement sample_statement_auth = Inr b" using sample_encode by blast
  then obtain sg where sg: "signServiceAuth sample_sign sample_statement_auth (replicate 64 1) = Inr sg"
    by (simp add: signServiceAuth_def sample_statement_auth_def parsePublicKey_def PUBLIC_KEY_LENGTH_def
        assertSecretMatches_def SECRET_KEY_LENGTH_def)
  from service_auth_round_trip [OF sample_correct sg] sg show ?thesis by blast
qed

end
