(* ===== verification/Domain_Key.thy ===== *)
theory Domain_Key
  imports Grants Primitives
begin

text \<open>
  \<^verbatim>\<open>packages/crypto/src/domain-key.ts\<close>: rotation statements of a domain key, and the walk by which a
  client that pinned one key decides whether the key now presented is its legitimate
  successor.
\<close>

definition ROTATION_CONTEXT :: jsstring where
  "ROTATION_CONTEXT = js ''tnp-domain-key-rotation-v1''"

definition MAX_DOMAIN_KEY_ROTATIONS :: nat where "MAX_DOMAIN_KEY_ROTATIONS = 32"

definition ROTATION_FIELDS :: "jsstring list" where
  "ROTATION_FIELDS = [js ''name'', js ''previousKey'', js ''nextKey'', js ''issuedAt'', js ''signature'']"

record parsed_rotation =
  pr_name :: jsstring
  pr_previousKey :: bytes
  pr_nextKey :: bytes
  pr_issuedAt :: nat

definition parseRotation :: "jsval \<Rightarrow> bool \<Rightarrow> parsed_rotation result" where
  "parseRotation v allowSignature =
     (if \<not> is_object v then Inl EncodingError
      else if list_ex (\<lambda>f. f \<notin> set ROTATION_FIELDS \<or> f = js ''signature'' \<and> \<not> allowSignature) (object_keys v)
        then Inl EncodingError
      else if \<not> isValidScope (js_prop v (js ''name'')) then Inl EncodingError
      else case (as_string (js_prop v (js ''previousKey'')), as_string (js_prop v (js ''nextKey''))) of
        (Some p, Some n) \<Rightarrow>
          rbind (parsePublicKey (KeyString p)) (\<lambda>previousKey.
          rbind (parsePublicKey (KeyString n)) (\<lambda>nextKey.
            if bytesEqual previousKey nextKey then Inl EncodingError
            else rbind (assertUint (js_prop v (js ''issuedAt''))) (\<lambda>issuedAt.
              Inr \<lparr>pr_name = nullish (as_string (js_prop v (js ''name''))) [], pr_previousKey = previousKey,
                   pr_nextKey = nextKey, pr_issuedAt = issuedAt\<rparr>)))
      | _ \<Rightarrow> Inl EncodingError)"

definition encodeRotation :: "parsed_rotation \<Rightarrow> bytes result" where
  "encodeRotation r =
     rbind (w_fixed (w_string (w_string [] ROTATION_CONTEXT) (pr_name r)) (pr_previousKey r) PUBLIC_KEY_LENGTH) (\<lambda>w.
     rbind (w_fixed w (pr_nextKey r) PUBLIC_KEY_LENGTH) (\<lambda>w.
     rbind (w_uint w (js_nat (pr_issuedAt r))) (\<lambda>w. Inr (w_finish w))))"

definition canonicalDomainKeyRotationBytes :: "jsval \<Rightarrow> bytes result" where
  "canonicalDomainKeyRotationBytes v = rbind (parseRotation v False) encodeRotation"

definition signDomainKeyRotation :: "ed_sign \<Rightarrow> jsval \<Rightarrow> bytes \<Rightarrow> jsval result" where
  "signDomainKeyRotation sign v previousSecretKey =
     rbind (parseRotation v False) (\<lambda>parsed.
     rbind (assertSecretMatches previousSecretKey (pr_previousKey parsed)) (\<lambda>_.
     rbind (encodeRotation parsed) (\<lambda>msg.
       Inr (with_prop v (js ''signature'') (JStr (encodeBase64 (sign msg previousSecretKey)))))))"

definition parse_signed_rotation :: "jsval \<Rightarrow> (parsed_rotation \<times> bytes) result" where
  "parse_signed_rotation v = rbind (parseRotation v True) (\<lambda>p.
     rbind (decodeBase64Strict (js_prop v (js ''signature'')) (Some SIGNATURE_LENGTH)) (\<lambda>s. Inr (p, s)))"

definition verifyDomainKeyRotation :: "ed_verify \<Rightarrow> jsval \<Rightarrow> jsstring \<Rightarrow> parsed_rotation option result" where
  "verifyDomainKeyRotation verify rotation name =
     (case parse_signed_rotation rotation of
        Inl _ \<Rightarrow> Inr None
      | Inr (parsed, signature) \<Rightarrow>
          if pr_name parsed \<noteq> name then Inr None
          else rbind (encodeRotation parsed) (\<lambda>msg.
            if \<not> verify msg signature (pr_previousKey parsed) then Inr None else Inr (Some parsed)))"

record follow_options =
  fo_name :: jsstring
  fo_pinned :: key_input
  fo_current :: key_input
  fo_rotations :: jsval

datatype follow_result = Follow_ok nat | Follow_failed

fun follow :: "ed_verify \<Rightarrow> jsstring \<Rightarrow> bytes \<Rightarrow> jsval list \<Rightarrow> bytes \<Rightarrow> int \<Rightarrow> nat \<Rightarrow> follow_result result" where
  "follow verify name target [] cursor lastIssuedAt steps = Inr Follow_failed"
| "follow verify name target (rotation # rest) cursor lastIssuedAt steps =
     rbind (verifyDomainKeyRotation verify rotation name) (\<lambda>r. case r of
       None \<Rightarrow> follow verify name target rest cursor lastIssuedAt steps
     | Some v \<Rightarrow>
         if \<not> bytesEqual (pr_previousKey v) cursor then follow verify name target rest cursor lastIssuedAt steps
         else if int (pr_issuedAt v) \<le> lastIssuedAt then follow verify name target rest cursor lastIssuedAt steps
         else if bytesEqual (pr_nextKey v) target then Inr (Follow_ok (Suc steps))
         else follow verify name target rest (pr_nextKey v) (int (pr_issuedAt v)) (Suc steps))"

definition followDomainKeyRotations :: "ed_verify \<Rightarrow> follow_options \<Rightarrow> follow_result result" where
  "followDomainKeyRotations verify opts =
     (case (parsePublicKey (fo_pinned opts), parsePublicKey (fo_current opts)) of
        (Inr cursor, Inr target) \<Rightarrow>
          if bytesEqual cursor target then Inr (Follow_ok 0)
          else (case as_array (fo_rotations opts) of
              None \<Rightarrow> Inr Follow_failed
            | Some rotations \<Rightarrow>
                if length rotations > MAX_DOMAIN_KEY_ROTATIONS then Inr Follow_failed
                else follow verify (fo_name opts) target rotations cursor (-1) 0)
      | _ \<Rightarrow> Inr Follow_failed)"

section \<open>Key pairs\<close>

definition domainKeyFingerprint :: "crypto \<Rightarrow> key_input \<Rightarrow> jsstring result" where
  "domainKeyFingerprint c key = rbind (parsePublicKey key) (\<lambda>k. Inr (toHex (sha256 c k)))"

record signing_key_pair =
  sk_publicKey :: bytes
  sk_secretKey :: bytes

text \<open>The argument \<open>fromSeed\<close> is \<^verbatim>\<open>nacl.sign.keyPair.fromSeed\<close>.\<close>

definition signingKeyPairFromSecret :: "(bytes \<Rightarrow> signing_key_pair) \<Rightarrow> bytes \<Rightarrow> signing_key_pair result" where
  "signingKeyPairFromSecret fromSeed secretKey =
     (if length secretKey \<noteq> SECRET_KEY_LENGTH then Inl EncodingError
      else let kp = fromSeed (take 32 secretKey) in
        if \<not> bytesEqual (sk_publicKey kp) (drop 32 secretKey) then Inl EncodingError else Inr kp)"

definition SEED_LENGTH :: nat where
  "SEED_LENGTH = 32" \<comment> \<open>\<open>nacl.sign.seedLength\<close>\<close>

definition signingKeyPairFromSeed :: "(bytes \<Rightarrow> signing_key_pair) \<Rightarrow> bytes \<Rightarrow> signing_key_pair result" where
  "signingKeyPairFromSeed fromSeed seed =
     (if length seed \<noteq> SEED_LENGTH then Inl EncodingError else Inr (fromSeed seed))"

definition js_space :: "nat \<Rightarrow> bool" where
  "js_space c \<longleftrightarrow> c \<in> {9, 10, 11, 12, 13, 32, 0xA0, 0x1680, 0x2028, 0x2029, 0x202F, 0x205F, 0x3000, 0xFEFF} \<or>
     0x2000 \<le> c \<and> c \<le> 0x200A"

definition js_trim :: "jsstring \<Rightarrow> jsstring" where
  "js_trim s = rev (dropWhile js_space (rev (dropWhile js_space s)))"

definition signingKeyPairFromSeedBase64 :: "(bytes \<Rightarrow> signing_key_pair) \<Rightarrow> jsstring \<Rightarrow> signing_key_pair result" where
  "signingKeyPairFromSeedBase64 fromSeed seed =
     rbind (decodeBase64Strict (JStr (js_trim seed)) (Some SEED_LENGTH)) (signingKeyPairFromSeed fromSeed)"

section \<open>Parsed statements\<close>

definition wf_rotation :: "parsed_rotation \<Rightarrow> bool" where
  "wf_rotation r \<longleftrightarrow> valid_name (pr_name r) \<and> length (pr_previousKey r) = 32 \<and> length (pr_nextKey r) = 32 \<and>
     pr_previousKey r \<noteq> pr_nextKey r \<and> int (pr_issuedAt r) \<le> MAX_SAFE_INTEGER"

definition rotation_fields :: "parsed_rotation \<Rightarrow> field list" where
  "rotation_fields r = [Prefixed (textEncode ROTATION_CONTEXT), Prefixed (textEncode (pr_name r)),
     Fixed (pr_previousKey r), Fixed (pr_nextKey r), U64 (pr_issuedAt r)]"

abbreviation rotation_bytes :: "parsed_rotation \<Rightarrow> bytes" where
  "rotation_bytes r \<equiv> enc_fields (rotation_fields r)"

lemma parseRotation_wf: "parseRotation v allow = Inr r \<Longrightarrow> wf_rotation r"
  unfolding parseRotation_def
  by (auto simp: rbind_eq_Inr wf_rotation_def parsePublicKey_length isValidScope_iff assertUint_iff
      split: if_splits option.splits)

lemma encodeRotation_ok: "wf_rotation r \<Longrightarrow> encodeRotation r = Inr (rotation_bytes r)"
  by (simp add: encodeRotation_def w_fixed_def w_uint_def assertUint_js_nat wf_rotation_def PUBLIC_KEY_LENGTH_def
      rotation_fields_def enc_fields_def)

lemma parse_signed_rotation_wf: "parse_signed_rotation v = Inr (r, s) \<Longrightarrow> wf_rotation r"
  by (auto simp: parse_signed_rotation_def rbind_eq_Inr dest: parseRotation_wf)

text \<open>A statement for \<open>name\<close>, signed by the key it retires.\<close>

definition genuine :: "ed_verify \<Rightarrow> jsstring \<Rightarrow> jsval \<Rightarrow> parsed_rotation \<Rightarrow> bool" where
  "genuine verify name v r \<longleftrightarrow> (\<exists>s. parse_signed_rotation v = Inr (r, s) \<and> pr_name r = name \<and>
     verify (rotation_bytes r) s (pr_previousKey r))"

lemma verifyRotation_genuine: "verifyDomainKeyRotation verify v name = Inr (Some r) \<longleftrightarrow> genuine verify name v r"
  and verifyRotation_total: "\<exists>r. verifyDomainKeyRotation verify v name = Inr r"
proof -
  have "(verifyDomainKeyRotation verify v name = Inr (Some r) \<longleftrightarrow> genuine verify name v r) \<and>
      (\<exists>r. verifyDomainKeyRotation verify v name = Inr r)"
  proof (cases "parse_signed_rotation v")
    case (Inr p)
    obtain q s where p: "p = (q, s)" by (cases p)
    have "encodeRotation q = Inr (rotation_bytes q)"
      using Inr p parse_signed_rotation_wf encodeRotation_ok by blast
    with Inr p show ?thesis by (auto simp: verifyDomainKeyRotation_def genuine_def)
  qed (auto simp: verifyDomainKeyRotation_def genuine_def)
  then show "verifyDomainKeyRotation verify v name = Inr (Some r) \<longleftrightarrow> genuine verify name v r"
    "\<exists>r. verifyDomainKeyRotation verify v name = Inr r" by auto
qed

lemma verifyRotation_None: "verifyDomainKeyRotation verify v name = Inr None \<longleftrightarrow> (\<forall>r. \<not> genuine verify name v r)"
  using verifyRotation_genuine verifyRotation_total by (metis Inr_inject option.distinct(1) option.exhaust)

section \<open>Succession\<close>

fun linked :: "bytes \<Rightarrow> parsed_rotation list \<Rightarrow> bytes \<Rightarrow> bool" where
  "linked k [] k' = (k = k')"
| "linked k (r # rs) k' = (pr_previousKey r = k \<and> linked (pr_nextKey r) rs k')"

definition succession :: "ed_verify \<Rightarrow> jsstring \<Rightarrow> jsval list \<Rightarrow> bytes \<Rightarrow> parsed_rotation list \<Rightarrow> bytes \<Rightarrow> bool" where
  "succession verify name vs k path k' \<longleftrightarrow> linked k path k' \<and> sorted_wrt (<) (map pr_issuedAt path) \<and>
     (\<forall>r \<in> set path. \<exists>v \<in> set vs. genuine verify name v r)"

lemma follow_total: "\<exists>r. follow verify name target vs cursor lastAt steps = Inr r"
proof (induction vs arbitrary: cursor lastAt steps)
  case (Cons v vs)
  obtain r where "verifyDomainKeyRotation verify v name = Inr r" using verifyRotation_total by blast
  with Cons show ?case by (auto split: option.splits)
qed simp

lemma follow_sound:
  "follow verify name target vs cursor lastAt steps = Inr (Follow_ok n) \<Longrightarrow>
    \<exists>path. n = steps + length path \<and> succession verify name vs cursor path target \<and>
      (\<forall>r \<in> set path. lastAt < int (pr_issuedAt r))"
proof (induction vs arbitrary: cursor lastAt steps)
  case (Cons v vs)
  obtain r where r: "verifyDomainKeyRotation verify v name = Inr r" using verifyRotation_total by blast
  have weaken: "succession verify name vs k path k' \<Longrightarrow> succession verify name (v # vs) k path k'" for k path k'
    by (auto simp: succession_def)
  show ?case
  proof (cases "\<exists>q. r = Some q \<and> pr_previousKey q = cursor \<and> lastAt < int (pr_issuedAt q)")
    case False
    then have "follow verify name target vs cursor lastAt steps = Inr (Follow_ok n)"
      using Cons.prems r by (auto simp: not_less split: option.splits if_splits)
    then show ?thesis using Cons.IH weaken by blast
  next
    case True
    then obtain q where q: "r = Some q" "pr_previousKey q = cursor" "lastAt < int (pr_issuedAt q)" by blast
    have g: "genuine verify name v q" using r q(1) verifyRotation_genuine by simp
    show ?thesis
    proof (cases "pr_nextKey q = target")
      case True
      then have "n = Suc steps" using Cons.prems r q by simp
      with True q g show ?thesis by (intro exI [of _ "[q]"]) (auto simp: succession_def)
    next
      case False
      then have "follow verify name target vs (pr_nextKey q) (int (pr_issuedAt q)) (Suc steps) = Inr (Follow_ok n)"
        using Cons.prems r q by simp
      from Cons.IH [OF this] obtain path where "n = Suc steps + length path"
        "succession verify name vs (pr_nextKey q) path target" "\<forall>r \<in> set path. int (pr_issuedAt q) < int (pr_issuedAt r)"
        by blast
      with q g show ?thesis
        by (intro exI [of _ "q # path"]) (auto simp: succession_def)
    qed
  qed
qed simp

lemma linked_end: "linked k rs k' \<Longrightarrow> rs \<noteq> [] \<Longrightarrow> k' \<in> set (map pr_nextKey rs)"
proof (induction rs arbitrary: k)
  case (Cons r rs)
  then show ?case by (cases "rs = []") auto
qed simp

lemma linked_prev:
  "linked k rs k' \<Longrightarrow> distinct (k # map pr_nextKey rs) \<Longrightarrow> r \<in> set rs \<Longrightarrow> pr_previousKey r \<noteq> k'"
proof (induction rs arbitrary: k)
  case (Cons q rs)
  have "k' \<in> set (map pr_nextKey (q # rs))" using linked_end Cons.prems(1) by blast
  then have "k \<noteq> k'" using Cons.prems(2) by auto
  with Cons show ?case by auto
qed simp

text \<open>A history that is itself one line of succession is followed from any of its keys to any later one.\<close>

lemma follow_skip:
  assumes "list_all2 (genuine verify name) vs rs" "\<And>r. r \<in> set rs \<Longrightarrow> pr_previousKey r \<noteq> cursor"
  shows "follow verify name target (vs @ ws) cursor lastAt steps = follow verify name target ws cursor lastAt steps"
  using assms
proof (induction rule: list_all2_induct)
  case (Cons v vs r rs)
  then show ?case using verifyRotation_genuine [of verify v name r] by simp
qed simp

lemma follow_walk:
  assumes "list_all2 (genuine verify name) vs rs" "linked cursor rs target" "rs \<noteq> []"
    "sorted_wrt (<) (map pr_issuedAt rs)" "\<And>r. r \<in> set rs \<Longrightarrow> lastAt < int (pr_issuedAt r)"
    "distinct (cursor # map pr_nextKey rs)"
  shows "follow verify name target (vs @ ws) cursor lastAt steps = Inr (Follow_ok (steps + length rs))"
  using assms
proof (induction arbitrary: cursor lastAt steps rule: list_all2_induct)
  case (Cons v vs r rs)
  have v: "verifyDomainKeyRotation verify v name = Inr (Some r)" using Cons.hyps verifyRotation_genuine by blast
  show ?case
  proof (cases "rs = []")
    case True
    with Cons v show ?thesis by simp
  next
    case False
    have "target \<in> set (map pr_nextKey rs)" using Cons.prems(1) False linked_end by fastforce
    then have "pr_nextKey r \<noteq> target" using Cons.prems(5) by auto
    moreover have "follow verify name target (vs @ ws) (pr_nextKey r) (int (pr_issuedAt r)) (Suc steps) =
        Inr (Follow_ok (Suc steps + length rs))"
      using Cons.prems False by (intro Cons.IH) auto
    moreover have "\<not> int (pr_issuedAt r) \<le> lastAt" using Cons.prems(4) [of r] by simp
    ultimately show ?thesis using Cons.prems(1) v by simp
  qed
qed simp

section \<open>Properties\<close>

text \<open>
  A pin is only ever moved by its own line of succession. If the walk reaches the presented key after \<open>n\<close>
  steps, then \<open>n\<close> statements from the published history lead from the pinned key to it, each
  for this name, each signed by the key it retires, with strictly increasing
  times; whatever else the registry serves. The walk never throws.
\<close>

theorem rotation_follow_sound:
  "(\<exists>r. followDomainKeyRotations verify opts = Inr r) \<and>
   (followDomainKeyRotations verify opts = Inr (Follow_ok n) \<longrightarrow>
     (\<exists>pinned current. parsePublicKey (fo_pinned opts) = Inr pinned \<and> parsePublicKey (fo_current opts) = Inr current \<and>
       (n = 0 \<and> pinned = current \<or>
        (\<exists>vs path. fo_rotations opts = JArr vs \<and> length path = n \<and> succession verify (fo_name opts) vs pinned path current))))"
proof (cases "\<exists>pinned current. parsePublicKey (fo_pinned opts) = Inr pinned \<and> parsePublicKey (fo_current opts) = Inr current")
  case True
  then obtain pinned current where k: "parsePublicKey (fo_pinned opts) = Inr pinned" "parsePublicKey (fo_current opts) = Inr current"
    by blast
  show ?thesis
    using follow_total [of verify "fo_name opts" current _ pinned "-1" 0] follow_sound [of verify "fo_name opts" current _ pinned "-1" 0 n]
    by (auto simp: followDomainKeyRotations_def k split: option.splits)
next
  case False
  then have "followDomainKeyRotations verify opts = Inr Follow_failed"
    by (auto simp: followDomainKeyRotations_def split: sum.splits)
  then show ?thesis by simp
qed

text \<open>
  C36. An honest history is followed. When the registry serves one unbroken line of at most 32 genuine statements
  with increasing times and no key used twice, a client pinned to any key of the line accepts
  any later one.
\<close>

theorem rotation_history_followed:
  assumes "list_all2 (genuine verify name) vs (as @ bs @ cs)" and "length vs \<le> MAX_DOMAIN_KEY_ROTATIONS"
    and "linked first as p" and "linked p bs q" and "bs \<noteq> []"
    and "sorted_wrt (<) (map pr_issuedAt (as @ bs @ cs))" and "distinct (first # map pr_nextKey (as @ bs @ cs))"
    and "length p = 32" and "length q = 32"
  shows "followDomainKeyRotations verify
    \<lparr>fo_name = name, fo_pinned = KeyBytes p, fo_current = KeyBytes q, fo_rotations = JArr vs\<rparr> = Inr (Follow_ok (length bs))"
proof -
  obtain us ws xs where vs: "vs = us @ ws @ xs" and g: "list_all2 (genuine verify name) us as" "list_all2 (genuine verify name) ws bs"
    using assms(1) by (auto simp: list_all2_append2)
  have prev: "pr_previousKey r \<noteq> p" if "r \<in> set as" for r
    using assms(3,7) that by (intro linked_prev) auto
  have last_as: "p = first \<or> p \<in> set (map pr_nextKey as)" using assms(3) linked_end by (cases "as = []") auto
  have last_bs: "q \<in> set (map pr_nextKey bs)" using assms(4,5) by (rule linked_end)
  have "p \<noteq> q" "distinct (p # map pr_nextKey bs)" using assms(7) last_as last_bs by auto
  moreover have "follow verify name q (ws @ xs) p (-1) 0 = Inr (Follow_ok (0 + length bs))"
    using assms g calculation(2) by (intro follow_walk) (auto simp: sorted_wrt_append)
  ultimately show ?thesis
    using follow_skip [OF g(1) prev, of q "ws @ xs" "-1" 0] assms(2,8,9)
    by (simp add: followDomainKeyRotations_def parsePublicKey_def PUBLIC_KEY_LENGTH_def vs)
qed

text \<open>Concrete statements for one name.\<close>

definition sample_rotation :: "bytes \<Rightarrow> bytes \<Rightarrow> nat \<Rightarrow> jsval" where
  "sample_rotation a b t = JObj [(js ''name'', JStr (js ''a.ox'')), (js ''previousKey'', JStr (encodeBase64 a)),
     (js ''nextKey'', JStr (encodeBase64 b)), (js ''issuedAt'', js_nat t), (js ''signature'', JStr (encodeBase64 (replicate 64 7)))]"

abbreviation sample_statement :: "bytes \<Rightarrow> bytes \<Rightarrow> nat \<Rightarrow> parsed_rotation" where
  "sample_statement a b t \<equiv> \<lparr>pr_name = js ''a.ox'', pr_previousKey = a, pr_nextKey = b, pr_issuedAt = t\<rparr>"

lemma sample_genuine:
  assumes "length a = 32" "length b = 32" "a \<noteq> b" "int t \<le> MAX_SAFE_INTEGER"
  shows "genuine sample_verify (js ''a.ox'') (sample_rotation a b t) (sample_statement a b t)"
proof -
  have "parse_signed_rotation (sample_rotation a b t) = Inr (sample_statement a b t, replicate 64 7)"
    unfolding sample_rotation_def parse_signed_rotation_def parseRotation_def
    using sample_name assms
    by (simp add: is_object_def ROTATION_FIELDS_def js_def list_ex_iff parsePublicKey_def decode_encode64
        PUBLIC_KEY_LENGTH_def assertUint_js_nat SIGNATURE_LENGTH_def del: replicate.simps)
  then show ?thesis by (simp add: genuine_def)
qed

abbreviation key_n :: "byte \<Rightarrow> bytes" where
  "key_n b \<equiv> replicate 32 b"

lemma key_n_inj [simp]: "key_n a = key_n b \<longleftrightarrow> a = b"
  by simp

theorem rotation_follow_sound_witness:
  "\<exists>path. followDomainKeyRotations sample_verify \<lparr>fo_name = js ''a.ox'', fo_pinned = KeyBytes (key_n 1),
      fo_current = KeyBytes (key_n 2), fo_rotations = JArr [sample_rotation (key_n 1) (key_n 2) 5]\<rparr> = Inr (Follow_ok 1) \<and>
    length path = 1 \<and> succession sample_verify (js ''a.ox'') [sample_rotation (key_n 1) (key_n 2) 5] (key_n 1) path (key_n 2)"
proof -
  let ?o = "\<lparr>fo_name = js ''a.ox'', fo_pinned = KeyBytes (key_n 1), fo_current = KeyBytes (key_n 2),
    fo_rotations = JArr [sample_rotation (key_n 1) (key_n 2) 5]\<rparr>"
  have "genuine sample_verify (js ''a.ox'') (sample_rotation (key_n 1) (key_n 2) 5) (sample_statement (key_n 1) (key_n 2) 5)"
    by (rule sample_genuine) (simp_all add: MAX_SAFE_INTEGER_def)
  then have "verifyDomainKeyRotation sample_verify (sample_rotation (key_n 1) (key_n 2) 5) (js ''a.ox'') =
      Inr (Some (sample_statement (key_n 1) (key_n 2) 5))" by (simp add: verifyRotation_genuine)
  then have ok: "followDomainKeyRotations sample_verify ?o = Inr (Follow_ok 1)"
    by (simp add: followDomainKeyRotations_def parsePublicKey_def PUBLIC_KEY_LENGTH_def MAX_DOMAIN_KEY_ROTATIONS_def
        del: replicate.simps)
  with rotation_follow_sound [of sample_verify ?o 1] show ?thesis
    by (auto simp: parsePublicKey_def PUBLIC_KEY_LENGTH_def simp del: replicate.simps)
qed

theorem rotation_history_followed_witness:
  "followDomainKeyRotations sample_verify \<lparr>fo_name = js ''a.ox'', fo_pinned = KeyBytes (key_n 1),
      fo_current = KeyBytes (key_n 3),
      fo_rotations = JArr [sample_rotation (key_n 1) (key_n 2) 5, sample_rotation (key_n 2) (key_n 3) 6]\<rparr> = Inr (Follow_ok 2)"
proof -
  let ?rs = "[sample_statement (key_n 1) (key_n 2) 5, sample_statement (key_n 2) (key_n 3) 6]"
  have g: "list_all2 (genuine sample_verify (js ''a.ox'')) [sample_rotation (key_n 1) (key_n 2) 5, sample_rotation (key_n 2) (key_n 3) 6]
      ([] @ ?rs @ [])"
    using sample_genuine [of "key_n 1" "key_n 2" 5] sample_genuine [of "key_n 2" "key_n 3" 6]
    by (simp add: MAX_SAFE_INTEGER_def del: replicate.simps)
  have "followDomainKeyRotations sample_verify \<lparr>fo_name = js ''a.ox'', fo_pinned = KeyBytes (key_n 1), fo_current = KeyBytes (key_n 3),
      fo_rotations = JArr [sample_rotation (key_n 1) (key_n 2) 5, sample_rotation (key_n 2) (key_n 3) 6]\<rparr> = Inr (Follow_ok (length ?rs))"
    by (rule rotation_history_followed [OF g, of "key_n 1"])
       (simp_all add: MAX_DOMAIN_KEY_ROTATIONS_def del: replicate.simps)
  then show ?thesis by (simp del: replicate.simps)
qed

text \<open>
  On a history that forks, the walk commits to the first branch: the presented key is one genuine
  statement away from the pin, and is refused.
\<close>

lemma forked_history_refused:
  "followDomainKeyRotations sample_verify \<lparr>fo_name = js ''a.ox'', fo_pinned = KeyBytes (key_n 1), fo_current = KeyBytes (key_n 3),
      fo_rotations = JArr [sample_rotation (key_n 1) (key_n 2) 5, sample_rotation (key_n 1) (key_n 3) 6]\<rparr> = Inr Follow_failed \<and>
   succession sample_verify (js ''a.ox'') [sample_rotation (key_n 1) (key_n 2) 5, sample_rotation (key_n 1) (key_n 3) 6]
     (key_n 1) [sample_statement (key_n 1) (key_n 3) 6] (key_n 3)"
proof -
  have g: "genuine sample_verify (js ''a.ox'') (sample_rotation (key_n 1) (key_n 2) 5) (sample_statement (key_n 1) (key_n 2) 5)"
    "genuine sample_verify (js ''a.ox'') (sample_rotation (key_n 1) (key_n 3) 6) (sample_statement (key_n 1) (key_n 3) 6)"
    by (rule sample_genuine; simp add: MAX_SAFE_INTEGER_def)+
  then have v: "verifyDomainKeyRotation sample_verify (sample_rotation (key_n 1) (key_n 2) 5) (js ''a.ox'') =
      Inr (Some (sample_statement (key_n 1) (key_n 2) 5))"
    "verifyDomainKeyRotation sample_verify (sample_rotation (key_n 1) (key_n 3) 6) (js ''a.ox'') =
      Inr (Some (sample_statement (key_n 1) (key_n 3) 6))"
    by (simp_all add: verifyRotation_genuine)
  from g v show ?thesis
    by (simp add: followDomainKeyRotations_def parsePublicKey_def PUBLIC_KEY_LENGTH_def MAX_DOMAIN_KEY_ROTATIONS_def
        succession_def del: replicate.simps)
qed

end
