(* ===== verification/Relay_Directory.thy ===== *)
theory Relay_Directory
  imports Service_Auth Domain_Key
begin

text \<open>
  \<^verbatim>\<open>packages/crypto/src/relay-directory.ts\<close>: the signed directory of relays, and the three statements around
  a relay key: the identity proof a relay gives a peer, the proof it gives the registry, and a
  service node's binding to its relay.
\<close>

definition DIRECTORY_CONTEXT :: jsstring where "DIRECTORY_CONTEXT = js ''tnp-relay-directory-v1''"
definition IDENTITY_CONTEXT :: jsstring where "IDENTITY_CONTEXT = js ''tnp-relay-identity-v1''"
definition REGISTRY_PROOF_CONTEXT :: jsstring where "REGISTRY_PROOF_CONTEXT = js ''tnp-relay-registry-proof-v1''"
definition BINDING_CONTEXT :: jsstring where "BINDING_CONTEXT = js ''tnp-service-relay-binding-v1''"

definition RELAY_DIRECTORY_VERSION :: nat where "RELAY_DIRECTORY_VERSION = 1"
definition MAX_DIRECTORY_RELAYS :: nat where "MAX_DIRECTORY_RELAYS = 256"
definition MAX_DIRECTORY_BYTES :: nat where "MAX_DIRECTORY_BYTES = 128 * 1024"
definition MAX_DIRECTORY_LIFETIME_SECONDS :: nat where "MAX_DIRECTORY_LIFETIME_SECONDS = 7 * 86400"
definition MAX_DIRECTORY_CLOCK_SKEW_SECONDS :: int where "MAX_DIRECTORY_CLOCK_SKEW_SECONDS = 600"
definition MAX_RELAY_CAPABILITIES :: nat where "MAX_RELAY_CAPABILITIES = 8"
definition MAX_RELAY_ENDPOINT_LENGTH :: nat where "MAX_RELAY_ENDPOINT_LENGTH = 512"
definition MAX_RELAY_REGION_LENGTH :: nat where "MAX_RELAY_REGION_LENGTH = 64"
definition RELAY_IDENTITY_NONCE_SIZE :: nat where "RELAY_IDENTITY_NONCE_SIZE = 32"
definition MAX_RELAY_BINDING_AGE_SECONDS :: int where "MAX_RELAY_BINDING_AGE_SECONDS = 3600"

lemmas directory_limits = RELAY_DIRECTORY_VERSION_def MAX_DIRECTORY_RELAYS_def MAX_DIRECTORY_BYTES_def
  MAX_DIRECTORY_LIFETIME_SECONDS_def MAX_DIRECTORY_CLOCK_SKEW_SECONDS_def MAX_RELAY_CAPABILITIES_def
  MAX_RELAY_ENDPOINT_LENGTH_def MAX_RELAY_REGION_LENGTH_def RELAY_IDENTITY_NONCE_SIZE_def MAX_RELAY_BINDING_AGE_SECONDS_def

text \<open>Arithmetic and comparison on numbers that may be NaN.\<close>

fun js_plus :: "js_number \<Rightarrow> int \<Rightarrow> js_number" where
  "js_plus (Num q) i = Num (q + of_int i)"
| "js_plus x i = x"

definition js_leq :: "js_number \<Rightarrow> js_number \<Rightarrow> bool" where
  "js_leq a b \<longleftrightarrow> js_less a b \<or> a = b \<and> a \<noteq> NaN"

section \<open>Parsing\<close>

definition CAPABILITY :: "jsstring \<Rightarrow> bool" where
  "CAPABILITY s \<longleftrightarrow> (case s of [] \<Rightarrow> False
     | c # cs \<Rightarrow> 97 \<le> c \<and> c \<le> 122 \<and> length cs \<le> 31 \<and>
         list_all (\<lambda>x. 97 \<le> x \<and> x \<le> 122 \<or> 48 \<le> x \<and> x \<le> 57 \<or> x = 45) cs)"

definition REGION :: "jsstring \<Rightarrow> bool" where
  "REGION s \<longleftrightarrow> list_all (\<lambda>x. 0x20 \<le> x \<and> x \<le> 0x7e) s"

definition OPERATORS :: "jsstring list" where "OPERATORS = [js ''oxy'', js ''community'']"

definition DIRECTORY_FIELDS :: "jsstring list" where
  "DIRECTORY_FIELDS = [js ''v'', js ''serial'', js ''issuedAt'', js ''expiresAt'', js ''relays'', js ''signature'']"

definition RELAY_FIELDS :: "jsstring list" where
  "RELAY_FIELDS = [js ''endpoint'', js ''relayKey'', js ''operator'', js ''capabilities'', js ''region'']"

record parsed_relay =
  re_endpoint :: jsstring
  re_key :: bytes
  re_operator :: jsstring
  re_capabilities :: "jsstring list"
  re_region :: jsstring

record parsed_directory =
  di_serial :: nat
  di_issuedAt :: nat
  di_expiresAt :: nat
  di_relays :: "parsed_relay list"

definition startsWith :: "jsstring \<Rightarrow> jsstring \<Rightarrow> bool" where
  "startsWith s p \<longleftrightarrow> take (length p) s = p"

definition parseEndpoint :: "jsval \<Rightarrow> jsstring result" where
  "parseEndpoint v = (case as_string v of
     None \<Rightarrow> Inl EncodingError
   | Some s \<Rightarrow>
       if length s = 0 \<or> length s > MAX_RELAY_ENDPOINT_LENGTH \<or> \<not> (startsWith s (js ''wss://'') \<or> startsWith s (js ''ws://''))
       then Inl EncodingError else Inr s)"

fun parse_capabilities :: "jsval list \<Rightarrow> jsstring list \<Rightarrow> jsstring list result" where
  "parse_capabilities [] seen = Inr seen"
| "parse_capabilities (v # vs) seen = (case as_string v of
     None \<Rightarrow> Inl EncodingError
   | Some c \<Rightarrow> if \<not> CAPABILITY c \<or> c \<in> set seen then Inl EncodingError else parse_capabilities vs (seen @ [c]))"

text \<open>The tests \<^verbatim>\<open>typeof x !== 'string'\<close> and \<^verbatim>\<open>!Array.isArray(x)\<close>, followed by a throw.\<close>

definition require_string :: "jsval \<Rightarrow> jsstring result" where
  "require_string v = (case as_string v of None \<Rightarrow> Inl EncodingError | Some s \<Rightarrow> Inr s)"

definition require_array :: "jsval \<Rightarrow> jsval list result" where
  "require_array v = (case as_array v of None \<Rightarrow> Inl EncodingError | Some xs \<Rightarrow> Inr xs)"

lemma require_simps [simp]: "require_string v = Inr s \<longleftrightarrow> v = JStr s" "require_array v = Inr xs \<longleftrightarrow> v = JArr xs"
  by (cases v; simp add: require_string_def require_array_def)+

definition parseRelay :: "jsval \<Rightarrow> parsed_relay result" where
  "parseRelay v =
     (if \<not> is_object v then Inl EncodingError
      else if list_ex (\<lambda>f. f \<notin> set RELAY_FIELDS) (object_keys v) then Inl EncodingError
      else rbind (parseEndpoint (js_prop v (js ''endpoint''))) (\<lambda>endpoint.
        rbind (require_string (js_prop v (js ''relayKey''))) (\<lambda>k.
        rbind (parsePublicKey (KeyString k)) (\<lambda>key.
        rbind (require_string (js_prop v (js ''operator''))) (\<lambda>oper.
          if oper \<notin> set OPERATORS then Inl EncodingError
          else rbind (require_array (js_prop v (js ''capabilities''))) (\<lambda>caps.
            if length caps > MAX_RELAY_CAPABILITIES then Inl EncodingError
            else rbind (parse_capabilities caps []) (\<lambda>capabilities.
            rbind (require_string (js_prop v (js ''region''))) (\<lambda>region.
              if length region > MAX_RELAY_REGION_LENGTH \<or> \<not> REGION region then Inl EncodingError
              else Inr \<lparr>re_endpoint = endpoint, re_key = key, re_operator = oper,
                        re_capabilities = capabilities, re_region = region\<rparr>))))))))"

definition parseDirectory :: "jsval \<Rightarrow> bool \<Rightarrow> parsed_directory result" where
  "parseDirectory v allowSignature =
     (if \<not> is_object v then Inl EncodingError
      else if list_ex (\<lambda>f. f \<notin> set DIRECTORY_FIELDS \<or> f = js ''signature'' \<and> \<not> allowSignature) (object_keys v)
        then Inl EncodingError
      else if js_prop v (js ''v'') \<noteq> js_nat RELAY_DIRECTORY_VERSION then Inl EncodingError
      else rbind (assertUint (js_prop v (js ''serial''))) (\<lambda>serial.
        rbind (assertUint (js_prop v (js ''issuedAt''))) (\<lambda>issuedAt.
        rbind (assertUint (js_prop v (js ''expiresAt''))) (\<lambda>expiresAt.
          if serial < 1 then Inl EncodingError
          else if serial > issuedAt then Inl EncodingError
          else if expiresAt \<le> issuedAt then Inl EncodingError
          else if expiresAt - issuedAt > MAX_DIRECTORY_LIFETIME_SECONDS then Inl EncodingError
          else rbind (require_array (js_prop v (js ''relays''))) (\<lambda>vs.
            if length vs > MAX_DIRECTORY_RELAYS then Inl EncodingError
            else rbind (rmap parseRelay vs) (\<lambda>relays.
              if \<not> distinct (map re_endpoint relays) then Inl EncodingError
              else Inr \<lparr>di_serial = serial, di_issuedAt = issuedAt, di_expiresAt = expiresAt, di_relays = relays\<rparr>))))))"

section \<open>Encoding\<close>

definition w_relay :: "canonical_writer \<Rightarrow> parsed_relay \<Rightarrow> canonical_writer result" where
  "w_relay w r =
     rbind (w_fixed (w_string w (re_endpoint r)) (re_key r) PUBLIC_KEY_LENGTH) (\<lambda>w.
     rbind (w_uint (w_string w (re_operator r)) (js_nat (length (re_capabilities r)))) (\<lambda>w.
       Inr (w_string (fold (\<lambda>cap w. w_string w cap) (re_capabilities r) w) (re_region r))))"

fun w_relays :: "canonical_writer \<Rightarrow> parsed_relay list \<Rightarrow> canonical_writer result" where
  "w_relays w [] = Inr w"
| "w_relays w (r # rs) = rbind (w_relay w r) (\<lambda>w. w_relays w rs)"

definition encodeDirectory :: "parsed_directory \<Rightarrow> bytes result" where
  "encodeDirectory d =
     rbind (w_uint (w_string [] DIRECTORY_CONTEXT) (js_nat RELAY_DIRECTORY_VERSION)) (\<lambda>w.
     rbind (w_uint w (js_nat (di_serial d))) (\<lambda>w.
     rbind (w_uint w (js_nat (di_issuedAt d))) (\<lambda>w.
     rbind (w_uint w (js_nat (di_expiresAt d))) (\<lambda>w.
     rbind (w_uint w (js_nat (length (di_relays d)))) (\<lambda>w.
     rbind (w_relays w (di_relays d)) (\<lambda>w.
       let bs = w_finish w in
       if length bs > MAX_DIRECTORY_BYTES then Inl EncodingError else Inr bs))))))"

definition relay_wire :: "parsed_relay \<Rightarrow> jsval" where
  "relay_wire r = JObj [(js ''endpoint'', JStr (re_endpoint r)), (js ''relayKey'', JStr (encodeBase64 (re_key r))),
     (js ''operator'', JStr (re_operator r)), (js ''capabilities'', JArr (map JStr (re_capabilities r))),
     (js ''region'', JStr (re_region r))]"

definition toWire :: "parsed_directory \<Rightarrow> jsval" where
  "toWire d = JObj [(js ''v'', js_nat RELAY_DIRECTORY_VERSION), (js ''serial'', js_nat (di_serial d)),
     (js ''issuedAt'', js_nat (di_issuedAt d)), (js ''expiresAt'', js_nat (di_expiresAt d)),
     (js ''relays'', JArr (map relay_wire (di_relays d)))]"

definition canonicalRelayDirectoryBytes :: "jsval \<Rightarrow> bytes result" where
  "canonicalRelayDirectoryBytes v = rbind (parseDirectory v False) encodeDirectory"

definition signRelayDirectory :: "ed_sign \<Rightarrow> jsval \<Rightarrow> bytes \<Rightarrow> jsval result" where
  "signRelayDirectory sign v secretKey =
     rbind (parseDirectory v False) (\<lambda>parsed.
       if length secretKey \<noteq> SECRET_KEY_LENGTH then Inl EncodingError
       else rbind (encodeDirectory parsed) (\<lambda>msg.
         Inr (with_prop (toWire parsed) (js ''signature'') (JStr (encodeBase64 (sign msg secretKey))))))"

section \<open>Verification of a directory\<close>

record verified_directory =
  vd_serial :: nat
  vd_issuedAt :: nat
  vd_expiresAt :: nat
  vd_relays :: "parsed_relay list"
  vd_signedBy :: bytes
  vd_document :: jsval

datatype directory_rejection = Dir_malformed | Dir_oversized | Dir_bad_signature | Dir_not_yet_valid | Dir_expired | Dir_rolled_back

datatype directory_result = Directory_ok verified_directory | Directory_rejected directory_rejection

record directory_options =
  do_trustedKeys :: "bytes list"
  do_now :: js_number
  do_minSerial :: "js_number option"

definition parse_signed_directory :: "jsval \<Rightarrow> (parsed_directory \<times> bytes) result" where
  "parse_signed_directory v = rbind (parseDirectory v True) (\<lambda>p.
     rbind (decodeBase64Strict (js_prop v (js ''signature'')) (Some SIGNATURE_LENGTH)) (\<lambda>s. Inr (p, s)))"

definition verifyRelayDirectory :: "ed_verify \<Rightarrow> jsval \<Rightarrow> directory_options \<Rightarrow> directory_result" where
  "verifyRelayDirectory verify v opts =
     (case parse_signed_directory v of
        Inl _ \<Rightarrow> Directory_rejected Dir_malformed
      | Inr (parsed, signature) \<Rightarrow> (case encodeDirectory parsed of
          Inl _ \<Rightarrow> Directory_rejected Dir_oversized
        | Inr bs \<Rightarrow> (case find (\<lambda>key. length key = PUBLIC_KEY_LENGTH \<and> verify bs signature key) (do_trustedKeys opts) of
            None \<Rightarrow> Directory_rejected Dir_bad_signature
          | Some signedBy \<Rightarrow>
              if js_less (js_plus (do_now opts) MAX_DIRECTORY_CLOCK_SKEW_SECONDS) (js_int (int (di_issuedAt parsed)))
                then Directory_rejected Dir_not_yet_valid
              else if js_leq (js_int (int (di_expiresAt parsed))) (do_now opts) then Directory_rejected Dir_expired
              else if (case do_minSerial opts of None \<Rightarrow> False | Some m \<Rightarrow> js_less (js_int (int (di_serial parsed))) m)
                then Directory_rejected Dir_rolled_back
              else Directory_ok \<lparr>vd_serial = di_serial parsed, vd_issuedAt = di_issuedAt parsed, vd_expiresAt = di_expiresAt parsed,
                     vd_relays = di_relays parsed, vd_signedBy = signedBy,
                     vd_document = with_prop (toWire parsed) (js ''signature'') (JStr (encodeBase64 signature))\<rparr>)))"

section \<open>Relay identity proof\<close>

record relay_identity_statement =
  ri_endpoint :: jsstring
  ri_nonce :: bytes
  ri_relayKey :: key_input

definition encodeIdentity :: "relay_identity_statement \<Rightarrow> bytes result" where
  "encodeIdentity st =
     rbind (parseEndpoint (JStr (ri_endpoint st))) (\<lambda>_.
       if length (ri_nonce st) \<noteq> RELAY_IDENTITY_NONCE_SIZE then Inl EncodingError
       else rbind (w_fixed (w_string (w_string [] IDENTITY_CONTEXT) (ri_endpoint st)) (ri_nonce st) RELAY_IDENTITY_NONCE_SIZE) (\<lambda>w.
         rbind (parsePublicKey (ri_relayKey st)) (\<lambda>key.
         rbind (w_fixed w key PUBLIC_KEY_LENGTH) (\<lambda>w. Inr (w_finish w)))))"

definition signRelayIdentity :: "ed_sign \<Rightarrow> relay_identity_statement \<Rightarrow> bytes \<Rightarrow> bytes result" where
  "signRelayIdentity sign st relaySecretKey =
     rbind (encodeIdentity st) (\<lambda>bs.
     rbind (parsePublicKey (ri_relayKey st)) (\<lambda>key.
     rbind (assertSecretMatches relaySecretKey key) (\<lambda>_. Inr (sign bs relaySecretKey))))"

definition verifyRelayIdentity :: "ed_verify \<Rightarrow> relay_identity_statement \<Rightarrow> bytes \<Rightarrow> bool" where
  "verifyRelayIdentity verify st signature =
     (if length signature \<noteq> SIGNATURE_LENGTH then False
      else case rbind (encodeIdentity st) (\<lambda>bs. rbind (parsePublicKey (ri_relayKey st)) (\<lambda>key. Inr (verify bs signature key))) of
        Inl _ \<Rightarrow> False | Inr ok \<Rightarrow> ok)"

section \<open>Registry proof\<close>

record registry_proof_statement =
  rp_purpose :: jsstring
  rp_endpoint :: jsstring
  rp_relayKey :: key_input
  rp_issuedAt :: js_number

definition encodeRegistryProof :: "registry_proof_statement \<Rightarrow> bytes result" where
  "encodeRegistryProof st =
     (if rp_purpose st \<noteq> js ''register'' \<and> rp_purpose st \<noteq> js ''heartbeat'' then Inl EncodingError
      else rbind (parseEndpoint (JStr (rp_endpoint st))) (\<lambda>_.
        rbind (parsePublicKey (rp_relayKey st)) (\<lambda>key.
        rbind (w_fixed (w_string (w_string (w_string [] REGISTRY_PROOF_CONTEXT) (rp_purpose st)) (rp_endpoint st)) key PUBLIC_KEY_LENGTH) (\<lambda>w.
        rbind (w_uint w (JNum (rp_issuedAt st))) (\<lambda>w. Inr (w_finish w))))))"

definition signRelayRegistryProof :: "ed_sign \<Rightarrow> registry_proof_statement \<Rightarrow> bytes \<Rightarrow> jsstring result" where
  "signRelayRegistryProof sign st relaySecretKey =
     rbind (encodeRegistryProof st) (\<lambda>bs.
     rbind (parsePublicKey (rp_relayKey st)) (\<lambda>key.
     rbind (assertSecretMatches relaySecretKey key) (\<lambda>_. Inr (encodeBase64 (sign bs relaySecretKey)))))"

definition verifyRelayRegistryProof :: "ed_verify \<Rightarrow> registry_proof_statement \<Rightarrow> jsstring \<Rightarrow> bool" where
  "verifyRelayRegistryProof verify st signature =
     (case rbind (decodeBase64Strict (JStr signature) (Some SIGNATURE_LENGTH)) (\<lambda>sig.
           rbind (encodeRegistryProof st) (\<lambda>bs. rbind (parsePublicKey (rp_relayKey st)) (\<lambda>key. Inr (verify bs sig key)))) of
        Inl _ \<Rightarrow> False | Inr ok \<Rightarrow> ok)"

definition sameRelayKey :: "key_input \<Rightarrow> key_input \<Rightarrow> bool" where
  "sameRelayKey a b = (case rbind (parsePublicKey a) (\<lambda>x. rbind (parsePublicKey b) (\<lambda>y. Inr (bytesEqual x y))) of
     Inl _ \<Rightarrow> False | Inr ok \<Rightarrow> ok)"

section \<open>Relay binding of a service node\<close>

text \<open>The argument \<open>relayKey\<close> is the outcome of \<^verbatim>\<open>parsePublicKey(binding.relayKey)\<close>.\<close>

definition encodeBinding :: "jsstring \<Rightarrow> jsval \<Rightarrow> bytes result \<Rightarrow> jsval \<Rightarrow> bytes result" where
  "encodeBinding name endpoint relayKey issuedAt =
     (if \<not> isValidScope (JStr name) then Inl EncodingError
      else rbind (parseEndpoint endpoint) (\<lambda>e.
        rbind relayKey (\<lambda>key.
        rbind (w_fixed (w_string (w_string (w_string [] BINDING_CONTEXT) name) e) key PUBLIC_KEY_LENGTH) (\<lambda>w.
        rbind (w_uint w issuedAt) (\<lambda>w. Inr (w_finish w))))))"

definition signServiceRelayBinding :: "ed_sign \<Rightarrow> jsstring \<Rightarrow> jsstring \<Rightarrow> bytes \<Rightarrow> js_number \<Rightarrow> signing_key_pair \<Rightarrow> jsval result" where
  "signServiceRelayBinding sign name endpoint relayKey issuedAt nodeKey =
     rbind (encodeBinding name (JStr endpoint) (parsePublicKey (KeyBytes relayKey)) (JNum issuedAt)) (\<lambda>bs.
     rbind (assertSecretMatches (sk_secretKey nodeKey) (sk_publicKey nodeKey)) (\<lambda>_.
       Inr (JObj [(js ''endpoint'', JStr endpoint), (js ''relayKey'', JStr (encodeBase64 relayKey)), (js ''issuedAt'', JNum issuedAt),
         (js ''signature'', JStr (encodeBase64 (sign bs (sk_secretKey nodeKey))))])))"

datatype binding_rejection = Binding_malformed | Binding_bad_signature | Binding_stale | Binding_not_yet_valid

datatype binding_result = Binding_ok jsstring bytes nat | Binding_rejected binding_rejection

definition BINDING_FIELDS :: "jsstring list" where
  "BINDING_FIELDS = [js ''endpoint'', js ''relayKey'', js ''issuedAt'', js ''signature'']"

definition parse_binding :: "jsstring \<Rightarrow> jsval \<Rightarrow> (jsstring \<times> bytes \<times> nat \<times> bytes \<times> bytes) result" where
  "parse_binding name v =
     (if \<not> is_object v then Inl EncodingError
      else if list_ex (\<lambda>f. f \<notin> set BINDING_FIELDS) (object_keys v) then Inl EncodingError
      else rbind (assertUint (js_prop v (js ''issuedAt''))) (\<lambda>issuedAt.
        let key = decodeBase64Strict (js_prop v (js ''relayKey'')) (Some PUBLIC_KEY_LENGTH) in
        rbind (encodeBinding name (js_prop v (js ''endpoint'')) key (js_prop v (js ''issuedAt''))) (\<lambda>bs.
        rbind (decodeBase64Strict (js_prop v (js ''signature'')) (Some SIGNATURE_LENGTH)) (\<lambda>sig.
        rbind (parseEndpoint (js_prop v (js ''endpoint''))) (\<lambda>e. rbind key (\<lambda>k. Inr (e, k, issuedAt, bs, sig)))))))"

definition verifyServiceRelayBinding :: "ed_verify \<Rightarrow> jsstring \<Rightarrow> jsval \<Rightarrow> bytes \<Rightarrow> js_number \<Rightarrow> binding_result" where
  "verifyServiceRelayBinding verify name v nodeKey now = (case parse_binding name v of
     Inl _ \<Rightarrow> Binding_rejected Binding_malformed
   | Inr (endpoint, relayKey, issuedAt, bs, sig) \<Rightarrow>
       if \<not> verify bs sig nodeKey then Binding_rejected Binding_bad_signature
       else if js_less (js_plus now MAX_DIRECTORY_CLOCK_SKEW_SECONDS) (js_int (int issuedAt)) then Binding_rejected Binding_not_yet_valid
       else if js_less (js_int MAX_RELAY_BINDING_AGE_SECONDS) (js_plus now (- int issuedAt)) then Binding_rejected Binding_stale
       else Binding_ok endpoint relayKey issuedAt)"

section \<open>Parsed directories\<close>

definition wf_relay :: "parsed_relay \<Rightarrow> bool" where
  "wf_relay r \<longleftrightarrow> parseEndpoint (JStr (re_endpoint r)) = Inr (re_endpoint r) \<and> length (re_key r) = 32 \<and>
     re_operator r \<in> set OPERATORS \<and> list_all CAPABILITY (re_capabilities r) \<and> distinct (re_capabilities r) \<and>
     length (re_capabilities r) \<le> MAX_RELAY_CAPABILITIES \<and> REGION (re_region r) \<and> length (re_region r) \<le> MAX_RELAY_REGION_LENGTH"

definition wf_directory :: "parsed_directory \<Rightarrow> bool" where
  "wf_directory d \<longleftrightarrow> 1 \<le> di_serial d \<and> di_serial d \<le> di_issuedAt d \<and> di_issuedAt d < di_expiresAt d \<and>
     di_expiresAt d - di_issuedAt d \<le> MAX_DIRECTORY_LIFETIME_SECONDS \<and> int (di_expiresAt d) \<le> MAX_SAFE_INTEGER \<and>
     length (di_relays d) \<le> MAX_DIRECTORY_RELAYS \<and> list_all wf_relay (di_relays d) \<and> distinct (map re_endpoint (di_relays d))"

lemma parseEndpoint_iff: "parseEndpoint v = Inr e \<longleftrightarrow> v = JStr e \<and> parseEndpoint (JStr e) = Inr e"
  by (cases v) (auto simp: parseEndpoint_def split: if_splits)

lemma parse_capabilities_sound:
  "parse_capabilities vs seen = Inr cs \<Longrightarrow>
    \<exists>xs. vs = map JStr xs \<and> cs = seen @ xs \<and> list_all CAPABILITY xs \<and> distinct xs \<and> set xs \<inter> set seen = {}"
proof (induction vs arbitrary: seen)
  case (Cons v vs)
  then obtain c where c: "v = JStr c" "CAPABILITY c" "c \<notin> set seen" and rest: "parse_capabilities vs (seen @ [c]) = Inr cs"
    by (auto split: option.splits if_splits)
  obtain xs where "vs = map JStr xs" "cs = (seen @ [c]) @ xs" "list_all CAPABILITY xs" "distinct xs" "set xs \<inter> set (seen @ [c]) = {}"
    using Cons.IH [OF rest] by blast
  with c show ?case by (intro exI [of _ "c # xs"]) auto
qed auto

lemma parse_capabilities_complete:
  "list_all CAPABILITY xs \<Longrightarrow> distinct xs \<Longrightarrow> set xs \<inter> set seen = {} \<Longrightarrow>
    parse_capabilities (map JStr xs) seen = Inr (seen @ xs)"
  by (induction xs arbitrary: seen) auto

lemma parseRelay_wf: "parseRelay v = Inr r \<Longrightarrow> wf_relay r"
proof -
  assume r: "parseRelay v = Inr r"
  then have "parseEndpoint (js_prop v (js ''endpoint'')) = Inr (re_endpoint r)"
    unfolding parseRelay_def by (auto simp: rbind_eq_Inr split: if_splits)
  then have "parseEndpoint (JStr (re_endpoint r)) = Inr (re_endpoint r)" using parseEndpoint_iff by blast
  with r show ?thesis
    unfolding parseRelay_def wf_relay_def
    by (auto simp: rbind_eq_Inr parsePublicKey_length not_less dest!: parse_capabilities_sound split: if_splits)
qed

lemma rmap_wf: "rmap parseRelay vs = Inr rs \<Longrightarrow> list_all wf_relay rs \<and> length rs = length vs"
  unfolding rmap_eq_Inr by (induction rule: list_all2_induct) (auto dest: parseRelay_wf)

lemma parseDirectory_wf: "parseDirectory v allow = Inr d \<Longrightarrow> wf_directory d"
  unfolding parseDirectory_def wf_directory_def
  by (auto simp: rbind_eq_Inr assertUint_iff not_less dest: rmap_wf split: if_splits)

text \<open>The wire form parses back to the directory it was rebuilt from.\<close>

lemma parse_relay_wire: "wf_relay r \<Longrightarrow> parseRelay (relay_wire r) = Inr r"
  unfolding wf_relay_def parseRelay_def relay_wire_def
  by (simp add: is_object_def RELAY_FIELDS_def js_def parsePublicKey_def decode_encode64 PUBLIC_KEY_LENGTH_def
      parse_capabilities_complete require_string_def require_array_def)

lemma js_nat_eq [simp]: "js_nat n = JNum (js_int (int n))"
  by (simp add: js_nat_def)

lemma parse_wire:
  assumes "wf_directory d"
  shows "parseDirectory (with_prop (toWire d) (js ''signature'') (JStr s)) True = Inr d"
proof -
  have "rmap parseRelay (map relay_wire (di_relays d)) = Inr (di_relays d)"
    using assms unfolding rmap_eq_Inr wf_directory_def
    by (auto simp: list_all2_map1 list_all2_same list_all_iff parse_relay_wire)
  moreover have "assertUint (JNum (js_int (int n))) = Inr n" if "n \<le> di_expiresAt d" for n
    using that assms by (simp add: assertUint_iff wf_directory_def)
  ultimately show ?thesis
    using assms unfolding wf_directory_def parseDirectory_def toWire_def
    by (simp add: is_object_def DIRECTORY_FIELDS_def js_def require_array_def)
qed

lemma signature_wire: "js_prop (with_prop (toWire d) (js ''signature'') v) (js ''signature'') = v"
  by (simp add: toWire_def js_def)

section \<open>The signed bytes of a directory\<close>

definition relay_fields :: "parsed_relay \<Rightarrow> field list" where
  "relay_fields r = [Prefixed (textEncode (re_endpoint r)), Fixed (re_key r), Prefixed (textEncode (re_operator r)),
     U64 (length (re_capabilities r))] @ map (Prefixed \<circ> textEncode) (re_capabilities r) @ [Prefixed (textEncode (re_region r))]"

definition directory_fields :: "parsed_directory \<Rightarrow> field list" where
  "directory_fields d = [Prefixed (textEncode DIRECTORY_CONTEXT), U64 RELAY_DIRECTORY_VERSION, U64 (di_serial d), U64 (di_issuedAt d),
     U64 (di_expiresAt d), U64 (length (di_relays d))]"

definition directory_bytes :: "parsed_directory \<Rightarrow> bytes" where
  "directory_bytes d = enc_fields (directory_fields d) @ concat (map (\<lambda>r. enc_fields (relay_fields r)) (di_relays d))"

lemma w_strings: "w_finish (fold (\<lambda>cap w. w_string w cap) caps w) = w_finish w @ enc_fields (map (Prefixed \<circ> textEncode) caps)"
  by (induction caps arbitrary: w) (simp_all add: enc_fields_def)

lemma enc_fields_append: "enc_fields (fs @ gs) = enc_fields fs @ enc_fields gs"
  by (simp add: enc_fields_def)

lemma w_relay_ok: "wf_relay r \<Longrightarrow> \<exists>w'. w_relay w r = Inr w' \<and> w_finish w' = w_finish w @ enc_fields (relay_fields r)"
  by (simp add: w_relay_def w_fixed_def w_uint_def wf_relay_def PUBLIC_KEY_LENGTH_def assertUint_iff [of _ "length (re_capabilities r)", THEN iffD2]
      MAX_RELAY_CAPABILITIES_def MAX_SAFE_INTEGER_def w_strings relay_fields_def enc_fields_append)
     (simp add: enc_fields_def)

lemma w_relays_ok: "list_all wf_relay rs \<Longrightarrow>
    \<exists>w'. w_relays w rs = Inr w' \<and> w_finish w' = w_finish w @ concat (map (\<lambda>r. enc_fields (relay_fields r)) rs)"
proof (induction rs arbitrary: w)
  case (Cons r rs)
  then obtain w1 where "w_relay w r = Inr w1" "w_finish w1 = w_finish w @ enc_fields (relay_fields r)"
    using w_relay_ok by (metis list.pred_inject(2))
  with Cons.IH [of w1] Cons.prems show ?case by auto
qed simp

lemma encodeDirectory_eq:
  assumes "wf_directory d"
  shows "encodeDirectory d = (if length (directory_bytes d) > MAX_DIRECTORY_BYTES then Inl EncodingError else Inr (directory_bytes d))"
proof -
  have u: "w_uint w (JNum (js_int (int n))) = Inr (w @ [be_bytes 8 n])" if "int n \<le> MAX_SAFE_INTEGER" for w n
    using that by (simp add: w_uint_def assertUint_iff [of _ n, THEN iffD2])
  let ?w = "w_string [] DIRECTORY_CONTEXT @ [be_bytes 8 RELAY_DIRECTORY_VERSION] @ [be_bytes 8 (di_serial d)] @
    [be_bytes 8 (di_issuedAt d)] @ [be_bytes 8 (di_expiresAt d)] @ [be_bytes 8 (length (di_relays d))]"
  obtain w' where w': "w_relays ?w (di_relays d) = Inr w'"
    "w_finish w' = w_finish ?w @ concat (map (\<lambda>r. enc_fields (relay_fields r)) (di_relays d))"
    using w_relays_ok [of "di_relays d" ?w] assms by (auto simp: wf_directory_def)
  have "w_finish ?w = enc_fields (directory_fields d)"
    unfolding append_assoc [symmetric] w_finish_simps by (simp add: directory_fields_def enc_fields_def)
  with w' have "w_finish w' = directory_bytes d" by (simp add: directory_bytes_def)
  moreover have "int RELAY_DIRECTORY_VERSION \<le> MAX_SAFE_INTEGER" "int (di_serial d) \<le> MAX_SAFE_INTEGER" "int (di_issuedAt d) \<le> MAX_SAFE_INTEGER"
    "int (di_expiresAt d) \<le> MAX_SAFE_INTEGER" "int (length (di_relays d)) \<le> MAX_SAFE_INTEGER"
    using assms by (auto simp: wf_directory_def directory_limits MAX_SAFE_INTEGER_def)
  ultimately show ?thesis
    using w'(1) by (simp add: encodeDirectory_def u Let_def)
qed

lemma ascii_field: "ascii s \<Longrightarrow> length s \<le> 512 \<Longrightarrow> field_ok (Prefixed (textEncode s))"
  by (simp add: length_textEncode_ascii)

lemma ascii_capability: "CAPABILITY s \<Longrightarrow> ascii s \<and> length s \<le> 32"
  by (cases s) (auto simp: CAPABILITY_def ascii_def list_all_iff)

lemma ascii_region: "REGION s \<Longrightarrow> ascii s"
  by (auto simp: REGION_def ascii_def list_all_iff)

lemma ascii_operator: "s \<in> set OPERATORS \<Longrightarrow> ascii s \<and> length s \<le> 512"
  by (auto simp: OPERATORS_def ascii_def js_def)

lemma relay_fields_ok: "wf_relay r \<Longrightarrow> list_all field_ok (relay_fields r)"
proof -
  assume wf: "wf_relay r"
  have "length (re_endpoint r) \<le> 512"
    using wf by (auto simp: wf_relay_def parseEndpoint_def MAX_RELAY_ENDPOINT_LENGTH_def split: if_splits)
  then have "length (textEncode (re_endpoint r)) < 2 ^ 32" using length_textEncode [of "re_endpoint r"] by simp
  moreover have "list_all (\<lambda>x. field_ok (Prefixed (textEncode x))) (re_capabilities r)"
    using wf ascii_capability ascii_field by (fastforce simp: wf_relay_def list_all_iff simp del: field_ok.simps)
  moreover have "field_ok (Prefixed (textEncode (re_region r)))" "field_ok (Prefixed (textEncode (re_operator r)))"
    using wf ascii_region ascii_operator ascii_field
    by (auto simp: wf_relay_def MAX_RELAY_REGION_LENGTH_def simp del: field_ok.simps)
  ultimately show ?thesis
    using wf by (simp add: relay_fields_def wf_relay_def MAX_RELAY_CAPABILITIES_def list_all_iff)
qed

lemma map_textEncode_inj:
  "list_all CAPABILITY xs \<Longrightarrow> list_all CAPABILITY ys \<Longrightarrow> map textEncode xs = map textEncode ys \<Longrightarrow> xs = ys"
proof (induction xs arbitrary: ys)
  case (Cons x xs)
  then obtain y ys' where "ys = y # ys'" by (cases ys) auto
  with Cons ascii_capability textEncode_ascii_inj show ?case by auto
qed simp

text \<open>The encoding of a relay entry can be told apart from what follows it.\<close>

interpretation relay_entry: field_code "\<lambda>r. wf_relay r \<and> well_formed16 (re_endpoint r)" "\<lambda>r. enc_fields (relay_fields r)"
proof
  fix a b x y
  assume a: "wf_relay a \<and> well_formed16 (re_endpoint a)" and b: "wf_relay b \<and> well_formed16 (re_endpoint b)"
    and eq: "enc_fields (relay_fields a) @ x = enc_fields (relay_fields b) @ y"
  let ?h = "\<lambda>r. [Prefixed (textEncode (re_endpoint r)), Fixed (re_key r), Prefixed (textEncode (re_operator r)), U64 (length (re_capabilities r))]"
  let ?t = "\<lambda>r. map (Prefixed \<circ> textEncode) (re_capabilities r) @ [Prefixed (textEncode (re_region r))]"
  have f: "relay_fields r = ?h r @ ?t r" for r by (simp add: relay_fields_def)
  have ok: "list_all field_ok (?h a)" "list_all field_ok (?h b)" "list_all field_ok (?t a)" "list_all field_ok (?t b)"
    using relay_fields_ok a b unfolding f list_all_append by blast+
  have kh: "list_all2 same_kind (?h a) (?h b)" using a b by (simp add: wf_relay_def)
  have "enc_fields (?h a) @ (enc_fields (?t a) @ x) = enc_fields (?h b) @ (enc_fields (?t b) @ y)"
    using eq unfolding f enc_fields_append append_assoc .
  from enc_fields_prefix [OF kh ok(1,2) this]
  have h: "?h a = ?h b" and rest: "enc_fields (?t a) @ x = enc_fields (?t b) @ y" by blast+
  have len: "length (re_capabilities a) = length (re_capabilities b)" using h by simp
  have "list_all2 same_kind (?t a) (?t b)"
    using len by (simp add: list_all2_conv_all_nth nth_append)
  from enc_fields_prefix [OF this ok(3,4) rest] have tl: "?t a = ?t b" and xy: "x = y" by blast+
  have "map Prefixed (map textEncode (re_capabilities a)) = map Prefixed (map textEncode (re_capabilities b))"
    using tl by simp
  then have "map textEncode (re_capabilities a) = map textEncode (re_capabilities b)"
    by (metis field.inject(2) injI inj_map_eq_map)
  then have "re_capabilities a = re_capabilities b" using map_textEncode_inj a b by (auto simp: wf_relay_def)
  moreover have "re_region a = re_region b" using tl a b ascii_region textEncode_ascii_inj by (auto simp: wf_relay_def)
  moreover have "re_operator a = re_operator b" using h a b ascii_operator textEncode_ascii_inj by (auto simp: wf_relay_def)
  moreover have "re_endpoint a = re_endpoint b" using h a b textEncode_inj by auto
  ultimately show "a = b \<and> x = y" using h xy by simp
qed

lemma relays_inj:
  "\<lbrakk>length rs = length ss; list_all (\<lambda>r. wf_relay r \<and> well_formed16 (re_endpoint r)) rs;
    list_all (\<lambda>r. wf_relay r \<and> well_formed16 (re_endpoint r)) ss;
    concat (map (\<lambda>r. enc_fields (relay_fields r)) rs) = concat (map (\<lambda>r. enc_fields (relay_fields r)) ss)\<rbrakk> \<Longrightarrow> rs = ss"
proof (induction rs ss rule: list_induct2)
  case (Cons r rs s ss)
  then have "r = s \<and> concat (map (\<lambda>r. enc_fields (relay_fields r)) rs) = concat (map (\<lambda>r. enc_fields (relay_fields r)) ss)"
    by (intro relay_entry.field_prefix) auto
  with Cons show ?case by simp
qed simp

section \<open>Properties\<close>

lemma parse_signed_directory_wf: "parse_signed_directory v = Inr (p, s) \<Longrightarrow> wf_directory p \<and> length s = 64"
  by (auto simp: parse_signed_directory_def rbind_eq_Inr SIGNATURE_LENGTH_def decode64_iff dest: parseDirectory_wf)

lemma parse_signed_wire:
  "wf_directory p \<Longrightarrow> length s = 64 \<Longrightarrow>
    parse_signed_directory (with_prop (toWire p) (js ''signature'') (JStr (encodeBase64 s))) = Inr (p, s)"
  by (simp add: parse_signed_directory_def parse_wire signature_wire decode_encode64 SIGNATURE_LENGTH_def)

text \<open>
  C33. What a client believes of a directory. At any time \<open>n\<close>, an accepted directory was signed over its canonical bytes by a pinned key, is inside
  its validity window, lists at most 256 relays with distinct endpoints, and is not older than the
  highest serial seen; its own serial is at most \<open>n + 600\<close>, so no signature can push that mark
  out of reach of the real clock. The document it hands out for caching verifies to the same result.
\<close>

theorem verified_directory_sound:
  assumes "verifyRelayDirectory verify v opts = Directory_ok d" and "do_now opts = js_int n"
  shows "(\<exists>p s bs. parse_signed_directory v = Inr (p, s) \<and> encodeDirectory p = Inr bs \<and> di_relays p = vd_relays d \<and>
      vd_signedBy d \<in> set (do_trustedKeys opts) \<and> length (vd_signedBy d) = 32 \<and> verify bs s (vd_signedBy d)) \<and>
    int (vd_issuedAt d) \<le> n + 600 \<and> n < int (vd_expiresAt d) \<and> int (vd_serial d) \<le> n + 600 \<and>
    (\<forall>m. do_minSerial opts = Some (js_int m) \<longrightarrow> m \<le> int (vd_serial d)) \<and>
    length (vd_relays d) \<le> 256 \<and> distinct (map re_endpoint (vd_relays d)) \<and>
    verifyRelayDirectory verify (vd_document d) opts = Directory_ok d"
proof -
  obtain p s bs key where ok: "parse_signed_directory v = Inr (p, s)" "encodeDirectory p = Inr bs"
    "find (\<lambda>key. length key = PUBLIC_KEY_LENGTH \<and> verify bs s key) (do_trustedKeys opts) = Some key"
    "\<not> js_less (js_plus (js_int n) MAX_DIRECTORY_CLOCK_SKEW_SECONDS) (js_int (int (di_issuedAt p)))"
    "\<not> js_leq (js_int (int (di_expiresAt p))) (js_int n)"
    "\<not> (case do_minSerial opts of None \<Rightarrow> False | Some m \<Rightarrow> js_less (js_int (int (di_serial p))) m)"
    "d = \<lparr>vd_serial = di_serial p, vd_issuedAt = di_issuedAt p, vd_expiresAt = di_expiresAt p, vd_relays = di_relays p,
       vd_signedBy = key, vd_document = with_prop (toWire p) (js ''signature'') (JStr (encodeBase64 s))\<rparr>"
    using assms unfolding verifyRelayDirectory_def by (auto split: sum.splits prod.splits option.splits if_splits)
  note wf = parse_signed_directory_wf [OF ok(1)]
  have key: "key \<in> set (do_trustedKeys opts)" "length key = 32" "verify bs s key"
    using ok(3) by (auto simp: find_Some_iff PUBLIC_KEY_LENGTH_def)
  have plus: "js_plus (js_int n) k = js_int (n + k)" for k by (simp add: js_int_def)
  have times: "int (di_issuedAt p) \<le> n + 600" "n < int (di_expiresAt p)"
    using ok(4,5) by (auto simp: plus js_leq_def MAX_DIRECTORY_CLOCK_SKEW_SECONDS_def js_int_def)
  have "verifyRelayDirectory verify (vd_document d) opts = Directory_ok d"
    using parse_signed_wire [of p s] wf ok assms(2) by (simp add: verifyRelayDirectory_def)
  with key ok(1,2) times wf show ?thesis
    using ok(6) unfolding ok(7) by (auto simp: wf_directory_def MAX_DIRECTORY_RELAYS_def not_less)
qed

text \<open>
  The signed bytes determine the directory: its times, its serial, and every relay entry with its order, keys
  and capability lists, although the entries have no terminators of their own.
\<close>

theorem directory_bytes_determine:
  assumes "parseDirectory v a = Inr d" and "parseDirectory v' a' = Inr d'" and "encodeDirectory d = Inr bs" and "encodeDirectory d' = Inr bs"
    and "list_all (well_formed16 \<circ> re_endpoint) (di_relays d)" and "list_all (well_formed16 \<circ> re_endpoint) (di_relays d')"
  shows "d = d'"
proof -
  have wf: "wf_directory d" "wf_directory d'" using assms(1,2) parseDirectory_wf by auto
  have eq: "directory_bytes d = directory_bytes d'"
    using assms(3,4) encodeDirectory_eq [OF wf(1)] encodeDirectory_eq [OF wf(2)] by (auto split: if_splits)
  have ok: "list_all field_ok (directory_fields e)" if "wf_directory e" for e
    using that by (auto simp: directory_fields_def wf_directory_def directory_limits MAX_SAFE_INTEGER_def DIRECTORY_CONTEXT_def
        textEncode_ascii ascii_def js_def)
  have "list_all2 same_kind (directory_fields d) (directory_fields d')" by (simp add: directory_fields_def)
  from enc_fields_prefix [OF this ok [OF wf(1)] ok [OF wf(2)]] eq
  have head: "directory_fields d = directory_fields d'"
    and rest: "concat (map (\<lambda>r. enc_fields (relay_fields r)) (di_relays d)) = concat (map (\<lambda>r. enc_fields (relay_fields r)) (di_relays d'))"
    unfolding directory_bytes_def by blast+
  have "di_relays d = di_relays d'"
    using rest head wf assms(5,6) by (intro relays_inj) (auto simp: directory_fields_def wf_directory_def list_all_iff)
  with head show ?thesis by (simp add: directory_fields_def)
qed

lemma secret_signs:
  assumes "ed_correct sign verify" "assertSecretMatches sk key = Inr u"
  shows "length (sign m sk) = 64" "verify m (sign m sk) key"
proof -
  have "length sk = 64" "drop 32 sk = key"
    using assms(2) by (auto simp: assertSecretMatches_def SECRET_KEY_LENGTH_def split: if_splits)
  with assms(1) show "length (sign m sk) = 64" "verify m (sign m sk) key" unfolding ed_correct_def by metis+
qed

text \<open>
  The four kinds of statement sign and verify. With correct Ed25519: a signed directory is accepted while it is current by every
  verifier that pins the signer, and a relay's identity proof, its registry proof and a node's
  binding verify for the statement they were made for.
\<close>

theorem relay_statements_round_trip:
  assumes "ed_correct sign verify"
  shows "(signRelayDirectory sign v sk = Inr doc \<and> drop 32 sk \<in> set keys \<and> parseDirectory v False = Inr p \<and>
      int (di_issuedAt p) \<le> n \<and> n < int (di_expiresAt p) \<longrightarrow>
      (\<exists>d. verifyRelayDirectory verify doc \<lparr>do_trustedKeys = keys, do_now = js_int n, do_minSerial = None\<rparr> = Directory_ok d \<and>
        vd_relays d = di_relays p)) \<and>
    (signRelayIdentity sign st sk = Inr sg \<longrightarrow> verifyRelayIdentity verify st sg) \<and>
    (signRelayRegistryProof sign rp sk = Inr sr \<longrightarrow> verifyRelayRegistryProof verify rp sr)"
proof (intro conjI impI)
  assume a: "signRelayDirectory sign v sk = Inr doc \<and> drop 32 sk \<in> set keys \<and> parseDirectory v False = Inr p \<and>
      int (di_issuedAt p) \<le> n \<and> n < int (di_expiresAt p)"
  then obtain bs where bs: "encodeDirectory p = Inr bs" "length sk = 64"
    "doc = with_prop (toWire p) (js ''signature'') (JStr (encodeBase64 (sign bs sk)))"
    by (auto simp: signRelayDirectory_def rbind_eq_Inr SECRET_KEY_LENGTH_def split: if_splits)
  have wf: "wf_directory p" using a parseDirectory_wf by blast
  have sg: "length (sign bs sk) = 64" "verify bs (sign bs sk) (drop 32 sk)" using assms bs(2) unfolding ed_correct_def by metis+
  have "length (drop 32 sk) = PUBLIC_KEY_LENGTH" using bs(2) by (simp add: PUBLIC_KEY_LENGTH_def)
  with a sg have "find (\<lambda>key. length key = PUBLIC_KEY_LENGTH \<and> verify bs (sign bs sk) key) keys \<noteq> None"
    unfolding find_None_iff by blast
  then obtain key where key: "find (\<lambda>key. length key = PUBLIC_KEY_LENGTH \<and> verify bs (sign bs sk) key) keys = Some key"
    by blast
  have "\<not> js_less (js_plus (js_int n) MAX_DIRECTORY_CLOCK_SKEW_SECONDS) (js_int (int (di_issuedAt p)))"
    "\<not> js_leq (js_int (int (di_expiresAt p))) (js_int n)"
    using a by (simp_all add: js_int_def js_leq_def MAX_DIRECTORY_CLOCK_SKEW_SECONDS_def)
  then show "\<exists>d. verifyRelayDirectory verify doc \<lparr>do_trustedKeys = keys, do_now = js_int n, do_minSerial = None\<rparr> = Directory_ok d \<and>
      vd_relays d = di_relays p"
    using key bs parse_signed_wire [OF wf sg(1)] by (simp add: verifyRelayDirectory_def)
next
  assume "signRelayIdentity sign st sk = Inr sg"
  then obtain bs k where "encodeIdentity st = Inr bs" "parsePublicKey (ri_relayKey st) = Inr k" "assertSecretMatches sk k = Inr ()"
    "sg = sign bs sk" by (auto simp: signRelayIdentity_def rbind_eq_Inr)
  with secret_signs [OF assms] show "verifyRelayIdentity verify st sg"
    by (simp add: verifyRelayIdentity_def SIGNATURE_LENGTH_def)
next
  assume "signRelayRegistryProof sign rp sk = Inr sr"
  then obtain bs k where "encodeRegistryProof rp = Inr bs" "parsePublicKey (rp_relayKey rp) = Inr k" "assertSecretMatches sk k = Inr ()"
    "sr = encodeBase64 (sign bs sk)" by (auto simp: signRelayRegistryProof_def rbind_eq_Inr)
  with secret_signs [OF assms] show "verifyRelayRegistryProof verify rp sr"
    by (simp add: verifyRelayRegistryProof_def SIGNATURE_LENGTH_def decode_encode64)
qed

lemma parse_binding_fields:
  assumes "parse_binding name v = Inr (e, k, t, bs, s)"
  shows "valid_name name" "parseEndpoint (JStr e) = Inr e" "length k = 32" "int t \<le> MAX_SAFE_INTEGER" "length s = 64"
    "bs = enc_fields [Prefixed (textEncode BINDING_CONTEXT), Prefixed (textEncode name), Prefixed (textEncode e), Fixed k, U64 t]"
    "list_all field_ok [Prefixed (textEncode BINDING_CONTEXT), Prefixed (textEncode name), Prefixed (textEncode e), Fixed k, U64 t]"
proof -
  have e: "encodeBinding name (js_prop v (js ''endpoint'')) (Inr k) (js_prop v (js ''issuedAt'')) = Inr bs"
    "parseEndpoint (js_prop v (js ''endpoint'')) = Inr e" "assertUint (js_prop v (js ''issuedAt'')) = Inr t" "length s = 64" "length k = 32"
    using assms by (auto simp: parse_binding_def rbind_eq_Inr decode64_iff decode_encode64 SIGNATURE_LENGTH_def PUBLIC_KEY_LENGTH_def Let_def split: if_splits)
  show n: "valid_name name" using e(1) by (auto simp: encodeBinding_def isValidScope_iff split: if_splits)
  show p: "parseEndpoint (JStr e) = Inr e" using e(2) parseEndpoint_iff by blast
  show "length k = 32" "length s = 64" by (fact e)+
  show t: "int t \<le> MAX_SAFE_INTEGER" using e(3) by (simp add: assertUint_iff)
  show "bs = enc_fields [Prefixed (textEncode BINDING_CONTEXT), Prefixed (textEncode name), Prefixed (textEncode e), Fixed k, U64 t]"
    using e by (auto simp: encodeBinding_def rbind_eq_Inr w_fixed_def w_uint_def PUBLIC_KEY_LENGTH_def enc_fields_def split: if_splits)
  have "length e \<le> 512" using p by (auto simp: parseEndpoint_def MAX_RELAY_ENDPOINT_LENGTH_def split: if_splits)
  then show "list_all field_ok [Prefixed (textEncode BINDING_CONTEXT), Prefixed (textEncode name), Prefixed (textEncode e), Fixed k, U64 t]"
    using n t length_textEncode [of e] length_textEncode [of name]
    by (simp add: valid_name_def MAX_NAME_LENGTH_def BINDING_CONTEXT_def js_def textEncode_ascii ascii_def MAX_SAFE_INTEGER_def)
qed

text \<open>
  C35. A binding says which relay, for which name, from which node. An accepted binding was signed by the verified
  node key over the bytes of exactly this name, endpoint, relay key and time, at most an hour ago and
  not from more than ten minutes ahead; and two accepted bindings signed over the same bytes agree
  in all of it.
\<close>

theorem binding_sound:
  assumes "verifyServiceRelayBinding verify name v nodeKey (js_int n) = Binding_ok e k t"
  shows "(\<exists>bs s. parse_binding name v = Inr (e, k, t, bs, s) \<and> verify bs s nodeKey \<and>
      (\<forall>name' v' e' k' t' s'. parse_binding name' v' = Inr (e', k', t', bs, s') \<and> well_formed16 e \<and> well_formed16 e' \<longrightarrow>
        name' = name \<and> e' = e \<and> k' = k \<and> t' = t)) \<and>
    int t \<le> n + 600 \<and> n - int t \<le> 3600"
proof -
  obtain bs s where b: "parse_binding name v = Inr (e, k, t, bs, s)" "verify bs s nodeKey"
    "\<not> js_less (js_plus (js_int n) MAX_DIRECTORY_CLOCK_SKEW_SECONDS) (js_int (int t))"
    "\<not> js_less (js_int MAX_RELAY_BINDING_AGE_SECONDS) (js_plus (js_int n) (- int t))"
    using assms unfolding verifyServiceRelayBinding_def by (auto split: sum.splits prod.splits if_splits)
  have plus: "js_plus (js_int n) k = js_int (n + k)" for k by (simp add: js_int_def)
  have "name' = name \<and> e' = e \<and> k' = k \<and> t' = t"
    if b': "parse_binding name' v' = Inr (e', k', t', bs, s')" and wf: "well_formed16 e" "well_formed16 e'" for name' v' e' k' t' s'
  proof -
    note f = parse_binding_fields [OF b(1)] and f' = parse_binding_fields [OF b']
    have "list_all2 same_kind [Prefixed (textEncode BINDING_CONTEXT), Prefixed (textEncode name), Prefixed (textEncode e), Fixed k, U64 t]
       [Prefixed (textEncode BINDING_CONTEXT), Prefixed (textEncode name'), Prefixed (textEncode e'), Fixed k', U64 t']"
      using f(3) f'(3) by simp
    from enc_fields_inj [OF this f(7) f'(7)] f(6) f'(6)
    have "textEncode name = textEncode name'" "textEncode e = textEncode e'" "k = k'" "t = t'" by simp_all
    then show ?thesis
      using f(1) f'(1) wf valid_name_ascii textEncode_ascii_inj textEncode_inj by metis
  qed
  then have "\<forall>name' v' e' k' t' s'. parse_binding name' v' = Inr (e', k', t', bs, s') \<and> well_formed16 e \<and> well_formed16 e' \<longrightarrow>
      name' = name \<and> e' = e \<and> k' = k \<and> t' = t" by blast
  moreover have "int t \<le> n + 600" "n - int t \<le> 3600"
    using b(3,4) by (simp_all add: plus MAX_DIRECTORY_CLOCK_SKEW_SECONDS_def MAX_RELAY_BINDING_AGE_SECONDS_def)
  ultimately show ?thesis using b(1,2) by blast
qed

text \<open>Witnesses.\<close>

definition sample_relay :: parsed_relay where
  "sample_relay = \<lparr>re_endpoint = js ''wss://r'', re_key = replicate 32 1, re_operator = js ''oxy'', re_capabilities = [js ''tunnel''],
     re_region = []\<rparr>"

definition sample_directory :: parsed_directory where
  "sample_directory = \<lparr>di_serial = 5, di_issuedAt = 10, di_expiresAt = 100, di_relays = [sample_relay]\<rparr>"

definition sample_directory_options :: directory_options where
  "sample_directory_options = \<lparr>do_trustedKeys = [replicate 32 1], do_now = js_int 15, do_minSerial = Some (js_int 4)\<rparr>"

definition sample_document :: jsval where
  "sample_document = with_prop (toWire sample_directory) (js ''signature'') (JStr (encodeBase64 (replicate 64 7)))"

lemma sample_wf_directory: "wf_directory sample_directory"
  by (simp add: wf_directory_def sample_directory_def sample_relay_def wf_relay_def directory_limits MAX_SAFE_INTEGER_def parseEndpoint_def
      js_def startsWith_def OPERATORS_def CAPABILITY_def REGION_def del: replicate.simps)

lemma sample_directory_encodes: "\<exists>bs. encodeDirectory sample_directory = Inr bs"
proof -
  have "length (directory_bytes sample_directory) \<le> MAX_DIRECTORY_BYTES"
    by (simp add: directory_bytes_def directory_fields_def sample_directory_def sample_relay_def relay_fields_def enc_fields_def
        length_textEncode_ascii ascii_def js_def DIRECTORY_CONTEXT_def MAX_DIRECTORY_BYTES_def del: replicate.simps be_bytes.simps)
  then show ?thesis using encodeDirectory_eq [OF sample_wf_directory] by simp
qed

lemma sample_document_parses: "parse_signed_directory sample_document = Inr (sample_directory, replicate 64 7)"
  using parse_signed_wire [OF sample_wf_directory, of "replicate 64 7"] by (simp add: sample_document_def del: replicate.simps)

lemma sample_directory_verifies: "\<exists>d. verifyRelayDirectory sample_verify sample_document sample_directory_options = Directory_ok d"
  using sample_directory_encodes sample_document_parses
  by (auto simp: verifyRelayDirectory_def sample_directory_options_def PUBLIC_KEY_LENGTH_def js_leq_def js_int_def
      sample_directory_def MAX_DIRECTORY_CLOCK_SKEW_SECONDS_def simp del: replicate.simps)

theorem verified_directory_sound_witness:
  "\<exists>d. verifyRelayDirectory sample_verify sample_document sample_directory_options = Directory_ok d \<and> int (vd_serial d) \<le> 15 + 600 \<and>
     verifyRelayDirectory sample_verify (vd_document d) sample_directory_options = Directory_ok d"
proof -
  obtain d where d: "verifyRelayDirectory sample_verify sample_document sample_directory_options = Directory_ok d"
    using sample_directory_verifies by blast
  have "do_now sample_directory_options = js_int 15" by (simp add: sample_directory_options_def)
  from verified_directory_sound [OF d this] d show ?thesis by blast
qed

lemma sample_directory_parses: "parseDirectory sample_document True = Inr sample_directory"
  using sample_document_parses by (auto simp: parse_signed_directory_def rbind_eq_Inr)

theorem directory_bytes_determine_witness:
  "\<exists>bs. encodeDirectory sample_directory = Inr bs \<and> (\<forall>v d. parseDirectory v True = Inr d \<and> encodeDirectory d = Inr bs \<and>
     list_all (well_formed16 \<circ> re_endpoint) (di_relays d) \<longrightarrow> d = sample_directory)"
proof -
  obtain bs where bs: "encodeDirectory sample_directory = Inr bs" using sample_directory_encodes by blast
  have "list_all (well_formed16 \<circ> re_endpoint) (di_relays sample_directory)"
    by (simp add: sample_directory_def sample_relay_def js_def is_high_def is_low_def)
  with bs directory_bytes_determine [OF _ sample_directory_parses _ bs] show ?thesis by blast
qed

definition sample_identity :: relay_identity_statement where
  "sample_identity = \<lparr>ri_endpoint = js ''wss://r'', ri_nonce = replicate 32 5, ri_relayKey = KeyBytes (replicate 32 1)\<rparr>"

theorem relay_statements_round_trip_witness:
  "\<exists>sg. signRelayIdentity sample_sign sample_identity (replicate 64 1) = Inr sg \<and> verifyRelayIdentity sample_verify sample_identity sg"
proof -
  have "\<exists>sg. signRelayIdentity sample_sign sample_identity (replicate 64 1) = Inr sg"
    by (simp add: signRelayIdentity_def encodeIdentity_def sample_identity_def parseEndpoint_def js_def startsWith_def directory_limits
        w_fixed_def parsePublicKey_def PUBLIC_KEY_LENGTH_def assertSecretMatches_def SECRET_KEY_LENGTH_def del: replicate.simps)
  with relay_statements_round_trip [OF sample_correct] show ?thesis by blast
qed

definition sample_binding :: jsval where
  "sample_binding = JObj [(js ''endpoint'', JStr (js ''wss://r'')), (js ''relayKey'', JStr (encodeBase64 (replicate 32 1))),
     (js ''issuedAt'', JNum (js_int 10)), (js ''signature'', JStr (encodeBase64 (replicate 64 7)))]"

theorem binding_sound_witness:
  "\<exists>e k t. verifyServiceRelayBinding sample_verify (js ''a.ox'') sample_binding (replicate 32 1) (js_int 15) = Binding_ok e k t \<and> int t \<le> 15 + 600"
proof -
  have "assertUint (JNum (js_int 10)) = Inr 10" using assertUint_iff [of "JNum (js_int 10)" 10] by (simp add: MAX_SAFE_INTEGER_def)
  then have "\<exists>bs. parse_binding (js ''a.ox'') sample_binding = Inr (js ''wss://r'', replicate 32 1, 10, bs, replicate 64 7)"
    using sample_name
    by (simp add: parse_binding_def sample_binding_def is_object_def BINDING_FIELDS_def js_def decode_encode64 PUBLIC_KEY_LENGTH_def SIGNATURE_LENGTH_def
        encodeBinding_def parseEndpoint_def startsWith_def directory_limits w_fixed_def w_uint_def Let_def del: replicate.simps)
  then obtain e k t where r: "verifyServiceRelayBinding sample_verify (js ''a.ox'') sample_binding (replicate 32 1) (js_int 15) = Binding_ok e k t"
    by (auto simp: verifyServiceRelayBinding_def js_int_def directory_limits simp del: replicate.simps)
  from binding_sound [OF r] r show ?thesis by blast
qed

end
