(* ===== verification/Relay_Limits.thy ===== *)
theory Relay_Limits
  imports Wire_Constants
begin

text \<open>
  \<^verbatim>\<open>packages/relay-core/src/limits.ts\<close>: the bounds of a relay, token buckets and the per-address tracker.
  Times are milliseconds as integers. Token counts are rational numbers where the code has
  doubles: rounding is not modelled.
\<close>

record relay_limits =
  maxConnections :: nat
  maxConnectionsPerIp :: nat
  connectBurstPerIp :: rat
  connectRefillPerSecondPerIp :: rat
  maxCircuitsPerClient :: nat
  maxPendingPerClient :: int
  maxCircuitsPerService :: nat
  maxCircuitsPerClientPerService :: int
  maxCircuitsPerIpPerService :: int
  circuitIdleMs :: int
  globalBufferLimit :: nat
  authBurstPerIp :: rat
  authRefillPerSecondPerIp :: rat
  lookupNegativeTtlMs :: int
  lookupCacheMax :: nat
  maxCircuits :: int
  maxServiceNodes :: nat
  createBurstPerIp :: rat
  createRefillPerSecondPerIp :: rat
  clientBufferLimit :: nat
  serviceBufferLimit :: nat
  handshakeTimeoutMs :: int
  createTimeoutMs :: int
  maxViolations :: nat
  maxTrackedIps :: nat
  reauthIntervalMs :: int

definition SLACK :: nat where "SLACK = 1024 * 1024"

definition DEFAULT_LIMITS :: relay_limits where
  "DEFAULT_LIMITS = \<lparr>maxConnections = 4096, maxConnectionsPerIp = 32, connectBurstPerIp = 30, connectRefillPerSecondPerIp = 1,
     maxCircuitsPerClient = MAX_CIRCUITS_PER_CONNECTION, maxPendingPerClient = int MAX_PENDING_OPENS, maxCircuitsPerService = 256,
     maxCircuitsPerClientPerService = 16, maxCircuitsPerIpPerService = 16, circuitIdleMs = 15 * 60000,
     globalBufferLimit = 512 * 1024 * 1024, authBurstPerIp = 10, authRefillPerSecondPerIp = 2 / 10, lookupNegativeTtlMs = 30000,
     lookupCacheMax = 4096, maxCircuits = 32768, maxServiceNodes = 4096, createBurstPerIp = 128, createRefillPerSecondPerIp = 32,
     clientBufferLimit = MAX_CIRCUITS_PER_CONNECTION * nat STREAM_WINDOW_INITIAL + SLACK,
     serviceBufferLimit = 256 * nat STREAM_WINDOW_INITIAL + SLACK, handshakeTimeoutMs = HANDSHAKE_TIMEOUT_MS,
     createTimeoutMs = HANDSHAKE_TIMEOUT_MS, maxViolations = 64, maxTrackedIps = 65536, reauthIntervalMs = 10 * 60000\<rparr>"

section \<open>TokenBucket\<close>

record token_bucket =
  tb_capacity :: rat
  tb_refillPerSecond :: rat
  tb_tokens :: rat
  tb_last :: int

definition TokenBucket :: "rat \<Rightarrow> rat \<Rightarrow> int \<Rightarrow> token_bucket" where
  "TokenBucket capacity refillPerSecond now =
     \<lparr>tb_capacity = capacity, tb_refillPerSecond = refillPerSecond, tb_tokens = capacity, tb_last = now\<rparr>"

definition tb_refill :: "int \<Rightarrow> token_bucket \<Rightarrow> token_bucket" where
  "tb_refill now b = (let elapsed = of_int (max 0 (now - tb_last b)) / 1000 in
     b\<lparr>tb_last := now, tb_tokens := min (tb_capacity b) (tb_tokens b + elapsed * tb_refillPerSecond b)\<rparr>)"

definition tb_take :: "int \<Rightarrow> token_bucket \<Rightarrow> bool \<times> token_bucket" where
  "tb_take now b = (let b' = tb_refill now b in
     if tb_tokens b' < 1 then (False, b') else (True, b'\<lparr>tb_tokens := tb_tokens b' - 1\<rparr>))"

definition tb_full :: "int \<Rightarrow> token_bucket \<Rightarrow> bool \<times> token_bucket" where
  "tb_full now b = (let b' = tb_refill now b in (tb_tokens b' \<ge> tb_capacity b', b'))"

section \<open>IpTracker\<close>

record ip_entry =
  ie_connections :: nat
  ie_connect :: token_bucket
  ie_create :: token_bucket
  ie_auth :: token_bucket

type_synonym ip_tracker = "(jsstring \<times> ip_entry) list"

datatype admit_verdict = Admit_ok | Admit_rate | Admit_per_ip | Admit_table_full

definition fresh_entry :: "relay_limits \<Rightarrow> int \<Rightarrow> ip_entry" where
  "fresh_entry l now = \<lparr>ie_connections = 0,
     ie_connect = TokenBucket (connectBurstPerIp l) (connectRefillPerSecondPerIp l) now,
     ie_create = TokenBucket (createBurstPerIp l) (createRefillPerSecondPerIp l) now,
     ie_auth = TokenBucket (authBurstPerIp l) (authRefillPerSecondPerIp l) now\<rparr>"

text \<open>The sweep's test of one entry: whether to drop it, and the entry with the buckets the test refilled.\<close>

definition sweep_entry :: "int \<Rightarrow> ip_entry \<Rightarrow> bool \<times> ip_entry" where
  "sweep_entry now e =
     (if ie_connections e \<noteq> 0 then (False, e)
      else let (f1, b1) = tb_full now (ie_connect e); e1 = e\<lparr>ie_connect := b1\<rparr> in
        if \<not> f1 then (False, e1)
        else let (f2, b2) = tb_full now (ie_create e1); e2 = e1\<lparr>ie_create := b2\<rparr> in
          if \<not> f2 then (False, e2)
          else let (f3, b3) = tb_full now (ie_auth e2) in (f3, e2\<lparr>ie_auth := b3\<rparr>))"

fun ip_sweep :: "int \<Rightarrow> ip_tracker \<Rightarrow> ip_tracker" where
  "ip_sweep now [] = []"
| "ip_sweep now ((ip, e) # es) = (case sweep_entry now e of
     (True, _) \<Rightarrow> ip_sweep now es
   | (False, e') \<Rightarrow> (ip, e') # ip_sweep now es)"

definition admit_entry :: "relay_limits \<Rightarrow> int \<Rightarrow> ip_entry \<Rightarrow> admit_verdict \<times> ip_entry" where
  "admit_entry l now e =
     (if ie_connections e \<ge> maxConnectionsPerIp l then (Admit_per_ip, e)
      else case tb_take now (ie_connect e) of
        (False, b) \<Rightarrow> (Admit_rate, e\<lparr>ie_connect := b\<rparr>)
      | (True, b) \<Rightarrow> (Admit_ok, e\<lparr>ie_connect := b, ie_connections := ie_connections e + 1\<rparr>))"

definition ip_admit :: "relay_limits \<Rightarrow> jsstring \<Rightarrow> int \<Rightarrow> ip_tracker \<Rightarrow> admit_verdict \<times> ip_tracker" where
  "ip_admit l ip now t = (case map_of t ip of
     Some e \<Rightarrow> (case admit_entry l now e of (v, e') \<Rightarrow> (v, AList.update ip e' t))
   | None \<Rightarrow>
       let t' = (if length t \<ge> maxTrackedIps l then ip_sweep now t else t) in
       if length t' \<ge> maxTrackedIps l then (Admit_table_full, t')
       else (case admit_entry l now (fresh_entry l now) of (v, e') \<Rightarrow> (v, AList.update ip e' t')))"

definition ip_release :: "jsstring \<Rightarrow> ip_tracker \<Rightarrow> ip_tracker" where
  "ip_release ip t = (case map_of t ip of
     None \<Rightarrow> t
   | Some e \<Rightarrow> if ie_connections e > 0 then AList.update ip (e\<lparr>ie_connections := ie_connections e - 1\<rparr>) t else t)"

definition allowCreate :: "jsstring \<Rightarrow> int \<Rightarrow> ip_tracker \<Rightarrow> bool \<times> ip_tracker" where
  "allowCreate ip now t = (case map_of t ip of
     None \<Rightarrow> (False, t)
   | Some e \<Rightarrow> (case tb_take now (ie_create e) of (ok, b) \<Rightarrow> (ok, AList.update ip (e\<lparr>ie_create := b\<rparr>) t)))"

definition allowAuth :: "jsstring \<Rightarrow> int \<Rightarrow> ip_tracker \<Rightarrow> bool \<times> ip_tracker" where
  "allowAuth ip now t = (case map_of t ip of
     None \<Rightarrow> (False, t)
   | Some e \<Rightarrow> (case tb_take now (ie_auth e) of (ok, b) \<Rightarrow> (ok, AList.update ip (e\<lparr>ie_auth := b\<rparr>) t)))"

section \<open>Buckets\<close>

definition wf_bucket :: "token_bucket \<Rightarrow> bool" where
  "wf_bucket b \<longleftrightarrow> 0 \<le> tb_tokens b \<and> tb_tokens b \<le> tb_capacity b \<and> 0 \<le> tb_refillPerSecond b"

lemma wf_TokenBucket: "0 \<le> c \<Longrightarrow> 0 \<le> r \<Longrightarrow> wf_bucket (TokenBucket c r now)"
  by (simp add: wf_bucket_def TokenBucket_def)

lemma refill_fields [simp]: "tb_capacity (tb_refill now b) = tb_capacity b" "tb_refillPerSecond (tb_refill now b) = tb_refillPerSecond b"
  "tb_last (tb_refill now b) = now"
  by (simp_all add: tb_refill_def Let_def)

lemma wf_refill: "wf_bucket b \<Longrightarrow> wf_bucket (tb_refill now b)"
  by (auto simp: wf_bucket_def tb_refill_def Let_def)

lemma wf_take: "wf_bucket b \<Longrightarrow> wf_bucket (snd (tb_take now b))"
  using wf_refill [of b now] by (auto simp: tb_take_def wf_bucket_def Let_def)

lemma take_fields [simp]: "tb_capacity (snd (tb_take now b)) = tb_capacity b" "tb_refillPerSecond (snd (tb_take now b)) = tb_refillPerSecond b"
  "tb_last (snd (tb_take now b)) = now"
  by (simp_all add: tb_take_def Let_def)

fun granted :: "int list \<Rightarrow> token_bucket \<Rightarrow> nat" where
  "granted [] b = 0"
| "granted (now # ts) b = (case tb_take now b of (ok, b') \<Rightarrow> (if ok then 1 else 0) + granted ts b')"

fun forward_ms :: "int \<Rightarrow> int list \<Rightarrow> int" where
  "forward_ms t [] = 0"
| "forward_ms t (now # ts) = max 0 (now - t) + forward_ms now ts"

lemma forward_ms_monotone: "sorted (t # ts) \<Longrightarrow> forward_ms t ts = last (t # ts) - t"
  by (induction ts arbitrary: t) auto

lemma granted_tokens:
  assumes "wf_bucket b"
  shows "of_nat (granted ts b) \<le> tb_tokens b + of_int (forward_ms (tb_last b) ts) / 1000 * tb_refillPerSecond b"
  using assms
proof (induction ts arbitrary: b)
  case Nil
  then show ?case by (simp add: wf_bucket_def)
next
  case (Cons now ts)
  obtain ok b' where t: "tb_take now b = (ok, b')" by fastforce
  have b': "b' = snd (tb_take now b)" "wf_bucket b'" using t wf_take [OF Cons.prems, of now] by auto
  have spent: "(if ok then 1 else 0) + tb_tokens b' \<le> tb_tokens b + of_int (max 0 (now - tb_last b)) / 1000 * tb_refillPerSecond b"
    using t by (auto simp: tb_take_def tb_refill_def Let_def split: if_splits)
  have "of_nat (granted ts b') \<le> tb_tokens b' + of_int (forward_ms now ts) / 1000 * tb_refillPerSecond b"
    using Cons.IH [OF b'(2)] b'(1) by simp
  then have "of_nat ((if ok then 1 else 0) + granted ts b') \<le>
      tb_tokens b + (of_int (max 0 (now - tb_last b)) / 1000 + of_int (forward_ms now ts) / 1000) * tb_refillPerSecond b"
    using spent by (simp add: distrib_right split: if_splits)
  also have "of_int (max 0 (now - tb_last b)) / 1000 + of_int (forward_ms now ts) / 1000 = (of_int (forward_ms (tb_last b) (now # ts)) / 1000 :: rat)"
    by (simp add: add_divide_distrib)
  finally show ?case using t by simp
qed

section \<open>The tracker\<close>

definition wf_entry :: "relay_limits \<Rightarrow> ip_entry \<Rightarrow> bool" where
  "wf_entry l e \<longleftrightarrow> ie_connections e \<le> maxConnectionsPerIp l \<and> wf_bucket (ie_connect e) \<and> wf_bucket (ie_create e) \<and> wf_bucket (ie_auth e)"

definition wf_limits :: "relay_limits \<Rightarrow> bool" where
  "wf_limits l \<longleftrightarrow> 0 \<le> connectBurstPerIp l \<and> 0 \<le> connectRefillPerSecondPerIp l \<and> 0 \<le> createBurstPerIp l \<and>
     0 \<le> createRefillPerSecondPerIp l \<and> 0 \<le> authBurstPerIp l \<and> 0 \<le> authRefillPerSecondPerIp l"

definition wf_tracker :: "relay_limits \<Rightarrow> ip_tracker \<Rightarrow> bool" where
  "wf_tracker l t \<longleftrightarrow> distinct (map fst t) \<and> length t \<le> maxTrackedIps l \<and> (\<forall>(ip, e) \<in> set t. wf_entry l e)"

lemma wf_limits_default: "wf_limits DEFAULT_LIMITS"
  by (simp add: wf_limits_def DEFAULT_LIMITS_def)

lemma wf_fresh: "wf_limits l \<Longrightarrow> wf_entry l (fresh_entry l now)"
  by (simp add: wf_limits_def wf_entry_def fresh_entry_def wf_TokenBucket)

lemma wf_sweep_entry: "wf_entry l e \<Longrightarrow> wf_entry l (snd (sweep_entry now e))"
  by (auto simp: sweep_entry_def wf_entry_def tb_full_def Let_def wf_refill split: prod.splits)

lemma sweep_subset: "set (map fst (ip_sweep now t)) \<subseteq> set (map fst t)"
proof (induction t)
  case (Cons x t)
  obtain k e b e' where "x = (k, e)" "sweep_entry now e = (b, e')" by (cases x, cases "sweep_entry now (snd x)") auto
  with Cons show ?case by (cases b) auto
qed simp

lemma sweep_map_of:
  "distinct (map fst t) \<Longrightarrow> map_of (ip_sweep now t) ip = (case map_of t ip of None \<Rightarrow> None
    | Some e \<Rightarrow> if fst (sweep_entry now e) then None else Some (snd (sweep_entry now e)))"
proof (induction t)
  case (Cons x t)
  obtain k e b e' where x: "x = (k, e)" "sweep_entry now e = (b, e')" by (cases x, cases "sweep_entry now (snd x)") auto
  have "map_of (ip_sweep now t) k = None"
    using Cons.prems x sweep_subset [of now t] by (auto simp: map_of_eq_None_iff)
  with Cons x show ?case by (cases b) auto
qed simp

lemma sweep_length: "length (ip_sweep now t) \<le> length t"
proof (induction t)
  case (Cons x t)
  obtain k e b e' where "x = (k, e)" "sweep_entry now e = (b, e')" by (cases x, cases "sweep_entry now (snd x)") auto
  with Cons show ?case by (cases b) auto
qed simp

lemma sweep_distinct: "distinct (map fst t) \<Longrightarrow> distinct (map fst (ip_sweep now t))"
proof (induction t)
  case (Cons x t)
  obtain k e b e' where "x = (k, e)" "sweep_entry now e = (b, e')" by (cases x, cases "sweep_entry now (snd x)") auto
  with Cons sweep_subset [of now t] show ?case by (cases b) auto
qed simp

lemma sweep_entries: "\<forall>(ip, e) \<in> set t. wf_entry l e \<Longrightarrow> \<forall>(ip, e) \<in> set (ip_sweep now t). wf_entry l e"
proof (induction t)
  case (Cons x t)
  obtain k e b e' where x: "x = (k, e)" "sweep_entry now e = (b, e')" by (cases x, cases "sweep_entry now (snd x)") auto
  with Cons wf_sweep_entry [of l e now] show ?case by (cases b) auto
qed simp

lemma wf_sweep: "wf_tracker l t \<Longrightarrow> wf_tracker l (ip_sweep now t)"
  using sweep_entries sweep_distinct sweep_length [of now t] by (fastforce simp: wf_tracker_def)

lemma wf_update:
  assumes "wf_tracker l t" "wf_entry l e" "map_of t ip \<noteq> None \<or> length t < maxTrackedIps l"
  shows "wf_tracker l (AList.update ip e t)"
proof -
  have "length (AList.update ip e t) \<le> maxTrackedIps l"
  proof (cases "map_of t ip")
    case None
    then have "length (AList.update ip e t) = Suc (length t)"
      by (induction t) (auto split: if_splits)
    with assms(3) None show ?thesis by simp
  next
    case (Some e')
    then have "length (AList.update ip e t) = length t" by (induction t) (auto split: if_splits)
    with assms(1) show ?thesis by (simp add: wf_tracker_def)
  qed
  moreover have "(k, x) \<in> set (AList.update ip e t) \<Longrightarrow> x = e \<or> (k, x) \<in> set t" for k x
    by (induction t) (auto split: if_splits)
  then have "\<forall>(k, x) \<in> set (AList.update ip e t). wf_entry l x"
    using assms(1,2) unfolding wf_tracker_def by fast
  ultimately show ?thesis using assms(1) by (auto simp: wf_tracker_def distinct_update)
qed

lemma wf_admit_entry: "wf_entry l e \<Longrightarrow> wf_entry l (snd (admit_entry l now e))"
  using wf_take [of "ie_connect e" now]
  by (auto simp: admit_entry_def wf_entry_def split: prod.splits bool.splits)

lemma map_of_wf: "wf_tracker l t \<Longrightarrow> map_of t ip = Some e \<Longrightarrow> wf_entry l e"
  by (auto simp: wf_tracker_def dest: map_of_SomeD)

lemma wf_admit: "wf_limits l \<Longrightarrow> wf_tracker l t \<Longrightarrow> wf_tracker l (snd (ip_admit l ip now t))"
proof (cases "map_of t ip")
  case (Some e)
  assume "wf_tracker l t"
  with Some wf_admit_entry map_of_wf show ?thesis
    by (auto simp: ip_admit_def split: prod.splits intro!: wf_update) (metis snd_conv)
next
  case None
  assume l: "wf_limits l" and t: "wf_tracker l t"
  have "wf_entry l (snd (admit_entry l now (fresh_entry l now)))" using wf_admit_entry wf_fresh [OF l] by blast
  with None t wf_sweep [OF t, of now] show ?thesis
    by (auto simp: ip_admit_def Let_def split: prod.splits intro!: wf_update)
qed

lemma wf_release: "wf_tracker l t \<Longrightarrow> wf_tracker l (ip_release ip t)"
  using map_of_wf [of l t ip] by (auto simp: ip_release_def wf_entry_def split: option.splits intro!: wf_update)

lemma wf_allow: "wf_tracker l t \<Longrightarrow> wf_tracker l (snd (allowCreate ip now t))" "wf_tracker l t \<Longrightarrow> wf_tracker l (snd (allowAuth ip now t))"
proof -
  assume t: "wf_tracker l t"
  have "wf_bucket b \<Longrightarrow> tb_take now b = (ok, b') \<Longrightarrow> wf_bucket b'" for b ok b' using wf_take [of b now] by auto
  with t map_of_wf [OF t, of ip]
  show "wf_tracker l (snd (allowCreate ip now t))" "wf_tracker l (snd (allowAuth ip now t))"
    by (auto simp: allowCreate_def allowAuth_def wf_entry_def split: option.splits prod.splits intro!: wf_update)
qed

section \<open>Any sequence of calls\<close>

datatype tracker_call = Call_admit jsstring int | Call_release jsstring | Call_create jsstring int | Call_auth jsstring int | Call_sweep int

datatype tracker_answer = Ans_admit admit_verdict | Ans_allow bool | Ans_unit

fun tracker_step :: "relay_limits \<Rightarrow> tracker_call \<Rightarrow> ip_tracker \<Rightarrow> tracker_answer \<times> ip_tracker" where
  "tracker_step l (Call_admit ip now) t = (case ip_admit l ip now t of (v, t') \<Rightarrow> (Ans_admit v, t'))"
| "tracker_step l (Call_release ip) t = (Ans_unit, ip_release ip t)"
| "tracker_step l (Call_create ip now) t = (case allowCreate ip now t of (b, t') \<Rightarrow> (Ans_allow b, t'))"
| "tracker_step l (Call_auth ip now) t = (case allowAuth ip now t of (b, t') \<Rightarrow> (Ans_allow b, t'))"
| "tracker_step l (Call_sweep now) t = (Ans_unit, ip_sweep now t)"

fun tracker_run :: "relay_limits \<Rightarrow> tracker_call list \<Rightarrow> ip_tracker \<Rightarrow> tracker_answer list \<times> ip_tracker" where
  "tracker_run l [] t = ([], t)"
| "tracker_run l (c # cs) t = (case tracker_step l c t of (a, t1) \<Rightarrow> case tracker_run l cs t1 of (as, t2) \<Rightarrow> (a # as, t2))"

definition open_at :: "ip_tracker \<Rightarrow> jsstring \<Rightarrow> nat" where
  "open_at t ip = (case map_of t ip of None \<Rightarrow> 0 | Some e \<Rightarrow> ie_connections e)"

text \<open>What a caller can count for itself: an admission opens a connection, a release closes one.\<close>

fun opened :: "jsstring \<Rightarrow> tracker_call list \<Rightarrow> tracker_answer list \<Rightarrow> nat \<Rightarrow> nat" where
  "opened ip (Call_admit i now # cs) (a # as) n = opened ip cs as (if i = ip \<and> a = Ans_admit Admit_ok then n + 1 else n)"
| "opened ip (Call_release i # cs) (a # as) n = opened ip cs as (if i = ip then n - 1 else n)"
| "opened ip (_ # cs) (a # as) n = opened ip cs as n"
| "opened ip _ _ n = n"

lemma open_update [simp]: "open_at (AList.update k e t) ip = (if ip = k then ie_connections e else open_at t ip)"
  by (simp add: open_at_def update_conv')

lemma open_sweep: "distinct (map fst t) \<Longrightarrow> open_at (ip_sweep now t) ip = open_at t ip"
  by (auto simp: open_at_def sweep_map_of sweep_entry_def tb_full_def Let_def split: option.splits)

lemma open_admit_entry: "admit_entry l now e = (v, e') \<Longrightarrow> ie_connections e' = ie_connections e + (if v = Admit_ok then 1 else 0)"
  by (auto simp: admit_entry_def split: if_splits prod.splits bool.splits)

lemma open_admit:
  assumes "distinct (map fst t)" "ip_admit l i now t = (v, t')"
  shows "open_at t' ip = open_at t ip + (if i = ip \<and> v = Admit_ok then 1 else 0)"
proof (cases "map_of t i")
  case (Some e)
  with assms open_admit_entry [of l now e] show ?thesis
    by (auto simp: ip_admit_def open_at_def update_conv' split: prod.splits)
next
  case None
  obtain v2 e2 where e2: "admit_entry l now (fresh_entry l now) = (v2, e2)" by fastforce
  have f: "ie_connections (fresh_entry l now) = 0" by (simp add: fresh_entry_def)
  have z: "open_at t i = 0" using None by (simp add: open_at_def)
  from assms None e2 open_admit_entry [OF e2] open_sweep [OF assms(1), of now] f z show ?thesis
    by (auto simp: ip_admit_def Let_def split: if_splits)
qed

lemma open_release: "open_at (ip_release i t) ip = (if i = ip then open_at t ip - 1 else open_at t ip)"
  by (auto simp: ip_release_def open_at_def update_conv' split: option.splits)

lemma open_allow: "open_at (snd (allowCreate i now t)) ip = open_at t ip" "open_at (snd (allowAuth i now t)) ip = open_at t ip"
  by (auto simp: allowCreate_def allowAuth_def open_at_def update_conv' split: option.splits prod.splits)

lemma tracker_step_ok:
  assumes "wf_limits l" "wf_tracker l t" "tracker_step l c t = (a, t')"
  shows "wf_tracker l t'" "opened ip (c # cs) (a # as) (open_at t ip) = opened ip cs as (open_at t' ip)"
proof -
  have d: "distinct (map fst t)" using assms(2) by (simp add: wf_tracker_def)
  show "wf_tracker l t'"
    using assms wf_admit [OF assms(1,2)] wf_release [OF assms(2)] wf_allow [OF assms(2)] wf_sweep [OF assms(2)]
    by (cases c) (auto split: prod.splits, (metis snd_conv)+)
  show "opened ip (c # cs) (a # as) (open_at t ip) = opened ip cs as (open_at t' ip)"
  proof (cases c)
    case (Call_admit i now)
    obtain v t1 where "ip_admit l i now t = (v, t1)" by fastforce
    with open_admit [OF d this] assms(3) Call_admit show ?thesis by auto
  next
    case (Call_create i now)
    with assms(3) open_allow(1) [of i now t ip] show ?thesis by (auto split: prod.splits)
  next
    case (Call_auth i now)
    with assms(3) open_allow(2) [of i now t ip] show ?thesis by (auto split: prod.splits)
  qed (use assms(3) open_sweep [OF d] in \<open>auto simp: open_release\<close>)
qed

lemma tracker_run_ok:
  "wf_limits l \<Longrightarrow> wf_tracker l t \<Longrightarrow> tracker_run l cs t = (as, t') \<Longrightarrow>
    wf_tracker l t' \<and> open_at t' ip = opened ip cs as (open_at t ip)"
proof (induction cs arbitrary: t as t')
  case (Cons c cs)
  obtain a t1 where s: "tracker_step l c t = (a, t1)" by fastforce
  obtain as' t2 where r: "tracker_run l cs t1 = (as', t2)" by fastforce
  from Cons.IH [OF Cons.prems(1) tracker_step_ok(1) [OF Cons.prems(1,2) s] r] Cons.prems(3) s r
    tracker_step_ok(2) [OF Cons.prems(1,2) s, where cs = cs and as = as' and ip = ip]
  show ?case by auto
qed simp

text \<open>The tracker of addresses, started empty, never holds more than its configured number of addresses and never more
  connections for one address than allowed, whatever calls are made on it; and the number it holds for an address is exactly
  the admissions less the releases, so a sweep never forgets an open connection.\<close>

theorem tracker_counts_exactly:
  assumes "wf_limits l" "tracker_run l cs [] = (as, t)"
  shows "length t \<le> maxTrackedIps l \<and> open_at t ip = opened ip cs as 0 \<and> open_at t ip \<le> maxConnectionsPerIp l"
proof -
  have "wf_tracker l []" by (simp add: wf_tracker_def)
  from tracker_run_ok [OF assms(1) this assms(2)]
  have w: "wf_tracker l t" and o: "open_at t ip = opened ip cs as (open_at [] ip)" by auto
  have "open_at t ip \<le> maxConnectionsPerIp l"
    using map_of_wf [OF w, of ip] by (auto simp: open_at_def wf_entry_def split: option.splits)
  with w o show ?thesis by (simp add: wf_tracker_def open_at_def)
qed

text \<open>In any run of the clock that never goes back, a bucket grants at most its capacity plus its refill rate times
  the seconds that passed, however often it is asked.\<close>

theorem bucket_rate_bound:
  assumes "0 \<le> c" "0 \<le> r" "sorted (t # ts)"
  shows "of_nat (granted ts (TokenBucket c r t)) \<le> c + of_int (last (t # ts) - t) / 1000 * r"
  using granted_tokens [OF wf_TokenBucket [OF assms(1,2), of t], of ts] forward_ms_monotone [OF assms(3)]
  by (simp add: TokenBucket_def)

section \<open>Sweeping is not observable\<close>

text \<open>
  The reference: a table that remembers every address for ever. Two buckets are alike from a time on when refilling
  makes them equal.
\<close>

type_synonym ledger = "jsstring \<Rightarrow> ip_entry"

fun ledger_step :: "relay_limits \<Rightarrow> tracker_call \<Rightarrow> ledger \<Rightarrow> tracker_answer \<times> ledger" where
  "ledger_step l (Call_admit ip now) L = (case admit_entry l now (L ip) of (v, e) \<Rightarrow> (Ans_admit v, L(ip := e)))"
| "ledger_step l (Call_release ip) L = (Ans_unit, L(ip := (L ip)\<lparr>ie_connections := ie_connections (L ip) - 1\<rparr>))"
| "ledger_step l (Call_create ip now) L = (case tb_take now (ie_create (L ip)) of
     (b, k) \<Rightarrow> (Ans_allow b, L(ip := (L ip)\<lparr>ie_create := k\<rparr>)))"
| "ledger_step l (Call_auth ip now) L = (case tb_take now (ie_auth (L ip)) of
     (b, k) \<Rightarrow> (Ans_allow b, L(ip := (L ip)\<lparr>ie_auth := k\<rparr>)))"
| "ledger_step l (Call_sweep now) L = (Ans_unit, L)"

fun ledger_run :: "relay_limits \<Rightarrow> tracker_call list \<Rightarrow> ledger \<Rightarrow> tracker_answer list" where
  "ledger_run l [] L = []"
| "ledger_run l (c # cs) L = (case ledger_step l c L of (a, L1) \<Rightarrow> a # ledger_run l cs L1)"

text \<open>How the relay calls it: the clock does not go back, and only an address with a connection asks for a circuit or for AUTH.\<close>

fun call_time :: "tracker_call \<Rightarrow> int option" where
  "call_time (Call_admit _ now) = Some now" | "call_time (Call_create _ now) = Some now"
| "call_time (Call_auth _ now) = Some now" | "call_time (Call_sweep now) = Some now" | "call_time (Call_release _) = None"

fun asks :: "tracker_call \<Rightarrow> jsstring option" where
  "asks (Call_create ip _) = Some ip" | "asks (Call_auth ip _) = Some ip" | "asks _ = None"

fun calls_ok :: "relay_limits \<Rightarrow> int \<Rightarrow> tracker_call list \<Rightarrow> ledger \<Rightarrow> bool" where
  "calls_ok l T [] L \<longleftrightarrow> True"
| "calls_ok l T (c # cs) L \<longleftrightarrow>
     (case call_time c of None \<Rightarrow> True | Some now \<Rightarrow> T \<le> now) \<and>
     (case asks c of None \<Rightarrow> True | Some ip \<Rightarrow> ie_connections (L ip) > 0) \<and>
     calls_ok l (case call_time c of None \<Rightarrow> T | Some now \<Rightarrow> now) cs (snd (ledger_step l c L))"

definition alike :: "int \<Rightarrow> token_bucket \<Rightarrow> token_bucket \<Rightarrow> bool" where
  "alike T b b' \<longleftrightarrow> tb_refill T b = tb_refill T b' \<and> tb_last b \<le> T \<and> tb_last b' \<le> T \<and> wf_bucket b \<and> wf_bucket b'"

lemma min_min_add: "0 \<le> y \<Longrightarrow> min c (min c (k + x) + y) = min c (k + (x + y))" for c :: rat
  by (simp add: min_def)

lemma refill_refill:
  assumes "wf_bucket b" "tb_last b \<le> t1" "t1 \<le> t2"
  shows "tb_refill t2 (tb_refill t1 b) = tb_refill t2 b"
proof -
  let ?r = "tb_refillPerSecond b" and ?s = "\<lambda>x y. (of_int (max 0 (x - y)) / 1000 :: rat)"
  have "0 \<le> ?s t2 t1 * ?r" using assms by (simp add: wf_bucket_def)
  moreover have "?s t1 (tb_last b) * ?r + ?s t2 t1 * ?r = ?s t2 (tb_last b) * ?r"
    using assms(2,3) by (simp add: distrib_right [symmetric] add_divide_distrib [symmetric])
  ultimately show ?thesis by (simp only: tb_refill_def Let_def) (simp add: min_min_add)
qed

lemma alike_later: "alike T b b' \<Longrightarrow> T \<le> T' \<Longrightarrow> alike T' b b'"
  using refill_refill [of b T T'] refill_refill [of b' T T'] by (auto simp: alike_def)

lemma alike_refl: "wf_bucket b \<Longrightarrow> tb_last b \<le> T \<Longrightarrow> alike T b b"
  by (simp add: alike_def)

lemma alike_trans: "alike T a b \<Longrightarrow> alike T b c \<Longrightarrow> alike T a c"
  by (simp add: alike_def)

lemma alike_refill: "wf_bucket b \<Longrightarrow> tb_last b \<le> T \<Longrightarrow> alike T b (tb_refill T b)"
  by (simp add: alike_def refill_refill wf_refill)

lemma alike_take: "alike T b b' \<Longrightarrow> tb_take T b = tb_take T b'"
  by (simp add: alike_def tb_take_def)

lemma alike_took: "alike T b b' \<Longrightarrow> alike T (snd (tb_take T b)) (snd (tb_take T b'))"
  by (metis alike_take alike_def alike_refl order_refl take_fields(3) wf_take)

definition made_by :: "relay_limits \<Rightarrow> ip_entry \<Rightarrow> bool" where
  "made_by l e \<longleftrightarrow>
     tb_capacity (ie_connect e) = connectBurstPerIp l \<and> tb_refillPerSecond (ie_connect e) = connectRefillPerSecondPerIp l \<and>
     tb_capacity (ie_create e) = createBurstPerIp l \<and> tb_refillPerSecond (ie_create e) = createRefillPerSecondPerIp l \<and>
     tb_capacity (ie_auth e) = authBurstPerIp l \<and> tb_refillPerSecond (ie_auth e) = authRefillPerSecondPerIp l"

definition alike_entry :: "relay_limits \<Rightarrow> int \<Rightarrow> ip_entry \<Rightarrow> ip_entry \<Rightarrow> bool" where
  "alike_entry l T e e' \<longleftrightarrow> made_by l e \<and> made_by l e' \<and> ie_connections e = ie_connections e' \<and>
     alike T (ie_connect e) (ie_connect e') \<and> alike T (ie_create e) (ie_create e') \<and> alike T (ie_auth e) (ie_auth e')"

definition remembered :: "relay_limits \<Rightarrow> int \<Rightarrow> ip_tracker \<Rightarrow> jsstring \<Rightarrow> ip_entry" where
  "remembered l T t ip = (case map_of t ip of None \<Rightarrow> fresh_entry l T | Some e \<Rightarrow> e)"

definition tracks :: "relay_limits \<Rightarrow> int \<Rightarrow> ip_tracker \<Rightarrow> ledger \<Rightarrow> bool" where
  "tracks l T t L \<longleftrightarrow> distinct (map fst t) \<and> (\<forall>ip. alike_entry l T (L ip) (remembered l T t ip))"

lemma wf_fresh_bucket: "wf_limits l \<Longrightarrow> wf_bucket (ie_connect (fresh_entry l T))" "wf_limits l \<Longrightarrow> wf_bucket (ie_create (fresh_entry l T))"
  "wf_limits l \<Longrightarrow> wf_bucket (ie_auth (fresh_entry l T))"
  by (simp_all add: fresh_entry_def wf_TokenBucket wf_limits_def)

lemma refill_TokenBucket: "0 \<le> r \<Longrightarrow> tb_refill T (TokenBucket c r T0) = TokenBucket c r T"
  by (simp add: tb_refill_def TokenBucket_def Let_def min_def)

lemma fresh_alike: "wf_limits l \<Longrightarrow> T \<le> T' \<Longrightarrow> alike_entry l T' (fresh_entry l T) (fresh_entry l T')"
  using wf_fresh_bucket [of l T] wf_fresh_bucket [of l T']
  by (simp add: alike_entry_def alike_def made_by_def fresh_entry_def refill_TokenBucket wf_limits_def)
    (simp add: TokenBucket_def)

lemma alike_entry_trans: "alike_entry l T a b \<Longrightarrow> alike_entry l T b c \<Longrightarrow> alike_entry l T a c"
  by (auto simp: alike_entry_def intro: alike_trans)

lemma alike_entry_later: "alike_entry l T a b \<Longrightarrow> T \<le> T' \<Longrightarrow> alike_entry l T' a b"
  by (auto simp: alike_entry_def intro: alike_later)

lemma tracks_later:
  assumes "wf_limits l" "tracks l T t L" "T \<le> T'" shows "tracks l T' t L"
proof -
  have "alike_entry l T' (L ip) (remembered l T' t ip)" for ip
  proof -
    have "alike_entry l T' (L ip) (remembered l T t ip)"
      using assms by (auto simp: tracks_def intro: alike_entry_later)
    then show ?thesis using alike_entry_trans [OF _ fresh_alike [OF assms(1,3)]] by (auto simp: remembered_def split: option.splits)
  qed
  with assms(2) show ?thesis by (simp add: tracks_def)
qed

lemma full_bucket: "wf_bucket b \<Longrightarrow> tb_full T b = (True, b') \<Longrightarrow> b' = TokenBucket (tb_capacity b) (tb_refillPerSecond b) T"
  by (auto simp: tb_full_def TokenBucket_def Let_def tb_refill_def min_def split: if_splits)

lemma full_alike: "wf_bucket b \<Longrightarrow> tb_last b \<le> T \<Longrightarrow> alike T b (snd (tb_full T b))"
  by (simp add: tb_full_def Let_def alike_refill)

lemma alike_entry_self:
  "alike_entry l T a e \<Longrightarrow> alike T (ie_connect e) (ie_connect e) \<and> alike T (ie_create e) (ie_create e) \<and> alike T (ie_auth e) (ie_auth e)"
  by (simp add: alike_entry_def alike_def)

lemma sweep_entry_alike:
  assumes "alike_entry l T a e" shows "alike_entry l T e (snd (sweep_entry T e))"
proof -
  have f: "tb_capacity (snd (tb_full T b)) = tb_capacity b" "tb_refillPerSecond (snd (tb_full T b)) = tb_refillPerSecond b" for b
    by (simp_all add: tb_full_def Let_def)
  obtain f1 b1 f2 b2 f3 b3 where b: "tb_full T (ie_connect e) = (f1, b1)" "tb_full T (ie_create e) = (f2, b2)" "tb_full T (ie_auth e) = (f3, b3)"
    by fastforce
  have al: "alike T (ie_connect e) b1" "alike T (ie_create e) b2" "alike T (ie_auth e) b3"
    using assms full_alike [of "ie_connect e" T] full_alike [of "ie_create e" T] full_alike [of "ie_auth e" T] b
    by (simp_all add: alike_entry_def alike_def)
  have "made_by l e" using assms by (simp add: alike_entry_def)
  with alike_entry_self [OF assms] al b f [of "ie_connect e"] f [of "ie_create e"] f [of "ie_auth e"] show ?thesis
    by (simp add: sweep_entry_def alike_entry_def made_by_def Let_def)
qed

lemma swept_is_fresh:
  assumes "alike_entry l T a e" "fst (sweep_entry T e)" shows "snd (sweep_entry T e) = fresh_entry l T"
proof -
  have w: "wf_bucket (ie_connect e)" "wf_bucket (ie_create e)" "wf_bucket (ie_auth e)" and m: "made_by l e"
    using assms(1) by (simp_all add: alike_entry_def alike_def)
  obtain f1 b1 f2 b2 f3 b3 where b: "tb_full T (ie_connect e) = (f1, b1)" "tb_full T (ie_create e) = (f2, b2)" "tb_full T (ie_auth e) = (f3, b3)"
    by fastforce
  from assms(2) b have "ie_connections e = 0" "f1" "f2" "f3"
    by (auto simp: sweep_entry_def Let_def split: if_splits)
  with b full_bucket [OF w(1), of T b1] full_bucket [OF w(2), of T b2] full_bucket [OF w(3), of T b3] m show ?thesis
    by (simp add: sweep_entry_def fresh_entry_def made_by_def Let_def)
qed

lemma tracks_sweep:
  assumes "tracks l T t L" shows "tracks l T (ip_sweep T t) L"
proof -
  have d: "distinct (map fst t)" using assms by (simp add: tracks_def)
  have "alike_entry l T (L ip) (remembered l T (ip_sweep T t) ip)" for ip
  proof (cases "map_of t ip")
    case None
    then have "remembered l T (ip_sweep T t) ip = remembered l T t ip" by (simp add: remembered_def sweep_map_of [OF d])
    with assms show ?thesis by (simp add: tracks_def)
  next
    case (Some e)
    then have a: "alike_entry l T (L ip) e" using assms by (auto simp: tracks_def remembered_def split: option.splits)
    then have "alike_entry l T (L ip) (snd (sweep_entry T e))" using sweep_entry_alike alike_entry_trans by blast
    with Some swept_is_fresh [OF a] show ?thesis
      by (cases "fst (sweep_entry T e)") (simp_all add: remembered_def sweep_map_of [OF d])
  qed
  with d show ?thesis by (simp add: tracks_def sweep_distinct)
qed

lemma alike_admit:
  assumes "alike_entry l T a e"
  shows "fst (admit_entry l T a) = fst (admit_entry l T e) \<and> alike_entry l T (snd (admit_entry l T a)) (snd (admit_entry l T e))"
proof -
  obtain ok b where k: "tb_take T (ie_connect e) = (ok, b)" by fastforce
  have k': "tb_take T (ie_connect a) = (ok, b)" using assms k alike_take [of T "ie_connect a" "ie_connect e"] by (simp add: alike_entry_def)
  have "alike T b b" using alike_took [of T "ie_connect a" "ie_connect e"] assms k k' by (simp add: alike_entry_def)
  moreover have "tb_capacity b = tb_capacity (ie_connect e)" "tb_refillPerSecond b = tb_refillPerSecond (ie_connect e)"
    using k take_fields [of T "ie_connect e"] by auto
  ultimately show ?thesis using assms k k' by (cases ok) (auto simp: admit_entry_def alike_entry_def made_by_def)
qed

lemma tracks_set:
  assumes "tracks l T t L" "alike_entry l T a e" shows "tracks l T (AList.update ip e t) (L(ip := a))"
  using assms by (auto simp: tracks_def remembered_def update_conv' distinct_update split: option.splits)

lemma tracks_remembered: "tracks l T t L \<Longrightarrow> map_of t ip = Some e \<Longrightarrow> alike_entry l T (L ip) e"
  by (auto simp: tracks_def remembered_def dest: spec [of _ ip])

lemma tracks_forgotten: "tracks l T t L \<Longrightarrow> map_of t ip = None \<Longrightarrow> alike_entry l T (L ip) (fresh_entry l T)"
  by (auto simp: tracks_def remembered_def dest: spec [of _ ip])

lemma tracks_set_admit:
  assumes "tracks l T t L" "alike_entry l T (L ip) e" "admit_entry l T e = (v, e')"
  shows "ledger_step l (Call_admit ip T) L = (Ans_admit v, L(ip := snd (admit_entry l T (L ip))))"
    "tracks l T (AList.update ip e' t) (L(ip := snd (admit_entry l T (L ip))))"
  using alike_admit [OF assms(2)] assms(3) tracks_set [OF assms(1), of "snd (admit_entry l T (L ip))" e' ip]
  by (auto split: prod.splits)

lemma tracks_admit:
  assumes "tracks l T t L" "ip_admit l ip T t = (v, t')" "v \<noteq> Admit_table_full"
  shows "fst (ledger_step l (Call_admit ip T) L) = Ans_admit v \<and> tracks l T t' (snd (ledger_step l (Call_admit ip T) L))"
proof (cases "map_of t ip")
  case (Some e)
  obtain v2 e2 where e2: "admit_entry l T e = (v2, e2)" by fastforce
  from assms(2) Some e2 have "v = v2" "t' = AList.update ip e2 t" by (auto simp: ip_admit_def)
  with tracks_set_admit [OF assms(1) tracks_remembered [OF assms(1) Some] e2] show ?thesis by simp
next
  case None
  let ?t = "if length t \<ge> maxTrackedIps l then ip_sweep T t else t"
  obtain v2 e2 where e2: "admit_entry l T (fresh_entry l T) = (v2, e2)" by fastforce
  have tr: "tracks l T ?t L" using assms(1) tracks_sweep by simp
  from assms(2,3) None e2 have "v = v2" "t' = AList.update ip e2 ?t" by (auto simp: ip_admit_def Let_def split: if_splits)
  with tracks_set_admit [OF tr tracks_forgotten [OF assms(1) None] e2] show ?thesis by simp
qed

lemma alike_entry_fields:
  assumes "alike_entry l T a e"
  shows "alike_entry l T (a\<lparr>ie_connections := n\<rparr>) (e\<lparr>ie_connections := n\<rparr>)"
    "alike_entry l T (a\<lparr>ie_create := snd (tb_take T (ie_create a))\<rparr>) (e\<lparr>ie_create := snd (tb_take T (ie_create e))\<rparr>)"
    "alike_entry l T (a\<lparr>ie_auth := snd (tb_take T (ie_auth a))\<rparr>) (e\<lparr>ie_auth := snd (tb_take T (ie_auth e))\<rparr>)"
    "fst (tb_take T (ie_create a)) = fst (tb_take T (ie_create e))" "fst (tb_take T (ie_auth a)) = fst (tb_take T (ie_auth e))"
  using assms alike_take [of T "ie_create a" "ie_create e"] alike_take [of T "ie_auth a" "ie_auth e"]
    alike_took [of T "ie_create a" "ie_create e"] alike_took [of T "ie_auth a" "ie_auth e"]
  by (auto simp: alike_entry_def made_by_def)

lemma tracks_release:
  assumes "tracks l T t L" shows "tracks l T (ip_release ip t) (snd (ledger_step l (Call_release ip) L))"
proof (cases "map_of t ip")
  case None
  then have "ie_connections (L ip) = 0" using tracks_forgotten [OF assms] by (simp add: alike_entry_def fresh_entry_def)
  then have "L(ip := (L ip)\<lparr>ie_connections := ie_connections (L ip) - 1\<rparr>) = L" by (simp add: fun_eq_iff)
  with None assms show ?thesis by (simp add: ip_release_def)
next
  case (Some e)
  then have a: "alike_entry l T (L ip) e" by (rule tracks_remembered [OF assms])
  then have c: "ie_connections (L ip) = ie_connections e" by (simp add: alike_entry_def)
  show ?thesis
  proof (cases "ie_connections e")
    case 0
    then have "L(ip := (L ip)\<lparr>ie_connections := ie_connections (L ip) - 1\<rparr>) = L" using c by (simp add: fun_eq_iff)
    with Some 0 assms show ?thesis by (simp add: ip_release_def)
  qed (use Some c tracks_set [OF assms alike_entry_fields(1) [OF a]] in \<open>simp add: ip_release_def\<close>)
qed

lemma tracks_asked:
  assumes "tracks l T t L" "ie_connections (L ip) > 0"
  obtains e where "map_of t ip = Some e" "alike_entry l T (L ip) e"
proof (cases "map_of t ip")
  case None
  with tracks_forgotten [OF assms(1)] assms(2) show ?thesis by (simp add: alike_entry_def fresh_entry_def)
qed (use tracks_remembered [OF assms(1)] that in blast)

lemma tracks_allow:
  assumes "tracks l T t L" "ie_connections (L ip) > 0"
  shows "fst (ledger_step l (Call_create ip T) L) = Ans_allow (fst (allowCreate ip T t)) \<and>
      tracks l T (snd (allowCreate ip T t)) (snd (ledger_step l (Call_create ip T) L))"
    "fst (ledger_step l (Call_auth ip T) L) = Ans_allow (fst (allowAuth ip T t)) \<and>
      tracks l T (snd (allowAuth ip T t)) (snd (ledger_step l (Call_auth ip T) L))"
proof -
  obtain e where e: "map_of t ip = Some e" "alike_entry l T (L ip) e" using assms by (rule tracks_asked)
  note f = alike_entry_fields [OF e(2)]
  show "fst (ledger_step l (Call_create ip T) L) = Ans_allow (fst (allowCreate ip T t)) \<and>
      tracks l T (snd (allowCreate ip T t)) (snd (ledger_step l (Call_create ip T) L))"
    using tracks_set [OF assms(1) f(2)] f(4) e(1) by (auto simp: allowCreate_def split: prod.splits)
  show "fst (ledger_step l (Call_auth ip T) L) = Ans_allow (fst (allowAuth ip T t)) \<and>
      tracks l T (snd (allowAuth ip T t)) (snd (ledger_step l (Call_auth ip T) L))"
    using tracks_set [OF assms(1) f(3)] f(5) e(1) by (auto simp: allowAuth_def split: prod.splits)
qed

lemma tracks_step:
  assumes "wf_limits l" "tracks l T t L" "calls_ok l T (c # cs) L" "tracker_step l c t = (a, t')" "a \<noteq> Ans_admit Admit_table_full"
  shows "fst (ledger_step l c L) = a \<and>
    tracks l (case call_time c of None \<Rightarrow> T | Some now \<Rightarrow> now) t' (snd (ledger_step l c L))"
proof (cases c)
  case (Call_admit ip now)
  obtain v t1 where v: "ip_admit l ip now t = (v, t1)" by fastforce
  have "tracks l now t L" using assms(1,2,3) Call_admit by (auto intro: tracks_later)
  moreover have "v \<noteq> Admit_table_full" "a = Ans_admit v" "t' = t1" using assms(4,5) v Call_admit by auto
  ultimately show ?thesis using tracks_admit [OF _ v] Call_admit by simp
next
  case (Call_release ip)
  with tracks_release [OF assms(2), of ip] assms(4) show ?thesis by simp
next
  case (Call_create ip now)
  have "tracks l now t L" using assms(1,2,3) Call_create by (auto intro: tracks_later)
  moreover have "ie_connections (L ip) > 0" "a = Ans_allow (fst (allowCreate ip now t))" "t' = snd (allowCreate ip now t)"
    using assms(3,4) Call_create by (auto split: prod.splits)
  ultimately show ?thesis using tracks_allow(1) [of l now t L ip] Call_create by (simp del: ledger_step.simps)
next
  case (Call_auth ip now)
  have "tracks l now t L" using assms(1,2,3) Call_auth by (auto intro: tracks_later)
  moreover have "ie_connections (L ip) > 0" "a = Ans_allow (fst (allowAuth ip now t))" "t' = snd (allowAuth ip now t)"
    using assms(3,4) Call_auth by (auto split: prod.splits)
  ultimately show ?thesis using tracks_allow(2) [of l now t L ip] Call_auth by (simp del: ledger_step.simps)
next
  case (Call_sweep now)
  have "tracks l now t L" using assms(1,2,3) Call_sweep by (auto intro: tracks_later)
  from tracks_sweep [OF this] assms(4) Call_sweep show ?thesis by auto
qed

lemma tracks_run:
  "wf_limits l \<Longrightarrow> tracks l T t L \<Longrightarrow> calls_ok l T cs L \<Longrightarrow> Ans_admit Admit_table_full \<notin> set (fst (tracker_run l cs t)) \<Longrightarrow>
    fst (tracker_run l cs t) = ledger_run l cs L"
proof (induction cs arbitrary: T t L)
  case (Cons c cs)
  obtain a t1 where s: "tracker_step l c t = (a, t1)" by fastforce
  obtain as t2 where r: "tracker_run l cs t1 = (as, t2)" by fastforce
  obtain a' L1 where L: "ledger_step l c L = (a', L1)" by fastforce
  from tracks_step [OF Cons.prems(1-3) s] Cons.prems(4) s r L
  have "a' = a" "tracks l (case call_time c of None \<Rightarrow> T | Some now \<Rightarrow> now) t1 L1" by auto
  with Cons.IH [OF Cons.prems(1), of _ t1 L1] Cons.prems(3,4) s r L show ?case by auto
qed simp

text \<open>C34. The relay may forget an address without changing any later answer: with a clock that does not go back, and as
  long as the table has room, the tracker that sweeps answers every call exactly as one that remembers every address for
  ever would.\<close>

theorem sweeping_is_not_observable:
  assumes "wf_limits l" "calls_ok l T cs (\<lambda>_. fresh_entry l T)" "Ans_admit Admit_table_full \<notin> set (fst (tracker_run l cs []))"
  shows "fst (tracker_run l cs []) = ledger_run l cs (\<lambda>_. fresh_entry l T)"
proof (rule tracks_run [OF assms(1) _ assms(2,3)])
  show "tracks l T [] (\<lambda>_. fresh_entry l T)"
    using fresh_alike [OF assms(1), of T T] by (simp add: tracks_def remembered_def)
qed

section \<open>Witnesses\<close>

definition small_limits :: relay_limits where
  "small_limits = DEFAULT_LIMITS\<lparr>maxConnectionsPerIp := 1, connectBurstPerIp := 2, maxTrackedIps := 1\<rparr>"

definition some_calls :: "tracker_call list" where
  "some_calls = [Call_admit [1] 0, Call_admit [1] 0, Call_create [1] 10, Call_release [1], Call_admit [1] 20, Call_release [1],
     Call_admit [1] 20, Call_admit [2] 5000, Call_admit [1] 5000]"

lemma some_calls_run: "fst (tracker_run small_limits some_calls []) =
    [Ans_admit Admit_ok, Ans_admit Admit_per_ip, Ans_allow True, Ans_unit, Ans_admit Admit_ok, Ans_unit,
     Ans_admit Admit_rate, Ans_admit Admit_ok, Ans_admit Admit_table_full]"
  by (simp add: some_calls_def small_limits_def DEFAULT_LIMITS_def ip_admit_def ip_release_def allowCreate_def allowAuth_def
      admit_entry_def fresh_entry_def sweep_entry_def tb_take_def tb_full_def tb_refill_def TokenBucket_def Let_def)

lemma small_limits_wf: "wf_limits small_limits"
  by (simp add: small_limits_def wf_limits_def DEFAULT_LIMITS_def)

lemma tracker_counts_exactly_witness:
  "length (snd (tracker_run small_limits some_calls [])) \<le> 1 \<and> open_at (snd (tracker_run small_limits some_calls [])) [2] = 1"
proof -
  have "opened [2] some_calls (fst (tracker_run small_limits some_calls [])) 0 = 1"
    by (simp add: some_calls_run) (simp add: some_calls_def)
  with tracker_counts_exactly [OF small_limits_wf, of some_calls _ _ "[2]", OF prod.collapse [symmetric]] show ?thesis
    by (simp add: small_limits_def)
qed

lemma bucket_rate_bound_witness: "(of_nat (granted [0, 0, 0, 1000, 1500] (TokenBucket 2 1 0)) :: rat) \<le> 2 + 1500 / 1000"
  using bucket_rate_bound [of 2 1 0 "[0, 0, 0, 1000, 1500]"] by simp

lemma sweeping_is_not_observable_witness:
  "fst (tracker_run small_limits (butlast some_calls) []) = ledger_run small_limits (butlast some_calls) (\<lambda>_. fresh_entry small_limits 0)"
proof (rule sweeping_is_not_observable [OF small_limits_wf])
  show "calls_ok small_limits 0 (butlast some_calls) (\<lambda>_. fresh_entry small_limits 0)"
    by (simp add: some_calls_def small_limits_def DEFAULT_LIMITS_def ip_admit_def ip_release_def allowCreate_def allowAuth_def
      admit_entry_def fresh_entry_def sweep_entry_def tb_take_def tb_full_def tb_refill_def TokenBucket_def Let_def)
  show "Ans_admit Admit_table_full \<notin> set (fst (tracker_run small_limits (butlast some_calls) []))"
    by (simp add: some_calls_def small_limits_def DEFAULT_LIMITS_def ip_admit_def ip_release_def allowCreate_def allowAuth_def
      admit_entry_def fresh_entry_def sweep_entry_def tb_take_def tb_full_def tb_refill_def TokenBucket_def Let_def)
qed

end
