(* ===== verification/Relay_Core.thy ===== *)
theory Relay_Core
  imports Circuit_Id Overlay Relay_Directory Relay_Limits
begin

text \<open>
  \<^verbatim>\<open>packages/relay-core/src/core.ts\<close>: the relay. Connections and circuits are objects the code shares
  and compares by identity, so they live in two stores and are named by their index. What the
  relay does to its transports is a log of sends and closes; what the transports answer
  (\<^verbatim>\<open>bufferedAmount\<close>, the result of \<^verbatim>\<open>send\<close>), the clock and the random source are part of the
  world an event sees. A transport neither throws nor calls back into the relay from within a call.
  The clock does not advance while one event is handled. The two asynchronous functions are
  cut at their \<^verbatim>\<open>await\<close>: what follows it is a task that any later moment may run once the lookup
  has settled.
\<close>

section \<open>State\<close>

record circuit =
  cc_client :: nat
  cc_clientId :: nat
  cc_service :: nat
  cc_serviceId :: nat
  cc_open :: bool
  cc_createdAt :: int
  cc_lastActivity :: int
  cc_name :: jsstring

datatype service_state = Awaiting_auth | Verifying | Ready

datatype conn_kind = Client_conn | Service_conn

record connection =
  cn_kind :: conn_kind
  cn_ip :: jsstring
  cn_circuits :: "nat circuit_table"
  cn_pending :: int
  cn_perService :: "(nat \<times> int) list"
  cn_violations :: nat
  cn_closed :: bool
  cn_openedAt :: int
  cn_identityProven :: bool
  cn_state :: "service_state option"
  cn_challenge :: "bytes option"
  cn_name :: "jsstring option"
  cn_nodeKeyHex :: "jsstring option"
  cn_domainKeyHex :: "jsstring option"
  cn_authNotAfter :: "nat option"
  cn_authCheckedAt :: "int option"

record relay_counters =
  rc_circuitsOpened :: nat
  rc_circuitsRejected :: nat
  rc_framesForwarded :: nat
  rc_bytesForwarded :: nat
  rc_framesDropped :: nat
  rc_protocolViolations :: nat
  rc_backpressureDestroys :: nat
  rc_authFailures :: nat
  rc_idleDestroys :: nat
  rc_memoryCloses :: nat

datatype relay_out = Out_send nat bytes | Out_close nat nat jsstring | Out_lookup jsstring

text \<open>A suspended call waits for the lookup of its name, or has its outcome: a key, none, or a rejection.\<close>

datatype lookup_state = Awaiting | Looked "bytes option" | Lookup_failed

record relay_task =
  rt_verify :: "(jsval list \<times> jsstring) option" \<comment> \<open>\<open>verifyService\<close> with its chain and signature, else \<open>recheckDomainKey\<close>\<close>
  rt_conn :: nat
  rt_name :: jsstring
  rt_lookup :: lookup_state

record relay_state =
  rs_conns :: "nat \<Rightarrow> connection"
  rs_nextConn :: nat
  rs_live :: "nat list"
  rs_circuits :: "nat \<Rightarrow> circuit"
  rs_nextCircuit :: nat
  rs_services :: "(jsstring \<times> nat) list"
  rs_circuitCount :: int
  rs_ipService :: "(jsstring \<times> int) list"
  rs_lookups :: "jsstring list"
  rs_noKey :: "(jsstring \<times> int) list"
  rs_ips :: ip_tracker
  rs_tasks :: "relay_task list"
  rs_counters :: relay_counters
  rs_out :: "relay_out list"

record relay_options =
  ro_endpoint :: jsstring
  ro_identity :: signing_key_pair
  ro_limits :: relay_limits
  ro_verify :: ed_verify
  ro_sign :: ed_sign
  ro_parse :: "jsstring \<Rightarrow> jsval option"

record relay_world =
  w_now :: int
  w_buffered :: "relay_out list \<Rightarrow> nat \<Rightarrow> nat"
  w_sent :: "relay_out list \<Rightarrow> nat \<Rightarrow> bytes \<Rightarrow> int"
  w_draws :: "bytes list"

definition CLOSE_NORMAL :: nat where "CLOSE_NORMAL = 1000"
definition CLOSE_POLICY :: nat where "CLOSE_POLICY = 1008"
definition CLOSE_TOO_BIG :: nat where "CLOSE_TOO_BIG = 1009"
definition CLOSE_TRY_LATER :: nat where "CLOSE_TRY_LATER = 1013"

definition zero_counters :: relay_counters where
  "zero_counters = \<lparr>rc_circuitsOpened = 0, rc_circuitsRejected = 0, rc_framesForwarded = 0, rc_bytesForwarded = 0, rc_framesDropped = 0,
     rc_protocolViolations = 0, rc_backpressureDestroys = 0, rc_authFailures = 0, rc_idleDestroys = 0, rc_memoryCloses = 0\<rparr>"

definition no_circuit :: circuit where
  "no_circuit = \<lparr>cc_client = 0, cc_clientId = 0, cc_service = 0, cc_serviceId = 0, cc_open = False, cc_createdAt = 0,
     cc_lastActivity = 0, cc_name = []\<rparr>"

definition fresh_connection :: "conn_kind \<Rightarrow> jsstring \<Rightarrow> nat \<Rightarrow> int \<Rightarrow> connection" where
  "fresh_connection kind ip bound now = \<lparr>cn_kind = kind, cn_ip = ip, cn_circuits = CircuitTable bound, cn_pending = 0,
     cn_perService = [], cn_violations = 0, cn_closed = False, cn_openedAt = now, cn_identityProven = False, cn_state = None,
     cn_challenge = None, cn_name = None, cn_nodeKeyHex = None, cn_domainKeyHex = None, cn_authNotAfter = None, cn_authCheckedAt = None\<rparr>"

definition relay_init :: relay_state where
  "relay_init = \<lparr>rs_conns = (\<lambda>_. fresh_connection Client_conn [] 0 0), rs_nextConn = 0, rs_live = [], rs_circuits = (\<lambda>_. no_circuit),
     rs_nextCircuit = 0, rs_services = [], rs_circuitCount = 0, rs_ipService = [], rs_lookups = [], rs_noKey = [], rs_ips = [],
     rs_tasks = [], rs_counters = zero_counters, rs_out = []\<rparr>"

definition RelayCore :: "(bytes \<Rightarrow> signing_key_pair) \<Rightarrow> jsstring \<Rightarrow> signing_key_pair \<Rightarrow> relay_limits \<Rightarrow> ed_verify \<Rightarrow> ed_sign
    \<Rightarrow> (jsstring \<Rightarrow> jsval option) \<Rightarrow> (relay_options \<times> relay_state) result" where
  "RelayCore fromSeed endpoint identity limits verify sign parse =
     (if endpoint = [] then Inl PlainError
      else rbind (signingKeyPairFromSecret fromSeed (sk_secretKey identity)) (\<lambda>kp.
        if \<not> bytesEqual (sk_publicKey kp) (sk_publicKey identity) then Inl PlainError
        else Inr (\<lparr>ro_endpoint = endpoint, ro_identity = kp, ro_limits = limits, ro_verify = verify, ro_sign = sign,
               ro_parse = parse\<rparr>, relay_init)))"

section \<open>Effects\<close>

definition emit :: "relay_out \<Rightarrow> relay_state \<Rightarrow> relay_state" where
  "emit x s = s\<lparr>rs_out := rs_out s @ [x]\<rparr>"

definition upd_conn :: "nat \<Rightarrow> (connection \<Rightarrow> connection) \<Rightarrow> relay_state \<Rightarrow> relay_state" where
  "upd_conn c f s = s\<lparr>rs_conns := (rs_conns s)(c := f (rs_conns s c))\<rparr>"

definition upd_circuit :: "nat \<Rightarrow> (circuit \<Rightarrow> circuit) \<Rightarrow> relay_state \<Rightarrow> relay_state" where
  "upd_circuit k f s = s\<lparr>rs_circuits := (rs_circuits s)(k := f (rs_circuits s k))\<rparr>"

definition counted :: "(relay_counters \<Rightarrow> relay_counters) \<Rightarrow> relay_state \<Rightarrow> relay_state" where
  "counted f s = s\<lparr>rs_counters := f (rs_counters s)\<rparr>"

text \<open>
  The bytes of a frame the relay builds. An encoder that threw would leave no bytes here;
  that no encoder ever throws is part of what is proved about the log.
\<close>

definition wire :: "bytes result \<Rightarrow> bytes" where
  "wire r = (case r of Inl _ \<Rightarrow> [] | Inr bs \<Rightarrow> bs)"

definition frame_bytes :: "frame_type \<Rightarrow> nat \<Rightarrow> bytes \<Rightarrow> bytes" where
  "frame_bytes t circuitId payload = wire (encodeFrame \<lparr>eo_type = FrameType t, eo_circuitId = Some (int circuitId), eo_streamId = None,
     eo_flags = None, eo_payload = Some payload\<rparr>)"

definition sendTo :: "nat \<Rightarrow> frame_type \<Rightarrow> nat \<Rightarrow> bytes \<Rightarrow> relay_state \<Rightarrow> relay_state" where
  "sendTo c t circuitId payload s = (if cn_closed (rs_conns s c) then s else emit (Out_send c (frame_bytes t circuitId payload)) s)"

section \<open>Removing a circuit\<close>

datatype side = To_client | To_service | To_both

definition ipKey :: "jsstring \<Rightarrow> jsstring \<Rightarrow> jsstring" where
  "ipKey ip name = ip @ [0] @ name"

definition count_of :: "('k \<times> int) list \<Rightarrow> 'k \<Rightarrow> int" where
  "count_of m k = (case map_of m k of None \<Rightarrow> 0 | Some n \<Rightarrow> n)"

definition count_down :: "'k \<Rightarrow> ('k \<times> int) list \<Rightarrow> ('k \<times> int) list" where
  "count_down k m = (let n = (case map_of m k of None \<Rightarrow> 1 | Some n \<Rightarrow> n) - 1 in
     if n > 0 then AList.update k n m else AList.delete k m)"

definition owned_by_client :: "nat \<Rightarrow> relay_state \<Rightarrow> bool" where
  "owned_by_client k s \<longleftrightarrow> ct_get (cn_circuits (rs_conns s (cc_client (rs_circuits s k)))) (cc_clientId (rs_circuits s k)) = Some k"

definition owned_by_service :: "nat \<Rightarrow> relay_state \<Rightarrow> bool" where
  "owned_by_service k s \<longleftrightarrow> ct_get (cn_circuits (rs_conns s (cc_service (rs_circuits s k)))) (cc_serviceId (rs_circuits s k)) = Some k"

definition drop_entry :: "nat \<Rightarrow> connection \<Rightarrow> connection" where
  "drop_entry cid cn = cn\<lparr>cn_circuits := snd (ct_delete (cn_circuits cn) cid)\<rparr>"

definition removeCircuit :: "nat \<Rightarrow> side \<Rightarrow> nat \<Rightarrow> relay_state \<Rightarrow> relay_state" where
  "removeCircuit k notify reason s =
     (let ci = rs_circuits s k; client = cc_client ci; service = cc_service ci;
          ownedByClient = owned_by_client k s; ownedByService = owned_by_service k s in
      if \<not> ownedByClient \<and> \<not> ownedByService then s
      else
        let s = (if ownedByClient then upd_conn client (drop_entry (cc_clientId ci)) s else s);
            s = (if ownedByService then upd_conn service (drop_entry (cc_serviceId ci)) s else s);
            s = (if \<not> cc_open ci then upd_conn client (\<lambda>cn. cn\<lparr>cn_pending := cn_pending cn - 1\<rparr>) s else s);
            s = s\<lparr>rs_circuitCount := rs_circuitCount s - 1\<rparr>;
            s = upd_conn client (\<lambda>cn. cn\<lparr>cn_perService := count_down service (cn_perService cn)\<rparr>) s;
            s = s\<lparr>rs_ipService := count_down (ipKey (cn_ip (rs_conns s client)) (cc_name ci)) (rs_ipService s)\<rparr>;
            payload = wire (encodeDestroy (js_int (int reason)));
            s = (if notify \<noteq> To_service then sendTo client CIRCUIT_DESTROY (cc_clientId ci) payload s else s)
        in if notify \<noteq> To_client then sendTo service CIRCUIT_DESTROY (cc_serviceId ci) payload s else s)"

section \<open>Closing\<close>

definition onTransportClosed :: "nat \<Rightarrow> relay_state \<Rightarrow> relay_state" where
  "onTransportClosed c s =
     (if cn_closed (rs_conns s c) then s
      else
        let s = upd_conn c (\<lambda>cn. cn\<lparr>cn_closed := True\<rparr>) s;
            s = s\<lparr>rs_live := remove1 c (rs_live s)\<rparr>;
            cn = rs_conns s c;
            s = s\<lparr>rs_ips := ip_release (cn_ip cn) (rs_ips s)\<rparr>;
            s = (case cn_name cn of
                   Some name \<Rightarrow> if cn_kind cn = Service_conn \<and> name \<noteq> [] \<and> map_of (rs_services s) name = Some c
                     then s\<lparr>rs_services := AList.delete name (rs_services s)\<rparr> else s
                 | None \<Rightarrow> s);
            (drained, table) = ct_drain (cn_circuits cn);
            s = upd_conn c (\<lambda>cn. cn\<lparr>cn_circuits := table\<rparr>) s
        in fold (\<lambda>k s. removeCircuit k (if c = cc_client (rs_circuits s k) then To_service else To_client) (ErrorCode CIRCUIT_UNKNOWN) s)
             drained s)"

definition closeConnection :: "nat \<Rightarrow> nat \<Rightarrow> jsstring \<Rightarrow> relay_state \<Rightarrow> relay_state" where
  "closeConnection c code reason s = (if cn_closed (rs_conns s c) then s else onTransportClosed c (emit (Out_close c code reason) s))"

definition fail :: "nat \<Rightarrow> nat \<Rightarrow> nat \<Rightarrow> relay_state \<Rightarrow> relay_state" where
  "fail c code closeCode s =
     (if cn_closed (rs_conns s c) then s
      else
        let s = (if code = ErrorCode PROTOCOL_VIOLATION then counted (rc_protocolViolations_update Suc) s else s);
            s = emit (Out_send c (wire (encodeError \<lparr>pe_code = code, pe_scope = ErrorScope SCOPE_CONNECTION, pe_detail = []\<rparr> 0 (js_int 0)))) s
        in closeConnection c closeCode (js ''protocol error'') s)"

definition unowned :: "relay_state \<Rightarrow> relay_state" where
  "unowned s = counted (rc_framesDropped_update Suc) s"

definition violated :: "relay_options \<Rightarrow> nat \<Rightarrow> relay_state \<Rightarrow> relay_state" where
  "violated R c s =
     (let s = counted (rc_framesDropped_update Suc) s;
          s = upd_conn c (\<lambda>cn. cn\<lparr>cn_violations := cn_violations cn + 1\<rparr>) s
      in if cn_violations (rs_conns s c) > maxViolations (ro_limits R)
         then fail c (ErrorCode PROTOCOL_VIOLATION) CLOSE_POLICY s else s)"

section \<open>Admission and lifecycle\<close>

datatype admission = Admitted | Not_admitted nat jsstring

definition admit :: "relay_options \<Rightarrow> relay_world \<Rightarrow> jsstring \<Rightarrow> relay_state \<Rightarrow> admission \<times> relay_state" where
  "admit R W ip s =
     (if length (rs_live s) \<ge> maxConnections (ro_limits R) then (Not_admitted 503 (js ''relay at capacity''), s)
      else case ip_admit (ro_limits R) ip (w_now W) (rs_ips s) of (verdict, ips) \<Rightarrow>
        (if verdict = Admit_ok then Admitted
         else Not_admitted (if verdict = Admit_table_full then 503 else 429) (js ''too many connections''), s\<lparr>rs_ips := ips\<rparr>))"

definition releaseAdmission :: "jsstring \<Rightarrow> relay_state \<Rightarrow> relay_state" where
  "releaseAdmission ip s = s\<lparr>rs_ips := ip_release ip (rs_ips s)\<rparr>"

definition newConnection :: "conn_kind \<Rightarrow> jsstring \<Rightarrow> nat \<Rightarrow> relay_world \<Rightarrow> relay_state \<Rightarrow> nat \<times> relay_state" where
  "newConnection kind ip bound W s = (rs_nextConn s,
     s\<lparr>rs_conns := (rs_conns s)(rs_nextConn s := fresh_connection kind ip bound (w_now W)), rs_nextConn := rs_nextConn s + 1,
       rs_live := rs_live s @ [rs_nextConn s]\<rparr>)"

definition acceptClient :: "relay_options \<Rightarrow> relay_world \<Rightarrow> jsstring \<Rightarrow> relay_state \<Rightarrow> nat \<times> relay_state" where
  "acceptClient R W ip s = newConnection Client_conn ip (maxCircuitsPerClient (ro_limits R)) W s"

definition acceptService :: "relay_options \<Rightarrow> relay_world \<Rightarrow> jsstring \<Rightarrow> bytes \<Rightarrow> relay_state \<Rightarrow> nat \<times> relay_state" where
  "acceptService R W ip challenge s =
     (case newConnection Service_conn ip (maxCircuitsPerService (ro_limits R)) W s of (c, s) \<Rightarrow>
        let s = upd_conn c (\<lambda>cn. cn\<lparr>cn_state := Some Awaiting_auth, cn_challenge := Some challenge\<rparr>) s
        in (c, emit (Out_send c (frame_bytes HELLO 0 challenge)) s))"

record relay_stats =
  st_connections :: nat
  st_clients :: nat
  st_serviceNodes :: nat
  st_circuits :: int
  st_counters :: relay_counters

definition stats :: "relay_state \<Rightarrow> relay_stats" where
  "stats s = \<lparr>st_connections = length (rs_live s), st_clients = length (filter (\<lambda>c. cn_kind (rs_conns s c) = Client_conn) (rs_live s)),
     st_serviceNodes = length (rs_services s), st_circuits = rs_circuitCount s, st_counters = rs_counters s\<rparr>"

definition shutdown :: "relay_state \<Rightarrow> relay_state" where
  "shutdown s = fold (\<lambda>c. closeConnection c CLOSE_NORMAL (js ''shutdown'')) (rs_live s) s"

section \<open>Forwarding\<close>

definition with_circuit_id :: "nat \<Rightarrow> bytes \<Rightarrow> bytes" where
  "with_circuit_id cid raw = take 4 raw @ be_bytes 8 cid @ drop 12 raw"

definition forward :: "relay_options \<Rightarrow> relay_world \<Rightarrow> nat \<Rightarrow> conn_kind \<Rightarrow> bytes \<Rightarrow> relay_state \<Rightarrow> relay_state" where
  "forward R W k to raw s =
     (let ci = rs_circuits s k;
          dest = (if to = Client_conn then cc_client ci else cc_service ci);
          destId = (if to = Client_conn then cc_clientId ci else cc_serviceId ci);
          limit = (if to = Client_conn then clientBufferLimit (ro_limits R) else serviceBufferLimit (ro_limits R))
      in if cn_closed (rs_conns s dest) then s
         else if w_buffered W (rs_out s) dest + length raw > limit
           then removeCircuit k To_both (ErrorCode RESOURCE_EXHAUSTED) (counted (rc_backpressureDestroys_update Suc) s)
         else
           let out = with_circuit_id destId raw;
               result = w_sent W (rs_out s) dest out;
               s = emit (Out_send dest out) s
           in if result = 0 then s
              else counted (rc_framesForwarded_update Suc \<circ> rc_bytesForwarded_update (\<lambda>n. n + length out))
                     (upd_circuit k (\<lambda>ci. ci\<lparr>cc_lastActivity := w_now W\<rparr>) s))"

function pick_service_id :: "nat circuit_table \<Rightarrow> bytes list \<Rightarrow> nat option" where
  "pick_service_id t draws = (case generateCircuitId draws of
     None \<Rightarrow> None
   | Some (i, rest) \<Rightarrow> if ct_has t i then pick_service_id t rest else Some i)"
  by auto

lemma generateCircuitId_shorter: "generateCircuitId draws = Some (i, rest) \<Longrightarrow> length rest < length draws"
  by (induction draws rule: generateCircuitId.induct) (auto simp: Let_def less_Suc_eq split: if_splits)

termination pick_service_id
  by (relation "measure (\<lambda>(t, draws). length draws)") (auto dest: generateCircuitId_shorter)

definition rejected :: "nat \<Rightarrow> nat \<Rightarrow> error_code \<Rightarrow> relay_state \<Rightarrow> relay_state" where
  "rejected c cid code s = sendTo c CIRCUIT_DESTROY cid (wire (encodeDestroy (js_int (int (ErrorCode code)))))
     (counted (rc_circuitsRejected_update Suc) s)"

text \<open>The insertion of the new circuit, then the frame to the service node.\<close>

definition insertCircuit :: "relay_world \<Rightarrow> nat \<Rightarrow> nat \<Rightarrow> nat \<Rightarrow> nat \<Rightarrow> jsstring \<Rightarrow> relay_state \<Rightarrow> relay_state" where
  "insertCircuit W c cid service serviceId name s =
     (let k = rs_nextCircuit s;
          ci = \<lparr>cc_client = c, cc_clientId = cid, cc_service = service, cc_serviceId = serviceId, cc_open = False,
                cc_createdAt = w_now W, cc_lastActivity = w_now W, cc_name = name\<rparr>;
          key = ipKey (cn_ip (rs_conns s c)) name;
          s = s\<lparr>rs_circuits := (rs_circuits s)(k := ci), rs_nextCircuit := k + 1\<rparr>;
          s = upd_conn c (\<lambda>cn. cn\<lparr>cn_circuits := snd (ct_add (cn_circuits cn) cid k)\<rparr>) s;
          s = upd_conn service (\<lambda>cn. cn\<lparr>cn_circuits := snd (ct_add (cn_circuits cn) serviceId k)\<rparr>) s;
          s = upd_conn c (\<lambda>cn. cn\<lparr>cn_pending := cn_pending cn + 1,
                cn_perService := AList.update service (count_of (cn_perService cn) service + 1) (cn_perService cn)\<rparr>) s
      in s\<lparr>rs_ipService := AList.update key (count_of (rs_ipService s) key + 1) (rs_ipService s), rs_circuitCount := rs_circuitCount s + 1\<rparr>)"

definition createCircuit :: "relay_options \<Rightarrow> relay_world \<Rightarrow> nat \<Rightarrow> frame \<Rightarrow> relay_state \<Rightarrow> relay_state option" where
  "createCircuit R W c f s =
     (let cid = f_circuitId f; limits = ro_limits R in
      if cid = 0 \<or> f_streamId f \<noteq> 0 then Some (violated R c s)
      else if ct_has (cn_circuits (rs_conns s c)) cid then Some (violated R c s)
      else case allowCreate (cn_ip (rs_conns s c)) (w_now W) (rs_ips s) of (allowed, ips) \<Rightarrow>
        let s = s\<lparr>rs_ips := ips\<rparr> in
        if \<not> allowed then Some (rejected c cid RATE_LIMIT s)
        else if atCapacity (cn_circuits (rs_conns s c)) \<or> cn_pending (rs_conns s c) \<ge> maxPendingPerClient limits
            \<or> rs_circuitCount s \<ge> maxCircuits limits
          then Some (rejected c cid CIRCUIT_LIMIT s)
        else case decodeCircuitCreate (f_payload f) of
          Inl _ \<Rightarrow> Some (rejected c cid PROTOCOL_VIOLATION (counted (rc_protocolViolations_update Suc) s))
        | Inr (name, _) \<Rightarrow> (case map_of (rs_services s) name of
            None \<Rightarrow> Some (rejected c cid CIRCUIT_REJECTED s)
          | Some service \<Rightarrow>
              if cn_closed (rs_conns s service) then Some (rejected c cid CIRCUIT_REJECTED s)
              else if count_of (cn_perService (rs_conns s c)) service \<ge> maxCircuitsPerClientPerService limits
                  \<or> count_of (rs_ipService s) (ipKey (cn_ip (rs_conns s c)) name) \<ge> maxCircuitsPerIpPerService limits
                then Some (rejected c cid CIRCUIT_LIMIT s)
              else if atCapacity (cn_circuits (rs_conns s service)) then Some (rejected c cid RESOURCE_EXHAUSTED s)
              else (case pick_service_id (cn_circuits (rs_conns s service)) (w_draws W) of
                  None \<Rightarrow> None
                | Some serviceId \<Rightarrow> Some (sendTo service CIRCUIT_CREATE serviceId (f_payload f) (insertCircuit W c cid service serviceId name s)))))"

section \<open>Frames of clients and of registered service nodes\<close>

definition receiveFromClient :: "relay_options \<Rightarrow> relay_world \<Rightarrow> nat \<Rightarrow> frame \<Rightarrow> bytes \<Rightarrow> relay_state \<Rightarrow> relay_state option" where
  "receiveFromClient R W c f raw s =
     (if f_type f = FrameType CIRCUIT_CREATE then createCircuit R W c f s
      else if f_type f = FrameType STREAM_DATA then Some (case ct_get (cn_circuits (rs_conns s c)) (f_circuitId f) of
          None \<Rightarrow> unowned s
        | Some k \<Rightarrow>
            if \<not> cc_open (rs_circuits s k)
            then removeCircuit k To_both (ErrorCode PROTOCOL_VIOLATION) (counted (rc_protocolViolations_update Suc) s)
            else forward R W k Service_conn raw s)
      else if f_type f = FrameType CIRCUIT_DESTROY then Some (case ct_get (cn_circuits (rs_conns s c)) (f_circuitId f) of
          None \<Rightarrow> unowned s
        | Some k \<Rightarrow> removeCircuit k To_service DESTROY_NORMAL s)
      else Some (violated R c s))"

definition openCircuit :: "nat \<Rightarrow> relay_state \<Rightarrow> relay_state" where
  "openCircuit k s = counted (rc_circuitsOpened_update Suc)
     (upd_conn (cc_client (rs_circuits s k)) (\<lambda>cn. cn\<lparr>cn_pending := cn_pending cn - 1\<rparr>)
       (upd_circuit k (\<lambda>ci. ci\<lparr>cc_open := True\<rparr>) s))"

definition receiveFromService :: "relay_options \<Rightarrow> relay_world \<Rightarrow> nat \<Rightarrow> frame \<Rightarrow> bytes \<Rightarrow> relay_state \<Rightarrow> relay_state" where
  "receiveFromService R W c f raw s =
     (if f_type f = FrameType CIRCUIT_CREATED then (case ct_get (cn_circuits (rs_conns s c)) (f_circuitId f) of
          None \<Rightarrow> violated R c s
        | Some k \<Rightarrow>
            if cc_open (rs_circuits s k) then violated R c s
            else if length (f_payload f) \<noteq> HANDSHAKE_MESSAGE_SIZE \<or> f_streamId f \<noteq> 0
              then removeCircuit k To_both (ErrorCode PROTOCOL_VIOLATION) (counted (rc_protocolViolations_update Suc) s)
            else forward R W k Client_conn raw (openCircuit k s))
      else if f_type f = FrameType STREAM_DATA then (case ct_get (cn_circuits (rs_conns s c)) (f_circuitId f) of
          None \<Rightarrow> unowned s
        | Some k \<Rightarrow> if \<not> cc_open (rs_circuits s k) then violated R c s else forward R W k Client_conn raw s)
      else if f_type f = FrameType CIRCUIT_DESTROY then (case ct_get (cn_circuits (rs_conns s c)) (f_circuitId f) of
          None \<Rightarrow> unowned s
        | Some k \<Rightarrow> removeCircuit k To_client DESTROY_NORMAL s)
      else violated R c s)"

text \<open>The answer to a peer's HELLO. The flag says that signing or encoding threw.\<close>

definition proveIdentity :: "relay_options \<Rightarrow> nat \<Rightarrow> frame \<Rightarrow> relay_state \<Rightarrow> bool \<times> relay_state" where
  "proveIdentity R c f s =
     (if f_circuitId f \<noteq> 0 \<or> f_streamId f \<noteq> 0 \<or> cn_identityProven (rs_conns s c) then (False, violated R c s)
      else case decodeRelayHello (f_payload f) of
        Inl _ \<Rightarrow> (False, fail c (ErrorCode PROTOCOL_VIOLATION) CLOSE_POLICY s)
      | Inr nonce \<Rightarrow>
          let s = upd_conn c (\<lambda>cn. cn\<lparr>cn_identityProven := True\<rparr>) s; key = sk_publicKey (ro_identity R) in
          (case rbind (signRelayIdentity (ro_sign R) \<lparr>ri_endpoint = ro_endpoint R, ri_nonce = nonce, ri_relayKey = KeyBytes key\<rparr>
                    (sk_secretKey (ro_identity R))) (\<lambda>sig. encodeRelayHelloAck key sig) of
             Inl _ \<Rightarrow> (True, s)
           | Inr payload \<Rightarrow> (False, emit (Out_send c (frame_bytes HELLO_ACK 0 payload)) s)))"

section \<open>Authentication of service nodes\<close>

definition authFailed :: "nat \<Rightarrow> error_code \<Rightarrow> relay_state \<Rightarrow> relay_state" where
  "authFailed c code s = fail c (ErrorCode code) (if code = RESOURCE_EXHAUSTED then CLOSE_TRY_LATER else CLOSE_POLICY)
     (counted (rc_authFailures_update Suc) s)"

text \<open>The lookup a caller will wait for, or the answer it has at once.\<close>

definition domainKeyFor :: "relay_world \<Rightarrow> jsstring \<Rightarrow> relay_state \<Rightarrow> lookup_state \<times> relay_state" where
  "domainKeyFor W name s =
     (case map_of (rs_noKey s) name of
        Some expiry \<Rightarrow>
          if expiry > w_now W then (Looked None, s)
          else let s = s\<lparr>rs_noKey := AList.delete name (rs_noKey s)\<rparr> in
            if name \<in> set (rs_lookups s) then (Awaiting, s)
            else (Awaiting, emit (Out_lookup name) (s\<lparr>rs_lookups := rs_lookups s @ [name]\<rparr>))
      | None \<Rightarrow>
          if name \<in> set (rs_lookups s) then (Awaiting, s)
          else (Awaiting, emit (Out_lookup name) (s\<lparr>rs_lookups := rs_lookups s @ [name]\<rparr>)))"

definition suspend :: "relay_world \<Rightarrow> (jsval list \<times> jsstring) option \<Rightarrow> nat \<Rightarrow> jsstring \<Rightarrow> relay_state \<Rightarrow> relay_state" where
  "suspend W verify c name s = (case domainKeyFor W name s of (l, s) \<Rightarrow>
     s\<lparr>rs_tasks := rs_tasks s @ [\<lparr>rt_verify = verify, rt_conn = c, rt_name = name, rt_lookup = l\<rparr>]\<rparr>)"

definition receiveUnauthenticated :: "relay_options \<Rightarrow> relay_world \<Rightarrow> nat \<Rightarrow> frame \<Rightarrow> relay_state \<Rightarrow> relay_state" where
  "receiveUnauthenticated R W c f s =
     (if cn_state (rs_conns s c) \<noteq> Some Awaiting_auth \<or> f_type f \<noteq> FrameType AUTH \<or> f_circuitId f \<noteq> 0
      then fail c (ErrorCode AUTH_REQUIRED) CLOSE_POLICY (counted (rc_authFailures_update Suc) s)
      else case decodeServiceAuth (ro_parse R) (f_payload f) of
        Inl _ \<Rightarrow> fail c (ErrorCode PROTOCOL_VIOLATION) CLOSE_POLICY (counted (rc_authFailures_update Suc) s)
      | Inr auth \<Rightarrow> (case allowAuth (cn_ip (rs_conns s c)) (w_now W) (rs_ips s) of (allowed, ips) \<Rightarrow>
          let s = s\<lparr>rs_ips := ips\<rparr> in
          if \<not> allowed then authFailed c RATE_LIMIT s
          else suspend W (Some (sa_chain auth, sa_signature auth)) c (sa_name auth)
                 (upd_conn c (\<lambda>cn. cn\<lparr>cn_state := Some Verifying\<rparr>) s)))"

definition lookup_outcome :: "lookup_state \<Rightarrow> bytes option" where
  "lookup_outcome l = (case l of Looked key \<Rightarrow> key | _ \<Rightarrow> None)"

definition auth_error :: "verify_failure \<Rightarrow> error_code" where
  "auth_error reason = (if reason = Expired then AUTH_EXPIRED else if reason = Revoked then REVOKED else AUTH_FAILED)"

definition service_auth_options :: "relay_world \<Rightarrow> jsstring \<Rightarrow> bytes \<Rightarrow> verify_options" where
  "service_auth_options W name domainKey = \<lparr>vo_trustedRoots = [KeyBytes domainKey], vo_now = js_int (w_now W div 1000), vo_revoked = None,
     vo_knownSerials = None, vo_requirePurpose = SERVICE_NODE, vo_requireScope = Some name\<rparr>"

definition register :: "relay_world \<Rightarrow> nat \<Rightarrow> jsstring \<Rightarrow> bytes \<Rightarrow> verified_chain \<Rightarrow> relay_state \<Rightarrow> relay_state" where
  "register W c name domainKey v s =
     (let s = upd_conn c (\<lambda>cn. cn\<lparr>cn_state := Some Ready, cn_name := Some name, cn_nodeKeyHex := Some (toHex (vc_subject v)),
            cn_domainKeyHex := Some (toHex domainKey), cn_authNotAfter := Some (vc_notAfter v), cn_authCheckedAt := Some (w_now W),
            cn_challenge := None\<rparr>) s;
          s = s\<lparr>rs_services := AList.update name c (rs_services s)\<rparr>
      in emit (Out_send c (frame_bytes AUTH_OK 0 [])) s)"

text \<open>
  What \<^verbatim>\<open>verifyService\<close> does after its \<^verbatim>\<open>await\<close>. An exception of \<^verbatim>\<open>verifyChain\<close> would end the call with
  nothing done; with a key of 32 bytes and an integer clock there is none.
\<close>

definition verifyService :: "relay_options \<Rightarrow> relay_world \<Rightarrow> nat \<Rightarrow> jsstring \<Rightarrow> jsval list \<Rightarrow> jsstring \<Rightarrow> lookup_state \<Rightarrow> relay_state \<Rightarrow> relay_state" where
  "verifyService R W c name chain signature l s =
     (if cn_closed (rs_conns s c) then s
      else case lookup_outcome l of
        None \<Rightarrow> authFailed c AUTH_FAILED s
      | Some domainKey \<Rightarrow> (case verifyChain (ro_verify R) (JArr chain) (service_auth_options W name domainKey) of
          Inl _ \<Rightarrow> s
        | Inr (Failed reason) \<Rightarrow> authFailed c (auth_error reason) s
        | Inr (Verified v) \<Rightarrow> (case cn_challenge (rs_conns s c) of
            None \<Rightarrow> authFailed c AUTH_FAILED s
          | Some challenge \<Rightarrow>
              if \<not> verifyServiceAuth (ro_verify R) \<lparr>sas_name = name, sas_endpoint = ro_endpoint R, sas_challenge = challenge,
                     sas_nodeKey = KeyBytes (vc_subject v)\<rparr> signature
              then authFailed c AUTH_FAILED s
              else
                let incumbent = (case map_of (rs_services s) name of
                      None \<Rightarrow> None | Some i \<Rightarrow> if cn_closed (rs_conns s i) then None else Some i) in
                if (case incumbent of None \<Rightarrow> False | Some i \<Rightarrow> cn_nodeKeyHex (rs_conns s i) \<noteq> Some (toHex (vc_subject v)))
                then authFailed c ALREADY_REGISTERED s
                else
                  let s = (case incumbent of None \<Rightarrow> s
                        | Some i \<Rightarrow> closeConnection i CLOSE_NORMAL (js ''replaced by the same node'') s) in
                  if length (rs_services s) \<ge> maxServiceNodes (ro_limits R) then authFailed c RESOURCE_EXHAUSTED s
                  else register W c name domainKey v s)))"

text \<open>\<^verbatim>\<open>hexToBytes\<close>, with what \<^verbatim>\<open>Number.parseInt\<close> makes of any two characters.\<close>

definition hex_value :: "nat \<Rightarrow> nat option" where
  "hex_value ch = (if 48 \<le> ch \<and> ch \<le> 57 then Some (ch - 48) else if 97 \<le> ch \<and> ch \<le> 102 then Some (ch - 87)
     else if 65 \<le> ch \<and> ch \<le> 70 then Some (ch - 55) else None)"

definition parse_hex2 :: "nat \<Rightarrow> nat \<Rightarrow> nat" where
  "parse_hex2 a b = (case hex_value a of
     Some x \<Rightarrow> (case hex_value b of Some y \<Rightarrow> 16 * x + y | None \<Rightarrow> x)
   | None \<Rightarrow> (case hex_value b of
       None \<Rightarrow> 0
     | Some y \<Rightarrow> if js_space a \<or> a = 43 then y else if a = 45 then (256 - y) mod 256 else 0))"

fun hexToBytes :: "jsstring \<Rightarrow> bytes" where
  "hexToBytes (a # b # rest) = word_of_nat (parse_hex2 a b) # hexToBytes rest"
| "hexToBytes _ = []"

definition recheckDomainKey :: "nat \<Rightarrow> lookup_state \<Rightarrow> relay_state \<Rightarrow> relay_state" where
  "recheckDomainKey c l s =
     (if l = Lookup_failed then s
      else if cn_closed (rs_conns s c) then s
      else if (case (lookup_outcome l, cn_domainKeyHex (rs_conns s c)) of
            (Some current, Some hex) \<Rightarrow> hex = [] \<or> \<not> bytesEqual current (hexToBytes hex)
          | _ \<Rightarrow> True)
        then fail c (ErrorCode REVOKED) CLOSE_POLICY s
      else s)"

text \<open>A lookup settles: the cache of absent keys, and everyone who waits.\<close>

datatype looked_up = Lookup_rejects | Lookup_null | Lookup_key key_input

definition settled_state :: "looked_up \<Rightarrow> lookup_state" where
  "settled_state r = (case r of
     Lookup_rejects \<Rightarrow> Lookup_failed
   | Lookup_null \<Rightarrow> Looked None
   | Lookup_key k \<Rightarrow> (case parsePublicKey k of Inl _ \<Rightarrow> Lookup_failed | Inr key \<Rightarrow> Looked (Some key)))"

definition remember_no_key :: "relay_options \<Rightarrow> relay_world \<Rightarrow> jsstring \<Rightarrow> (jsstring \<times> int) list \<Rightarrow> (jsstring \<times> int) list" where
  "remember_no_key R W name m =
     (let m = (if length m \<ge> lookupCacheMax (ro_limits R) then drop 1 m else m)
      in AList.update name (w_now W + lookupNegativeTtlMs (ro_limits R)) m)"

definition settleLookup :: "relay_options \<Rightarrow> relay_world \<Rightarrow> jsstring \<Rightarrow> looked_up \<Rightarrow> relay_state \<Rightarrow> relay_state" where
  "settleLookup R W name r s =
     (let l = settled_state r in
      s\<lparr>rs_noKey := (if l = Looked None then remember_no_key R W name (rs_noKey s) else rs_noKey s),
        rs_lookups := filter (\<lambda>n. n \<noteq> name) (rs_lookups s),
        rs_tasks := map (\<lambda>t. if rt_lookup t = Awaiting \<and> rt_name t = name then t\<lparr>rt_lookup := l\<rparr> else t) (rs_tasks s)\<rparr>)"

definition runTask :: "relay_options \<Rightarrow> relay_world \<Rightarrow> relay_task \<Rightarrow> relay_state \<Rightarrow> relay_state" where
  "runTask R W t s = (case rt_verify t of
     Some (chain, signature) \<Rightarrow> verifyService R W (rt_conn t) (rt_name t) chain signature (rt_lookup t) s
   | None \<Rightarrow> recheckDomainKey (rt_conn t) (rt_lookup t) s)"

section \<open>Dispatch\<close>

definition receive_frame :: "relay_options \<Rightarrow> relay_world \<Rightarrow> nat \<Rightarrow> frame \<Rightarrow> bytes \<Rightarrow> relay_state \<Rightarrow> (bool \<times> relay_state) option" where
  "receive_frame R W c f data s =
     (if f_type f = FrameType PING \<and> f_circuitId f = 0
        then Some (False, emit (Out_send c (frame_bytes PONG 0 (take 32 (f_payload f)))) s)
      else if f_type f = FrameType PONG then Some (False, s)
      else if f_type f = FrameType HELLO then Some (proveIdentity R c f s)
      else if cn_kind (rs_conns s c) = Service_conn \<and> cn_state (rs_conns s c) \<noteq> Some Ready
        then Some (False, receiveUnauthenticated R W c f s)
      else if cn_kind (rs_conns s c) = Client_conn then map_option (Pair False) (receiveFromClient R W c f data s)
      else Some (False, receiveFromService R W c f data s))"

definition receive_data :: "relay_options \<Rightarrow> relay_world \<Rightarrow> nat \<Rightarrow> bytes \<Rightarrow> relay_state \<Rightarrow> (bool \<times> relay_state) option" where
  "receive_data R W c data s =
     (if cn_closed (rs_conns s c) then Some (False, s)
      else if length data > MAX_FRAME_SIZE then Some (False, fail c (ErrorCode PROTOCOL_VIOLATION) CLOSE_TOO_BIG s)
      else case decodeFrame data of
        Inl err \<Rightarrow> Some (False, fail c (case err of FrameDecodeError code \<Rightarrow> code | _ \<Rightarrow> ErrorCode PROTOCOL_VIOLATION) CLOSE_POLICY s)
      | Inr f \<Rightarrow> receive_frame R W c f data s)"

definition handleReceive :: "relay_options \<Rightarrow> relay_world \<Rightarrow> nat \<Rightarrow> bytes \<Rightarrow> relay_state \<Rightarrow> relay_state option" where
  "handleReceive R W c data s = (case receive_data R W c data s of
     None \<Rightarrow> None
   | Some (threw, s) \<Rightarrow> Some (if threw then fail c (ErrorCode PROTOCOL_VIOLATION) CLOSE_POLICY s else s))"

section \<open>The sweep\<close>

definition sweep_circuit :: "relay_options \<Rightarrow> relay_world \<Rightarrow> nat \<Rightarrow> relay_state \<Rightarrow> relay_state" where
  "sweep_circuit R W k s =
     (let ci = rs_circuits s k in
      if \<not> cc_open ci \<and> w_now W - cc_createdAt ci > createTimeoutMs (ro_limits R)
        then removeCircuit k To_both (ErrorCode TARGET_UNREACHABLE) s
      else if cc_open ci \<and> w_now W - cc_lastActivity ci > circuitIdleMs (ro_limits R)
        then removeCircuit k To_both (ErrorCode RESOURCE_EXHAUSTED) (counted (rc_idleDestroys_update Suc) s)
      else s)"

definition recheck_due :: "relay_options \<Rightarrow> relay_world \<Rightarrow> nat \<Rightarrow> relay_state \<Rightarrow> relay_state" where
  "recheck_due R W c s =
     (if (case cn_authCheckedAt (rs_conns s c) of None \<Rightarrow> False | Some t \<Rightarrow> w_now W - t > reauthIntervalMs (ro_limits R))
      then let s = upd_conn c (\<lambda>cn. cn\<lparr>cn_authCheckedAt := Some (w_now W)\<rparr>) s in
        (case cn_name (rs_conns s c) of
           None \<Rightarrow> s
         | Some name \<Rightarrow> if name = [] then s else suspend W None c name s)
      else s)"

definition sweep_conn :: "relay_options \<Rightarrow> relay_world \<Rightarrow> nat \<Rightarrow> relay_state \<Rightarrow> relay_state" where
  "sweep_conn R W c s =
     (let cn = rs_conns s c in
      if cn_closed cn then s
      else if cn_kind cn \<noteq> Service_conn then s
      else if cn_state cn \<noteq> Some Ready then
        (if w_now W - cn_openedAt cn > handshakeTimeoutMs (ro_limits R) then authFailed c AUTH_REQUIRED s else s)
      else if (case cn_authNotAfter cn of None \<Rightarrow> False | Some t \<Rightarrow> w_now W div 1000 \<ge> int t)
        then fail c (ErrorCode AUTH_EXPIRED) CLOSE_POLICY s
      else fold (\<lambda>(_, k). sweep_circuit R W k) (ct_entries (cn_circuits cn)) (recheck_due R W c s))"

fun close_largest :: "relay_options \<Rightarrow> (nat \<times> nat) list \<Rightarrow> int \<Rightarrow> relay_state \<Rightarrow> relay_state" where
  "close_largest R [] used s = s"
| "close_largest R ((c, buffered) # rest) used s =
     (if used \<le> int (globalBufferLimit (ro_limits R)) then s
      else close_largest R rest (used - int buffered)
        (fail c (ErrorCode RESOURCE_EXHAUSTED) CLOSE_TRY_LATER (counted (rc_memoryCloses_update Suc) s)))"

definition enforceGlobalBuffer :: "relay_options \<Rightarrow> relay_world \<Rightarrow> relay_state \<Rightarrow> relay_state" where
  "enforceGlobalBuffer R W s =
     (let live = filter (\<lambda>c. \<not> cn_closed (rs_conns s c)) (rs_live s);
          sizes = map (\<lambda>c. (c, w_buffered W (rs_out s) c)) live;
          used = (\<Sum>(c, n) \<leftarrow> sizes. n)
      in if used \<le> globalBufferLimit (ro_limits R) then s
         else close_largest R (sort_key (\<lambda>(c, n). - int n) (filter (\<lambda>(c, n). n > 0) sizes)) (int used) s)"

definition sweep :: "relay_options \<Rightarrow> relay_world \<Rightarrow> relay_state \<Rightarrow> relay_state" where
  "sweep R W s =
     (let s = fold (sweep_conn R W) (rs_live s) s;
          s = enforceGlobalBuffer R W s
      in s\<lparr>rs_ips := ip_sweep (w_now W) (rs_ips s), rs_noKey := filter (\<lambda>(n, expiry). expiry > w_now W) (rs_noKey s)\<rparr>)"

section \<open>One event after another\<close>

datatype relay_event =
    Ev_admit jsstring | Ev_release jsstring | Ev_accept_client jsstring | Ev_accept_service jsstring bytes
  | Ev_receive nat bytes | Ev_closed nat | Ev_sweep | Ev_settled jsstring looked_up | Ev_task nat | Ev_shutdown

text \<open>None: the event cannot happen now, or the random source ran dry.\<close>

fun relay_step :: "relay_options \<Rightarrow> relay_world \<Rightarrow> relay_event \<Rightarrow> relay_state \<Rightarrow> relay_state option" where
  "relay_step R W (Ev_admit ip) s = Some (snd (admit R W ip s))"
| "relay_step R W (Ev_release ip) s = Some (releaseAdmission ip s)"
| "relay_step R W (Ev_accept_client ip) s = Some (snd (acceptClient R W ip s))"
| "relay_step R W (Ev_accept_service ip challenge) s =
     (if length challenge = SERVICE_CHALLENGE_SIZE then Some (snd (acceptService R W ip challenge s)) else None)"
| "relay_step R W (Ev_receive c data) s = (if c < rs_nextConn s then handleReceive R W c data s else None)"
| "relay_step R W (Ev_closed c) s = (if c < rs_nextConn s then Some (onTransportClosed c s) else None)"
| "relay_step R W Ev_sweep s = Some (sweep R W s)"
| "relay_step R W (Ev_settled name r) s = (if name \<in> set (rs_lookups s) then Some (settleLookup R W name r s) else None)"
| "relay_step R W (Ev_task i) s =
     (if i < length (rs_tasks s) \<and> rt_lookup (rs_tasks s ! i) \<noteq> Awaiting
      then Some (runTask R W (rs_tasks s ! i) (s\<lparr>rs_tasks := take i (rs_tasks s) @ drop (Suc i) (rs_tasks s)\<rparr>))
      else None)"
| "relay_step R W Ev_shutdown s = Some (shutdown s)"

text \<open>A draw of the random source for a circuit identifier is eight bytes.\<close>

definition world_ok :: "relay_world \<Rightarrow> bool" where
  "world_ok W \<longleftrightarrow> list_all (\<lambda>draw. length draw = 8) (w_draws W)"

inductive reachable :: "relay_options \<Rightarrow> relay_state \<Rightarrow> bool" for R where
  start: "reachable R relay_init"
| event: "reachable R s \<Longrightarrow> world_ok W \<Longrightarrow> relay_step R W e s = Some s' \<Longrightarrow> reachable R s'"

end
