(* ===== verification/Relay_Registry.thy ===== *)
theory Relay_Registry
  imports Relay_Core
begin

text \<open>
  Which circuits exist, who owns them and what is counted about them: the part of the relay's state
  its limits and its isolation rest on. Most of what an event does (sends, counters, rate
  limits, suspended calls) leaves this view of the state alone; the rest is five updates of it. The
  invariant is stated on the view, and each update keeps it.
\<close>

section \<open>The view\<close>

record member =
  m_kind :: conn_kind
  m_ip :: jsstring
  m_table :: "nat circuit_table"
  m_pending :: int
  m_perService :: "(nat \<times> int) list"
  m_closed :: bool
  m_state :: "service_state option"
  m_challenge :: "bytes option"
  m_name :: "jsstring option"
  m_key :: "jsstring option"

record link =
  l_client :: nat
  l_clientId :: nat
  l_service :: nat
  l_serviceId :: nat
  l_open :: bool
  l_name :: jsstring

record registry =
  v_conns :: "nat \<Rightarrow> member"
  v_nextConn :: nat
  v_live :: "nat list"
  v_links :: "nat \<Rightarrow> link"
  v_nextLink :: nat
  v_services :: "(jsstring \<times> nat) list"
  v_count :: int
  v_ipService :: "(jsstring \<times> int) list"

definition member_of :: "connection \<Rightarrow> member" where
  "member_of cn = \<lparr>m_kind = cn_kind cn, m_ip = cn_ip cn, m_table = cn_circuits cn, m_pending = cn_pending cn, m_perService = cn_perService cn,
     m_closed = cn_closed cn, m_state = cn_state cn, m_challenge = cn_challenge cn, m_name = cn_name cn, m_key = cn_nodeKeyHex cn\<rparr>"

definition link_of :: "circuit \<Rightarrow> link" where
  "link_of ci = \<lparr>l_client = cc_client ci, l_clientId = cc_clientId ci, l_service = cc_service ci, l_serviceId = cc_serviceId ci,
     l_open = cc_open ci, l_name = cc_name ci\<rparr>"

definition view :: "relay_state \<Rightarrow> registry" where
  "view s = \<lparr>v_conns = member_of \<circ> rs_conns s, v_nextConn = rs_nextConn s, v_live = rs_live s, v_links = link_of \<circ> rs_circuits s,
     v_nextLink = rs_nextCircuit s, v_services = rs_services s, v_count = rs_circuitCount s, v_ipService = rs_ipService s\<rparr>"

lemma member_of_sel [simp]: "m_kind (member_of cn) = cn_kind cn" "m_ip (member_of cn) = cn_ip cn" "m_table (member_of cn) = cn_circuits cn"
  "m_pending (member_of cn) = cn_pending cn" "m_perService (member_of cn) = cn_perService cn" "m_closed (member_of cn) = cn_closed cn"
  "m_state (member_of cn) = cn_state cn" "m_challenge (member_of cn) = cn_challenge cn" "m_name (member_of cn) = cn_name cn"
  "m_key (member_of cn) = cn_nodeKeyHex cn"
  by (simp_all add: member_of_def)

lemma link_of_sel [simp]: "l_client (link_of ci) = cc_client ci" "l_clientId (link_of ci) = cc_clientId ci" "l_service (link_of ci) = cc_service ci"
  "l_serviceId (link_of ci) = cc_serviceId ci" "l_open (link_of ci) = cc_open ci" "l_name (link_of ci) = cc_name ci"
  by (simp_all add: link_of_def)

lemma view_sel [simp]: "v_conns (view s) c = member_of (rs_conns s c)" "v_nextConn (view s) = rs_nextConn s" "v_live (view s) = rs_live s"
  "v_links (view s) k = link_of (rs_circuits s k)" "v_nextLink (view s) = rs_nextCircuit s" "v_services (view s) = rs_services s"
  "v_count (view s) = rs_circuitCount s" "v_ipService (view s) = rs_ipService s"
  by (simp_all add: view_def)

section \<open>Updates that leave the view alone\<close>

named_theorems unseen

lemma view_emit [simp, unseen]: "view (emit x s) = view s"
  by (simp add: view_def emit_def)

lemma view_counted [simp, unseen]: "view (counted f s) = view s"
  by (simp add: view_def counted_def)

lemma view_sendTo [simp, unseen]: "view (sendTo c t i p s) = view s"
  by (simp add: sendTo_def)

lemma view_unowned [simp, unseen]: "view (unowned s) = view s"
  by (simp add: unowned_def)

lemma view_rejected [simp, unseen]: "view (rejected c i e s) = view s"
  by (simp add: rejected_def)

lemma view_fields [simp, unseen]: "view (s\<lparr>rs_ips := a\<rparr>) = view s" "view (s\<lparr>rs_noKey := b\<rparr>) = view s" "view (s\<lparr>rs_lookups := d\<rparr>) = view s"
  "view (s\<lparr>rs_tasks := e\<rparr>) = view s"
  by (simp_all add: view_def)

lemma view_upd_conn: "view (upd_conn c f s) = (view s)\<lparr>v_conns := (v_conns (view s))(c := member_of (f (rs_conns s c)))\<rparr>"
  by (simp add: view_def upd_conn_def fun_eq_iff)

lemma view_upd_conn_same [simp]: "member_of (f (rs_conns s c)) = member_of (rs_conns s c) \<Longrightarrow> view (upd_conn c f s) = view s"
  by (simp add: view_def upd_conn_def fun_eq_iff)

lemma view_upd_circuit_same [simp]: "link_of (f (rs_circuits s k)) = link_of (rs_circuits s k) \<Longrightarrow> view (upd_circuit k f s) = view s"
  by (simp add: view_def upd_circuit_def fun_eq_iff)

lemma view_domainKeyFor [unseen]: "domainKeyFor W name s = (l, s') \<Longrightarrow> view s' = view s"
  by (auto simp: domainKeyFor_def Let_def split: option.splits if_splits)

lemma view_suspend [simp, unseen]: "view (suspend W t c name s) = view s"
  by (auto simp: suspend_def view_domainKeyFor split: prod.splits)

lemma view_settle [simp, unseen]: "view (settleLookup R W name r s) = view s"
  by (simp add: settleLookup_def Let_def view_def)

lemma view_recheck_due [simp, unseen]: "view (recheck_due R W c s) = view s"
  by (auto simp: recheck_due_def Let_def member_of_def split: option.splits)

section \<open>The updates of the view\<close>

definition v_upd :: "nat \<Rightarrow> (member \<Rightarrow> member) \<Rightarrow> registry \<Rightarrow> registry" where
  "v_upd c f v = v\<lparr>v_conns := (v_conns v)(c := f (v_conns v c))\<rparr>"

definition v_owned_c :: "nat \<Rightarrow> registry \<Rightarrow> bool" where
  "v_owned_c k v \<longleftrightarrow> ct_get (m_table (v_conns v (l_client (v_links v k)))) (l_clientId (v_links v k)) = Some k"

definition v_owned_s :: "nat \<Rightarrow> registry \<Rightarrow> bool" where
  "v_owned_s k v \<longleftrightarrow> ct_get (m_table (v_conns v (l_service (v_links v k)))) (l_serviceId (v_links v k)) = Some k"

definition v_drop :: "nat \<Rightarrow> member \<Rightarrow> member" where
  "v_drop cid m = m\<lparr>m_table := snd (ct_delete (m_table m) cid)\<rparr>"

definition v_remove :: "nat \<Rightarrow> registry \<Rightarrow> registry" where
  "v_remove k v = (let e = v_links v k; oc = v_owned_c k v; os = v_owned_s k v in
     if \<not> oc \<and> \<not> os then v
     else
       let v = (if oc then v_upd (l_client e) (v_drop (l_clientId e)) v else v);
           v = (if os then v_upd (l_service e) (v_drop (l_serviceId e)) v else v);
           v = (if \<not> l_open e then v_upd (l_client e) (\<lambda>m. m\<lparr>m_pending := m_pending m - 1\<rparr>) v else v);
           v = v_upd (l_client e) (\<lambda>m. m\<lparr>m_perService := count_down (l_service e) (m_perService m)\<rparr>) v
       in v\<lparr>v_count := v_count v - 1, v_ipService := count_down (ipKey (m_ip (v_conns v (l_client e))) (l_name e)) (v_ipService v)\<rparr>)"

lemma registry_eqI: "v_conns v = v_conns w \<Longrightarrow> v_nextConn v = v_nextConn w \<Longrightarrow> v_live v = v_live w \<Longrightarrow> v_links v = v_links w \<Longrightarrow>
    v_nextLink v = v_nextLink w \<Longrightarrow> v_services v = v_services w \<Longrightarrow> v_count v = v_count w \<Longrightarrow> v_ipService v = v_ipService w \<Longrightarrow> v = (w :: registry)"
  by simp

lemma member_eqI: "m_kind a = m_kind b \<Longrightarrow> m_ip a = m_ip b \<Longrightarrow> m_table a = m_table b \<Longrightarrow> m_pending a = m_pending b \<Longrightarrow> m_perService a = m_perService b \<Longrightarrow>
    m_closed a = m_closed b \<Longrightarrow> m_state a = m_state b \<Longrightarrow> m_challenge a = m_challenge b \<Longrightarrow> m_name a = m_name b \<Longrightarrow> m_key a = m_key b \<Longrightarrow> a = (b :: member)"
  by simp

lemma view_upd: "member_of \<circ> f = g \<circ> member_of \<Longrightarrow> view (upd_conn c f s) = v_upd c g (view s)"
  by (simp add: view_upd_conn v_upd_def fun_eq_iff o_def)

lemma view_count [simp]: "view (s\<lparr>rs_circuitCount := n\<rparr>) = (view s)\<lparr>v_count := n\<rparr>" "view (s\<lparr>rs_ipService := m\<rparr>) = (view s)\<lparr>v_ipService := m\<rparr>"
  by (simp_all add: view_def)

lemma owned_view: "owned_by_client k s = v_owned_c k (view s)" "owned_by_service k s = v_owned_s k (view s)"
  by (simp_all add: owned_by_client_def owned_by_service_def v_owned_c_def v_owned_s_def)

lemma view_drop [simp]: "view (upd_conn c (drop_entry i) s) = v_upd c (v_drop i) (view s)"
  by (rule view_upd) (simp add: fun_eq_iff drop_entry_def v_drop_def member_of_def)

lemma view_perService [simp]: "view (upd_conn c (\<lambda>cn. cn\<lparr>cn_perService := count_down d (cn_perService cn)\<rparr>) s) =
    v_upd c (\<lambda>m. m\<lparr>m_perService := count_down d (m_perService m)\<rparr>) (view s)"
  by (rule view_upd) (simp add: fun_eq_iff member_of_def)

lemma view_pending [simp]: "view (upd_conn c (\<lambda>cn. cn\<lparr>cn_pending := cn_pending cn - 1\<rparr>) s) =
    v_upd c (\<lambda>m. m\<lparr>m_pending := m_pending m - 1\<rparr>) (view s)"
  by (rule view_upd) (simp add: fun_eq_iff member_of_def)

lemma v_upd_count [simp]: "v_upd c f (v\<lparr>v_count := n\<rparr>) = (v_upd c f v)\<lparr>v_count := n\<rparr>"
  "v_ipService (v_upd c f v) = v_ipService v" "v_count (v_upd c f v) = v_count v"
  by (simp_all add: v_upd_def)

lemma upd_conn_sel [simp]: "rs_circuitCount (upd_conn c f s) = rs_circuitCount s" "rs_ipService (upd_conn c f s) = rs_ipService s"
  "rs_services (upd_conn c f s) = rs_services s" "rs_nextConn (upd_conn c f s) = rs_nextConn s" "rs_circuits (upd_conn c f s) = rs_circuits s"
  by (simp_all add: upd_conn_def)

lemma upd_conn_conns: "rs_conns (upd_conn c f s) d = (if d = c then f (rs_conns s c) else rs_conns s d)"
  by (simp add: upd_conn_def)

lemma conn_ip [simp]: "(\<And>x. cn_ip (f x) = cn_ip x) \<Longrightarrow> cn_ip (rs_conns (upd_conn c f s) d) = cn_ip (rs_conns s d)"
  by (simp add: upd_conn_conns)

lemma member_ip [simp]: "(\<And>x. m_ip (f x) = m_ip x) \<Longrightarrow> m_ip (v_conns (v_upd c f v) d) = m_ip (v_conns v d)"
  by (simp add: v_upd_def)

lemma drop_ip [simp]: "cn_ip (drop_entry i cn) = cn_ip cn" "m_ip (v_drop i m) = m_ip m"
  by (simp_all add: drop_entry_def v_drop_def)

lemma view_remove [simp]: "view (removeCircuit k n r s) = v_remove k (view s)"
  by (cases "v_owned_c k (view s)"; cases "v_owned_s k (view s)"; cases "cc_open (rs_circuits s k)")
    (simp_all add: removeCircuit_def v_remove_def Let_def owned_view)

section \<open>The invariant\<close>

definition held :: "registry \<Rightarrow> nat set" where
  "held v = {k. k < v_nextLink v \<and> v_owned_c k v}"

definition tally :: "(link \<Rightarrow> bool) \<Rightarrow> registry \<Rightarrow> int" where
  "tally F v = int (card {k \<in> held v. F (v_links v k)})"

definition counts :: "('k \<times> int) list \<Rightarrow> ('k \<Rightarrow> int) \<Rightarrow> bool" where
  "counts m f \<longleftrightarrow> distinct (map fst m) \<and> (\<forall>k. count_of m k = f k) \<and> (\<forall>(k, n) \<in> set m. n > 0)"

definition bound_of :: "relay_limits \<Rightarrow> conn_kind \<Rightarrow> nat" where
  "bound_of L kind = (if kind = Client_conn then maxCircuitsPerClient L else maxCircuitsPerService L)"

definition live_ok :: "registry \<Rightarrow> bool" where
  "live_ok v \<longleftrightarrow> distinct (v_live v) \<and> set (v_live v) = {c. c < v_nextConn v \<and> \<not> m_closed (v_conns v c)}"

definition ends_ok :: "registry \<Rightarrow> nat \<Rightarrow> bool" where
  "ends_ok v k \<longleftrightarrow> (let e = v_links v k in
     l_client e < v_nextConn v \<and> l_service e < v_nextConn v \<and>
     m_kind (v_conns v (l_client e)) = Client_conn \<and> m_kind (v_conns v (l_service e)) = Service_conn \<and>
     l_clientId e < 2 ^ 64 \<and> l_serviceId e < 2 ^ 64 \<and> (v_owned_c k v \<longleftrightarrow> v_owned_s k v) \<and>
     (v_owned_c k v \<longrightarrow> m_state (v_conns v (l_service e)) = Some Ready \<and> m_name (v_conns v (l_service e)) = Some (l_name e)))"

definition entry_ok :: "registry \<Rightarrow> nat \<Rightarrow> nat \<Rightarrow> nat \<Rightarrow> bool" where
  "entry_ok v c i k \<longleftrightarrow> k < v_nextLink v \<and>
     (if m_kind (v_conns v c) = Client_conn then l_client (v_links v k) = c \<and> l_clientId (v_links v k) = i
      else l_service (v_links v k) = c \<and> l_serviceId (v_links v k) = i)"

definition member_ok :: "relay_limits \<Rightarrow> registry \<Rightarrow> nat \<Rightarrow> bool" where
  "member_ok L v c \<longleftrightarrow> (let m = v_conns v c in
     ct_inv (m_table m) \<and> ct_max (m_table m) = bound_of L (m_kind m) \<and> (m_closed m \<longrightarrow> ct_circuits (m_table m) = []) \<and>
     (\<forall>i k. ct_get (m_table m) i = Some k \<longrightarrow> entry_ok v c i k) \<and>
     m_pending m = tally (\<lambda>e. l_client e = c \<and> \<not> l_open e) v \<and> m_pending m \<le> max 0 (maxPendingPerClient L) \<and>
     counts (m_perService m) (\<lambda>d. tally (\<lambda>e. l_client e = c \<and> l_service e = d) v) \<and>
     (\<forall>d. count_of (m_perService m) d \<le> max 0 (maxCircuitsPerClientPerService L)) \<and>
     (m_state m = Some Ready \<longrightarrow> m_kind m = Service_conn \<and> m_challenge m = None \<and> m_key m \<noteq> None \<and> m_name m \<noteq> None \<and> m_name m \<noteq> Some []) \<and>
     (m_kind m = Client_conn \<longrightarrow> m_challenge m = None \<and> m_state m = None))"

definition services_ok :: "registry \<Rightarrow> bool" where
  "services_ok v \<longleftrightarrow> distinct (map fst (v_services v)) \<and>
     (\<forall>n c. map_of (v_services v) n = Some c \<longleftrightarrow>
        c < v_nextConn v \<and> \<not> m_closed (v_conns v c) \<and> m_state (v_conns v c) = Some Ready \<and> m_name (v_conns v c) = Some n)"

definition totals_ok :: "relay_limits \<Rightarrow> registry \<Rightarrow> bool" where
  "totals_ok L v \<longleftrightarrow> v_count v = tally (\<lambda>_. True) v \<and> v_count v \<le> max 0 (maxCircuits L) \<and>
     counts (v_ipService v) (\<lambda>key. tally (\<lambda>e. ipKey (m_ip (v_conns v (l_client e))) (l_name e) = key) v) \<and>
     (\<forall>key. count_of (v_ipService v) key \<le> max 0 (maxCircuitsPerIpPerService L)) \<and>
     length (v_services v) \<le> maxServiceNodes L"

definition registry_ok :: "relay_limits \<Rightarrow> registry \<Rightarrow> bool" where
  "registry_ok L v \<longleftrightarrow> live_ok v \<and> (\<forall>k < v_nextLink v. ends_ok v k) \<and> (\<forall>c < v_nextConn v. member_ok L v c) \<and> services_ok v \<and> totals_ok L v"

lemmas registry_defs = registry_ok_def live_ok_def ends_ok_def member_ok_def services_ok_def totals_ok_def

lemma finite_held [simp]: "finite (held v)"
  by (simp add: held_def)

lemma tally_remove: "k \<in> held v \<Longrightarrow> held w = held v - {k} \<Longrightarrow> v_links w = v_links v \<Longrightarrow> tally F w = tally F v - (if F (v_links v k) then 1 else 0)"
proof -
  assume k: "k \<in> held v" "held w = held v - {k}" "v_links w = v_links v"
  let ?S = "{j \<in> held v. F (v_links v j)}"
  have "{j \<in> held w. F (v_links w j)} = ?S - {k}" using k by auto
  then have "card {j \<in> held w. F (v_links w j)} = card ?S - (if F (v_links v k) then 1 else 0)"
    using k(1) by (auto simp: card_Diff_singleton_if)
  moreover have "F (v_links v k) \<Longrightarrow> card ?S > 0" using k(1) by (auto simp: card_gt_0_iff)
  ultimately show ?thesis by (auto simp: tally_def)
qed

lemma tally_insert:
  assumes "k \<notin> held v" "held w = insert k (held v)" "\<forall>j \<in> held v. v_links w j = v_links v j"
  shows "tally F w = tally F v + (if F (v_links w k) then 1 else 0)"
proof -
  have "{j \<in> held w. F (v_links w j)} = (if F (v_links w k) then insert k {j \<in> held v. F (v_links v j)} else {j \<in> held v. F (v_links v j)})"
    using assms by auto
  moreover have "k \<notin> {j \<in> held v. F (v_links v j)}" using assms(1) by simp
  moreover have "finite {j \<in> held v. F (v_links v j)}" by simp
  ultimately show ?thesis by (auto simp: tally_def)
qed

lemma tally_cong: "held w = held v \<Longrightarrow> (\<And>j. j \<in> held v \<Longrightarrow> F (v_links w j) = Q (v_links v j)) \<Longrightarrow> tally F w = tally Q v"
  unfolding tally_def by (metis (mono_tags, lifting) Collect_cong)

lemma tally_nonneg [simp]: "0 \<le> tally F v"
  by (simp add: tally_def)

lemma count_of_update: "count_of (AList.update k n m) j = (if j = k then n else count_of m j)"
  by (simp add: count_of_def update_conv')

lemma counts_down: "counts m f \<Longrightarrow> f k > 0 \<Longrightarrow> counts (count_down k m) (f(k := f k - 1))"
proof -
  assume c: "counts m f" and k: "f k > 0"
  then have "count_of m k > 0" by (simp add: counts_def)
  then obtain n where n: "map_of m k = Some n" by (auto simp: count_of_def split: option.splits)
  then have fk: "f k = n" using c by (auto simp: counts_def count_of_def dest: spec [of _ k])
  have up: "(j, x) \<in> set (AList.update k y m) \<Longrightarrow> x = y \<or> (j, x) \<in> set m" for j x y
    by (induction m) (auto split: if_splits)
  show ?thesis
  proof (cases "n > 1")
    case True
    with c n fk show ?thesis
      by (auto simp: counts_def count_down_def count_of_update distinct_update dest!: up)
  next
    case False
    then have "n = 1" using fk k by simp
    then have "count_down k m = AList.delete k m" using n by (simp add: count_down_def)
    moreover have "count_of (AList.delete k m) j = (f(k := f k - 1)) j" for j
      using c fk \<open>n = 1\<close> by (auto simp: counts_def count_of_def delete_conv')
    moreover have "(j, x) \<in> set (AList.delete k m) \<Longrightarrow> x > 0" for j x
      using c set_delete_subset by (fastforce simp: counts_def AList.delete_eq)
    ultimately show ?thesis using c by (auto simp: counts_def distinct_delete)
  qed
qed

lemma counts_up: "counts m f \<Longrightarrow> f k \<ge> 0 \<Longrightarrow> counts (AList.update k (count_of m k + 1) m) (f(k := f k + 1))"
proof -
  assume c: "counts m f" and k: "f k \<ge> 0"
  have up: "(j, x) \<in> set (AList.update k y m) \<Longrightarrow> x = y \<or> (j, x) \<in> set m" for j x y
    by (induction m) (auto split: if_splits)
  have "count_of m k = f k" using c by (simp add: counts_def)
  with c k show ?thesis by (auto simp: counts_def count_of_update distinct_update dest!: up)
qed

lemma table_delete:
  assumes "ct_inv t"
  shows "ct_inv (snd (ct_delete t i))" "ct_get (snd (ct_delete t i)) = (ct_get t)(i := None)" "ct_max (snd (ct_delete t i)) = ct_max t"
  using circuit_table.del_result [OF assms, of i] by auto

lemma table_empty: "ct_inv t \<Longrightarrow> ct_circuits t = [] \<longleftrightarrow> (\<forall>i. ct_get t i = None)"
proof
  assume "\<forall>i. ct_get t i = None"
  then have "map_of (ct_circuits t) = (\<lambda>_. None)" by (simp add: ct_get_def fun_eq_iff)
  then show "ct_circuits t = []" by simp
qed (simp add: ct_get_def)

section \<open>Removing a circuit\<close>

definition removed_from :: "link \<Rightarrow> nat \<Rightarrow> member \<Rightarrow> member" where
  "removed_from e c m =
     (if c = l_client e then m\<lparr>m_table := snd (ct_delete (m_table m) (l_clientId e)),
          m_pending := m_pending m - (if l_open e then 0 else 1), m_perService := count_down (l_service e) (m_perService m)\<rparr>
      else if c = l_service e then m\<lparr>m_table := snd (ct_delete (m_table m) (l_serviceId e))\<rparr>
      else m)"

lemma removed_from_same [simp]: "m_kind (removed_from e c m) = m_kind m" "m_ip (removed_from e c m) = m_ip m" "m_closed (removed_from e c m) = m_closed m"
  "m_state (removed_from e c m) = m_state m" "m_challenge (removed_from e c m) = m_challenge m" "m_name (removed_from e c m) = m_name m"
  "m_key (removed_from e c m) = m_key m"
  by (simp_all add: removed_from_def)

lemma removed_perService: "c \<noteq> l_client e \<Longrightarrow> m_perService (removed_from e c m) = m_perService m"
  by (simp add: removed_from_def)

lemma removed_table:
  assumes "ct_inv (m_table m)"
  shows "ct_inv (m_table (removed_from e c m))" "ct_max (m_table (removed_from e c m)) = ct_max (m_table m)"
    "ct_get (m_table (removed_from e c m)) i = (if c = l_client e \<and> i = l_clientId e \<or> c \<noteq> l_client e \<and> c = l_service e \<and> i = l_serviceId e
      then None else ct_get (m_table m) i)"
  using assms by (simp_all add: removed_from_def table_delete)

lemma v_remove_eq:
  assumes "v_owned_c k v" "v_owned_s k v" "l_client (v_links v k) \<noteq> l_service (v_links v k)"
  shows "v_remove k v = v\<lparr>v_conns := (\<lambda>c. removed_from (v_links v k) c (v_conns v c)), v_count := v_count v - 1,
     v_ipService := count_down (ipKey (m_ip (v_conns v (l_client (v_links v k)))) (l_name (v_links v k))) (v_ipService v)\<rparr>"
  using assms by (cases "l_open (v_links v k)")
    (auto simp: v_remove_def Let_def v_upd_def v_drop_def removed_from_def fun_eq_iff intro!: registry_eqI member_eqI)

lemma v_remove_gen:
  assumes "v_owned_c k v \<or> v_owned_s k v" "l_client (v_links v k) \<noteq> l_service (v_links v k)"
  shows "v_remove k v = v\<lparr>v_conns := (\<lambda>d. let e = v_links v k; m = v_conns v d in
       if d = l_client e then m\<lparr>m_table := if v_owned_c k v then snd (ct_delete (m_table m) (l_clientId e)) else m_table m,
         m_pending := m_pending m - (if l_open e then 0 else 1), m_perService := count_down (l_service e) (m_perService m)\<rparr>
       else if d = l_service e \<and> v_owned_s k v then m\<lparr>m_table := snd (ct_delete (m_table m) (l_serviceId e))\<rparr>
       else m), v_count := v_count v - 1,
     v_ipService := count_down (ipKey (m_ip (v_conns v (l_client (v_links v k)))) (l_name (v_links v k))) (v_ipService v)\<rparr>"
  using assms by (cases "l_open (v_links v k)"; cases "v_owned_c k v"; cases "v_owned_s k v")
    (auto simp: v_remove_def Let_def v_upd_def v_drop_def fun_eq_iff intro!: registry_eqI member_eqI)

lemma v_remove_absent: "\<not> v_owned_c k v \<Longrightarrow> \<not> v_owned_s k v \<Longrightarrow> v_remove k v = v"
  by (simp add: v_remove_def)

lemma ok_link: "registry_ok L v \<Longrightarrow> k < v_nextLink v \<Longrightarrow> ends_ok v k"
  by (simp add: registry_ok_def)

lemma ok_member: "registry_ok L v \<Longrightarrow> c < v_nextConn v \<Longrightarrow> member_ok L v c"
  by (simp add: registry_ok_def)

lemma member_table: "member_ok L v c \<Longrightarrow> ct_inv (m_table (v_conns v c))"
  by (simp add: member_ok_def Let_def)

text \<open>Everything about a circuit that is held.\<close>

lemma held_facts:
  assumes "registry_ok L v" "k \<in> held v"
  shows "k < v_nextLink v" "v_owned_c k v" "v_owned_s k v" "l_client (v_links v k) < v_nextConn v" "l_service (v_links v k) < v_nextConn v"
    "m_kind (v_conns v (l_client (v_links v k))) = Client_conn" "m_kind (v_conns v (l_service (v_links v k))) = Service_conn"
    "l_client (v_links v k) \<noteq> l_service (v_links v k)"
    "m_state (v_conns v (l_service (v_links v k))) = Some Ready" "m_name (v_conns v (l_service (v_links v k))) = Some (l_name (v_links v k))"
proof -
  show "k < v_nextLink v" and o: "v_owned_c k v"
    using assms(2) by (auto simp: held_def)
  then have "ends_ok v k" using assms(1) ok_link by blast
  with o show "v_owned_s k v" "l_client (v_links v k) < v_nextConn v" "l_service (v_links v k) < v_nextConn v"
    "m_state (v_conns v (l_service (v_links v k))) = Some Ready" "m_name (v_conns v (l_service (v_links v k))) = Some (l_name (v_links v k))"
    and kinds: "m_kind (v_conns v (l_client (v_links v k))) = Client_conn" "m_kind (v_conns v (l_service (v_links v k))) = Service_conn"
    by (auto simp: ends_ok_def Let_def)
  show "l_client (v_links v k) \<noteq> l_service (v_links v k)" using kinds by auto
qed

text \<open>A circuit found in a table is held, and the table's owner is one of its ends.\<close>

lemma found_held:
  assumes "registry_ok L v" "c < v_nextConn v" "ct_get (m_table (v_conns v c)) i = Some k"
  shows "k \<in> held v" "if m_kind (v_conns v c) = Client_conn then l_client (v_links v k) = c \<and> l_clientId (v_links v k) = i
      else l_service (v_links v k) = c \<and> l_serviceId (v_links v k) = i"
proof -
  have e: "entry_ok v c i k" using ok_member [OF assms(1,2)] assms(3) by (simp add: member_ok_def Let_def)
  then have k: "k < v_nextLink v" by (simp add: entry_ok_def)
  show ends: "if m_kind (v_conns v c) = Client_conn then l_client (v_links v k) = c \<and> l_clientId (v_links v k) = i
      else l_service (v_links v k) = c \<and> l_serviceId (v_links v k) = i"
    using e by (simp add: entry_ok_def)
  then have "v_owned_c k v \<or> v_owned_s k v" using assms(3) by (auto simp: v_owned_c_def v_owned_s_def split: if_splits)
  then show "k \<in> held v" using ok_link [OF assms(1) k] k by (auto simp: held_def ends_ok_def Let_def)
qed

lemma removed_conns:
  assumes ok: "registry_ok L v" and k: "k \<in> held v" and w: "w = v_remove k v"
  shows "v_conns w c = removed_from (v_links v k) c (v_conns v c)"
  and removed_same: "v_nextConn w = v_nextConn v" "v_live w = v_live v" "v_links w = v_links v" "v_nextLink w = v_nextLink v" "v_services w = v_services v"
  and removed_count: "v_count w = v_count v - 1"
    "v_ipService w = count_down (ipKey (m_ip (v_conns v (l_client (v_links v k)))) (l_name (v_links v k))) (v_ipService v)"
  using v_remove_eq [OF held_facts(2,3,8) [OF ok k]] by (simp_all add: w)

lemma removed_get:
  assumes ok: "registry_ok L v" and k: "k \<in> held v" and w: "w = v_remove k v"
  shows "c < v_nextConn v \<Longrightarrow> ct_get (m_table (v_conns w c)) i = (if ct_get (m_table (v_conns v c)) i = Some k then None else ct_get (m_table (v_conns v c)) i)"
proof -
  note removed_conns = removed_conns [OF ok k w]
  assume c: "c < v_nextConn v"
  have inv: "ct_inv (m_table (v_conns v c))" using ok_member [OF ok c] member_table by blast
  note h = held_facts [OF ok k]
  show ?thesis
  proof (cases "ct_get (m_table (v_conns v c)) i = Some k")
    case True
    have "c = l_client (v_links v k) \<and> i = l_clientId (v_links v k) \<or>
        c \<noteq> l_client (v_links v k) \<and> c = l_service (v_links v k) \<and> i = l_serviceId (v_links v k)"
      using found_held(2) [OF ok c True] h(6) by (cases "m_kind (v_conns v c) = Client_conn") auto
    with True show ?thesis by (simp add: removed_conns removed_table(3) [OF inv])
  next
    case False
    then have "\<not> (c = l_client (v_links v k) \<and> i = l_clientId (v_links v k) \<or>
        c \<noteq> l_client (v_links v k) \<and> c = l_service (v_links v k) \<and> i = l_serviceId (v_links v k))"
      using h(2,3) unfolding v_owned_c_def v_owned_s_def by auto
    then show ?thesis using False by (simp only: removed_conns removed_table(3) [OF inv] if_False)
  qed
qed

lemma removed_owned:
  assumes ok: "registry_ok L v" and k: "k \<in> held v" and w: "w = v_remove k v"
  shows "j < v_nextLink v \<Longrightarrow> v_owned_c j w \<longleftrightarrow> j \<noteq> k \<and> v_owned_c j v" "j < v_nextLink v \<Longrightarrow> v_owned_s j w \<longleftrightarrow> j \<noteq> k \<and> v_owned_s j v"
proof -
  note removed_same = removed_same [OF ok k w] and removed_get = removed_get [OF ok k w]
  assume j: "j < v_nextLink v"
  then have "l_client (v_links v j) < v_nextConn v" "l_service (v_links v j) < v_nextConn v"
    using ok_link [OF ok j] by (auto simp: ends_ok_def Let_def)
  then show "v_owned_c j w \<longleftrightarrow> j \<noteq> k \<and> v_owned_c j v" "v_owned_s j w \<longleftrightarrow> j \<noteq> k \<and> v_owned_s j v"
    by (auto simp: v_owned_c_def v_owned_s_def removed_same removed_get)
qed

lemma removed_held:
  assumes ok: "registry_ok L v" and k: "k \<in> held v" and w: "w = v_remove k v"
  shows "held w = held v - {k}"
  using removed_same [OF ok k w] removed_owned [OF ok k w] by (auto simp: held_def)

lemma removed_tally:
  assumes ok: "registry_ok L v" and k: "k \<in> held v" and w: "w = v_remove k v"
  shows "tally F w = tally F v - (if F (v_links v k) then 1 else 0)"
  by (rule tally_remove [OF k removed_held [OF ok k w]]) (rule removed_same [OF ok k w])

lemma removed_ok:
  assumes ok: "registry_ok L v" and k: "k \<in> held v" and w: "w = v_remove k v"
  shows "registry_ok L w"
proof -
  note removed_conns = removed_conns [OF ok k w] and removed_same = removed_same [OF ok k w] and removed_count = removed_count [OF ok k w]
    and removed_get = removed_get [OF ok k w] and removed_owned = removed_owned [OF ok k w] and removed_tally = removed_tally [OF ok k w]
  note h = held_facts [OF ok k]
  have kpos: "F (v_links v k) \<Longrightarrow> tally F v > 0" for F
    using k by (auto simp: tally_def card_gt_0_iff)
  have down: "count_of (count_down j m) i \<le> max 0 b" if "\<forall>i. count_of m i \<le> max 0 b" for j and m :: "('x \<times> int) list" and i b
    using spec [OF that, of i] spec [OF that, of j]
    by (auto simp: count_down_def Let_def count_of_update) (auto simp: count_of_def delete_conv' split: option.splits)
  have "live_ok w" using ok by (simp add: registry_ok_def live_ok_def removed_same removed_conns)
  moreover have "ends_ok w j" if "j < v_nextLink w" for j
    using ok_link [OF ok, of j] that removed_owned [of j] by (auto simp: ends_ok_def Let_def removed_same removed_conns)
  moreover have "services_ok w" using ok by (simp add: registry_ok_def services_ok_def removed_same removed_conns)
  moreover have "totals_ok L w"
  proof -
    have t: "totals_ok L v" using ok by (simp add: registry_ok_def)
    let ?key = "ipKey (m_ip (v_conns v (l_client (v_links v k)))) (l_name (v_links v k))"
    let ?f = "\<lambda>v key. tally (\<lambda>e. ipKey (m_ip (v_conns v (l_client e))) (l_name e) = key) v"
    have "counts (v_ipService v) (?f v)" "?f v ?key > 0" using t by (simp_all add: totals_ok_def kpos)
    then have "counts (v_ipService w) ((?f v)(?key := ?f v ?key - 1))"
      unfolding removed_count by (rule counts_down)
    moreover have "(?f v)(?key := ?f v ?key - 1) = ?f w"
      by (rule ext) (simp add: removed_tally removed_conns)
    moreover have "\<forall>key. count_of (v_ipService w) key \<le> max 0 (maxCircuitsPerIpPerService L)"
      unfolding removed_count using t down by (auto simp: totals_ok_def)
    ultimately show ?thesis using t by (simp add: totals_ok_def removed_count(1) removed_same removed_tally)
  qed
  moreover have "member_ok L w c" if "c < v_nextConn w" for c
  proof -
    have c: "c < v_nextConn v" using that by (simp add: removed_same)
    have m: "member_ok L v c" using ok_member [OF ok c] .
    then have inv: "ct_inv (m_table (v_conns v c))" by (rule member_table)
    have "ct_inv (m_table (v_conns w c))" "ct_max (m_table (v_conns w c)) = ct_max (m_table (v_conns v c))"
      using removed_table [OF inv] by (simp_all add: removed_conns)
    moreover have "ct_circuits (m_table (v_conns w c)) = []" if "ct_circuits (m_table (v_conns v c)) = []"
      using that table_empty [OF inv] table_empty [OF calculation(1)] removed_get [OF c] by simp
    moreover have "entry_ok w c i j" if "ct_get (m_table (v_conns w c)) i = Some j" for i j
      using m that removed_get [OF c, of i] by (auto simp: member_ok_def Let_def entry_ok_def removed_same removed_conns split: if_splits)
    moreover have "m_pending (v_conns w c) = tally (\<lambda>e. l_client e = c \<and> \<not> l_open e) w"
      using m h(8) by (auto simp: member_ok_def Let_def removed_tally removed_conns removed_from_def)
    moreover have "m_pending (v_conns w c) \<le> max 0 (maxPendingPerClient L)"
      using m by (auto simp: member_ok_def Let_def removed_conns removed_from_def)
    moreover have "counts (m_perService (v_conns w c)) (\<lambda>d. tally (\<lambda>e. l_client e = c \<and> l_service e = d) w)"
    proof (cases "c = l_client (v_links v k)")
      case True
      let ?f = "\<lambda>d. tally (\<lambda>e. l_client e = c \<and> l_service e = d) v" and ?d = "l_service (v_links v k)"
      have "counts (count_down ?d (m_perService (v_conns v c))) (?f(?d := ?f ?d - 1))"
        using m True by (intro counts_down) (simp_all add: member_ok_def Let_def kpos)
      moreover have "?f(?d := ?f ?d - 1) = (\<lambda>d. tally (\<lambda>e. l_client e = c \<and> l_service e = d) w)"
        using True by (auto simp: removed_tally)
      ultimately show ?thesis using True by (simp add: removed_conns removed_from_def)
    next
      case False
      with m show ?thesis by (auto simp: member_ok_def Let_def removed_tally removed_conns removed_perService)
    qed
    moreover have "count_of (m_perService (v_conns w c)) d \<le> max 0 (maxCircuitsPerClientPerService L)" for d
      using m down by (auto simp: member_ok_def Let_def removed_conns removed_from_def)
    ultimately show ?thesis using m by (simp add: member_ok_def Let_def removed_conns)
  qed
  ultimately show ?thesis by (simp add: registry_ok_def)
qed

section \<open>Closing a connection\<close>

definition v_pre :: "nat \<Rightarrow> registry \<Rightarrow> registry" where
  "v_pre c v = (let m = v_conns v c in
     v\<lparr>v_conns := (v_conns v)(c := m\<lparr>m_closed := True, m_table := (m_table m)\<lparr>ct_circuits := []\<rparr>\<rparr>), v_live := remove1 c (v_live v),
       v_services := (case m_name m of
           Some n \<Rightarrow> if m_kind m = Service_conn \<and> n \<noteq> [] \<and> map_of (v_services v) n = Some c then AList.delete n (v_services v) else v_services v
         | None \<Rightarrow> v_services v)\<rparr>)"

definition v_hangup :: "nat \<Rightarrow> registry \<Rightarrow> registry" where
  "v_hangup c v = (if m_closed (v_conns v c) then v
     else fold v_remove (map snd (ct_circuits (m_table (v_conns v c)))) (v_pre c v))"

lemma view_fold_remove: "view (fold (\<lambda>k s. removeCircuit k (g k s) r s) ks s) = fold v_remove ks (view s)"
  by (induction ks arbitrary: s) simp_all

lemma fold_arg: "a = b \<Longrightarrow> fold f ks a = fold f ks b"
  by simp

lemma view_hangup [simp]: "view (onTransportClosed c s) = v_hangup c (view s)"
proof (cases "cn_closed (rs_conns s c)")
  case True
  then show ?thesis by (simp add: onTransportClosed_def v_hangup_def)
next
  case False
  define s1 where "s1 = (upd_conn c (\<lambda>cn. cn\<lparr>cn_closed := True\<rparr>) s)\<lparr>rs_live := remove1 c (rs_live s)\<rparr>"
  define s2 where "s2 = s1\<lparr>rs_ips := ip_release (cn_ip (rs_conns s1 c)) (rs_ips s1)\<rparr>"
  define s3 where "s3 = (case cn_name (rs_conns s1 c) of
       Some name \<Rightarrow> if cn_kind (rs_conns s1 c) = Service_conn \<and> name \<noteq> [] \<and> map_of (rs_services s2) name = Some c
         then s2\<lparr>rs_services := AList.delete name (rs_services s2)\<rparr> else s2
     | None \<Rightarrow> s2)"
  define s4 where "s4 = upd_conn c (\<lambda>cn. cn\<lparr>cn_circuits := (cn_circuits (rs_conns s1 c))\<lparr>ct_circuits := []\<rparr>\<rparr>) s3"
  have run: "onTransportClosed c s = fold (\<lambda>k s. removeCircuit k (if c = cc_client (rs_circuits s k) then To_service else To_client)
      (ErrorCode CIRCUIT_UNKNOWN) s) (map snd (ct_circuits (cn_circuits (rs_conns s1 c)))) s4"
    using False by (cases "cn_name (rs_conns s c)")
      (simp_all add: onTransportClosed_def Let_def ct_drain_def s1_def s2_def s3_def s4_def upd_conn_def)
  have s1: "rs_conns s1 c = (rs_conns s c)\<lparr>cn_closed := True\<rparr>" by (simp add: s1_def upd_conn_def)
  have "view s4 = v_pre c (view s)"
    by (cases "cn_name (rs_conns s c)") (simp_all add: s4_def s3_def s1, simp_all add: s2_def s1_def v_pre_def Let_def view_def member_of_def upd_conn_def fun_eq_iff)
  then show ?thesis using False by (simp add: run view_fold_remove v_hangup_def s1)
qed

lemma delete_emptied [simp]: "(snd (ct_delete t i))\<lparr>ct_circuits := []\<rparr> = t\<lparr>ct_circuits := []\<rparr>"
  by (simp add: ct_delete_def split: option.splits)

lemma v_pre_conns: "v_conns (v_pre c v) d =
    (if d = c then (v_conns v c)\<lparr>m_closed := True, m_table := (m_table (v_conns v c))\<lparr>ct_circuits := []\<rparr>\<rparr> else v_conns v d)"
  by (simp add: v_pre_def Let_def)

lemma v_pre_remove:
  assumes ok: "registry_ok L v" and k: "k \<in> held v" and c: "c = l_client (v_links v k) \<or> c = l_service (v_links v k)"
  shows "v_remove k (v_pre c v) = v_pre c (v_remove k v)"
proof -
  note h = held_facts [OF ok k]
  let ?e = "v_links v k"
  have links: "v_links (v_pre c v) = v_links v" and ip: "m_ip (v_conns (v_pre c v) d) = m_ip (v_conns v d)"
    and rest: "v_nextConn (v_pre c v) = v_nextConn v" "v_nextLink (v_pre c v) = v_nextLink v" "v_count (v_pre c v) = v_count v"
      "v_ipService (v_pre c v) = v_ipService v" for d
    by (auto simp: v_pre_def Let_def)
  note conns = v_pre_conns
  have owned: "v_owned_c k (v_pre c v) \<longleftrightarrow> c \<noteq> l_client ?e" "v_owned_s k (v_pre c v) \<longleftrightarrow> c \<noteq> l_service ?e"
    using h(2,3) by (auto simp: v_owned_c_def v_owned_s_def links conns ct_get_def)
  define w where "w = v_pre c v"
  have ow_links: "v_links w = v_links v" and owned': "v_owned_c k w \<longleftrightarrow> c \<noteq> l_client ?e" "v_owned_s k w \<longleftrightarrow> c \<noteq> l_service ?e"
    using links owned by (simp_all add: w_def)
  then have ow: "v_owned_c k w \<or> v_owned_s k w" "l_client (v_links w k) \<noteq> l_service (v_links w k)" using h(8) by auto
  have pre: "v_conns (v_remove k w) d = (if d = l_client ?e then (v_conns w d)\<lparr>m_table := if c \<noteq> l_client ?e then snd (ct_delete (m_table (v_conns w d)) (l_clientId ?e)) else m_table (v_conns w d),
        m_pending := m_pending (v_conns w d) - (if l_open ?e then 0 else 1), m_perService := count_down (l_service ?e) (m_perService (v_conns w d))\<rparr>
      else if d = l_service ?e \<and> c \<noteq> l_service ?e then (v_conns w d)\<lparr>m_table := snd (ct_delete (m_table (v_conns w d)) (l_serviceId ?e))\<rparr> else v_conns w d)"
    "v_nextConn (v_remove k w) = v_nextConn w" "v_live (v_remove k w) = v_live w" "v_links (v_remove k w) = v_links w"
    "v_nextLink (v_remove k w) = v_nextLink w" "v_services (v_remove k w) = v_services w" "v_count (v_remove k w) = v_count w - 1"
    "v_ipService (v_remove k w) = count_down (ipKey (m_ip (v_conns w (l_client ?e))) (l_name ?e)) (v_ipService w)" for d
    unfolding v_remove_gen [OF ow] using ow_links owned' c h(8) by (auto simp: Let_def)
  have kept: "v_links (v_remove k v) = v_links v" "v_nextConn (v_remove k v) = v_nextConn v" "v_nextLink (v_remove k v) = v_nextLink v"
    "v_live (v_remove k v) = v_live v" "v_services (v_remove k v) = v_services v" "v_count (v_remove k v) = v_count v - 1"
    "v_ipService (v_remove k v) = count_down (ipKey (m_ip (v_conns v (l_client ?e))) (l_name ?e)) (v_ipService v)"
    "v_conns (v_remove k v) d = removed_from ?e d (v_conns v d)" for d
    using v_remove_eq [OF h(2,3,8)] by simp_all
  show ?thesis
  proof (rule registry_eqI)
    show "v_conns (v_remove k (v_pre c v)) = v_conns (v_pre c (v_remove k v))"
    proof
      fix d
      show "v_conns (v_remove k (v_pre c v)) d = v_conns (v_pre c (v_remove k v)) d"
        unfolding w_def [symmetric] pre conns kept using c h(8) by (auto simp: w_def conns removed_from_def)
    qed
    show "v_services (v_remove k (v_pre c v)) = v_services (v_pre c (v_remove k v))" "v_live (v_remove k (v_pre c v)) = v_live (v_pre c (v_remove k v))"
      unfolding w_def [symmetric] pre by (cases "m_name (v_conns v c)"; simp add: w_def v_pre_def Let_def kept)+
  qed (unfold w_def [symmetric] pre, simp_all add: w_def v_pre_def Let_def kept ip)
qed

definition same_people :: "registry \<Rightarrow> registry \<Rightarrow> bool" where
  "same_people v w \<longleftrightarrow> v_nextConn w = v_nextConn v \<and> v_live w = v_live v \<and> v_links w = v_links v \<and> v_nextLink w = v_nextLink v \<and>
     v_services w = v_services v \<and> (\<forall>c. m_kind (v_conns w c) = m_kind (v_conns v c) \<and> m_ip (v_conns w c) = m_ip (v_conns v c) \<and>
       m_closed (v_conns w c) = m_closed (v_conns v c) \<and> m_state (v_conns w c) = m_state (v_conns v c) \<and>
       m_challenge (v_conns w c) = m_challenge (v_conns v c) \<and> m_name (v_conns w c) = m_name (v_conns v c) \<and> m_key (v_conns w c) = m_key (v_conns v c))"

lemma same_people_refl [simp]: "same_people v v"
  by (simp add: same_people_def)

lemma same_people_trans: "same_people u v \<Longrightarrow> same_people v w \<Longrightarrow> same_people u w"
  by (simp add: same_people_def)

lemma remove_same_people: "registry_ok L v \<Longrightarrow> k \<in> held v \<Longrightarrow> same_people v (v_remove k v)"
  by (simp add: same_people_def removed_same removed_conns)

lemma fold_remove:
  "registry_ok L v \<Longrightarrow> set ks \<subseteq> held v \<Longrightarrow> distinct ks \<Longrightarrow>
    registry_ok L (fold v_remove ks v) \<and> held (fold v_remove ks v) = held v - set ks \<and> same_people v (fold v_remove ks v)"
proof (induction ks arbitrary: v)
  case (Cons k ks)
  then have k: "registry_ok L v" "k \<in> held v" by auto
  have "registry_ok L (v_remove k v)" "held (v_remove k v) = held v - {k}" "same_people v (v_remove k v)"
    using removed_ok [OF k refl] removed_held [OF k refl] remove_same_people [OF k] by auto
  with Cons.IH [of "v_remove k v"] Cons.prems show ?case by (auto intro: same_people_trans)
qed simp

lemma fold_remove_pre:
  "registry_ok L v \<Longrightarrow> set ks \<subseteq> held v \<Longrightarrow> distinct ks \<Longrightarrow> \<forall>k \<in> set ks. c = l_client (v_links v k) \<or> c = l_service (v_links v k) \<Longrightarrow>
    fold v_remove ks (v_pre c v) = v_pre c (fold v_remove ks v)"
proof (induction ks arbitrary: v)
  case (Cons k ks)
  then have k: "registry_ok L v" "k \<in> held v" "c = l_client (v_links v k) \<or> c = l_service (v_links v k)" by auto
  have "registry_ok L (v_remove k v)" "held (v_remove k v) = held v - {k}" "v_links (v_remove k v) = v_links v"
    using removed_ok [OF k(1,2) refl] removed_held [OF k(1,2) refl] removed_same(3) [OF k(1,2) refl] by auto
  with Cons.IH [of "v_remove k v"] Cons.prems v_pre_remove [OF k] show ?case by auto
qed simp

text \<open>The circuits with one end at a connection are those in its table.\<close>

lemma table_circuits:
  assumes ok: "registry_ok L v" and c: "c < v_nextConn v"
  shows "set (map snd (ct_circuits (m_table (v_conns v c)))) = {k \<in> held v. c = l_client (v_links v k) \<or> c = l_service (v_links v k)}"
    "distinct (map snd (ct_circuits (m_table (v_conns v c))))"
proof -
  let ?t = "m_table (v_conns v c)"
  have inv: "ct_inv ?t" using ok_member [OF ok c] member_table by blast
  then have d: "distinct (map fst (ct_circuits ?t))" by (simp add: ct_inv_def)
  then have get: "(i, k) \<in> set (ct_circuits ?t) \<longleftrightarrow> ct_get ?t i = Some k" for i k by (simp add: ct_get_def map_of_eq_Some_iff)
  note f = found_held [OF ok c]
  show "set (map snd (ct_circuits ?t)) = {k \<in> held v. c = l_client (v_links v k) \<or> c = l_service (v_links v k)}"
  proof (intro subset_antisym subsetI)
    fix k assume "k \<in> set (map snd (ct_circuits ?t))"
    then obtain i where "ct_get ?t i = Some k" using get by auto
    with f(1) [OF this] f(2) [OF this] show "k \<in> {k \<in> held v. c = l_client (v_links v k) \<or> c = l_service (v_links v k)}"
      by (auto split: if_splits)
  next
    fix k assume k: "k \<in> {k \<in> held v. c = l_client (v_links v k) \<or> c = l_service (v_links v k)}"
    then have "v_owned_c k v" "v_owned_s k v" using held_facts(2,3) [OF ok] by auto
    with k obtain i where "ct_get ?t i = Some k" by (auto simp: v_owned_c_def v_owned_s_def)
    then have "(i, k) \<in> set (ct_circuits ?t)" by (simp add: get)
    then show "k \<in> set (map snd (ct_circuits ?t))" by force
  qed
  have "inj_on snd (set (ct_circuits ?t))"
  proof (rule inj_onI)
    fix x y assume xy: "x \<in> set (ct_circuits ?t)" "y \<in> set (ct_circuits ?t)" "snd x = snd y"
    have "ct_get ?t (fst x) = Some (snd x)" using get [of "fst x" "snd x"] xy(1) by simp
    moreover have "ct_get ?t (fst y) = Some (snd x)" using get [of "fst y" "snd y"] xy(2,3) by simp
    ultimately have "ct_get ?t (fst x) = Some (snd x)" "ct_get ?t (fst y) = Some (snd x)" .
    from f(2) [OF this(1)] f(2) [OF this(2)] have "fst x = fst y" by (auto split: if_splits)
    with xy(3) show "x = y" by (simp add: prod_eq_iff)
  qed
  moreover have "distinct (ct_circuits ?t)" using d by (simp add: distinct_map)
  ultimately show "distinct (map snd (ct_circuits ?t))" by (simp add: distinct_map)
qed

lemma map_of_delete: "map_of (AList.delete k m) = (map_of m)(k := None)"
  by (simp add: delete_conv')

lemma pre_services:
  assumes ok: "registry_ok L v" and c: "c < v_nextConn v" "\<not> m_closed (v_conns v c)"
  shows "map_of (v_services (v_pre c v)) n = (if map_of (v_services v) n = Some c then None else map_of (v_services v) n)"
    "distinct (map fst (v_services (v_pre c v)))" "length (v_services (v_pre c v)) \<le> length (v_services v)"
proof -
  have sv: "services_ok v" and m: "member_ok L v c" using ok c by (simp_all add: registry_ok_def)
  then have d: "distinct (map fst (v_services v))" and iff: "map_of (v_services v) n = Some c \<longleftrightarrow> m_state (v_conns v c) = Some Ready \<and> m_name (v_conns v c) = Some n" for n
    using c by (auto simp: services_ok_def)
  have nm: "map_of (v_services v) n = Some c \<Longrightarrow> m_name (v_conns v c) = Some n \<and> n \<noteq> [] \<and> m_kind (v_conns v c) = Service_conn" for n
    using m iff [of n] by (auto simp: member_ok_def Let_def)
  show "map_of (v_services (v_pre c v)) n = (if map_of (v_services v) n = Some c then None else map_of (v_services v) n)"
  proof (cases "\<exists>x. map_of (v_services v) x = Some c")
    case True
    then obtain x where x: "map_of (v_services v) x = Some c" by blast
    have "map_of (v_services v) n = Some c \<longleftrightarrow> n = x" using nm [OF x] nm [of n] x by auto
    with nm [OF x] x show ?thesis by (simp add: v_pre_def Let_def map_of_delete)
  next
    case False
    then show ?thesis by (cases "m_name (v_conns v c)") (simp_all add: v_pre_def Let_def)
  qed
  show "distinct (map fst (v_services (v_pre c v)))" "length (v_services (v_pre c v)) \<le> length (v_services v)"
    using d length_delete [OF d] by (cases "m_name (v_conns v c)"; simp add: v_pre_def Let_def distinct_delete)+
qed

lemma pre_ok:
  assumes ok: "registry_ok L v" and c: "c < v_nextConn v" "\<not> m_closed (v_conns v c)" "ct_circuits (m_table (v_conns v c)) = []"
  shows "registry_ok L (v_pre c v)" "held (v_pre c v) = held v"
proof -
  have table: "m_table (v_conns (v_pre c v) d) = m_table (v_conns v d)" for d
    using c(3) by (simp add: v_pre_conns)
  have same: "v_links (v_pre c v) = v_links v" "v_nextConn (v_pre c v) = v_nextConn v" "v_nextLink (v_pre c v) = v_nextLink v"
    "v_count (v_pre c v) = v_count v" "v_ipService (v_pre c v) = v_ipService v" "v_live (v_pre c v) = remove1 c (v_live v)"
    by (simp_all add: v_pre_def Let_def)
  have conns: "m_kind (v_conns (v_pre c v) d) = m_kind (v_conns v d)" "m_ip (v_conns (v_pre c v) d) = m_ip (v_conns v d)"
    "m_state (v_conns (v_pre c v) d) = m_state (v_conns v d)" "m_name (v_conns (v_pre c v) d) = m_name (v_conns v d)"
    "m_key (v_conns (v_pre c v) d) = m_key (v_conns v d)" "m_challenge (v_conns (v_pre c v) d) = m_challenge (v_conns v d)"
    "m_pending (v_conns (v_pre c v) d) = m_pending (v_conns v d)" "m_perService (v_conns (v_pre c v) d) = m_perService (v_conns v d)"
    "m_closed (v_conns (v_pre c v) d) = (d = c \<or> m_closed (v_conns v d))" for d
    by (simp_all add: v_pre_conns)
  have owned: "v_owned_c k (v_pre c v) = v_owned_c k v" "v_owned_s k (v_pre c v) = v_owned_s k v" for k
    by (simp_all add: v_owned_c_def v_owned_s_def table same)
  show held: "held (v_pre c v) = held v" by (simp add: held_def owned same)
  then have tally: "tally F (v_pre c v) = tally F v" for F by (rule tally_cong) (simp add: same)
  have "live_ok (v_pre c v)" using ok by (auto simp: registry_ok_def live_ok_def same conns set_remove1_eq distinct_remove1)
  moreover have "ends_ok (v_pre c v) k" if "k < v_nextLink v" for k
    using ok_link [OF ok that] by (simp add: ends_ok_def Let_def same conns owned)
  moreover have "member_ok L (v_pre c v) d" if "d < v_nextConn v" for d
    using ok_member [OF ok that] c(3) by (auto simp: member_ok_def Let_def table conns tally entry_ok_def same)
  moreover have "services_ok (v_pre c v)"
  proof -
    have sv: "map_of (v_services v) n = Some d \<longleftrightarrow> d < v_nextConn v \<and> \<not> m_closed (v_conns v d) \<and>
        m_state (v_conns v d) = Some Ready \<and> m_name (v_conns v d) = Some n" for n d
      using ok by (simp add: registry_ok_def services_ok_def)
    have "map_of (v_services (v_pre c v)) n = Some d \<longleftrightarrow> map_of (v_services v) n = Some d \<and> d \<noteq> c" for n d
      unfolding pre_services(1) [OF ok c(1,2)] by auto
    then show ?thesis using pre_services(2) [OF ok c(1,2)] unfolding services_ok_def by (auto simp: sv conns same)
  qed
  moreover have "totals_ok L (v_pre c v)"
    using ok pre_services(3) [OF ok c(1,2)] by (simp add: registry_ok_def totals_ok_def same tally conns)
  ultimately show "registry_ok L (v_pre c v)" by (simp add: registry_ok_def same)
qed

section \<open>The abstract switchboard\<close>

text \<open>
  What the relay promises, without its bookkeeping: the connections that are there, the circuits between them and
  the node registered for each name. \<open>hang_up\<close> is all that a lost connection may do.
\<close>

record switchboard =
  sb_members :: "nat set"
  sb_circuits :: "nat \<rightharpoonup> link"
  sb_services :: "jsstring \<rightharpoonup> nat"

definition board :: "registry \<Rightarrow> switchboard" where
  "board v = \<lparr>sb_members = set (v_live v), sb_circuits = (\<lambda>k. if k \<in> held v then Some (v_links v k) else None),
     sb_services = map_of (v_services v)\<rparr>"

definition hang_up :: "nat \<Rightarrow> switchboard \<Rightarrow> switchboard" where
  "hang_up c b = \<lparr>sb_members = sb_members b - {c},
     sb_circuits = (\<lambda>k. case sb_circuits b k of None \<Rightarrow> None | Some e \<Rightarrow> if c = l_client e \<or> c = l_service e then None else Some e),
     sb_services = (\<lambda>n. if sb_services b n = Some c then None else sb_services b n)\<rparr>"

definition disconnect :: "nat \<Rightarrow> switchboard \<Rightarrow> switchboard" where
  "disconnect k b = b\<lparr>sb_circuits := (sb_circuits b)(k := None)\<rparr>"

lemma board_remove: "registry_ok L v \<Longrightarrow> k \<in> held v \<Longrightarrow> board (v_remove k v) = disconnect k (board v)"
  by (auto simp: board_def disconnect_def removed_held removed_same fun_eq_iff)

lemma hangup_eq:
  assumes ok: "registry_ok L v" and c: "c < v_nextConn v" "\<not> m_closed (v_conns v c)"
  defines "ks \<equiv> map snd (ct_circuits (m_table (v_conns v c)))"
  shows "v_hangup c v = v_pre c (fold v_remove ks v)" "registry_ok L (fold v_remove ks v)" "same_people v (fold v_remove ks v)"
    "held (fold v_remove ks v) = held v - set ks" "ct_circuits (m_table (v_conns (fold v_remove ks v) c)) = []"
proof -
  note t = table_circuits [OF ok c(1), folded ks_def]
  have sub: "set ks \<subseteq> held v" using t(1) by blast
  show "v_hangup c v = v_pre c (fold v_remove ks v)"
    using c(2) fold_remove_pre [OF ok sub t(2), of c] t(1) by (auto simp: v_hangup_def ks_def)
  show ok': "registry_ok L (fold v_remove ks v)" and people: "same_people v (fold v_remove ks v)" and held: "held (fold v_remove ks v) = held v - set ks"
    using fold_remove [OF ok sub t(2)] by auto
  have c': "c < v_nextConn (fold v_remove ks v)" using c people by (simp add: same_people_def)
  have "v_links (fold v_remove ks v) = v_links v" using people by (simp add: same_people_def)
  then have "set (map snd (ct_circuits (m_table (v_conns (fold v_remove ks v) c)))) = {}"
    using table_circuits(1) [OF ok' c'] held t(1) by auto
  then show "ct_circuits (m_table (v_conns (fold v_remove ks v) c)) = []" by simp
qed

lemma hangup_ok:
  assumes ok: "registry_ok L v" and c: "c < v_nextConn v"
  shows "registry_ok L (v_hangup c v)" "\<not> m_closed (v_conns v c) \<Longrightarrow> board (v_hangup c v) = hang_up c (board v)"
    "v_nextConn (v_hangup c v) = v_nextConn v" "v_nextLink (v_hangup c v) = v_nextLink v" "v_links (v_hangup c v) = v_links v"
    "m_closed (v_conns (v_hangup c v) c)"
    "d \<noteq> c \<Longrightarrow> m_closed (v_conns (v_hangup c v) d) = m_closed (v_conns v d)"
    "m_kind (v_conns (v_hangup c v) d) = m_kind (v_conns v d)" "m_state (v_conns (v_hangup c v) d) = m_state (v_conns v d)"
    "m_challenge (v_conns (v_hangup c v) d) = m_challenge (v_conns v d)" "m_name (v_conns (v_hangup c v) d) = m_name (v_conns v d)"
    "m_key (v_conns (v_hangup c v) d) = m_key (v_conns v d)"
proof -
  define ks where "ks = map snd (ct_circuits (m_table (v_conns v c)))"
  define w where "w = fold v_remove ks v"
  have 1: "v_hangup c v = v_pre c w \<and> registry_ok L w \<and> same_people v w \<and> held w = held v - set ks \<and> ct_circuits (m_table (v_conns w c)) = []"
    if "\<not> m_closed (v_conns v c)"
    unfolding w_def ks_def using hangup_eq [OF ok c that] by blast
  have pre: "registry_ok L (v_pre c w)" "held (v_pre c w) = held v - set ks"
    "map_of (v_services (v_pre c w)) = (\<lambda>n. if map_of (v_services v) n = Some c then None else map_of (v_services v) n)"
    if "\<not> m_closed (v_conns v c)"
  proof -
    have w: "c < v_nextConn w" "\<not> m_closed (v_conns w c)" "v_services w = v_services v" using 1 [OF that] c that by (auto simp: same_people_def)
    show "registry_ok L (v_pre c w)" "held (v_pre c w) = held v - set ks" using pre_ok [of L w c] 1 [OF that] w by auto
    show "map_of (v_services (v_pre c w)) = (\<lambda>n. if map_of (v_services v) n = Some c then None else map_of (v_services v) n)"
      using pre_services(1) [of L w c] 1 [OF that] w by (auto simp: fun_eq_iff)
  qed
  have closed: "v_hangup c v = v" if "m_closed (v_conns v c)" using that by (simp add: v_hangup_def)
  show "registry_ok L (v_hangup c v)" using 1 pre(1) closed ok by (cases "m_closed (v_conns v c)") auto
  show "board (v_hangup c v) = hang_up c (board v)" if n: "\<not> m_closed (v_conns v c)"
  proof -
    have "distinct (v_live v)" using ok by (simp add: registry_ok_def live_ok_def)
    moreover have "v_live (v_pre c w) = remove1 c (v_live v)" "v_links (v_pre c w) = v_links v"
      using 1 [OF n] by (auto simp: v_pre_def Let_def same_people_def)
    ultimately show ?thesis
      using 1 [OF n] pre(2,3) [OF n] table_circuits(1) [OF ok c]
      by (auto simp: board_def hang_up_def ks_def fun_eq_iff set_remove1_eq)
  qed
  note same = 1 [unfolded same_people_def]
  show "v_nextConn (v_hangup c v) = v_nextConn v" "v_nextLink (v_hangup c v) = v_nextLink v" "v_links (v_hangup c v) = v_links v"
    "m_closed (v_conns (v_hangup c v) c)" "d \<noteq> c \<Longrightarrow> m_closed (v_conns (v_hangup c v) d) = m_closed (v_conns v d)"
    "m_kind (v_conns (v_hangup c v) d) = m_kind (v_conns v d)" "m_state (v_conns (v_hangup c v) d) = m_state (v_conns v d)"
    "m_challenge (v_conns (v_hangup c v) d) = m_challenge (v_conns v d)" "m_name (v_conns (v_hangup c v) d) = m_name (v_conns v d)"
    "m_key (v_conns (v_hangup c v) d) = m_key (v_conns v d)"
    using same closed by (cases "m_closed (v_conns v c)"; auto simp: v_pre_def Let_def)+
qed

section \<open>Opening a circuit\<close>

definition v_open :: "nat \<Rightarrow> registry \<Rightarrow> registry" where
  "v_open k v = v_upd (l_client (v_links v k)) (\<lambda>m. m\<lparr>m_pending := m_pending m - 1\<rparr>)
     (v\<lparr>v_links := (v_links v)(k := (v_links v k)\<lparr>l_open := True\<rparr>)\<rparr>)"

lemma view_open [simp]: "view (openCircuit k s) = v_open k (view s)"
  by (simp add: openCircuit_def v_open_def v_upd_def view_def counted_def upd_conn_def upd_circuit_def member_of_def link_of_def fun_eq_iff)

lemma open_ok:
  assumes ok: "registry_ok L v" and k: "k \<in> held v" and closed: "\<not> l_open (v_links v k)"
  shows "registry_ok L (v_open k v)" "board (v_open k v) = (board v)\<lparr>sb_circuits := (sb_circuits (board v))(k \<mapsto> (v_links v k)\<lparr>l_open := True\<rparr>)\<rparr>"
    "held (v_open k v) = held v"
proof -
  define w where "w = v_open k v"
  have links: "v_links w j = (if j = k then (v_links v k)\<lparr>l_open := True\<rparr> else v_links v j)" for j by (simp add: w_def v_open_def v_upd_def)
  have same: "v_nextConn w = v_nextConn v" "v_live w = v_live v" "v_nextLink w = v_nextLink v" "v_services w = v_services v"
    "v_count w = v_count v" "v_ipService w = v_ipService v"
    by (simp_all add: w_def v_open_def v_upd_def)
  have conns: "v_conns w c = (if c = l_client (v_links v k) then (v_conns v c)\<lparr>m_pending := m_pending (v_conns v c) - 1\<rparr> else v_conns v c)" for c
    by (simp add: w_def v_open_def v_upd_def)
  have fields: "m_kind (v_conns w c) = m_kind (v_conns v c)" "m_ip (v_conns w c) = m_ip (v_conns v c)" "m_table (v_conns w c) = m_table (v_conns v c)"
    "m_perService (v_conns w c) = m_perService (v_conns v c)" "m_closed (v_conns w c) = m_closed (v_conns v c)" "m_state (v_conns w c) = m_state (v_conns v c)"
    "m_challenge (v_conns w c) = m_challenge (v_conns v c)" "m_name (v_conns w c) = m_name (v_conns v c)" "m_key (v_conns w c) = m_key (v_conns v c)" for c
    by (simp_all add: conns)
  have ends: "l_client (v_links w j) = l_client (v_links v j)" "l_clientId (v_links w j) = l_clientId (v_links v j)"
    "l_service (v_links w j) = l_service (v_links v j)" "l_serviceId (v_links w j) = l_serviceId (v_links v j)" "l_name (v_links w j) = l_name (v_links v j)" for j
    by (simp_all add: links)
  have owned: "v_owned_c j w = v_owned_c j v" "v_owned_s j w = v_owned_s j v" for j
    by (simp_all add: v_owned_c_def v_owned_s_def ends fields)
  have held: "held w = held v" by (simp add: held_def owned same)
  have pend: "tally (\<lambda>e. l_client e = c \<and> \<not> l_open e) w = tally (\<lambda>e. l_client e = c \<and> \<not> l_open e) v - (if c = l_client (v_links v k) then 1 else 0)" for c
  proof -
    let ?S = "{j \<in> held v. l_client (v_links v j) = c \<and> \<not> l_open (v_links v j)}"
    have "{j \<in> held w. l_client (v_links w j) = c \<and> \<not> l_open (v_links w j)} = ?S - {k}" by (auto simp: held links)
    moreover have "c = l_client (v_links v k) \<longleftrightarrow> k \<in> ?S" using k closed by auto
    moreover have "int (card (?S - {k})) = int (card ?S) - (if k \<in> ?S then 1 else 0)"
    proof (cases "k \<in> ?S")
      case True
      then have "card ?S = Suc (card (?S - {k}))" by (intro card.remove) simp_all
      with True show ?thesis by simp
    qed simp
    ultimately show ?thesis by (simp only: tally_def)
  qed
  have tally: "tally (\<lambda>e. F (l_client e) (l_service e) (l_name e)) w = tally (\<lambda>e. F (l_client e) (l_service e) (l_name e)) v" for F
    by (rule tally_cong [OF held]) (simp add: ends)
  have "live_ok w" using ok by (simp add: registry_ok_def live_ok_def same fields)
  moreover have "ends_ok w j" if "j < v_nextLink v" for j
    using ok_link [OF ok that] by (simp add: ends_ok_def Let_def same ends fields owned)
  moreover have "member_ok L w c" if "c < v_nextConn v" for c
    using ok_member [OF ok that] tally [of "\<lambda>x y _. x = c \<and> y = _"] by (auto simp: member_ok_def Let_def same ends fields pend entry_ok_def conns)
  moreover have "services_ok w" using ok by (simp add: registry_ok_def services_ok_def same fields)
  moreover have "totals_ok L w"
    using ok tally [of "\<lambda>_ _ _. True"] tally [of "\<lambda>x _ z. ipKey (m_ip (v_conns v x)) z = _"] by (simp add: registry_ok_def totals_ok_def same fields)
  ultimately show "registry_ok L (v_open k v)" by (simp add: registry_ok_def same flip: w_def)
  show "held (v_open k v) = held v" using held by (simp add: w_def)
  show "board (v_open k v) = (board v)\<lparr>sb_circuits := (sb_circuits (board v))(k \<mapsto> (v_links v k)\<lparr>l_open := True\<rparr>)\<rparr>"
    unfolding w_def [symmetric] using k by (auto simp: board_def same held links fun_eq_iff)
qed

section \<open>New connections and registration\<close>

definition v_accept :: "member \<Rightarrow> registry \<Rightarrow> registry" where
  "v_accept m v = v\<lparr>v_conns := (v_conns v)(v_nextConn v := m), v_nextConn := v_nextConn v + 1, v_live := v_live v @ [v_nextConn v]\<rparr>"

lemma view_accept: "view (snd (acceptClient R W ip s)) = v_accept (member_of (fresh_connection Client_conn ip (maxCircuitsPerClient (ro_limits R)) 0)) (view s)"
  "view (snd (acceptService R W ip ch s)) = v_accept (member_of ((fresh_connection Service_conn ip (maxCircuitsPerService (ro_limits R)) 0)
     \<lparr>cn_state := Some Awaiting_auth, cn_challenge := Some ch\<rparr>)) (view s)"
  by (simp_all add: acceptClient_def acceptService_def newConnection_def Let_def)
    (simp_all add: view_def v_accept_def member_of_def fresh_connection_def upd_conn_def fun_eq_iff)

lemma accept_ok:
  assumes ok: "registry_ok L v" and m: "m_table m = CircuitTable (bound_of L (m_kind m))" "m_pending m = 0" "m_perService m = []" "\<not> m_closed m"
    "m_state m \<noteq> Some Ready" "m_kind m = Client_conn \<Longrightarrow> m_challenge m = None \<and> m_state m = None"
  shows "registry_ok L (v_accept m v)" "board (v_accept m v) = (board v)\<lparr>sb_members := insert (v_nextConn v) (sb_members (board v))\<rparr>"
proof -
  define w where "w = v_accept m v"
  have conns: "c < v_nextConn v \<Longrightarrow> v_conns w c = v_conns v c" "v_conns w (v_nextConn v) = m" for c by (simp_all add: w_def v_accept_def)
  have same: "v_nextConn w = Suc (v_nextConn v)" "v_live w = v_live v @ [v_nextConn v]" "v_links w = v_links v" "v_nextLink w = v_nextLink v"
    "v_services w = v_services v" "v_count w = v_count v" "v_ipService w = v_ipService v"
    by (simp_all add: w_def v_accept_def)
  have ends: "l_client (v_links v j) < v_nextConn v \<and> l_service (v_links v j) < v_nextConn v" if "j < v_nextLink v" for j
    using ok_link [OF ok that] by (simp add: ends_ok_def Let_def)
  have owned: "v_owned_c j w = v_owned_c j v" "v_owned_s j w = v_owned_s j v" if "j < v_nextLink v" for j
    using ends [OF that] by (simp_all add: v_owned_c_def v_owned_s_def same conns)
  have held: "held w = held v" using owned by (auto simp: held_def same)
  have tally: "tally F w = tally F v" for F by (rule tally_cong [OF held]) (simp add: same)
  have none: "tally (\<lambda>e. l_client e = v_nextConn v \<and> F e) v = 0" for F
  proof -
    have "{j \<in> held v. l_client (v_links v j) = v_nextConn v \<and> F (v_links v j)} = {}" using ends by (force simp: held_def)
    then show ?thesis by (simp only: tally_def card.empty)
  qed
  have "live_ok w" using ok m(4) conns by (auto simp: registry_ok_def live_ok_def same less_Suc_eq)
  moreover have "ends_ok w j" if "j < v_nextLink v" for j
    using ok_link [OF ok that] ends [OF that] owned [OF that] by (auto simp: ends_ok_def Let_def same conns)
  moreover have "member_ok L w c" if "c < Suc (v_nextConn v)" for c
  proof (cases "c = v_nextConn v")
    case True
    with m none show ?thesis
      by (simp add: member_ok_def Let_def conns tally CircuitTable_def ct_inv_def ct_size_def ct_get_def counts_def count_of_def)
  next
    case False
    with that ok_member [OF ok, of c] show ?thesis by (simp add: member_ok_def Let_def conns tally entry_ok_def same)
  qed
  moreover have "services_ok w"
    using ok m(5) by (auto simp: registry_ok_def services_ok_def same conns less_Suc_eq)
  moreover have "totals_ok L w"
  proof -
    have "tally (\<lambda>e. ipKey (m_ip (v_conns w (l_client e))) (l_name e) = key) w = tally (\<lambda>e. ipKey (m_ip (v_conns v (l_client e))) (l_name e) = key) v" for key
      by (rule tally_cong [OF held]) (use ends in \<open>auto simp: same conns held_def\<close>)
    with ok tally show ?thesis by (simp add: registry_ok_def totals_ok_def same)
  qed
  ultimately show "registry_ok L (v_accept m v)" by (simp add: registry_ok_def same flip: w_def)
  show "board (v_accept m v) = (board v)\<lparr>sb_members := insert (v_nextConn v) (sb_members (board v))\<rparr>"
    unfolding w_def [symmetric] by (auto simp: board_def same held fun_eq_iff)
qed

text \<open>A service node moves through the states before it is registered.\<close>

definition v_state :: "nat \<Rightarrow> service_state \<Rightarrow> registry \<Rightarrow> registry" where
  "v_state c st v = v_upd c (\<lambda>m. m\<lparr>m_state := Some st\<rparr>) v"

lemma view_verifying [simp]: "view (upd_conn c (\<lambda>cn. cn\<lparr>cn_state := Some st\<rparr>) s) = v_state c st (view s)"
  unfolding v_state_def by (rule view_upd) (simp add: fun_eq_iff member_of_def)

definition v_register :: "nat \<Rightarrow> jsstring \<Rightarrow> jsstring \<Rightarrow> registry \<Rightarrow> registry" where
  "v_register c name key v = (v_upd c (\<lambda>m. m\<lparr>m_state := Some Ready, m_name := Some name, m_key := Some key, m_challenge := None\<rparr>) v)
     \<lparr>v_services := AList.update name c (v_services v)\<rparr>"

lemma view_register [simp]: "view (register W c name dk vc s) = v_register c name (toHex (vc_subject vc)) (view s)"
  by (simp add: register_def Let_def v_register_def v_upd_def upd_conn_def) (simp add: view_def member_of_def fun_eq_iff)

lemma upd_same:
  fixes v :: registry and c g w
  assumes w: "w = v_upd c g v" and g: "m_kind (g (v_conns v c)) = m_kind (v_conns v c)" "m_ip (g (v_conns v c)) = m_ip (v_conns v c)"
    "m_table (g (v_conns v c)) = m_table (v_conns v c)" "m_pending (g (v_conns v c)) = m_pending (v_conns v c)"
    "m_perService (g (v_conns v c)) = m_perService (v_conns v c)" "m_closed (g (v_conns v c)) = m_closed (v_conns v c)"
  shows "m_kind (v_conns w d) = m_kind (v_conns v d)" "m_ip (v_conns w d) = m_ip (v_conns v d)" "m_table (v_conns w d) = m_table (v_conns v d)"
    "m_pending (v_conns w d) = m_pending (v_conns v d)" "m_perService (v_conns w d) = m_perService (v_conns v d)"
    "m_closed (v_conns w d) = m_closed (v_conns v d)" "v_nextConn w = v_nextConn v" "v_live w = v_live v" "v_links w = v_links v"
    "v_nextLink w = v_nextLink v" "v_count w = v_count v" "v_ipService w = v_ipService v" "held w = held v" "tally F w = tally F v"
    "v_owned_c k w = v_owned_c k v" "v_owned_s k w = v_owned_s k v"
proof -
  show f: "m_kind (v_conns w d) = m_kind (v_conns v d)" "m_ip (v_conns w d) = m_ip (v_conns v d)" "m_table (v_conns w d) = m_table (v_conns v d)"
    "m_pending (v_conns w d) = m_pending (v_conns v d)" "m_perService (v_conns w d) = m_perService (v_conns v d)"
    "m_closed (v_conns w d) = m_closed (v_conns v d)" "v_nextConn w = v_nextConn v" "v_live w = v_live v" "v_links w = v_links v"
    "v_nextLink w = v_nextLink v" "v_count w = v_count v" "v_ipService w = v_ipService v" for d
    using g by (simp_all add: w v_upd_def)
  show o: "v_owned_c k w = v_owned_c k v" "v_owned_s k w = v_owned_s k v" for k by (simp_all add: v_owned_c_def v_owned_s_def f)
  show h: "held w = held v" by (simp add: held_def f o)
  show "tally F w = tally F v" by (rule tally_cong [OF h]) (simp add: f)
qed

lemma state_ok:
  assumes ok: "registry_ok L v" and c: "c < v_nextConn v" "m_state (v_conns v c) \<noteq> Some Ready" "m_kind (v_conns v c) = Service_conn" and st: "st \<noteq> Ready"
  shows "registry_ok L (v_state c st v)" "board (v_state c st v) = board v"
proof -
  define w where "w = v_state c st v"
  note same = upd_same [OF w_def [unfolded v_state_def], simplified]
  have sv: "v_services w = v_services v" by (simp add: w_def v_state_def v_upd_def)
  have state: "m_state (v_conns w d) = (if d = c then Some st else m_state (v_conns v d))" "m_challenge (v_conns w d) = m_challenge (v_conns v d)"
    "m_name (v_conns w d) = m_name (v_conns v d)" "m_key (v_conns w d) = m_key (v_conns v d)" for d
    by (simp_all add: w_def v_state_def v_upd_def)
  have "live_ok w" using ok by (simp add: registry_ok_def live_ok_def same)
  moreover have "ends_ok w j" if "j < v_nextLink v" for j
    using ok_link [OF ok that] c by (auto simp: ends_ok_def Let_def same state)
  moreover have "member_ok L w d" if "d < v_nextConn v" for d
    using ok_member [OF ok that] c st by (auto simp: member_ok_def Let_def same state entry_ok_def)
  moreover have "services_ok w" using ok c st by (auto simp: registry_ok_def services_ok_def same state sv)
  moreover have "totals_ok L w" using ok by (simp add: registry_ok_def totals_ok_def same sv)
  ultimately show "registry_ok L (v_state c st v)" by (simp add: registry_ok_def same flip: w_def)
  show "board (v_state c st v) = board v" unfolding w_def [symmetric] by (auto simp: board_def same sv fun_eq_iff)
qed

lemma length_update: "length (AList.update k x m) \<le> Suc (length m)"
  by (induction m) auto

lemma register_ok:
  assumes ok: "registry_ok L v" and c: "c < v_nextConn v" "m_state (v_conns v c) \<noteq> Some Ready" "m_kind (v_conns v c) = Service_conn" "\<not> m_closed (v_conns v c)"
    and name: "map_of (v_services v) name = None" "name \<noteq> []" "length (v_services v) < maxServiceNodes L"
  shows "registry_ok L (v_register c name key v)"
    "board (v_register c name key v) = (board v)\<lparr>sb_services := (sb_services (board v))(name \<mapsto> c)\<rparr>"
proof -
  define u where "u = v_upd c (\<lambda>m. m\<lparr>m_state := Some Ready, m_name := Some name, m_key := Some key, m_challenge := None\<rparr>) v"
  define w where "w = v_register c name key v"
  have w: "w = u\<lparr>v_services := AList.update name c (v_services v)\<rparr>" by (simp add: w_def v_register_def u_def)
  note same' = upd_same [OF u_def, simplified]
  have own: "v_owned_c k w = v_owned_c k u" "v_owned_s k w = v_owned_s k u" "held w = held u" "tally F w = tally F u" for k F
    by (simp_all add: w v_owned_c_def v_owned_s_def held_def tally_def)
  have same: "m_kind (v_conns w d) = m_kind (v_conns v d)" "m_ip (v_conns w d) = m_ip (v_conns v d)" "m_table (v_conns w d) = m_table (v_conns v d)"
    "m_pending (v_conns w d) = m_pending (v_conns v d)" "m_perService (v_conns w d) = m_perService (v_conns v d)"
    "m_closed (v_conns w d) = m_closed (v_conns v d)" "v_nextConn w = v_nextConn v" "v_live w = v_live v" "v_links w = v_links v"
    "v_nextLink w = v_nextLink v" "v_count w = v_count v" "v_ipService w = v_ipService v" "held w = held v" "tally F w = tally F v"
    "v_owned_c k w = v_owned_c k v" "v_owned_s k w = v_owned_s k v" for d F k
    using same' by (simp_all add: own) (simp_all add: w)
  have sv: "map_of (v_services w) n = (if n = name then Some c else map_of (v_services v) n)" "distinct (map fst (v_services w))"
    "length (v_services w) \<le> maxServiceNodes L" for n
    using ok name length_update [of name c "v_services v"]
    by (auto simp: w update_conv' distinct_update registry_ok_def services_ok_def simp del: map_of_eq_Some_iff)
  have state: "m_state (v_conns w d) = (if d = c then Some Ready else m_state (v_conns v d))" "m_challenge (v_conns w d) = (if d = c then None else m_challenge (v_conns v d))"
    "m_name (v_conns w d) = (if d = c then Some name else m_name (v_conns v d))" "m_key (v_conns w d) = (if d = c then Some key else m_key (v_conns v d))" for d
    by (simp_all add: w u_def v_upd_def)
  have "live_ok w" using ok by (simp add: registry_ok_def live_ok_def same)
  moreover have "ends_ok w j" if "j < v_nextLink v" for j
    using ok_link [OF ok that] c by (auto simp: ends_ok_def Let_def same state)
  moreover have "member_ok L w d" if "d < v_nextConn v" for d
    using ok_member [OF ok that] c name by (auto simp: member_ok_def Let_def same state entry_ok_def)
  moreover have "services_ok w"
  proof -
    have iff: "map_of (v_services v) n = Some d \<longleftrightarrow> d < v_nextConn v \<and> \<not> m_closed (v_conns v d) \<and>
        m_state (v_conns v d) = Some Ready \<and> m_name (v_conns v d) = Some n" for n d
      using ok by (simp add: registry_ok_def services_ok_def)
    have "map_of (v_services w) n = Some d \<longleftrightarrow> d < v_nextConn w \<and> \<not> m_closed (v_conns w d) \<and>
        m_state (v_conns w d) = Some Ready \<and> m_name (v_conns w d) = Some n" for n d
      using iff [of n d] iff [of name d] name(1) c unfolding sv(1) by (auto simp: same state)
    with sv(2) show ?thesis by (simp add: services_ok_def)
  qed
  moreover have "totals_ok L w" using ok sv(3) by (simp add: registry_ok_def totals_ok_def same)
  ultimately show "registry_ok L (v_register c name key v)" by (simp add: registry_ok_def same flip: w_def)
  show "board (v_register c name key v) = (board v)\<lparr>sb_services := (sb_services (board v))(name \<mapsto> c)\<rparr>"
    unfolding w_def [symmetric] by (auto simp: board_def same sv fun_eq_iff)
qed

section \<open>A new circuit\<close>

definition v_insert :: "nat \<Rightarrow> nat \<Rightarrow> nat \<Rightarrow> nat \<Rightarrow> jsstring \<Rightarrow> registry \<Rightarrow> registry" where
  "v_insert c cid d sid name v = (let k = v_nextLink v; m = v_conns v c; n = v_conns v d; key = ipKey (m_ip m) name in
     v\<lparr>v_conns := (v_conns v)(
          c := m\<lparr>m_table := snd (ct_add (m_table m) cid k), m_pending := m_pending m + 1,
                 m_perService := AList.update d (count_of (m_perService m) d + 1) (m_perService m)\<rparr>,
          d := n\<lparr>m_table := snd (ct_add (m_table n) sid k)\<rparr>),
       v_links := (v_links v)(k := \<lparr>l_client = c, l_clientId = cid, l_service = d, l_serviceId = sid, l_open = False, l_name = name\<rparr>),
       v_nextLink := k + 1, v_count := v_count v + 1,
       v_ipService := AList.update key (count_of (v_ipService v) key + 1) (v_ipService v)\<rparr>)"

lemma view_insert: "c \<noteq> d \<Longrightarrow> view (insertCircuit W c cid d sid name s) = v_insert c cid d sid name (view s)"
  by (simp add: insertCircuit_def v_insert_def Let_def view_def upd_conn_def member_of_def link_of_def fun_eq_iff)

lemma table_add:
  assumes "ct_inv t" "i \<noteq> 0" "ct_get t i = None" "\<not> atCapacity t"
  shows "ct_inv (snd (ct_add t i k))" "ct_get (snd (ct_add t i k)) = (ct_get t)(i \<mapsto> k)" "ct_max (snd (ct_add t i k)) = ct_max t"
proof -
  have "ct_size t < ct_max t" using assms(4) by (simp add: atCapacity_def)
  then obtain t' where "ct_add t i k = (True, t')" "ct_inv t'" "ct_get t' = (ct_get t)(i \<mapsto> k)" "ct_max t' = ct_max t"
    using circuit_table.add_taken [OF assms(1-3)] by blast
  then show "ct_inv (snd (ct_add t i k))" "ct_get (snd (ct_add t i k)) = (ct_get t)(i \<mapsto> k)" "ct_max (snd (ct_add t i k)) = ct_max t" by simp_all
qed

definition can_insert :: "relay_limits \<Rightarrow> nat \<Rightarrow> nat \<Rightarrow> nat \<Rightarrow> nat \<Rightarrow> jsstring \<Rightarrow> registry \<Rightarrow> bool" where
  "can_insert L c cid d sid name v \<longleftrightarrow>
     c < v_nextConn v \<and> \<not> m_closed (v_conns v c) \<and> m_kind (v_conns v c) = Client_conn \<and>
     cid \<noteq> 0 \<and> cid < 2 ^ 64 \<and> ct_get (m_table (v_conns v c)) cid = None \<and> \<not> atCapacity (m_table (v_conns v c)) \<and>
     m_pending (v_conns v c) < maxPendingPerClient L \<and> v_count v < maxCircuits L \<and>
     map_of (v_services v) name = Some d \<and>
     count_of (m_perService (v_conns v c)) d < maxCircuitsPerClientPerService L \<and>
     count_of (v_ipService v) (ipKey (m_ip (v_conns v c)) name) < maxCircuitsPerIpPerService L \<and>
     sid \<noteq> 0 \<and> sid < 2 ^ 64 \<and> ct_get (m_table (v_conns v d)) sid = None \<and> \<not> atCapacity (m_table (v_conns v d))"

lemma insert_ok:
  assumes ok: "registry_ok L v" and can: "can_insert L c cid d sid name v"
  shows "registry_ok L (v_insert c cid d sid name v)"
    "board (v_insert c cid d sid name v) = (board v)\<lparr>sb_circuits := (sb_circuits (board v))(v_nextLink v \<mapsto>
       \<lparr>l_client = c, l_clientId = cid, l_service = d, l_serviceId = sid, l_open = False, l_name = name\<rparr>)\<rparr>"
proof -
  define w where "w = v_insert c cid d sid name v"
  define k where "k = v_nextLink v"
  define e where "e = \<lparr>l_client = c, l_clientId = cid, l_service = d, l_serviceId = sid, l_open = False, l_name = name\<rparr>"
  define key where "key = ipKey (m_ip (v_conns v c)) name"
  have C: "c < v_nextConn v" "\<not> m_closed (v_conns v c)" "m_kind (v_conns v c) = Client_conn" "ct_get (m_table (v_conns v c)) cid = None"
    using can by (simp_all add: can_insert_def)
  have serv: "map_of (v_services v) name = Some d" using can by (simp add: can_insert_def)
  have D: "d < v_nextConn v" "\<not> m_closed (v_conns v d)" "m_state (v_conns v d) = Some Ready" "m_name (v_conns v d) = Some name"
    using ok serv by (auto simp: registry_ok_def services_ok_def simp del: map_of_eq_Some_iff)
  have Dk: "m_kind (v_conns v d) = Service_conn" using ok_member [OF ok D(1)] D(3) by (simp add: member_ok_def Let_def)
  have cd: "c \<noteq> d" using C(3) Dk by auto
  have Dg: "ct_get (m_table (v_conns v d)) sid = None" using can by (simp add: can_insert_def)
  have tc: "ct_inv (snd (ct_add (m_table (v_conns v c)) cid k))" "ct_get (snd (ct_add (m_table (v_conns v c)) cid k)) = (ct_get (m_table (v_conns v c)))(cid \<mapsto> k)"
    "ct_max (snd (ct_add (m_table (v_conns v c)) cid k)) = ct_max (m_table (v_conns v c))"
    using table_add [OF member_table [OF ok_member [OF ok C(1)]]] can by (simp_all add: can_insert_def)
  have td: "ct_inv (snd (ct_add (m_table (v_conns v d)) sid k))" "ct_get (snd (ct_add (m_table (v_conns v d)) sid k)) = (ct_get (m_table (v_conns v d)))(sid \<mapsto> k)"
    "ct_max (snd (ct_add (m_table (v_conns v d)) sid k)) = ct_max (m_table (v_conns v d))"
    using table_add [OF member_table [OF ok_member [OF ok D(1)]]] can by (simp_all add: can_insert_def)
  have conns: "v_conns w x = (if x = c then (v_conns v c)\<lparr>m_table := snd (ct_add (m_table (v_conns v c)) cid k), m_pending := m_pending (v_conns v c) + 1,
        m_perService := AList.update d (count_of (m_perService (v_conns v c)) d + 1) (m_perService (v_conns v c))\<rparr>
      else if x = d then (v_conns v d)\<lparr>m_table := snd (ct_add (m_table (v_conns v d)) sid k)\<rparr> else v_conns v x)" for x
    using cd by (simp add: w_def v_insert_def Let_def k_def)
  have fields: "m_kind (v_conns w x) = m_kind (v_conns v x)" "m_ip (v_conns w x) = m_ip (v_conns v x)" "m_closed (v_conns w x) = m_closed (v_conns v x)"
    "m_state (v_conns w x) = m_state (v_conns v x)" "m_challenge (v_conns w x) = m_challenge (v_conns v x)" "m_name (v_conns w x) = m_name (v_conns v x)"
    "m_key (v_conns w x) = m_key (v_conns v x)" for x
    by (simp_all add: conns)
  have same: "v_nextConn w = v_nextConn v" "v_live w = v_live v" "v_nextLink w = Suc k" "v_services w = v_services v" "v_count w = v_count v + 1"
    "v_ipService w = AList.update key (count_of (v_ipService v) key + 1) (v_ipService v)"
    by (simp_all add: w_def v_insert_def Let_def k_def key_def)
  have links: "v_links w j = (if j = k then e else v_links v j)" for j by (simp add: w_def v_insert_def Let_def k_def e_def)
  have table: "ct_inv (m_table (v_conns w x))" "ct_max (m_table (v_conns w x)) = ct_max (m_table (v_conns v x))"
    "ct_get (m_table (v_conns w x)) i = (if x = c \<and> i = cid \<or> x = d \<and> i = sid then Some k else ct_get (m_table (v_conns v x)) i)" if "x < v_nextConn v" for x i
    using tc td cd member_table [OF ok_member [OF ok that]] by (auto simp: conns)
  have old: "j < k \<Longrightarrow> l_client (v_links v j) < v_nextConn v \<and> l_service (v_links v j) < v_nextConn v" for j
    using ok_link [OF ok] by (simp add: k_def ends_ok_def Let_def)
  have clash: "j < k \<Longrightarrow> v_owned_c j w = v_owned_c j v" "j < k \<Longrightarrow> v_owned_s j w = v_owned_s j v" for j
    using old [of j] C(4) Dg by (auto simp: v_owned_c_def v_owned_s_def links table)
  have new: "v_owned_c k w" "v_owned_s k w" using C(1) D(1) by (simp_all add: v_owned_c_def v_owned_s_def links e_def table)
  have held: "held w = insert k (held v)" using clash new by (auto simp: held_def same k_def less_Suc_eq)
  have kh: "k \<notin> held v" by (simp add: held_def k_def)
  have tally: "tally F w = tally F v + (if F e then 1 else 0)" for F
    using tally_insert [OF kh held, of F] kh by (auto simp: links)
  have "live_ok w" using ok by (simp add: registry_ok_def live_ok_def same fields)
  moreover have "ends_ok w j" if j: "j < Suc k" for j
  proof (cases "j = k")
    case True
    with C D Dk new can show ?thesis by (simp add: ends_ok_def Let_def links same fields) (simp add: e_def can_insert_def)
  next
    case False
    with j ok_link [OF ok, of j] clash [of j] show ?thesis by (simp add: k_def ends_ok_def Let_def links same fields)
  qed
  moreover have "member_ok L w x" if x: "x < v_nextConn v" for x
  proof -
    have m: "member_ok L v x" using ok_member [OF ok x] .
    have "entry_ok w x i j" if "ct_get (m_table (v_conns w x)) i = Some j" for i j
    proof (cases "x = c \<and> i = cid \<or> x = d \<and> i = sid")
      case True
      then have "j = k" using that x by (simp add: table)
      with True cd C(3) Dk show ?thesis by (auto simp: entry_ok_def same links fields e_def)
    next
      case False
      have "ct_get (m_table (v_conns v x)) i = Some j" using that unfolding table(3) [OF x] if_not_P [OF False] .
      then have "entry_ok v x i j" using m by (simp add: member_ok_def Let_def)
      then show ?thesis by (auto simp: entry_ok_def same links fields k_def)
    qed
    moreover have "m_closed (v_conns w x) \<longrightarrow> ct_circuits (m_table (v_conns w x)) = []"
      using m C(2) D(2) by (auto simp: member_ok_def Let_def conns)
    moreover have "m_pending (v_conns w x) = tally (\<lambda>e. l_client e = x \<and> \<not> l_open e) w \<and> m_pending (v_conns w x) \<le> max 0 (maxPendingPerClient L)"
      using m can cd by (auto simp: member_ok_def Let_def tally conns e_def can_insert_def)
    moreover have "counts (m_perService (v_conns w x)) (\<lambda>y. tally (\<lambda>e. l_client e = x \<and> l_service e = y) w) \<and>
        (\<forall>y. count_of (m_perService (v_conns w x)) y \<le> max 0 (maxCircuitsPerClientPerService L))"
    proof (cases "x = c")
      case True
      let ?f = "\<lambda>y. tally (\<lambda>e. l_client e = c \<and> l_service e = y) v"
      have "counts (m_perService (v_conns w c)) (?f(d := ?f d + 1))"
        using counts_up [of "m_perService (v_conns v c)" ?f d] ok_member [OF ok C(1)] by (simp add: member_ok_def Let_def conns)
      moreover have "?f(d := ?f d + 1) = (\<lambda>y. tally (\<lambda>e. l_client e = c \<and> l_service e = y) w)" by (auto simp: tally e_def)
      ultimately show ?thesis using True m can by (auto simp: member_ok_def Let_def conns count_of_update can_insert_def)
    next
      case False
      with m show ?thesis by (auto simp: member_ok_def Let_def conns tally e_def)
    qed
    ultimately show ?thesis using m table(1,2) [OF x] by (simp add: member_ok_def Let_def fields)
  qed
  moreover have "services_ok w" using ok by (simp add: registry_ok_def services_ok_def same fields)
  moreover have "totals_ok L w"
  proof -
    have t: "totals_ok L v" using ok by (simp add: registry_ok_def)
    let ?f = "\<lambda>y. tally (\<lambda>e. ipKey (m_ip (v_conns v (l_client e))) (l_name e) = y) v"
    have "counts (v_ipService w) (?f(key := ?f key + 1))"
      using counts_up [of "v_ipService v" ?f key] t by (simp add: totals_ok_def same)
    moreover have "?f(key := ?f key + 1) = (\<lambda>y. tally (\<lambda>e. ipKey (m_ip (v_conns w (l_client e))) (l_name e) = y) w)"
      by (auto simp: tally fields e_def key_def)
    ultimately show ?thesis using t can tally [of "\<lambda>_. True"] by (auto simp: totals_ok_def same count_of_update can_insert_def key_def)
  qed
  ultimately show "registry_ok L (v_insert c cid d sid name v)" by (simp add: registry_ok_def same k_def flip: w_def)
  show "board (v_insert c cid d sid name v) = (board v)\<lparr>sb_circuits := (sb_circuits (board v))(v_nextLink v \<mapsto>
       \<lparr>l_client = c, l_clientId = cid, l_service = d, l_serviceId = sid, l_open = False, l_name = name\<rparr>)\<rparr>"
    unfolding w_def [symmetric] e_def [symmetric] k_def [symmetric] using kh by (auto simp: board_def same held links fun_eq_iff)
qed

section \<open>Steps of the switchboard\<close>

text \<open>
  What may happen on the switchboard when the connections \<open>cs\<close> act: one of them joins, leaves,
  opens a circuit to a registered name, answers one, or drops one it is an end of; and a name that is free is given
  to a connection, if \<open>ns\<close> grants it.
\<close>

definition connect :: "nat \<Rightarrow> link \<Rightarrow> switchboard \<Rightarrow> switchboard" where
  "connect k e b = b\<lparr>sb_circuits := (sb_circuits b)(k \<mapsto> e)\<rparr>"

definition enrol :: "jsstring \<Rightarrow> nat \<Rightarrow> switchboard \<Rightarrow> switchboard" where
  "enrol name c b = b\<lparr>sb_services := (sb_services b)(name \<mapsto> c)\<rparr>"

definition no_clash :: "link \<Rightarrow> switchboard \<Rightarrow> bool" where
  "no_clash e b \<longleftrightarrow> (\<forall>k e'. sb_circuits b k = Some e' \<longrightarrow>
     (l_client e', l_clientId e') \<noteq> (l_client e, l_clientId e) \<and> (l_service e', l_serviceId e') \<noteq> (l_service e, l_serviceId e))"

inductive switch :: "nat set \<Rightarrow> (jsstring \<times> nat) set \<Rightarrow> switchboard \<Rightarrow> switchboard \<Rightarrow> bool" for cs ns where
  join: "c \<in> cs \<Longrightarrow> c \<notin> sb_members b \<Longrightarrow> switch cs ns b (b\<lparr>sb_members := insert c (sb_members b)\<rparr>)"
| leave: "c \<in> cs \<Longrightarrow> c \<in> sb_members b \<Longrightarrow> switch cs ns b (hang_up c b)"
| register: "(name, c) \<in> ns \<Longrightarrow> c \<in> sb_members b \<Longrightarrow> sb_services b name = None \<Longrightarrow> switch cs ns b (enrol name c b)"
| create: "l_client e \<in> cs \<Longrightarrow> l_client e \<in> sb_members b \<Longrightarrow> sb_circuits b k = None \<Longrightarrow> sb_services b (l_name e) = Some (l_service e) \<Longrightarrow>
    \<not> l_open e \<Longrightarrow> no_clash e b \<Longrightarrow> switch cs ns b (connect k e b)"
| answer: "l_service e \<in> cs \<Longrightarrow> sb_circuits b k = Some e \<Longrightarrow> \<not> l_open e \<Longrightarrow> switch cs ns b (connect k (e\<lparr>l_open := True\<rparr>) b)"
| drop: "l_client e \<in> cs \<or> l_service e \<in> cs \<Longrightarrow> sb_circuits b k = Some e \<Longrightarrow> switch cs ns b (disconnect k b)"

abbreviation switches :: "nat set \<Rightarrow> (jsstring \<times> nat) set \<Rightarrow> switchboard \<Rightarrow> switchboard \<Rightarrow> bool" where
  "switches cs ns \<equiv> (switch cs ns)\<^sup>*\<^sup>*"

lemmas board_defs = hang_up_def disconnect_def connect_def enrol_def

lemma switch_mono: "switch cs ns b b' \<Longrightarrow> cs \<subseteq> ds \<Longrightarrow> switch ds ns b b'"
  by (induction rule: switch.induct) (auto intro: switch.intros)

lemma switches_mono: "switches cs ns b b' \<Longrightarrow> cs \<subseteq> ds \<Longrightarrow> switches ds ns b b'"
  by (induction rule: rtranclp.induct) (auto intro: rtranclp.rtrancl_into_rtrancl switch_mono)

text \<open>Who does not act keeps its place, its name and its circuits, and gains none.\<close>

lemma switch_bystander:
  assumes "switch cs ns b b'"
  shows "d \<notin> cs \<Longrightarrow> d \<in> sb_members b' \<longleftrightarrow> d \<in> sb_members b"
    "d \<notin> cs \<Longrightarrow> (n, d) \<notin> ns \<Longrightarrow> sb_services b' n = Some d \<longleftrightarrow> sb_services b n = Some d"
    "l_client e \<notin> cs \<Longrightarrow> l_service e \<notin> cs \<Longrightarrow> sb_circuits b' k = Some e \<longleftrightarrow> sb_circuits b k = Some e"
  using assms by (induction rule: switch.induct) (auto simp: board_defs split: option.splits if_splits)

lemma bystander:
  assumes "switches cs ns b b'"
  shows "d \<notin> cs \<Longrightarrow> d \<in> sb_members b' \<longleftrightarrow> d \<in> sb_members b"
    "d \<notin> cs \<Longrightarrow> (n, d) \<notin> ns \<Longrightarrow> sb_services b' n = Some d \<longleftrightarrow> sb_services b n = Some d"
    "l_client e \<notin> cs \<Longrightarrow> l_service e \<notin> cs \<Longrightarrow> sb_circuits b' k = Some e \<longleftrightarrow> sb_circuits b k = Some e"
  using assms by (induction rule: rtranclp_induct) (simp_all add: switch_bystander)

text \<open>A name is only gained by a grant.\<close>

lemma switch_names: "switch cs ns b b' \<Longrightarrow> sb_services b' n = Some d \<Longrightarrow> sb_services b n = Some d \<or> (n, d) \<in> ns"
  by (induction rule: switch.induct) (auto simp: board_defs split: option.splits if_splits)

lemma names_granted: "switches cs ns b b' \<Longrightarrow> sb_services b' n = Some d \<Longrightarrow> sb_services b n = Some d \<or> (n, d) \<in> ns"
  by (induction rule: rtranclp_induct) (auto dest: switch_names)

text \<open>A circuit keeps its ends, and is not closed again once it is open.\<close>

lemma switch_ends:
  assumes "switch cs ns b b'" "sb_circuits b k = Some e" "sb_circuits b' k = Some e'"
  shows "e' = e \<or> e' = e\<lparr>l_open := True\<rparr>"
  using assms by (induction rule: switch.induct) (auto simp: board_defs split: option.splits if_splits)

text \<open>What the updates of the view are on the board.\<close>

lemma board_sel: "sb_members (board v) = set (v_live v)" "sb_circuits (board v) k = (if k \<in> held v then Some (v_links v k) else None)"
  "sb_services (board v) = map_of (v_services v)"
  by (simp_all add: board_def)

lemma member_live: "registry_ok L v \<Longrightarrow> c \<in> sb_members (board v) \<longleftrightarrow> c < v_nextConn v \<and> \<not> m_closed (v_conns v c)"
  by (simp add: board_sel registry_ok_def live_ok_def)

lemma switch_hangup: "registry_ok L v \<Longrightarrow> c < v_nextConn v \<Longrightarrow> c \<in> cs \<Longrightarrow> switches cs ns (board v) (board (v_hangup c v))"
proof (cases "m_closed (v_conns v c)")
  case False
  assume ok: "registry_ok L v" and c: "c < v_nextConn v" "c \<in> cs"
  have "switch cs ns (board v) (hang_up c (board v))" using c False member_live [OF ok] by (intro switch.leave) simp_all
  then show ?thesis using hangup_ok(2) [OF ok c(1) False] by simp
qed (simp add: v_hangup_def)

lemma switch_remove: "registry_ok L v \<Longrightarrow> k \<in> held v \<Longrightarrow> l_client (v_links v k) \<in> cs \<or> l_service (v_links v k) \<in> cs \<Longrightarrow>
    switches cs ns (board v) (board (v_remove k v))"
  by (simp add: board_remove) (rule r_into_rtranclp, rule switch.drop [of "v_links v k"], simp_all add: board_sel)

lemma switch_open: "registry_ok L v \<Longrightarrow> k \<in> held v \<Longrightarrow> \<not> l_open (v_links v k) \<Longrightarrow> l_service (v_links v k) \<in> cs \<Longrightarrow>
    switches cs ns (board v) (board (v_open k v))"
  by (simp add: open_ok(2) flip: connect_def) (rule r_into_rtranclp, rule switch.answer, simp_all add: board_sel)

lemma switch_register: "registry_ok L v \<Longrightarrow> c < v_nextConn v \<Longrightarrow> m_state (v_conns v c) \<noteq> Some Ready \<Longrightarrow> m_kind (v_conns v c) = Service_conn \<Longrightarrow>
    \<not> m_closed (v_conns v c) \<Longrightarrow> map_of (v_services v) name = None \<Longrightarrow> name \<noteq> [] \<Longrightarrow> length (v_services v) < maxServiceNodes L \<Longrightarrow> (name, c) \<in> ns \<Longrightarrow>
    switches cs ns (board v) (board (v_register c name key v))"
  by (simp add: register_ok(2) flip: enrol_def) (rule r_into_rtranclp, rule switch.register, simp_all add: member_live, simp add: board_sel)

lemma switch_insert:
  assumes ok: "registry_ok L v" and can: "can_insert L c cid d sid name v" and c: "c \<in> cs"
  shows "switches cs ns (board v) (board (v_insert c cid d sid name v))"
proof -
  let ?e = "\<lparr>l_client = c, l_clientId = cid, l_service = d, l_serviceId = sid, l_open = False, l_name = name\<rparr>"
  have "no_clash ?e (board v)"
    using can held_facts(2,3) [OF ok] by (auto simp: no_clash_def board_sel can_insert_def v_owned_c_def v_owned_s_def split: if_splits)
  then have "switch cs ns (board v) (connect (v_nextLink v) ?e (board v))"
    using can c member_live [OF ok] by (intro switch.create) (simp_all add: can_insert_def, simp_all add: board_sel held_def)
  then show ?thesis using insert_ok(2) [OF ok can] by (simp add: connect_def)
qed

lemma switch_accept:
  assumes ok: "registry_ok L v" and m: "m_table m = CircuitTable (bound_of L (m_kind m))" "m_pending m = 0" "m_perService m = []" "\<not> m_closed m"
    "m_state m \<noteq> Some Ready" "m_kind m = Client_conn \<Longrightarrow> m_challenge m = None \<and> m_state m = None"
  shows "switches {v_nextConn v} ns (board v) (board (v_accept m v))"
proof -
  have "switch {v_nextConn v} ns (board v) ((board v)\<lparr>sb_members := insert (v_nextConn v) (sb_members (board v))\<rparr>)"
    using member_live [OF ok] by (intro switch.join) simp_all
  then show ?thesis using accept_ok(2) [OF assms] by simp
qed

end
