(* ===== verification/Relay_Safety.thy ===== *)
theory Relay_Safety
  imports Relay_Registry
begin

text \<open>
  What holds in every state the relay can reach, and what one event may do: the invariant of the registry is
  carried through every handler, the sweep and the suspended calls.
\<close>

declare pick_service_id.simps [simp del]

section \<open>Handlers keep the invariant\<close>

lemma view_close [simp]: "view (closeConnection c code reason s) = v_hangup c (view s)"
  by (simp add: closeConnection_def) (simp add: v_hangup_def)

lemma view_fail [simp]: "view (fail c code cc s) = v_hangup c (view s)"
  by (simp add: fail_def Let_def) (simp add: v_hangup_def)

lemma view_authFailed [simp]: "view (authFailed c code s) = v_hangup c (view s)"
  by (simp add: authFailed_def)

lemma view_violated: "view (violated R c s) = view s \<or> view (violated R c s) = v_hangup c (view s)"
proof -
  have "view (upd_conn c (\<lambda>cn. cn\<lparr>cn_violations := cn_violations cn + 1\<rparr>) s) = view s" for s
    by (rule view_upd_conn_same) (simp add: member_of_def)
  then show ?thesis by (simp add: violated_def Let_def)
qed

definition relay_ok :: "relay_options \<Rightarrow> relay_state \<Rightarrow> bool" where
  "relay_ok R s \<longleftrightarrow> registry_ok (ro_limits R) (view s)"

definition conn_in :: "relay_state \<Rightarrow> nat \<Rightarrow> bool" where
  "conn_in s c \<longleftrightarrow> c < v_nextConn (view s)"

text \<open>
  What a handler run for the connections \<open>cs\<close> may do to a state: the invariant stays, no connection is
  added, and the switchboard changes by steps of these connections only.
\<close>

definition kept :: "relay_options \<Rightarrow> nat set \<Rightarrow> (jsstring \<times> nat) set \<Rightarrow> relay_state \<Rightarrow> relay_state \<Rightarrow> bool" where
  "kept R cs ns s s' \<longleftrightarrow> relay_ok R s' \<and> rs_nextConn s' = rs_nextConn s \<and> switches cs ns (board (view s)) (board (view s'))"

definition party :: "nat set \<Rightarrow> relay_state \<Rightarrow> nat \<Rightarrow> bool" where
  "party cs s k \<longleftrightarrow> k \<in> held (view s) \<and> (cc_client (rs_circuits s k) \<in> cs \<or> cc_service (rs_circuits s k) \<in> cs)"

lemma kept_trans: "kept R cs ns s s' \<Longrightarrow> (relay_ok R s' \<Longrightarrow> kept R cs ns s' s'') \<Longrightarrow> kept R cs ns s s''"
  by (auto simp: kept_def)

lemma kept_same: "relay_ok R s \<Longrightarrow> view s' = view s \<Longrightarrow> kept R cs ns s s'"
  by (metis kept_def relay_ok_def view_sel(2) rtranclp.rtrancl_refl)

lemma kept_self: "relay_ok R s \<Longrightarrow> kept R cs ns s s"
  by (rule kept_same) simp_all

lemma kept_mono: "kept R cs ns s s' \<Longrightarrow> cs \<subseteq> ds \<Longrightarrow> kept R ds ns s s'"
  by (auto simp: kept_def intro: switches_mono)

lemma kept_hangup: "relay_ok R s \<Longrightarrow> conn_in s c \<Longrightarrow> c \<in> cs \<Longrightarrow> view s' = v_hangup c (view s) \<Longrightarrow> kept R cs ns s s'"
  using hangup_ok(1,3) [of "ro_limits R" "view s" c] switch_hangup [of "ro_limits R" "view s" c cs ns]
  by (simp add: kept_def relay_ok_def conn_in_def flip: view_sel(2))

lemma kept_view: "relay_ok R s \<Longrightarrow> view t = view s \<Longrightarrow> (relay_ok R t \<Longrightarrow> kept R cs ns t s') \<Longrightarrow> kept R cs ns s s'"
  by (rule kept_trans [OF kept_same])

lemma conn_in_same: "view t = view s \<Longrightarrow> conn_in t c = conn_in s c"
  by (simp add: conn_in_def)

lemma party_same: "view t = view s \<Longrightarrow> party cs t k = party cs s k"
  by (simp add: party_def flip: link_of_sel view_sel(4))

lemma kept_fail: "relay_ok R s \<Longrightarrow> conn_in s c \<Longrightarrow> c \<in> cs \<Longrightarrow> kept R cs ns s (fail c code cc s)"
  by (rule kept_hangup) simp_all

lemma kept_authFailed: "relay_ok R s \<Longrightarrow> conn_in s c \<Longrightarrow> c \<in> cs \<Longrightarrow> kept R cs ns s (authFailed c code s)"
  by (rule kept_hangup) simp_all

lemma kept_violated: "relay_ok R s \<Longrightarrow> conn_in s c \<Longrightarrow> c \<in> cs \<Longrightarrow> kept R cs ns s (violated R c s)"
  using view_violated [of R c s] kept_hangup kept_same by blast

lemma kept_remove:
  assumes "relay_ok R s" "party cs s k"
  shows "kept R cs ns s (removeCircuit k n r s)"
proof -
  have k: "registry_ok (ro_limits R) (view s)" "k \<in> held (view s)" using assms by (simp_all add: relay_ok_def party_def)
  have "switches cs ns (board (view s)) (board (v_remove k (view s)))"
    by (rule switch_remove [OF k]) (use assms(2) in \<open>simp add: party_def\<close>)
  then show ?thesis
    unfolding kept_def relay_ok_def view_sel(2) [symmetric] view_remove using removed_ok [OF k refl] removed_same(1) [OF k refl] by simp
qed

lemma kept_counted_remove:
  assumes "relay_ok R s" "party cs s k"
  shows "kept R cs ns s (removeCircuit k n r (counted f s))"
proof (rule kept_view [OF assms(1)])
  have "party cs (counted f s) k" using assms(2) party_same [OF view_counted [of f s]] by simp
  then show "relay_ok R (counted f s) \<Longrightarrow> kept R cs ns (counted f s) (removeCircuit k n r (counted f s))" by (intro kept_remove)
qed simp

lemma kept_forward:
  assumes "relay_ok R s" "party cs s k"
  shows "kept R cs ns s (forward R W k to raw s)"
proof -
  have u: "view (upd_circuit k (\<lambda>ci. ci\<lparr>cc_lastActivity := w_now W\<rparr>) t) = view t" for t
    by (rule view_upd_circuit_same) (simp add: link_of_def)
  have "view t = view s \<Longrightarrow> kept R cs ns s t" for t using assms(1) by (rule kept_same)
  then show ?thesis using kept_counted_remove [OF assms] by (simp add: forward_def Let_def u)
qed

lemma kept_open: "relay_ok R s \<Longrightarrow> k \<in> held (view s) \<Longrightarrow> \<not> cc_open (rs_circuits s k) \<Longrightarrow> cc_service (rs_circuits s k) \<in> cs \<Longrightarrow> kept R cs ns s (openCircuit k s)"
proof -
  assume a: "relay_ok R s" "k \<in> held (view s)" "\<not> cc_open (rs_circuits s k)" "cc_service (rs_circuits s k) \<in> cs"
  then have "registry_ok (ro_limits R) (v_open k (view s))" unfolding relay_ok_def by (intro open_ok(1)) simp_all
  moreover have "rs_nextConn (openCircuit k s) = rs_nextConn s"
    by (simp add: openCircuit_def counted_def upd_conn_def upd_circuit_def)
  moreover have "switches cs ns (board (view s)) (board (v_open k (view s)))"
    using a unfolding relay_ok_def by (intro switch_open) simp_all
  ultimately show ?thesis by (simp add: kept_def relay_ok_def)
qed

lemmas kept_intros = kept_fail kept_authFailed kept_violated kept_remove kept_counted_remove kept_forward

text \<open>A circuit found in the sender's table is one of its own.\<close>

lemma ok_found:
  assumes "relay_ok R s" "conn_in s c" "ct_get (cn_circuits (rs_conns s c)) i = Some k"
  shows "k \<in> held (view s)" "cn_kind (rs_conns s c) = Client_conn \<Longrightarrow> cc_client (rs_circuits s k) = c"
    "cn_kind (rs_conns s c) = Service_conn \<Longrightarrow> cc_service (rs_circuits s k) = c" "c \<in> cs \<Longrightarrow> party cs s k"
proof -
  have f: "k \<in> held (view s)" "if cn_kind (rs_conns s c) = Client_conn then cc_client (rs_circuits s k) = c \<and> cc_clientId (rs_circuits s k) = i
      else cc_service (rs_circuits s k) = c \<and> cc_serviceId (rs_circuits s k) = i"
    using found_held [of "ro_limits R" "view s" c i k] assms by (auto simp: relay_ok_def conn_in_def)
  then show "k \<in> held (view s)" "cn_kind (rs_conns s c) = Client_conn \<Longrightarrow> cc_client (rs_circuits s k) = c"
    "cn_kind (rs_conns s c) = Service_conn \<Longrightarrow> cc_service (rs_circuits s k) = c" "c \<in> cs \<Longrightarrow> party cs s k"
    by (auto simp: party_def split: if_splits)
qed

lemma pick_service_id_facts: "pick_service_id t draws = Some i \<Longrightarrow> list_all (\<lambda>d. length d = 8) draws \<Longrightarrow> i \<noteq> 0 \<and> i < 2 ^ 64 \<and> ct_get t i = None"
proof (induction t draws rule: pick_service_id.induct)
  case (1 t draws)
  have gen: "generateCircuitId ds = Some (j, rest) \<Longrightarrow> list_all (\<lambda>d. length d = 8) ds \<Longrightarrow> j \<noteq> 0 \<and> j < 2 ^ 64 \<and> list_all (\<lambda>d. length d = 8) rest" for ds j rest
  proof (induction ds rule: generateCircuitId.induct)
    case (2 d ds)
    then show ?case using be_nat_less [of d] by (auto simp: Let_def id_of_bytes_eq RESERVED_CIRCUIT_ID_def split: if_splits)
  qed simp
  obtain j rest where j: "generateCircuitId draws = Some (j, rest)" "(if ct_has t j then pick_service_id t rest else Some j) = Some i"
    using 1(2) by (subst (asm) pick_service_id.simps) (auto split: option.splits)
  show ?case
  proof (cases "ct_has t j")
    case True
    with 1(1) [OF j(1) refl True] j(2) gen [OF j(1) 1(3)] show ?thesis by simp
  next
    case False
    with j(2) gen [OF j(1) 1(3)] show ?thesis by simp
  qed
qed

lemma kept_create:
  assumes ok: "relay_ok R s" and c: "conn_in s c" "\<not> cn_closed (rs_conns s c)" "cn_kind (rs_conns s c) = Client_conn"
    and id: "f_circuitId f < 2 ^ 64" and W: "world_ok W" and r: "createCircuit R W c f s = Some s'" and cs: "c \<in> cs"
  shows "kept R cs ns s s'"
proof (cases "f_circuitId f = 0 \<or> f_streamId f \<noteq> 0 \<or> ct_has (cn_circuits (rs_conns s c)) (f_circuitId f)")
  case True
  then have "s' = violated R c s" using r by (auto simp: createCircuit_def Let_def split: if_splits)
  with kept_violated [OF ok c(1) cs] show ?thesis by simp
next
  case False
  obtain allowed ips where a: "allowCreate (cn_ip (rs_conns s c)) (w_now W) (rs_ips s) = (allowed, ips)" by fastforce
  let ?s = "s\<lparr>rs_ips := ips\<rparr>"
  have "view s' = view s \<or> (\<exists>name msg d sid. view s' = v_insert c (f_circuitId f) d sid name (view s) \<and>
      can_insert (ro_limits R) c (f_circuitId f) d sid name (view s))"
  proof (cases "\<not> allowed \<or> atCapacity (cn_circuits (rs_conns s c)) \<or> cn_pending (rs_conns s c) \<ge> maxPendingPerClient (ro_limits R)
      \<or> rs_circuitCount s \<ge> maxCircuits (ro_limits R)")
    case True
    then show ?thesis using r False a by (auto simp: createCircuit_def Let_def split: if_splits)
  next
    case room: False
    show ?thesis
    proof (cases "decodeCircuitCreate (f_payload f)")
      case (Inl e)
      then show ?thesis using r False a room by (auto simp: createCircuit_def Let_def)
    next
      case (Inr nm)
      obtain name msg where nm: "nm = (name, msg)" by fastforce
      show ?thesis
      proof (cases "map_of (rs_services s) name")
        case None
        then show ?thesis using r False a room Inr nm by (auto simp: createCircuit_def Let_def)
      next
        case (Some d)
        show ?thesis
        proof (cases "cn_closed (rs_conns s d) \<or> count_of (cn_perService (rs_conns s c)) d \<ge> maxCircuitsPerClientPerService (ro_limits R)
            \<or> count_of (rs_ipService s) (ipKey (cn_ip (rs_conns s c)) name) \<ge> maxCircuitsPerIpPerService (ro_limits R)
            \<or> atCapacity (cn_circuits (rs_conns s d))")
          case True
          then show ?thesis using r False a room Inr nm Some by (auto simp: createCircuit_def Let_def split: if_splits)
        next
          case fits: False
          then obtain sid where sid: "pick_service_id (cn_circuits (rs_conns s d)) (w_draws W) = Some sid"
            and s': "s' = sendTo d CIRCUIT_CREATE sid (f_payload f) (insertCircuit W c (f_circuitId f) d sid name ?s)"
            using r False a room Inr nm Some by (auto simp: createCircuit_def Let_def split: option.splits simp del: pick_service_id.simps)
          have "services_ok (view s)" "\<forall>d < rs_nextConn s. member_ok (ro_limits R) (view s) d"
            using ok by (auto simp: relay_ok_def registry_ok_def)
          then have "d < rs_nextConn s \<and> cn_state (rs_conns s d) = Some Ready" "d < rs_nextConn s \<Longrightarrow> cn_state (rs_conns s d) = Some Ready \<Longrightarrow> cn_kind (rs_conns s d) = Service_conn"
            using Some by (auto simp: services_ok_def member_ok_def Let_def simp del: map_of_eq_Some_iff)
          then have "c \<noteq> d" using c(3) by auto
          then have "view s' = v_insert c (f_circuitId f) d sid name (view s)" by (simp add: s' view_insert)
          moreover have "can_insert (ro_limits R) c (f_circuitId f) d sid name (view s)"
            using c id False room fits Some pick_service_id_facts [OF sid] W by (simp add: can_insert_def conn_in_def world_ok_def)
          ultimately show ?thesis by blast
        qed
      qed
    qed
  qed
  then show ?thesis
  proof
    assume "view s' = view s"
    with ok show ?thesis by (rule kept_same)
  next
    assume "\<exists>name msg d sid. view s' = v_insert c (f_circuitId f) d sid name (view s) \<and>
      can_insert (ro_limits R) c (f_circuitId f) d sid name (view s)"
    then obtain name d sid where i: "view s' = v_insert c (f_circuitId f) d sid name (view s)"
      "can_insert (ro_limits R) c (f_circuitId f) d sid name (view s)" by blast
    have "v_nextConn (v_insert c (f_circuitId f) d sid name (view s)) = v_nextConn (view s)" by (simp add: v_insert_def Let_def)
    with i insert_ok(1) [OF ok [unfolded relay_ok_def] i(2)] switch_insert [OF ok [unfolded relay_ok_def] i(2) cs] show ?thesis
      by (simp add: kept_def relay_ok_def flip: view_sel(2))
  qed
qed

lemma kept_fromClient:
  assumes "relay_ok R s" "conn_in s c" "\<not> cn_closed (rs_conns s c)" "cn_kind (rs_conns s c) = Client_conn"
    "f_circuitId f < 2 ^ 64" "world_ok W" "receiveFromClient R W c f raw s = Some s'" "c \<in> cs"
  shows "kept R cs ns s s'"
proof -
  have un: "kept R cs ns s (unowned s)" using assms(1) by (rule kept_same) simp
  show ?thesis
    using assms kept_create [OF assms(1-6) _ assms(8)] un ok_found(4) [OF assms(1,2) _ assms(8)]
    by (auto simp: receiveFromClient_def split: if_splits option.splits intro!: kept_intros)
qed

lemma kept_fromService:
  assumes "relay_ok R s" "conn_in s c" "cn_kind (rs_conns s c) = Service_conn" "c \<in> cs"
  shows "kept R cs ns s (receiveFromService R W c f raw s)"
proof -
  have un: "kept R cs ns s (unowned s)" using assms(1) by (rule kept_same) simp
  have op: "kept R cs ns s (forward R W k Client_conn raw (openCircuit k s))" if k: "k \<in> held (view s)" "\<not> cc_open (rs_circuits s k)" "cc_service (rs_circuits s k) \<in> cs" for k
  proof (rule kept_trans [OF kept_open [OF assms(1) k]])
    assume "relay_ok R (openCircuit k s)"
    moreover have "party cs (openCircuit k s) k"
      using open_ok(3) [OF assms(1) [unfolded relay_ok_def] k(1)] k
      by (simp add: party_def) (simp add: openCircuit_def counted_def upd_conn_def upd_circuit_def)
    ultimately show "kept R cs ns (openCircuit k s) (forward R W k Client_conn raw (openCircuit k s))" by (rule kept_forward)
  qed
  show ?thesis
    using assms un op ok_found(1,3,4) [OF assms(1,2)]
    by (auto simp: receiveFromService_def split: option.splits intro!: kept_intros)
qed

lemma kept_prove:
  assumes "relay_ok R s" "conn_in s c" "c \<in> cs"
  shows "kept R cs ns s (snd (proveIdentity R c f s))"
proof -
  have same: "view (upd_conn c (\<lambda>cn. cn\<lparr>cn_identityProven := True\<rparr>) s) = view s" by (rule view_upd_conn_same) (simp add: member_of_def)
  then have "kept R cs ns s (upd_conn c (\<lambda>cn. cn\<lparr>cn_identityProven := True\<rparr>) s)"
    "kept R cs ns s (emit x (upd_conn c (\<lambda>cn. cn\<lparr>cn_identityProven := True\<rparr>) s))" for x
    using assms(1) by (auto intro: kept_same)
  with assms show ?thesis by (auto simp: proveIdentity_def Let_def split: sum.splits intro!: kept_intros)
qed

lemma kept_unauthenticated:
  assumes "relay_ok R s" "conn_in s c" "cn_kind (rs_conns s c) = Service_conn" "cn_state (rs_conns s c) \<noteq> Some Ready" "c \<in> cs"
  shows "kept R cs ns s (receiveUnauthenticated R W c f s)"
proof -
  have fl: "kept R cs ns s (fail c code cc (counted g s))" for code cc g
    using kept_hangup [OF assms(1,2,5)] by simp
  have af: "kept R cs ns s (authFailed c code (s\<lparr>rs_ips := ips\<rparr>))" for code ips
    using kept_hangup [OF assms(1,2,5)] by simp
  have "registry_ok (ro_limits R) (v_state c Verifying (view s))"
    "board (v_state c Verifying (view s)) = board (view s)"
    using state_ok [OF assms(1) [unfolded relay_ok_def]] assms(2-4) by (simp_all add: conn_in_def)
  then have su: "kept R cs ns s (suspend W t c name (upd_conn c (\<lambda>cn. cn\<lparr>cn_state := Some Verifying\<rparr>) (s\<lparr>rs_ips := ips\<rparr>)))" for t name ips
    by (simp add: kept_def relay_ok_def v_state_def v_upd_def flip: view_sel(2))
  show ?thesis
    unfolding receiveUnauthenticated_def using fl af su by (auto simp: Let_def split: sum.splits prod.splits)
qed

lemma verified_name: "verifyChain vf chain (service_auth_options W name dk) = Inr (Verified v) \<Longrightarrow> isValidScope (JStr name)"
  by (auto simp: verifyChain_def service_auth_options_def split: if_splits)

lemma scope_nonempty: "isValidScope (JStr name) \<Longrightarrow> name \<noteq> []"
  by (auto simp: isValidScope_def valid_name_def)

text \<open>What a node has to prove before a name becomes its own.\<close>

definition registers :: "relay_options \<Rightarrow> relay_world \<Rightarrow> nat \<Rightarrow> jsstring \<Rightarrow> jsval list \<Rightarrow> jsstring \<Rightarrow> lookup_state \<Rightarrow> relay_state \<Rightarrow> bool" where
  "registers R W c name chain sg l s \<longleftrightarrow> (\<exists>key v challenge. l = Looked (Some key) \<and>
     verifyChain (ro_verify R) (JArr chain) (service_auth_options W name key) = Inr (Verified v) \<and>
     cn_challenge (rs_conns s c) = Some challenge \<and>
     verifyServiceAuth (ro_verify R) \<lparr>sas_name = name, sas_endpoint = ro_endpoint R, sas_challenge = challenge,
       sas_nodeKey = KeyBytes (vc_subject v)\<rparr> sg \<and>
     (\<forall>i. map_of (rs_services s) name = Some i \<longrightarrow> cn_nodeKeyHex (rs_conns s i) = Some (toHex (vc_subject v))))"

lemma kept_verify:
  assumes ok: "relay_ok R s" and c: "conn_in s c" "c \<in> cs" and held: "\<And>i. map_of (rs_services s) name = Some i \<Longrightarrow> i \<in> cs"
    and proven: "registers R W c name chain sg l s \<Longrightarrow> (name, c) \<in> ns"
  shows "kept R cs ns s (verifyService R W c name chain sg l s)"
proof (cases "cn_closed (rs_conns s c)")
  case True
  then show ?thesis using kept_self [OF ok] by (simp add: verifyService_def)
next
  case alive: False
  have failed: "kept R cs ns s (authFailed c code s)" for code using ok c by (rule kept_authFailed)
  have self: "kept R cs ns s s" using ok by (rule kept_self)
  show ?thesis
  proof (cases "verifyService R W c name chain sg l s = s \<or> (\<exists>code. verifyService R W c name chain sg l s = authFailed c code s)")
    case True
    with failed self show ?thesis by auto
  next
    case False
    obtain dk where dk: "lookup_outcome l = Some dk" using False alive by (auto simp: verifyService_def split: option.splits)
    obtain v where v: "verifyChain (ro_verify R) (JArr chain) (service_auth_options W name dk) = Inr (Verified v)"
      using False alive dk by (auto simp: verifyService_def split: sum.splits verify_result.splits)
    obtain ch where ch: "cn_challenge (rs_conns s c) = Some ch"
      using False alive dk v by (auto simp: verifyService_def split: option.splits)
    define inc where "inc = (case map_of (rs_services s) name of None \<Rightarrow> None | Some i \<Rightarrow> if cn_closed (rs_conns s i) then None else Some i)"
    define s1 where "s1 = (case inc of None \<Rightarrow> s | Some i \<Rightarrow> closeConnection i CLOSE_NORMAL (js ''replaced by the same node'') s)"
    have run: "verifyService R W c name chain sg l s = (if length (rs_services s1) \<ge> maxServiceNodes (ro_limits R) then authFailed c RESOURCE_EXHAUSTED s1
        else register W c name dk v s1)"
      using False alive dk v ch unfolding verifyService_def Let_def inc_def [symmetric] s1_def by (auto split: if_splits option.splits)
    have ls: "l = Looked (Some dk)" using dk by (cases l) (simp_all add: lookup_outcome_def)
    have "registers R W c name chain sg l s"
    proof -
      have live: "\<not> cn_closed (rs_conns s i)" if "map_of (rs_services s) name = Some i" for i
        using ok that by (auto simp: relay_ok_def registry_ok_def services_ok_def simp del: map_of_eq_Some_iff)
      have sig: "verifyServiceAuth (ro_verify R) \<lparr>sas_name = name, sas_endpoint = ro_endpoint R, sas_challenge = ch,
          sas_nodeKey = KeyBytes (vc_subject v)\<rparr> sg" (is ?sig)
      proof (rule ccontr)
        assume "\<not> ?sig"
        then have "verifyService R W c name chain sg l s = authFailed c AUTH_FAILED s" using alive dk v ch by (simp add: verifyService_def)
        with False show False by blast
      qed
      moreover have "cn_nodeKeyHex (rs_conns s i) = Some (toHex (vc_subject v))" if "map_of (rs_services s) name = Some i" for i
      proof (rule ccontr)
        assume "cn_nodeKeyHex (rs_conns s i) \<noteq> Some (toHex (vc_subject v))"
        then have "verifyService R W c name chain sg l s = authFailed c ALREADY_REGISTERED s"
          using alive dk v ch sig that live [OF that] by (simp add: verifyService_def)
        with False show False by blast
      qed
      ultimately show ?thesis using ls v ch by (auto simp: registers_def)
    qed
    then have granted: "(name, c) \<in> ns" by (rule proven)
    have m: "member_ok (ro_limits R) (view s) c" using ok_member [OF ok [unfolded relay_ok_def]] c by (simp add: conn_in_def)
    then have kind: "cn_kind (rs_conns s c) = Service_conn" "cn_state (rs_conns s c) \<noteq> Some Ready"
      using ch by (cases "cn_kind (rs_conns s c)"; auto simp: member_ok_def Let_def)+
    have sv: "map_of (rs_services s) n = Some i \<longleftrightarrow> i < rs_nextConn s \<and> \<not> cn_closed (rs_conns s i) \<and> cn_state (rs_conns s i) = Some Ready \<and> cn_name (rs_conns s i) = Some n" for n i
      using ok by (simp add: relay_ok_def registry_ok_def services_ok_def)
    have s1: "kept R cs ns s s1 \<and> map_of (rs_services s1) name = None \<and> \<not> cn_closed (rs_conns s1 c) \<and>
        cn_kind (rs_conns s1 c) = Service_conn \<and> cn_state (rs_conns s1 c) \<noteq> Some Ready"
    proof (cases "map_of (rs_services s) name")
      case None
      then show ?thesis using self alive kind by (simp add: s1_def inc_def)
    next
      case (Some i)
      then have i: "i < rs_nextConn s" "\<not> cn_closed (rs_conns s i)" "cn_state (rs_conns s i) = Some Ready" using sv by auto
      then have ic: "i \<noteq> c" using kind by auto
      have s1: "view s1 = v_hangup i (view s)" using Some i by (simp add: s1_def inc_def)
      note h = hangup_ok [OF ok [unfolded relay_ok_def], of i]
      have iv: "i < v_nextConn (view s)" using i by simp
      have "sb_services (board (view s1)) name = None"
        using h(2) [OF iv] i(2) Some by (simp add: s1 hang_up_def board_def)
      moreover have "kept R cs ns s s1" using kept_hangup [OF ok _ held [OF Some] s1] i by (simp add: conn_in_def)
      moreover have "m_closed (v_conns (view s1) c) = cn_closed (rs_conns s c)" "m_kind (v_conns (view s1) c) = cn_kind (rs_conns s c)"
        "m_state (v_conns (view s1) c) = cn_state (rs_conns s c)"
        using h(7) [OF iv, of c] h(8) [OF iv, of c] h(9) [OF iv, of c] ic by (simp_all add: s1)
      ultimately show ?thesis using alive kind by (simp add: board_def)
    qed
    then have ok1: "relay_ok R s1" and n1: "rs_nextConn s1 = rs_nextConn s" by (auto simp: kept_def)
    have c1: "conn_in s1 c" using c n1 by (simp add: conn_in_def)
    have nm: "name \<noteq> []" using verified_name [OF v] scope_nonempty by blast
    show ?thesis
    proof (cases "length (rs_services s1) \<ge> maxServiceNodes (ro_limits R)")
      case True
      with run have eq: "verifyService R W c name chain sg l s = authFailed c RESOURCE_EXHAUSTED s1" by simp
      show ?thesis unfolding eq by (rule kept_trans [of R cs ns s s1]) (use s1 c1 c(2) in \<open>auto intro: kept_authFailed\<close>)
    next
      case space: False
      then have "registry_ok (ro_limits R) (v_register c name (toHex (vc_subject v)) (view s1))"
        using register_ok(1) [OF ok1 [unfolded relay_ok_def], of c name] s1 c1 nm by (simp add: conn_in_def)
      moreover have "switches cs ns (board (view s1)) (board (v_register c name (toHex (vc_subject v)) (view s1)))"
        using space s1 c1 granted nm by (intro switch_register [OF ok1 [unfolded relay_ok_def]]) (simp_all add: conn_in_def)
      moreover have "switches cs ns (board (view s)) (board (view s1))" using s1 by (simp add: kept_def)
      moreover have "v_nextConn (v_register c name key w) = v_nextConn w" for key w by (simp add: v_register_def v_upd_def)
      ultimately have "kept R cs ns s (register W c name dk v s1)" using n1 by (simp add: kept_def relay_ok_def flip: view_sel(2))
      with run space show ?thesis by simp
    qed
  qed
qed

lemma kept_recheck: "relay_ok R s \<Longrightarrow> conn_in s c \<Longrightarrow> c \<in> cs \<Longrightarrow> kept R cs ns s (recheckDomainKey c l s)"
  using kept_fail kept_self by (simp add: recheckDomainKey_def)

section \<open>Received data, the sweep and the other events\<close>

lemma decoded_id: "decodeFrame data = Inr f \<Longrightarrow> f_circuitId f < 2 ^ 64"
  by (rule decodeFrame_ok)

lemma kept_frame:
  assumes ok: "relay_ok R s" and c: "conn_in s c" "\<not> cn_closed (rs_conns s c)" and f: "f_circuitId f < 2 ^ 64" and W: "world_ok W"
    and r: "receive_frame R W c f data s = Some (threw, s')" and cs: "c \<in> cs"
  shows "kept R cs ns s s'"
proof -
  have same: "view t = view s \<Longrightarrow> kept R cs ns s t" for t using ok by (rule kept_same)
  show ?thesis
  proof (cases "f_type f = FrameType PING \<and> f_circuitId f = 0 \<or> f_type f = FrameType PONG \<or> f_type f = FrameType HELLO")
    case True
    then show ?thesis using r same [of s] same kept_prove [OF ok c(1) cs, of _ f] by (auto simp: receive_frame_def split: if_splits)
  next
    case False
    then have r': "(if cn_kind (rs_conns s c) = Service_conn \<and> cn_state (rs_conns s c) \<noteq> Some Ready
        then Some (False, receiveUnauthenticated R W c f s)
      else if cn_kind (rs_conns s c) = Client_conn then map_option (Pair False) (receiveFromClient R W c f data s)
      else Some (False, receiveFromService R W c f data s)) = Some (threw, s')"
      using r by (auto simp: receive_frame_def split: if_splits)
    consider "cn_kind (rs_conns s c) = Service_conn" "cn_state (rs_conns s c) \<noteq> Some Ready" | "cn_kind (rs_conns s c) = Client_conn"
      | "cn_kind (rs_conns s c) = Service_conn" "cn_state (rs_conns s c) = Some Ready" by (cases "cn_kind (rs_conns s c)") auto
    then show ?thesis
    proof cases
      case 1
      with r' kept_unauthenticated [OF ok c(1) _ _ cs] show ?thesis by auto
    next
      case 2
      with r' kept_fromClient [OF ok c _ f W _ cs, of data] show ?thesis by auto
    next
      case 3
      with r' kept_fromService [OF ok c(1) _ cs] show ?thesis by auto
    qed
  qed
qed

lemma kept_receive:
  assumes ok: "relay_ok R s" and c: "conn_in s c" and W: "world_ok W" and r: "handleReceive R W c data s = Some s'" and cs: "c \<in> cs"
  shows "kept R cs ns s s'"
proof -
  obtain threw t where t: "receive_data R W c data s = Some (threw, t)" "s' = (if threw then fail c (ErrorCode PROTOCOL_VIOLATION) CLOSE_POLICY t else t)"
    using r by (auto simp: handleReceive_def split: option.splits)
  have "kept R cs ns s t"
  proof (cases "cn_closed (rs_conns s c) \<or> length data > MAX_FRAME_SIZE \<or> (\<exists>e. decodeFrame data = Inl e)")
    case True
    then show ?thesis using t(1) kept_fail [OF ok c cs] kept_self [OF ok] by (auto simp: receive_data_def split: if_splits)
  next
    case False
    then obtain f where f: "decodeFrame data = Inr f" by (cases "decodeFrame data") auto
    from kept_frame [OF ok c _ decoded_id [OF f] W _ cs] t(1) f False show ?thesis by (auto simp: receive_data_def split: if_splits)
  qed
  then show ?thesis
  proof (rule kept_trans)
    assume ok': "relay_ok R t"
    have "conn_in t c" using \<open>kept R cs ns s t\<close> c by (simp add: kept_def conn_in_def)
    with ok' t(2) cs kept_self [OF ok'] kept_fail [OF ok'] show "kept R cs ns t s'" by simp
  qed
qed

lemma kept_fold:
  assumes "relay_ok R s" "\<And>x t. x \<in> set xs \<Longrightarrow> relay_ok R t \<Longrightarrow> rs_nextConn t = rs_nextConn s \<Longrightarrow> kept R cs ns t (g x t)"
  shows "kept R cs ns s (fold g xs s)"
  using assms
proof (induction xs arbitrary: s)
  case (Cons x xs)
  have x: "kept R cs ns s (g x s)" using Cons.prems by simp
  then show ?case
  proof (rule kept_trans)
    assume "relay_ok R (g x s)"
    with x Cons show "kept R cs ns (g x s) (fold g (x # xs) s)" by (simp add: kept_def)
  qed
qed (simp add: kept_self)

lemma remove_keeps_held: "relay_ok R s \<Longrightarrow> k \<in> held (view s) \<Longrightarrow> j \<in> held (view s) \<Longrightarrow> j \<noteq> k \<Longrightarrow> j \<in> held (view (removeCircuit k n r s))"
  using removed_held [of "ro_limits R" "view s" k] by (simp add: relay_ok_def)

lemma removeCircuit_absent: "relay_ok R s \<Longrightarrow> k < rs_nextCircuit s \<Longrightarrow> k \<notin> held (view s) \<Longrightarrow> view (removeCircuit k n r s) = view s"
  using ok_link [of "ro_limits R" "view s" k] by (auto simp: relay_ok_def held_def ends_ok_def Let_def v_remove_absent)

lemma view_next: "view t = view s \<Longrightarrow> rs_nextCircuit t = rs_nextCircuit s" "view t = view s \<Longrightarrow> rs_nextConn t = rs_nextConn s"
  by (metis view_sel(5), metis view_sel(2))

lemma view_link: "rs_nextCircuit t = v_nextLink (view t)"
  by simp

lemma kept_sweep_circuit:
  assumes "relay_ok R s" "k < rs_nextCircuit s"
  shows "kept R UNIV ns s (sweep_circuit R W k s) \<and> rs_nextCircuit (sweep_circuit R W k s) = rs_nextCircuit s"
proof -
  have rm: "kept R UNIV ns s (removeCircuit k n r t) \<and> rs_nextCircuit (removeCircuit k n r t) = rs_nextCircuit s" if t: "view t = view s" for t n r
  proof (cases "k \<in> held (view s)")
    case True
    have "relay_ok R t" using assms(1) t by (simp add: relay_ok_def)
    then have "kept R UNIV ns t (removeCircuit k n r t)" using True t by (intro kept_remove) (simp_all add: party_def)
    moreover have "rs_nextConn t = rs_nextConn s" using view_next(2) [OF t] .
    moreover have "v_nextLink (v_remove k (view s)) = v_nextLink (view s)"
      using removed_same(4) [OF assms(1) [unfolded relay_ok_def] True refl] .
    then have "rs_nextCircuit (removeCircuit k n r t) = rs_nextCircuit s"
      using view_link [of "removeCircuit k n r t"] t by simp
    ultimately show ?thesis using t by (simp add: kept_def)
  next
    case False
    have "relay_ok R t" "k < rs_nextCircuit t" "k \<notin> held (view t)" using assms t False view_next(1) [OF t] by (simp_all add: relay_ok_def)
    then have "view (removeCircuit k n r t) = view s" using removeCircuit_absent t by metis
    then show ?thesis using kept_same [OF assms(1)] view_next(1) by blast
  qed
  have "kept R UNIV ns s s" using assms(1) by (rule kept_self)
  with rm [of s] rm [of "counted (rc_idleDestroys_update Suc) s"] show ?thesis by (simp add: sweep_circuit_def Let_def)
qed

lemma kept_sweep_circuits:
  "relay_ok R s \<Longrightarrow> \<forall>(i, k) \<in> set es. k < rs_nextCircuit s \<Longrightarrow> kept R UNIV ns s (fold (\<lambda>(_, k). sweep_circuit R W k) es s)"
proof (induction es arbitrary: s)
  case (Cons e es)
  obtain i k where e: "e = (i, k)" by fastforce
  have k: "kept R UNIV ns s (sweep_circuit R W k s)" "rs_nextCircuit (sweep_circuit R W k s) = rs_nextCircuit s"
    using kept_sweep_circuit [OF Cons.prems(1)] Cons.prems(2) e by auto
  from k(1) show ?case
  proof (rule kept_trans)
    assume "relay_ok R (sweep_circuit R W k s)"
    with Cons.IH [of "sweep_circuit R W k s"] Cons.prems(2) k(2) e show "kept R UNIV ns (sweep_circuit R W k s) (fold (\<lambda>(_, k). sweep_circuit R W k) (e # es) s)" by simp
  qed
qed (simp add: kept_self)

lemma table_entries:
  assumes ok: "relay_ok R s" and c: "c < rs_nextConn s"
  shows "\<forall>(i, k) \<in> set (ct_entries (cn_circuits (rs_conns s c))). k < rs_nextCircuit s"
proof (clarify)
  fix i k assume e: "(i, k) \<in> set (ct_entries (cn_circuits (rs_conns s c)))"
  have cin: "conn_in s c" using c by (simp add: conn_in_def)
  have "member_ok (ro_limits R) (view s) c" using ok c by (simp add: relay_ok_def registry_ok_def)
  then have "ct_inv (cn_circuits (rs_conns s c))" by (simp add: member_ok_def Let_def)
  then have "ct_get (cn_circuits (rs_conns s c)) i = Some k" using e by (simp add: ct_get_def ct_entries_def ct_inv_def map_of_eq_Some_iff)
  from ok_found(1) [OF ok cin this] show "k < rs_nextCircuit s" by (simp add: held_def)
qed

lemma kept_sweep_conn:
  assumes ok: "relay_ok R s" and c: "c < rs_nextConn s"
  shows "kept R UNIV ns s (sweep_conn R W c s)"
proof -
  have cin: "conn_in s c" using c by (simp add: conn_in_def)
  have self: "kept R UNIV ns s s" using ok by (rule kept_self)
  let ?es = "ct_entries (cn_circuits (rs_conns s c))"
  note entries = table_entries [OF ok c]
  have "kept R UNIV ns s (recheck_due R W c s)" by (rule kept_same [OF ok view_recheck_due])
  then have swept: "kept R UNIV ns s (fold (\<lambda>(_, k). sweep_circuit R W k) ?es (recheck_due R W c s))"
  proof (rule kept_trans)
    assume "relay_ok R (recheck_due R W c s)"
    then show "kept R UNIV ns (recheck_due R W c s) (fold (\<lambda>(_, k). sweep_circuit R W k) ?es (recheck_due R W c s))"
      by (rule kept_sweep_circuits) (use entries view_next(1) [OF view_recheck_due] in simp)
  qed
  show ?thesis
    unfolding sweep_conn_def Let_def using self kept_authFailed [OF ok cin UNIV_I] kept_fail [OF ok cin UNIV_I] swept by (simp only: if_splits) blast
qed

lemma kept_close_largest:
  "relay_ok R s \<Longrightarrow> \<forall>(c, n) \<in> set cs. c < rs_nextConn s \<Longrightarrow> kept R UNIV ns s (close_largest R cs used s)"
proof (induction R cs used s rule: close_largest.induct)
  case (2 R c n rest used s)
  have k: "kept R UNIV ns s (fail c (ErrorCode RESOURCE_EXHAUSTED) CLOSE_TRY_LATER (counted (rc_memoryCloses_update Suc) s))" (is "kept R UNIV ns s ?t")
    using 2(3) by (intro kept_hangup [OF 2(2)]) (auto simp: conn_in_def)
  show ?case
  proof (cases "used \<le> int (globalBufferLimit (ro_limits R))")
    case False
    have "kept R UNIV ns s (close_largest R rest (used - int n) ?t)"
      using k by (rule kept_trans) (use 2(1) [OF False] 2(3) k in \<open>auto simp: kept_def\<close>)
    with False show ?thesis by simp
  qed (use 2(2) in \<open>simp add: kept_self\<close>)
qed (simp add: kept_self)

lemma live_bound: "relay_ok R s \<Longrightarrow> c \<in> set (rs_live s) \<Longrightarrow> c < rs_nextConn s"
  by (auto simp: relay_ok_def registry_ok_def live_ok_def)

lemma kept_sweep: assumes ok: "relay_ok R s" shows "kept R UNIV ns s (sweep R W s)"
proof -
  have 1: "kept R UNIV ns s (fold (sweep_conn R W) (rs_live s) s)"
    using live_bound [OF ok] by (intro kept_fold [OF ok] kept_sweep_conn) auto
  let ?t = "fold (sweep_conn R W) (rs_live s) s"
  have "kept R UNIV ns ?t (enforceGlobalBuffer R W ?t)" if "relay_ok R ?t"
    using that live_bound [OF that] by (auto simp: enforceGlobalBuffer_def Let_def intro!: kept_close_largest kept_self)
  with 1 have 2: "kept R UNIV ns s (enforceGlobalBuffer R W ?t)" by (rule kept_trans)
  then show ?thesis by (rule kept_trans) (simp add: sweep_def Let_def kept_same view_def)
qed

lemma kept_shutdown: assumes ok: "relay_ok R s" shows "kept R UNIV ns s (shutdown s)"
  unfolding shutdown_def
proof (rule kept_fold [OF ok])
  fix c t assume "c \<in> set (rs_live s)" "relay_ok R t" "rs_nextConn t = rs_nextConn s"
  then show "kept R UNIV ns t (closeConnection c CLOSE_NORMAL (js ''shutdown'') t)"
    using live_bound [OF ok] by (intro kept_hangup) (auto simp: conn_in_def)
qed

section \<open>Suspended calls name existing connections\<close>

lemma tasks_basic [simp]: "rs_tasks (emit x s) = rs_tasks s" "rs_tasks (counted f s) = rs_tasks s" "rs_tasks (upd_conn c g s) = rs_tasks s"
  "rs_tasks (upd_circuit k h s) = rs_tasks s" "rs_tasks (sendTo c t i p s) = rs_tasks s"
  by (simp_all add: emit_def counted_def upd_conn_def upd_circuit_def sendTo_def)

lemma tasks_remove [simp]: "rs_tasks (removeCircuit k n r s) = rs_tasks s"
  by (simp add: removeCircuit_def Let_def)

lemma tasks_fold_remove: "rs_tasks (fold (\<lambda>k s. removeCircuit k (g k s) r s) ks s) = rs_tasks s"
  by (induction ks arbitrary: s) simp_all

lemma tasks_closed [simp]: "rs_tasks (onTransportClosed c s) = rs_tasks s"
  by (cases "cn_name (rs_conns s c)")
    (simp_all add: onTransportClosed_def Let_def ct_drain_def tasks_fold_remove upd_conn_conns)

lemma tasks_closing [simp]: "rs_tasks (closeConnection c code reason s) = rs_tasks s" "rs_tasks (fail c e cc s) = rs_tasks s"
  "rs_tasks (authFailed c ec s) = rs_tasks s" "rs_tasks (violated R c s) = rs_tasks s" "rs_tasks (unowned s) = rs_tasks s"
  "rs_tasks (rejected c i ec s) = rs_tasks s"
  by (simp_all add: closeConnection_def fail_def authFailed_def violated_def unowned_def rejected_def Let_def)

lemma tasks_forward [simp]: "rs_tasks (forward R W k side raw s) = rs_tasks s" "rs_tasks (openCircuit k s) = rs_tasks s"
  "rs_tasks (insertCircuit W c cid d sid name s) = rs_tasks s" "rs_tasks (snd (proveIdentity R c f s)) = rs_tasks s"
  by (simp_all add: forward_def openCircuit_def insertCircuit_def proveIdentity_def Let_def split: sum.splits)

lemma tasks_create: "createCircuit R W c f s = Some s' \<Longrightarrow> rs_tasks s' = rs_tasks s"
  by (auto simp: createCircuit_def Let_def split: if_splits prod.splits sum.splits option.splits)

lemma tasks_fromClient: "receiveFromClient R W c f raw s = Some s' \<Longrightarrow> rs_tasks s' = rs_tasks s"
  by (auto simp: receiveFromClient_def tasks_create split: if_splits option.splits)

lemma tasks_fromService [simp]: "rs_tasks (receiveFromService R W c f raw s) = rs_tasks s"
  by (simp add: receiveFromService_def split: option.splits)

lemma tasks_register [simp]: "rs_tasks (register W c name dk v s) = rs_tasks s"
  by (simp add: register_def Let_def)

lemma tasks_verify [simp]: "rs_tasks (verifyService R W c name chain sg l s) = rs_tasks s"
  by (simp add: verifyService_def Let_def split: option.splits sum.splits verify_result.splits)

lemma tasks_recheck [simp]: "rs_tasks (recheckDomainKey c l s) = rs_tasks s"
  by (simp add: recheckDomainKey_def)

definition tasks_from :: "relay_state \<Rightarrow> nat set \<Rightarrow> relay_state \<Rightarrow> bool" where
  "tasks_from s cs s' \<longleftrightarrow> (\<forall>t \<in> set (rs_tasks s'). t \<in> set (rs_tasks s) \<or> rt_conn t \<in> cs)"

lemma tasks_from_same: "rs_tasks s' = rs_tasks s \<Longrightarrow> tasks_from s cs s'"
  by (simp add: tasks_from_def)

lemma tasks_from_trans: "tasks_from s cs t \<Longrightarrow> tasks_from t cs u \<Longrightarrow> tasks_from s cs u"
  by (auto simp: tasks_from_def)

lemma tasks_domainKeyFor: "domainKeyFor W name s = (l, s') \<Longrightarrow> rs_tasks s' = rs_tasks s"
  by (auto simp: domainKeyFor_def Let_def split: option.splits if_splits)

lemma tasks_suspend: "rs_tasks s = rs_tasks s0 \<Longrightarrow> c \<in> cs \<Longrightarrow> tasks_from s0 cs (suspend W t c name s)"
  by (auto simp: suspend_def tasks_from_def dest: tasks_domainKeyFor split: prod.splits)

lemma tasks_unauthenticated: "tasks_from s {c} (receiveUnauthenticated R W c f s)"
proof -
  have same: "rs_tasks t = rs_tasks s \<Longrightarrow> tasks_from s {c} t" for t by (rule tasks_from_same)
  have waits: "rs_tasks t = rs_tasks s \<Longrightarrow> tasks_from s {c} (suspend W v c name t)" for v name t
    by (rule tasks_suspend) simp_all
  show ?thesis by (simp add: receiveUnauthenticated_def Let_def same waits split: sum.split prod.split)
qed

lemma tasks_prove: "proveIdentity R c f s = (threw, t) \<Longrightarrow> rs_tasks t = rs_tasks s"
  using tasks_forward(4) [of R c f s] by simp

lemma tasks_receive: "handleReceive R W c data s = Some s' \<Longrightarrow> tasks_from s {c} s'"
proof -
  assume r: "handleReceive R W c data s = Some s'"
  have frame: "receive_frame R W c f data s = Some (threw, t) \<Longrightarrow> tasks_from s {c} t" for f threw t
    using tasks_unauthenticated [of s c R W f]
    by (auto simp: receive_frame_def intro: tasks_from_same [OF tasks_prove] tasks_from_same [OF tasks_fromClient] tasks_from_same split: if_splits)
  obtain threw t where t: "receive_data R W c data s = Some (threw, t)" "s' = (if threw then fail c (ErrorCode PROTOCOL_VIOLATION) CLOSE_POLICY t else t)"
    using r by (auto simp: handleReceive_def split: option.splits)
  then have "tasks_from s {c} t"
    by (auto simp: receive_data_def frame intro!: tasks_from_same split: if_splits sum.splits)
  with t(2) show ?thesis by (auto simp: tasks_from_def)
qed

lemma tasks_fold: "(\<And>x t. x \<in> set xs \<Longrightarrow> tasks_from t cs (g x t)) \<Longrightarrow> tasks_from s cs (fold g xs s)"
proof (induction xs arbitrary: s)
  case Nil
  then show ?case by (simp add: tasks_from_def)
next
  case (Cons x xs)
  have "tasks_from s cs (g x s)" "tasks_from (g x s) cs (fold g xs (g x s))" using Cons by simp_all
  then show ?case by (auto intro: tasks_from_trans)
qed

lemma tasks_sweep_conn: "tasks_from s {c} (sweep_conn R W c s)"
proof -
  have "tasks_from s {c} (recheck_due R W c s)"
  proof -
    have same: "rs_tasks t = rs_tasks s \<Longrightarrow> tasks_from s {c} t" for t by (rule tasks_from_same)
    have waits: "rs_tasks t = rs_tasks s \<Longrightarrow> tasks_from s {c} (suspend W v c name t)" for v name t
      by (rule tasks_suspend) simp_all
    show ?thesis by (simp add: recheck_due_def Let_def same waits split: option.split)
  qed
  moreover have "tasks_from (recheck_due R W c s) {c} (fold (\<lambda>(_, k). sweep_circuit R W k) es (recheck_due R W c s))" for es :: "(nat \<times> nat) list"
    by (rule tasks_fold) (auto simp: sweep_circuit_def Let_def intro!: tasks_from_same)
  ultimately have swept: "tasks_from s {c} (fold (\<lambda>(_, k). sweep_circuit R W k) es (recheck_due R W c s))" for es :: "(nat \<times> nat) list" by (rule tasks_from_trans)
  moreover have "rs_tasks t = rs_tasks s \<Longrightarrow> tasks_from s {c} t" for t by (rule tasks_from_same)
  ultimately show ?thesis by (simp add: sweep_conn_def Let_def)
qed

lemma tasks_close_largest [simp]: "rs_tasks (close_largest R cs used s) = rs_tasks s"
  by (induction R cs used s rule: close_largest.induct) simp_all

lemma tasks_sweep: "tasks_from s (set (rs_live s)) (sweep R W s)"
proof -
  have "tasks_from s (set (rs_live s)) (fold (sweep_conn R W) (rs_live s) s)"
    by (rule tasks_fold) (use tasks_sweep_conn in \<open>fastforce simp: tasks_from_def\<close>)
  then show ?thesis by (simp add: sweep_def Let_def tasks_from_def enforceGlobalBuffer_def)
qed

lemma tasks_shutdown [simp]: "rs_tasks (shutdown s) = rs_tasks s"
proof -
  have "rs_tasks (fold (\<lambda>c. closeConnection c code reason) cs s) = rs_tasks s" for cs code reason
    by (induction cs arbitrary: s) simp_all
  then show ?thesis by (simp add: shutdown_def)
qed

section \<open>Every reachable state\<close>

definition relay_inv :: "relay_options \<Rightarrow> relay_state \<Rightarrow> bool" where
  "relay_inv R s \<longleftrightarrow> relay_ok R s \<and> (\<forall>t \<in> set (rs_tasks s). rt_conn t < rs_nextConn s)"

lemma relay_inv_init: "relay_inv R relay_init"
  by (simp add: relay_inv_def relay_init_def relay_ok_def registry_ok_def live_ok_def services_ok_def totals_ok_def)
    (simp add: view_def counts_def count_of_def tally_def held_def)

lemma relay_inv_step:
  assumes inv: "relay_inv R s" and W: "world_ok W" and step: "relay_step R W e s = Some s'"
  shows "relay_inv R s'"
proof -
  have ok: "relay_ok R s" and tasks: "\<forall>t \<in> set (rs_tasks s). rt_conn t < rs_nextConn s" using inv by (simp_all add: relay_inv_def)
  have kept: "kept R ds ns s s' \<Longrightarrow> tasks_from s cs s' \<Longrightarrow> (\<And>c. c \<in> cs \<Longrightarrow> c < rs_nextConn s) \<Longrightarrow> relay_inv R s'" for cs ds ns
    using tasks by (auto simp: relay_inv_def kept_def tasks_from_def)
  have same: "view s' = view s \<Longrightarrow> rs_tasks s' = rs_tasks s \<Longrightarrow> relay_inv R s'"
    using kept [OF kept_same [OF ok], of "{}"] by (simp add: tasks_from_def)
  have accept: "relay_inv R s'" if "view s' = v_accept m (view s)" "m_table m = CircuitTable (bound_of (ro_limits R) (m_kind m))" "m_pending m = 0"
      "m_perService m = []" "\<not> m_closed m" "m_state m \<noteq> Some Ready" "m_kind m = Client_conn \<Longrightarrow> m_challenge m = None \<and> m_state m = None"
      "rs_tasks s' = rs_tasks s" for m
  proof -
    have "relay_ok R s'" using accept_ok(1) [OF ok [unfolded relay_ok_def] that(2-7)] that(1) by (simp add: relay_ok_def)
    moreover have "rs_nextConn s' = Suc (rs_nextConn s)" using that(1) view_sel(2) [of s'] by (simp add: v_accept_def)
    ultimately show ?thesis using tasks that(8) by (auto simp: relay_inv_def less_Suc_eq)
  qed
  show ?thesis
  proof (cases e)
    case (Ev_admit ip)
    with step have "view s' = view s" "rs_tasks s' = rs_tasks s" by (auto simp: admit_def split: if_splits prod.splits)
    then show ?thesis by (rule same)
  next
    case (Ev_release ip)
    with step have "view s' = view s" "rs_tasks s' = rs_tasks s" by (auto simp: releaseAdmission_def)
    then show ?thesis by (rule same)
  next
    case (Ev_accept_client ip)
    with step have s': "s' = snd (acceptClient R W ip s)" by simp
    then show ?thesis by (intro accept [OF view_accept(1) [of R W ip s, folded s']])
      (simp_all add: member_of_def fresh_connection_def bound_of_def acceptClient_def newConnection_def)
  next
    case (Ev_accept_service ip ch)
    with step have s': "s' = snd (acceptService R W ip ch s)" by (simp split: if_splits)
    then show ?thesis by (intro accept [OF view_accept(2) [of R W ip ch s, folded s']])
      (simp_all add: member_of_def fresh_connection_def bound_of_def acceptService_def newConnection_def Let_def)
  next
    case (Ev_receive c data)
    with step have c: "c < rs_nextConn s" "handleReceive R W c data s = Some s'" by (simp_all split: if_splits)
    then show ?thesis using kept [OF kept_receive [OF ok _ W c(2) singletonI] tasks_receive [OF c(2)]] by (simp add: conn_in_def)
  next
    case (Ev_closed c)
    with step have c: "c < rs_nextConn s" "s' = onTransportClosed c s" by (simp_all split: if_splits)
    then have "kept R {c} {} s s'" using ok by (intro kept_hangup [of R s c]) (simp_all add: conn_in_def)
    with c show ?thesis by (intro kept [of "{c}" "{}" "{}"]) (simp_all add: tasks_from_def)
  next
    case Ev_sweep
    with step have s': "s' = sweep R W s" by simp
    show ?thesis using kept [of UNIV UNIV "set (rs_live s)"] kept_sweep [OF ok] tasks_sweep live_bound [OF ok] unfolding s' by blast
  next
    case (Ev_settled name r)
    with step have s': "s' = settleLookup R W name r s" by (simp split: if_splits)
    have "kept R {} {} s s'" unfolding s' by (rule kept_same [OF ok view_settle])
    with tasks show ?thesis by (auto simp: relay_inv_def kept_def) (auto simp: s' settleLookup_def Let_def)
  next
    case (Ev_task i)
    let ?t = "rs_tasks s ! i" and ?s = "s\<lparr>rs_tasks := take i (rs_tasks s) @ drop (Suc i) (rs_tasks s)\<rparr>"
    have i: "i < length (rs_tasks s)" "s' = runTask R W ?t ?s" using step Ev_task by (simp_all split: if_splits)
    then have t: "rt_conn ?t < rs_nextConn s" using tasks by simp
    have ok': "relay_ok R ?s" and cin: "conn_in ?s (rt_conn ?t)" using ok t by (simp_all add: relay_ok_def conn_in_def)
    have "kept R UNIV UNIV ?s s'" unfolding i(2) runTask_def using kept_verify [OF ok' cin UNIV_I UNIV_I UNIV_I] kept_recheck [OF ok' cin UNIV_I] by (auto split: option.splits)
    then have "kept R UNIV UNIV s s'" by (simp add: kept_def)
    moreover have "rs_tasks s' = rs_tasks ?s" unfolding i(2) runTask_def by (auto split: option.splits)
    then have "set (rs_tasks s') \<subseteq> set (rs_tasks s)" using set_take_subset set_drop_subset by fastforce
    ultimately show ?thesis using tasks by (auto simp: relay_inv_def kept_def)
  next
    case Ev_shutdown
    with step kept [of UNIV UNIV "{}"] kept_shutdown [OF ok] show ?thesis by (auto simp: tasks_from_def)
  qed
qed

lemma reachable_relay_inv: "reachable R s \<Longrightarrow> relay_inv R s"
  by (induction rule: reachable.induct) (auto intro: relay_inv_init relay_inv_step)

end
