(* ===== verification/Relay_Sends.thy ===== *)
theory Relay_Sends
  imports Relay_Safety
begin

text \<open>
  What the relay says, and to whom: every handler only appends to the log, every byte string in it is a frame a
  peer can decode, and the receivers are the sender of the frame at hand, the other ends of circuits, and the
  node a new circuit goes to.
\<close>

section \<open>What a handler adds to the log\<close>

definition proper :: "nat set \<Rightarrow> relay_out \<Rightarrow> bool" where
  "proper D x = (case x of Out_send d bs \<Rightarrow> d \<in> D \<and> is_ok (decodeFrame bs) | Out_close d _ _ \<Rightarrow> d \<in> D | Out_lookup _ \<Rightarrow> True)"

definition ends_of :: "circuit \<Rightarrow> nat \<times> nat \<times> nat \<times> nat" where
  "ends_of ci = (cc_client ci, cc_clientId ci, cc_service ci, cc_serviceId ci)"

definition says :: "nat set \<Rightarrow> relay_state \<Rightarrow> relay_state \<Rightarrow> bool" where
  "says D s s' \<longleftrightarrow> (\<exists>xs. rs_out s' = rs_out s @ xs \<and> (\<forall>x \<in> set xs. proper D x))"

definition tells :: "nat set \<Rightarrow> relay_state \<Rightarrow> relay_state \<Rightarrow> bool" where
  "tells D s s' \<longleftrightarrow> says D s s' \<and> ends_of \<circ> rs_circuits s' = ends_of \<circ> rs_circuits s"

definition heard :: "nat set \<Rightarrow> relay_state \<Rightarrow> nat \<Rightarrow> bool" where
  "heard D s k \<longleftrightarrow> (case ends_of (rs_circuits s k) of (c, i, d, j) \<Rightarrow> c \<in> D \<and> d \<in> D \<and> i < 2 ^ 64 \<and> j < 2 ^ 64)"

definition hears :: "nat set \<Rightarrow> relay_state \<Rightarrow> nat \<Rightarrow> bool" where
  "hears D s c \<longleftrightarrow> c \<in> D \<and> (\<forall>k \<in> snd ` set (ct_circuits (cn_circuits (rs_conns s c))). heard D s k)"

named_theorems tell

lemma says_same: "rs_out s' = rs_out s \<Longrightarrow> says D s s'"
  by (simp add: says_def)

lemma says_trans: "says D s t \<Longrightarrow> says D t u \<Longrightarrow> says D s u"
  unfolding says_def by (metis append_assoc set_append UnE)

lemma tells_self [tell]: "tells D s s"
  by (simp add: tells_def says_same)

lemma tells_trans: "tells D s t \<Longrightarrow> tells D t u \<Longrightarrow> tells D s u"
  unfolding tells_def using says_trans by auto

lemma tells_same: "tells D s t \<Longrightarrow> rs_out u = rs_out t \<Longrightarrow> rs_circuits u = rs_circuits t \<Longrightarrow> tells D s u"
  by (simp add: tells_def says_def)

lemma tells_heard: "tells D s t \<Longrightarrow> heard E t k = heard E s k"
  by (simp add: tells_def heard_def fun_eq_iff o_def)

lemma tells_fields [tell]: "tells D s t \<Longrightarrow> tells D s (upd_conn c f t)" "tells D s t \<Longrightarrow> tells D s (counted g t)"
  "tells D s t \<Longrightarrow> tells D s (t\<lparr>rs_circuitCount := n\<rparr>)" "tells D s t \<Longrightarrow> tells D s (t\<lparr>rs_ipService := m\<rparr>)"
  "tells D s t \<Longrightarrow> tells D s (t\<lparr>rs_live := l\<rparr>)" "tells D s t \<Longrightarrow> tells D s (t\<lparr>rs_ips := ips\<rparr>)" "tells D s t \<Longrightarrow> tells D s (t\<lparr>rs_services := sv\<rparr>)"
  "tells D s t \<Longrightarrow> tells D s (t\<lparr>rs_noKey := nk\<rparr>)" "tells D s t \<Longrightarrow> tells D s (t\<lparr>rs_lookups := lk\<rparr>)" "tells D s t \<Longrightarrow> tells D s (t\<lparr>rs_tasks := ts\<rparr>)"
  by (rule tells_same; simp add: upd_conn_def counted_def)+

lemma tells_if [tell]: "(b \<Longrightarrow> tells D s x) \<Longrightarrow> (\<not> b \<Longrightarrow> tells D s y) \<Longrightarrow> tells D s (if b then x else y)"
  by simp

lemma tells_emit [tell]: "tells D s t \<Longrightarrow> proper D x \<Longrightarrow> tells D s (emit x t)"
  by (auto simp: tells_def says_def emit_def)

lemma tells_circuit [tell]: "tells D s t \<Longrightarrow> (\<And>ci. ends_of (f ci) = ends_of ci) \<Longrightarrow> tells D s (upd_circuit k f t)"
  by (auto simp: tells_def says_def upd_circuit_def fun_eq_iff)

section \<open>Frames the relay builds\<close>

lemma no_flags [simp]: "unknown_flag_bits 0 t = 0"
  by (simp add: unknown_flag_bits_def)

lemma frame_plain:
  assumes "circuitId < 2 ^ 64" "length payload \<le> MAX_FRAME_PAYLOAD" "streamId = None \<or> streamId = Some (js_int 0)"
  shows "encodeFrame \<lparr>eo_type = FrameType t, eo_circuitId = Some (int circuitId), eo_streamId = streamId, eo_flags = None, eo_payload = Some payload\<rparr>
      = Inr (header (FrameType t) 0 circuitId 0 (length payload) @ payload)"
    "decodeFrame (header (FrameType t) 0 circuitId 0 (length payload) @ payload)
      = Inr \<lparr>f_version = PROTOCOL_VERSION, f_type = FrameType t, f_flags = 0, f_circuitId = circuitId, f_streamId = 0, f_payload = payload\<rparr>"
proof -
  let ?f = "\<lparr>f_version = PROTOCOL_VERSION, f_type = FrameType t, f_flags = 0, f_circuitId = circuitId, f_streamId = 0, f_payload = payload\<rparr>"
  have "encodeFrame \<lparr>eo_type = FrameType t, eo_circuitId = Some (int circuitId), eo_streamId = streamId, eo_flags = None, eo_payload = Some payload\<rparr>
      = encodeFrame (options_of ?f)"
    using assms(3) by (auto simp: encodeFrame_def options_of_def Let_def)
  also have "\<dots> = Inr (header (FrameType t) 0 circuitId 0 (length payload) @ payload)"
    using assms by (simp add: encode_options_of)
  finally show "encodeFrame \<lparr>eo_type = FrameType t, eo_circuitId = Some (int circuitId), eo_streamId = streamId, eo_flags = None, eo_payload = Some payload\<rparr>
      = Inr (header (FrameType t) 0 circuitId 0 (length payload) @ payload)" .
  show "decodeFrame (header (FrameType t) 0 circuitId 0 (length payload) @ payload) = Inr ?f"
    using decodeFrame_header [of "FrameType t" 0 payload circuitId 0] assms by simp
qed

lemma frame_sent: "circuitId < 2 ^ 64 \<Longrightarrow> length payload \<le> MAX_FRAME_PAYLOAD \<Longrightarrow> is_ok (decodeFrame (frame_bytes t circuitId payload))"
  using frame_plain [of circuitId payload None t] by (simp add: frame_bytes_def wire_def)

lemma error_sent: "is_ok (decodeFrame (wire (encodeError \<lparr>pe_code = code, pe_scope = sc, pe_detail = []\<rparr> 0 (js_int 0))))"
proof -
  have "length (error_payload \<lparr>pe_code = code, pe_scope = sc, pe_detail = []\<rparr>) \<le> MAX_FRAME_PAYLOAD"
    using length_error_payload [of "\<lparr>pe_code = code, pe_scope = sc, pe_detail = []\<rparr>"]
    by (simp add: MAX_ERROR_DETAIL_def MAX_FRAME_PAYLOAD_def)
  from frame_plain [OF _ this, of 0 "Some (js_int 0)" ERROR] show ?thesis by (simp add: encodeError_def wire_def)
qed

lemma destroy_bytes: "reason < 2 ^ 16 \<Longrightarrow> wire (encodeDestroy (js_int (int reason))) = be_bytes 2 reason"
  by (simp add: encodeDestroy_def wire_def)

lemma length_destroy [simp]: "length (wire (encodeDestroy (js_int (int reason)))) \<le> MAX_FRAME_PAYLOAD"
  by (simp add: encodeDestroy_def wire_def MAX_FRAME_PAYLOAD_def)

text \<open>Only the circuit identifier of a frame changes on its way through the relay.\<close>

lemma with_circuit_id_decodes:
  assumes "decodeFrame raw = Inr f" "cid < 2 ^ 64"
  shows "decodeFrame (with_circuit_id cid raw) = Inr (f\<lparr>f_circuitId := cid\<rparr>)"
proof -
  note d = decodeFrame_ok [OF assms(1)]
  have raw: "raw = [word_of_nat PROTOCOL_VERSION, word_of_nat (f_type f)] @ be_bytes 2 (f_flags f) @ be_bytes 8 (f_circuitId f)
      @ be_bytes 4 (f_streamId f) @ be_bytes 4 (length (f_payload f)) @ f_payload f"
    using d(8) by (simp add: header_def)
  have "with_circuit_id cid raw = header (f_type f) (f_flags f) cid (f_streamId f) (length (f_payload f)) @ f_payload f"
    by (subst raw) (simp add: with_circuit_id_def header_def)
  moreover have "f_flags f mod 2 ^ 16 = f_flags f" using d(4) by simp
  ultimately have "decodeFrame (with_circuit_id cid raw) = Inr \<lparr>f_version = PROTOCOL_VERSION, f_type = f_type f, f_flags = f_flags f,
      f_circuitId = cid mod 2 ^ 64, f_streamId = f_streamId f mod 2 ^ 32, f_payload = f_payload f\<rparr>"
    using decodeFrame_header [OF d(2), of "f_flags f" "f_payload f" cid "f_streamId f"] d(3,7) by simp
  then show ?thesis using d(1,6) assms(2) by (simp add: mod_less)
qed

section \<open>The handlers\<close>

lemma proper_simps [simp]: "proper D (Out_send d bs) \<longleftrightarrow> d \<in> D \<and> is_ok (decodeFrame bs)" "proper D (Out_close d code reason) \<longleftrightarrow> d \<in> D"
  "proper D (Out_lookup name)"
  by (simp_all add: proper_def)

lemma heard_facts: "heard D s k \<Longrightarrow> cc_client (rs_circuits s k) \<in> D \<and> cc_service (rs_circuits s k) \<in> D \<and>
    cc_clientId (rs_circuits s k) < 2 ^ 64 \<and> cc_serviceId (rs_circuits s k) < 2 ^ 64"
  by (simp add: heard_def ends_of_def)

lemma tells_sendTo [tell]: "tells D s t \<Longrightarrow> d \<in> D \<Longrightarrow> i < 2 ^ 64 \<Longrightarrow> length p \<le> MAX_FRAME_PAYLOAD \<Longrightarrow> tells D s (sendTo d ty i p t)"
  by (simp add: sendTo_def tells_emit frame_sent)

lemma tells_remove [tell]: "tells D s t \<Longrightarrow> heard D s k \<Longrightarrow> tells D s (removeCircuit k n r t)"
proof -
  assume t: "tells D s t" and k: "heard D s k"
  then have h: "cc_client (rs_circuits t k) \<in> D" "cc_service (rs_circuits t k) \<in> D" "cc_clientId (rs_circuits t k) < 2 ^ 64" "cc_serviceId (rs_circuits t k) < 2 ^ 64"
    using heard_facts [of D t k] tells_heard [OF t] by simp_all
  show ?thesis unfolding removeCircuit_def Let_def by (intro tell t h length_destroy)
qed

lemma tells_fold: "(\<And>x t. x \<in> set xs \<Longrightarrow> tells D s t \<Longrightarrow> tells D s (g x t)) \<Longrightarrow> tells D s t \<Longrightarrow> tells D s (fold g xs t)"
  by (induction xs arbitrary: t) auto

lemma tells_closed: "hears D s c \<Longrightarrow> tells D s (onTransportClosed c s)"
proof -
  assume h: "hears D s c"
  then have k: "j \<in> set (map snd (ct_circuits (cn_circuits (rs_conns s c)))) \<Longrightarrow> heard D s j" for j
    by (force simp: hears_def)
  have drop: "tells D s t \<Longrightarrow> tells D s (fold (\<lambda>k s. removeCircuit k (n k s) r s) (map snd (ct_circuits (cn_circuits (rs_conns s c)))) t)" for n r t
    by (rule tells_fold) (rule tells_remove, assumption, erule k)
  show ?thesis
    unfolding onTransportClosed_def Let_def ct_drain_def
    by (simp add: upd_conn_conns split: option.split) (auto intro!: drop tell simp del: set_map)
qed

lemma hears_same [simp]: "hears D (counted f s) c = hears D s c" "hears D (emit x s) c = hears D s c"
  "hears D (s\<lparr>rs_ips := ips\<rparr>) c = hears D s c" "hears D (s\<lparr>rs_tasks := ts\<rparr>) c = hears D s c"
  by (simp_all add: hears_def heard_def counted_def emit_def)

lemma hears_upd [simp]: "(\<And>cn. cn_circuits (g cn) = cn_circuits cn) \<Longrightarrow> hears D (upd_conn d g s) c = hears D s c"
  by (simp add: hears_def heard_def upd_conn_def)

lemma hears_self: "hears D s c \<Longrightarrow> c \<in> D"
  by (simp add: hears_def)

lemma tells_close: "tells D s t \<Longrightarrow> hears D t c \<Longrightarrow> tells D s (closeConnection c code reason t)"
  unfolding closeConnection_def
  by (auto intro!: tells_trans [OF _ tells_closed] tell simp: hears_self)

lemma tells_fail: "tells D s t \<Longrightarrow> hears D t c \<Longrightarrow> tells D s (fail c code cc t)"
  unfolding fail_def Let_def by (auto intro!: tells_close tell error_sent simp: hears_self)

lemma tells_authFailed: "tells D s t \<Longrightarrow> hears D t c \<Longrightarrow> tells D s (authFailed c e t)"
  unfolding authFailed_def by (auto intro!: tells_fail tell)

lemma tells_violated: "tells D s t \<Longrightarrow> hears D t c \<Longrightarrow> tells D s (violated R c t)"
  unfolding violated_def Let_def by (auto intro!: tells_fail tell)

lemma tells_unowned: "tells D s t \<Longrightarrow> tells D s (unowned t)"
  unfolding unowned_def by (intro tell)

lemma tells_rejected: "tells D s t \<Longrightarrow> c \<in> D \<Longrightarrow> i < 2 ^ 64 \<Longrightarrow> tells D s (rejected c i e t)"
  unfolding rejected_def by (intro tell length_destroy)

lemmas tells_ends = tells_fail tells_authFailed tells_violated tells_unowned tells_rejected

lemma tells_forward:
  assumes t: "tells D s t" and k: "heard D s k" and raw: "is_ok (decodeFrame raw)"
  shows "tells D s (forward R W k to raw t)"
proof -
  have h: "cc_client (rs_circuits t k) \<in> D" "cc_service (rs_circuits t k) \<in> D" "cc_clientId (rs_circuits t k) < 2 ^ 64" "cc_serviceId (rs_circuits t k) < 2 ^ 64"
    using heard_facts [of D t k] tells_heard [OF t] k by simp_all
  obtain f where "decodeFrame raw = Inr f" using raw by (auto simp: is_ok_iff)
  then have "is_ok (decodeFrame (with_circuit_id i raw))" if "i < 2 ^ 64" for i
    using with_circuit_id_decodes that by simp
  then show ?thesis
    unfolding forward_def Let_def using h by (cases to) (auto intro!: tell t k simp: ends_of_def)
qed

lemma tells_open: "tells D s t \<Longrightarrow> tells D s (openCircuit k t)"
  unfolding openCircuit_def by (intro tell) (simp_all add: ends_of_def)

lemma tells_prove: "hears D s c \<Longrightarrow> tells D s (snd (proveIdentity R c f s))"
proof -
  assume h: "hears D s c"
  have "length p \<le> MAX_FRAME_PAYLOAD" if "rbind x (\<lambda>sig. encodeRelayHelloAck key sig) = Inr p" for x key p
    using that by (auto simp: rbind_eq_Inr encodeRelayHelloAck_def MAX_FRAME_PAYLOAD_def split: if_splits)
  with h show ?thesis
    by (auto simp: proveIdentity_def Let_def hears_self intro!: tells_ends tell frame_sent split: sum.split)
qed

lemma tells_suspend: "tells D s t \<Longrightarrow> tells D s (suspend W v c name t)"
  by (auto simp: suspend_def domainKeyFor_def Let_def intro!: tell split: option.split)

lemma tells_unauthenticated: "hears D s c \<Longrightarrow> tells D s (receiveUnauthenticated R W c f s)"
  unfolding receiveUnauthenticated_def Let_def by (auto intro!: tells_ends tells_suspend tell split: sum.split prod.split)

lemma tells_fromService:
  assumes "hears D s c" "\<And>i k. ct_get (cn_circuits (rs_conns s c)) i = Some k \<Longrightarrow> heard D s k" "is_ok (decodeFrame raw)"
  shows "tells D s (receiveFromService R W c f raw s)"
  unfolding receiveFromService_def
  using assms by (auto intro!: tells_ends tells_forward tells_open tell split: option.split)

section \<open>Who hears of a received frame\<close>

text \<open>The sender, and the other ends of its circuits.\<close>

definition audience :: "relay_state \<Rightarrow> nat \<Rightarrow> nat set" where
  "audience s c = {d. d = c \<or> (\<exists>k \<in> held (view s). cc_client (rs_circuits s k) = c \<and> cc_service (rs_circuits s k) = d
     \<or> cc_client (rs_circuits s k) = d \<and> cc_service (rs_circuits s k) = c)}"

text \<open>A frame that asks for a circuit may also reach a registered service node.\<close>

definition asked :: "relay_state \<Rightarrow> bytes \<Rightarrow> nat set" where
  "asked s data = (case decodeFrame data of
     Inl _ \<Rightarrow> {}
   | Inr f \<Rightarrow> if f_type f = FrameType CIRCUIT_CREATE then snd ` set (rs_services s) else {})"

lemma heard_ok: "relay_ok R s \<Longrightarrow> k < rs_nextCircuit s \<Longrightarrow> cc_client (rs_circuits s k) \<in> D \<Longrightarrow> cc_service (rs_circuits s k) \<in> D \<Longrightarrow> heard D s k"
  using ok_link [of "ro_limits R" "view s" k] by (simp add: relay_ok_def ends_ok_def Let_def heard_def ends_of_def)

lemma hears_ok:
  assumes ok: "relay_ok R s" and c: "conn_in s c" and D: "audience s c \<subseteq> D"
  shows "hears D s c" "ct_get (cn_circuits (rs_conns s c)) i = Some k \<Longrightarrow> heard D s k"
proof -
  show k: "ct_get (cn_circuits (rs_conns s c)) i = Some k \<Longrightarrow> heard D s k" for i k
  proof -
    assume g: "ct_get (cn_circuits (rs_conns s c)) i = Some k"
    note f = ok_found [OF ok c g]
    have "cc_client (rs_circuits s k) = c \<or> cc_service (rs_circuits s k) = c" using f(2,3) by (cases "cn_kind (rs_conns s c)") auto
    with f(1) D have "cc_client (rs_circuits s k) \<in> D" "cc_service (rs_circuits s k) \<in> D" by (auto simp: audience_def)
    with f(1) show ?thesis by (intro heard_ok [OF ok]) (simp_all add: held_def)
  qed
  have "member_ok (ro_limits R) (view s) c" using ok c by (simp add: relay_ok_def registry_ok_def conn_in_def)
  then have "ct_inv (cn_circuits (rs_conns s c))" by (simp add: member_ok_def Let_def)
  then have "(i, k) \<in> set (ct_circuits (cn_circuits (rs_conns s c))) \<Longrightarrow> ct_get (cn_circuits (rs_conns s c)) i = Some k" for i k
    by (simp add: ct_get_def ct_inv_def)
  then have "\<forall>k \<in> snd ` set (ct_circuits (cn_circuits (rs_conns s c))). heard D s k" using k by fastforce
  moreover have "c \<in> D" using D by (auto simp: audience_def)
  ultimately show "hears D s c" by (simp add: hears_def)
qed

lemma hears_all: "relay_ok R s \<Longrightarrow> conn_in s c \<Longrightarrow> hears UNIV s c"
  by (rule hears_ok(1)) simp_all

lemma tells_insert: "rs_out (insertCircuit W c cid d sid name s) = rs_out s"
  by (simp add: insertCircuit_def Let_def upd_conn_def)

lemma says_create:
  assumes c: "hears D s c" and id: "f_circuitId f < 2 ^ 64" and W: "world_ok W" and p: "length (f_payload f) \<le> MAX_FRAME_PAYLOAD"
    and D: "snd ` set (rs_services s) \<subseteq> D" and r: "createCircuit R W c f s = Some s'"
  shows "says D s s'"
proof -
  have refused: "tells D s (violated R c s)" "tells D s (rejected c (f_circuitId f) e (s\<lparr>rs_ips := ips\<rparr>))"
    "tells D s (rejected c (f_circuitId f) e (counted g (s\<lparr>rs_ips := ips\<rparr>)))" for e ips g
    using c id hears_self [OF c] by (auto intro!: tells_ends tell)
  have "tells D s s' \<or> (\<exists>name d sid ips. map_of (rs_services s) name = Some d \<and>
      pick_service_id (cn_circuits (rs_conns s d)) (w_draws W) = Some sid \<and>
      s' = sendTo d CIRCUIT_CREATE sid (f_payload f) (insertCircuit W c (f_circuitId f) d sid name (s\<lparr>rs_ips := ips\<rparr>)))"
    using r refused by (fastforce simp: createCircuit_def Let_def split: if_splits prod.splits sum.splits option.splits)
  then have "tells D s s' \<or> (\<exists>name d sid ips. map_of (rs_services s) name = Some d \<and> sid < 2 ^ 64 \<and>
      s' = sendTo d CIRCUIT_CREATE sid (f_payload f) (insertCircuit W c (f_circuitId f) d sid name (s\<lparr>rs_ips := ips\<rparr>)))"
    using pick_service_id_facts W unfolding world_ok_def by blast
  then show ?thesis
  proof
    assume "tells D s s'"
    then show ?thesis by (simp add: tells_def)
  next
    assume "\<exists>name d sid ips. map_of (rs_services s) name = Some d \<and> sid < 2 ^ 64 \<and>
      s' = sendTo d CIRCUIT_CREATE sid (f_payload f) (insertCircuit W c (f_circuitId f) d sid name (s\<lparr>rs_ips := ips\<rparr>))"
    then obtain name d sid ips where d: "map_of (rs_services s) name = Some d" "sid < 2 ^ 64"
      and s': "s' = sendTo d CIRCUIT_CREATE sid (f_payload f) (insertCircuit W c (f_circuitId f) d sid name (s\<lparr>rs_ips := ips\<rparr>))" by blast
    have "d \<in> D" using d(1) D by (force dest: map_of_SomeD)
    then have "says D (insertCircuit W c (f_circuitId f) d sid name (s\<lparr>rs_ips := ips\<rparr>)) s'"
      using tells_sendTo [OF tells_self _ d(2) p] by (simp add: s' tells_def)
    then show ?thesis by (simp add: says_def tells_insert)
  qed
qed

lemma says_frame:
  assumes ok: "relay_ok R s" and c: "conn_in s c" and f: "decodeFrame data = Inr f" and W: "world_ok W"
    and D: "audience s c \<subseteq> D" "asked s data \<subseteq> D" and r: "receive_frame R W c f data s = Some (threw, s')"
  shows "says D s s' \<and> (threw \<longrightarrow> hears D s' c)"
proof -
  note h = hears_ok [OF ok c D(1)] and d = decodeFrame_ok [OF f]
  have told: "tells D s t \<Longrightarrow> says D s t" for t by (simp add: tells_def)
  consider "f_type f = FrameType PING \<and> f_circuitId f = 0" | "f_type f = FrameType PONG" | "f_type f = FrameType HELLO"
    | "\<not> (f_type f = FrameType PING \<and> f_circuitId f = 0)" "f_type f \<noteq> FrameType PONG" "f_type f \<noteq> FrameType HELLO" by blast
  then show ?thesis
  proof cases
    case 1
    have "tells D s (emit (Out_send c (frame_bytes PONG 0 (take 32 (f_payload f)))) s)"
      using hears_self [OF h(1)] by (auto intro!: tell frame_sent simp: MAX_FRAME_PAYLOAD_def)
    with 1 r show ?thesis by (auto simp: receive_frame_def tells_def)
  next
    case 2
    with r show ?thesis by (auto simp: receive_frame_def FrameType_inject says_same)
  next
    case 3
    then have s': "proveIdentity R c f s = (threw, s')" using r by (simp add: receive_frame_def FrameType_inject)
    then have "says D s s'" using told [OF tells_prove [OF h(1)], of R f] by simp
    moreover have "hears D s' c" if threw
      using s' that h(1) by (auto simp: proveIdentity_def Let_def split: if_splits sum.splits)
    ultimately show ?thesis by blast
  next
    case 4
    show ?thesis
    proof (cases "cn_kind (rs_conns s c) = Service_conn \<and> cn_state (rs_conns s c) \<noteq> Some Ready")
      case True
      with 4 r told [OF tells_unauthenticated [OF h(1)]] show ?thesis by (auto simp: receive_frame_def)
    next
      case ready: False
      show ?thesis
      proof (cases "cn_kind (rs_conns s c)")
        case Client_conn
        with 4 r ready have r': "receiveFromClient R W c f data s = Some s'" "\<not> threw" by (auto simp: receive_frame_def)
        show ?thesis
        proof (cases "f_type f = FrameType CIRCUIT_CREATE")
          case True
          then have "snd ` set (rs_services s) \<subseteq> D" using D(2) f by (simp add: asked_def)
          with True r' says_create [OF h(1) d(5) W d(7)] show ?thesis by (simp add: receiveFromClient_def)
        next
          case False
          with r'(1) f h have "tells D s s'"
            by (auto simp: receiveFromClient_def intro!: tells_ends tells_forward tell split: if_splits option.splits)
          with r' told show ?thesis by blast
        qed
      next
        case Service_conn
        with 4 r ready have "s' = receiveFromService R W c f data s" "\<not> threw" by (auto simp: receive_frame_def)
        with told [OF tells_fromService [OF h]] f show ?thesis by simp
      qed
    qed
  qed
qed

lemma says_receive:
  assumes ok: "relay_ok R s" and c: "conn_in s c" and W: "world_ok W" and D: "audience s c \<subseteq> D" "asked s data \<subseteq> D"
    and r: "handleReceive R W c data s = Some s'"
  shows "says D s s'"
proof -
  have fl: "hears D t c \<Longrightarrow> says D t (fail c code cc t)" for t code cc using tells_fail [OF tells_self] by (simp add: tells_def)
  obtain threw t where t: "receive_data R W c data s = Some (threw, t)" "s' = (if threw then fail c (ErrorCode PROTOCOL_VIOLATION) CLOSE_POLICY t else t)"
    using r by (auto simp: handleReceive_def split: option.splits)
  have "says D s t \<and> (threw \<longrightarrow> hears D t c)"
  proof (cases "cn_closed (rs_conns s c) \<or> length data > MAX_FRAME_SIZE \<or> (\<exists>e. decodeFrame data = Inl e)")
    case True
    then show ?thesis using t(1) fl hears_ok(1) [OF ok c D(1)] by (auto simp: receive_data_def says_same split: if_splits)
  next
    case False
    then obtain f where f: "decodeFrame data = Inr f" by (cases "decodeFrame data") auto
    with False t(1) says_frame [OF ok c f W D] show ?thesis by (auto simp: receive_data_def split: if_splits)
  qed
  with t(2) fl show ?thesis by (auto intro: says_trans)
qed

section \<open>The log of a run\<close>

lemma tells_all_fold:
  assumes "relay_ok R s" "\<And>x t. x \<in> set xs \<Longrightarrow> relay_ok R t \<Longrightarrow> rs_nextConn t = rs_nextConn s \<Longrightarrow> kept R UNIV UNIV t (g x t) \<and> tells UNIV t (g x t)"
  shows "tells UNIV s (fold g xs s)"
  using assms
proof (induction xs arbitrary: s)
  case (Cons x xs)
  have x: "kept R UNIV UNIV s (g x s)" "tells UNIV s (g x s)" using Cons.prems by simp_all
  then have "tells UNIV (g x s) (fold g xs (g x s))" using Cons by (simp add: kept_def)
  with x(2) show ?case by (auto intro: tells_trans)
qed (simp add: tells_self)

lemma tells_verify:
  assumes ok: "relay_ok R s" and c: "conn_in s c"
  shows "tells UNIV s (verifyService R W c name chain sg l s)"
proof -
  have failed: "tells UNIV s (authFailed c e s)" for e using hears_all [OF ok c] by (intro tells_ends tell)
  have reg: "tells UNIV t (register W c name dk v t)" for t dk v
    unfolding register_def Let_def by (auto intro!: tell frame_sent simp: MAX_FRAME_PAYLOAD_def)
  have rest: "tells UNIV s (authFailed c e t) \<and> tells UNIV s (register W c name dk v t)"
    if "t = s \<or> (\<exists>i. map_of (rs_services s) name = Some i \<and> t = closeConnection i CLOSE_NORMAL reason s)" for t dk v e reason
  proof -
    have "tells UNIV s t \<and> relay_ok R t \<and> conn_in t c" using that
    proof (elim disjE exE conjE)
      fix i assume i: "map_of (rs_services s) name = Some i" "t = closeConnection i CLOSE_NORMAL reason s"
      then have "conn_in s i" using ok
        by (auto simp: conn_in_def relay_ok_def registry_ok_def services_ok_def simp del: map_of_eq_Some_iff)
      then have "tells UNIV s t" "kept R UNIV UNIV s t" using i(2) hears_all [OF ok] kept_hangup [OF ok, of i UNIV t UNIV]
        by (auto intro: tells_close tells_self)
      then show ?thesis using c by (simp add: kept_def conn_in_def)
    qed (use ok c in \<open>simp add: tells_self\<close>)
    then show ?thesis using hears_all reg tells_authFailed [OF tells_self] by (auto intro: tells_trans)
  qed
  show ?thesis
    using failed tells_self rest [OF disjI1 [OF refl]] rest [OF disjI2]
    by (auto simp: verifyService_def Let_def split: option.splits sum.splits verify_result.splits simp del: map_of_eq_Some_iff)
qed

lemma tells_recheck: "relay_ok R s \<Longrightarrow> conn_in s c \<Longrightarrow> tells UNIV s (recheckDomainKey c l s)"
  using hears_all by (auto simp: recheckDomainKey_def intro!: tells_ends tell)

lemma tells_sweep_circuit: "relay_ok R s \<Longrightarrow> k < rs_nextCircuit s \<Longrightarrow> tells UNIV s (sweep_circuit R W k s)"
  using heard_ok by (auto simp: sweep_circuit_def Let_def intro!: tell)

lemma tells_sweep_circuits:
  "relay_ok R s \<Longrightarrow> \<forall>(i, k) \<in> set es. k < rs_nextCircuit s \<Longrightarrow> tells UNIV s (fold (\<lambda>(_, k). sweep_circuit R W k) es s)"
proof (induction es arbitrary: s)
  case (Cons e es)
  obtain i k where e: "e = (i, k)" by fastforce
  have k: "kept R UNIV UNIV s (sweep_circuit R W k s)" "rs_nextCircuit (sweep_circuit R W k s) = rs_nextCircuit s" "tells UNIV s (sweep_circuit R W k s)"
    using kept_sweep_circuit [OF Cons.prems(1)] tells_sweep_circuit [OF Cons.prems(1)] Cons.prems(2) e by auto
  then show ?case using Cons.IH [of "sweep_circuit R W k s"] Cons.prems(2) e by (auto simp: kept_def intro: tells_trans)
qed (simp add: tells_self)

lemma tells_recheck_due: "tells D s (recheck_due R W c s)"
proof -
  have "tells D s (suspend W v c name (upd_conn c g s))" for v name g by (intro tells_suspend tell)
  moreover have "tells D s (upd_conn c g s)" for g by (intro tell)
  ultimately show ?thesis by (simp add: recheck_due_def Let_def tells_self split: option.split)
qed

lemma tells_sweep_conn:
  assumes ok: "relay_ok R s" and c: "c < rs_nextConn s"
  shows "tells UNIV s (sweep_conn R W c s)"
proof -
  have cin: "conn_in s c" using c by (simp add: conn_in_def)
  note h = hears_all [OF ok cin]
  have rd: "relay_ok R (recheck_due R W c s)" "rs_nextCircuit (recheck_due R W c s) = rs_nextCircuit s"
    using kept_same [OF ok view_recheck_due, of UNIV UNIV] view_next(1) [OF view_recheck_due] by (auto simp: kept_def)
  have swept: "tells UNIV s (fold (\<lambda>(_, k). sweep_circuit R W k) (ct_entries (cn_circuits (rs_conns s c))) (recheck_due R W c s))"
    by (rule tells_trans [OF tells_recheck_due tells_sweep_circuits [OF rd(1)]]) (use table_entries [OF ok c] rd(2) in simp)
  show ?thesis unfolding sweep_conn_def Let_def by (intro tells_if tells_self swept tells_authFailed tells_fail h)
qed

lemma tells_close_largest:
  "relay_ok R s \<Longrightarrow> \<forall>(c, n) \<in> set cs. c < rs_nextConn s \<Longrightarrow> tells UNIV s (close_largest R cs used s)"
proof (induction R cs used s rule: close_largest.induct)
  case (2 R c n rest used s)
  let ?t = "fail c (ErrorCode RESOURCE_EXHAUSTED) CLOSE_TRY_LATER (counted (rc_memoryCloses_update Suc) s)"
  have c: "conn_in s c" using 2(3) by (simp add: conn_in_def)
  then have k: "kept R UNIV UNIV s ?t" by (intro kept_hangup [OF 2(2)]) auto
  have t: "tells UNIV s ?t" using hears_all [OF 2(2) c] by (intro tells_fail tell) simp
  show ?case
  proof (cases "used \<le> int (globalBufferLimit (ro_limits R))")
    case False
    have "tells UNIV ?t (close_largest R rest (used - int n) ?t)" using 2(1) [OF False] 2(3) k by (auto simp: kept_def)
    with t False show ?thesis by (auto intro: tells_trans)
  qed (simp add: tells_self)
qed (simp add: tells_self)

lemma tells_sweep: assumes ok: "relay_ok R s" shows "tells UNIV s (sweep R W s)"
proof -
  let ?t = "fold (sweep_conn R W) (rs_live s) s"
  have 1: "tells UNIV s ?t"
    using live_bound [OF ok] kept_sweep_conn tells_sweep_conn by (intro tells_all_fold [OF ok]) auto
  have "kept R UNIV UNIV s ?t" using live_bound [OF ok] by (intro kept_fold [OF ok] kept_sweep_conn) auto
  then have ok': "relay_ok R ?t" by (simp add: kept_def)
  have "tells UNIV ?t (enforceGlobalBuffer R W ?t)"
    using live_bound [OF ok'] by (auto simp: enforceGlobalBuffer_def Let_def intro!: tells_close_largest [OF ok'] tells_self)
  with 1 have "tells UNIV s (enforceGlobalBuffer R W ?t)" by (rule tells_trans)
  then show ?thesis unfolding sweep_def Let_def by (intro tell)
qed

lemma tells_shutdown: assumes ok: "relay_ok R s" shows "tells UNIV s (shutdown s)"
  unfolding shutdown_def
proof (rule tells_all_fold [OF ok])
  fix c t assume t: "c \<in> set (rs_live s)" "relay_ok R t" "rs_nextConn t = rs_nextConn s"
  then have "conn_in t c" using live_bound [OF ok] by (simp add: conn_in_def)
  with t(2) show "kept R UNIV UNIV t (closeConnection c CLOSE_NORMAL (js ''shutdown'') t) \<and>
      tells UNIV t (closeConnection c CLOSE_NORMAL (js ''shutdown'') t)"
    using kept_hangup [of R t c UNIV "closeConnection c CLOSE_NORMAL (js ''shutdown'') t" UNIV] hears_all tells_close [OF tells_self] by simp
qed

lemma says_step:
  assumes inv: "relay_inv R s" and W: "world_ok W" and step: "relay_step R W e s = Some s'"
  shows "says UNIV s s'"
proof -
  have ok: "relay_ok R s" and tasks: "\<forall>t \<in> set (rs_tasks s). rt_conn t < rs_nextConn s" using inv by (simp_all add: relay_inv_def)
  have told: "tells UNIV s t \<Longrightarrow> says UNIV s t" for t by (simp add: tells_def)
  show ?thesis
  proof (cases e)
    case (Ev_admit ip)
    with step show ?thesis by (auto simp: admit_def intro!: says_same split: if_splits prod.splits)
  next
    case (Ev_release ip)
    with step show ?thesis by (auto simp: releaseAdmission_def intro!: says_same)
  next
    case (Ev_accept_client ip)
    with step show ?thesis by (auto simp: acceptClient_def newConnection_def intro!: says_same)
  next
    case (Ev_accept_service ip ch)
    with step have "length ch \<le> MAX_FRAME_PAYLOAD" by (simp add: SERVICE_CHALLENGE_SIZE_def MAX_FRAME_PAYLOAD_def split: if_splits)
    with step Ev_accept_service show ?thesis
      by (auto simp: acceptService_def newConnection_def Let_def says_def emit_def upd_conn_def intro!: frame_sent split: if_splits)
  next
    case (Ev_receive c data)
    with step says_receive [OF ok _ W subset_UNIV subset_UNIV] show ?thesis by (simp add: conn_in_def split: if_splits)
  next
    case (Ev_closed c)
    with step have "hears UNIV s c" "s' = onTransportClosed c s" using hears_all [OF ok] by (simp_all add: conn_in_def split: if_splits)
    with told tells_closed show ?thesis by simp
  next
    case Ev_sweep
    with step told [OF tells_sweep [OF ok]] show ?thesis by auto
  next
    case (Ev_settled name r)
    with step show ?thesis by (auto simp: settleLookup_def Let_def intro!: says_same split: if_splits)
  next
    case (Ev_task i)
    let ?t = "rs_tasks s ! i" and ?s = "s\<lparr>rs_tasks := take i (rs_tasks s) @ drop (Suc i) (rs_tasks s)\<rparr>"
    have i: "i < length (rs_tasks s)" "s' = runTask R W ?t ?s" using step Ev_task by (simp_all split: if_splits)
    then have "relay_ok R ?s" "conn_in ?s (rt_conn ?t)" using ok tasks by (simp_all add: relay_ok_def conn_in_def)
    then have "tells UNIV ?s s'" unfolding i(2) runTask_def using tells_verify tells_recheck by (simp split: option.split)
    then show ?thesis by (simp add: tells_def says_def)
  next
    case Ev_shutdown
    with step told tells_shutdown [OF ok] show ?thesis by simp
  qed
qed

lemma log_proper: "reachable R s \<Longrightarrow> x \<in> set (rs_out s) \<Longrightarrow> proper UNIV x"
proof (induction arbitrary: x rule: reachable.induct)
  case (event s W e s')
  from says_step [OF reachable_relay_inv [OF event(1)] event(2,3)] event(4,5) show ?case by (auto simp: says_def)
qed (simp add: relay_init_def)

end
