(* ===== verification/Relay_Sample.thy ===== *)
theory Relay_Sample
  imports Relay_Sends
begin

text \<open>
  A concrete run of the relay, step by step: a service node connects and is registered, a client connects, opens a circuit to
  it, the node answers. The witnesses of the relay's properties are its states. The primitives are the concrete
  functions the grants' witnesses use.
\<close>

section \<open>Parameters\<close>

definition sample_proof :: jsstring where
  "sample_proof = encodeBase64 (replicate 64 7)"

definition sample_auth :: jsval where
  "sample_auth = JObj [(js ''name'', JStr (js ''a.ox'')), (js ''chain'', JArr [sample_signed]), (js ''signature'', JStr sample_proof)]"

definition sample_relay :: relay_options where
  "sample_relay = \<lparr>ro_endpoint = js ''wss://r'', ro_identity = \<lparr>sk_publicKey = replicate 32 3, sk_secretKey = replicate 64 3\<rparr>,
     ro_limits = DEFAULT_LIMITS, ro_verify = sample_verify, ro_sign = sample_sign, ro_parse = (\<lambda>_. Some sample_auth)\<rparr>"

definition sample_world :: relay_world where
  "sample_world = \<lparr>w_now = 15000, w_buffered = (\<lambda>_ _. 0), w_sent = (\<lambda>_ _ bs. int (length bs)), w_draws = [[0, 0, 0, 0, 0, 0, 0, 9]]\<rparr>"

definition sample_challenge :: bytes where
  "sample_challenge = replicate 32 5"

definition sample_create :: bytes where
  "sample_create = 4 # textEncode (js ''a.ox'') @ replicate HANDSHAKE_MESSAGE_SIZE 1"

definition sample_entry :: "rat \<Rightarrow> rat \<Rightarrow> ip_entry" where
  "sample_entry creates auths = \<lparr>ie_connections = 1,
     ie_connect = \<lparr>tb_capacity = 30, tb_refillPerSecond = 1, tb_tokens = 29, tb_last = 15000\<rparr>,
     ie_create = \<lparr>tb_capacity = 128, tb_refillPerSecond = 32, tb_tokens = creates, tb_last = 15000\<rparr>,
     ie_auth = \<lparr>tb_capacity = 10, tb_refillPerSecond = 1 / 5, tb_tokens = auths, tb_last = 15000\<rparr>\<rparr>"

section \<open>The states\<close>

text \<open>The service node is connected.\<close>

definition node_conn :: connection where
  "node_conn = (fresh_connection Service_conn [1] 256 15000)\<lparr>cn_state := Some Awaiting_auth, cn_challenge := Some sample_challenge\<rparr>"

definition state_connected :: relay_state where
  "state_connected = relay_init\<lparr>rs_ips := [([1], sample_entry 128 10)], rs_conns := (rs_conns relay_init)(0 := node_conn), rs_nextConn := 1,
     rs_live := [0], rs_out := [Out_send 0 (frame_bytes HELLO 0 sample_challenge)]\<rparr>"

lemma run_connect:
  "relay_step sample_relay sample_world (Ev_admit [1]) relay_init = Some (relay_init\<lparr>rs_ips := [([1], sample_entry 128 10)]\<rparr>)"
  "relay_step sample_relay sample_world (Ev_accept_service [1] sample_challenge) (relay_init\<lparr>rs_ips := [([1], sample_entry 128 10)]\<rparr>) = Some state_connected"
proof -
  show "relay_step sample_relay sample_world (Ev_admit [1]) relay_init = Some (relay_init\<lparr>rs_ips := [([1], sample_entry 128 10)]\<rparr>)"
    by (simp add: admit_def relay_init_def sample_relay_def sample_world_def DEFAULT_LIMITS_def ip_admit_def admit_entry_def fresh_entry_def
        tb_take_def tb_refill_def TokenBucket_def Let_def sample_entry_def)
  show "relay_step sample_relay sample_world (Ev_accept_service [1] sample_challenge) (relay_init\<lparr>rs_ips := [([1], sample_entry 128 10)]\<rparr>) = Some state_connected"
    by (simp add: acceptService_def newConnection_def relay_init_def sample_relay_def sample_world_def DEFAULT_LIMITS_def Let_def
        SERVICE_CHALLENGE_SIZE_def sample_challenge_def state_connected_def node_conn_def upd_conn_def emit_def)
qed

text \<open>It has sent its proof; the lookup of its name is under way.\<close>

definition state_asked :: relay_state where
  "state_asked = state_connected\<lparr>rs_ips := [([1], sample_entry 128 9)], rs_conns := (rs_conns relay_init)(0 := node_conn\<lparr>cn_state := Some Verifying\<rparr>),
     rs_lookups := [js ''a.ox''], rs_out := rs_out state_connected @ [Out_lookup (js ''a.ox'')],
     rs_tasks := [\<lparr>rt_verify = Some ([sample_signed], sample_proof), rt_conn = 0, rt_name = js ''a.ox'', rt_lookup = Awaiting\<rparr>]\<rparr>"

lemma frame_received:
  assumes "circuitId < 2 ^ 64" "length payload \<le> MAX_FRAME_PAYLOAD"
  shows "decodeFrame (frame_bytes t circuitId payload) = Inr \<lparr>f_version = PROTOCOL_VERSION, f_type = FrameType t, f_flags = 0,
      f_circuitId = circuitId, f_streamId = 0, f_payload = payload\<rparr>" "length (frame_bytes t circuitId payload) \<le> MAX_FRAME_SIZE"
  using frame_plain [OF assms, of None t] assms(2) by (simp_all add: frame_bytes_def wire_def MAX_FRAME_SIZE_def HEADER_SIZE_def)

definition auth_frame :: bytes where
  "auth_frame = frame_bytes AUTH 0 (textEncode (js ''auth''))"

lemma sample_decodes: "decodeServiceAuth (ro_parse sample_relay) (textEncode (js ''auth''))
    = Inr \<lparr>sa_name = js ''a.ox'', sa_chain = [sample_signed], sa_signature = sample_proof\<rparr>"
proof -
  have "textDecodeFatal (textEncode (js ''auth'')) = Inr (js ''auth'')" by (rule textDecodeFatal_ascii) (simp add: js_def)
  moreover have "length sample_proof \<le> 128" by (simp add: sample_proof_def length_encodeBase64)
  moreover have "isCanonicalName (js ''a.ox'')" using sample_name by (simp add: canonical_valid)
  moreover have "js ''chain'' \<noteq> js ''name''" "js ''signature'' \<noteq> js ''name''" "js ''signature'' \<noteq> js ''chain''" by (simp_all add: js_def)
  ultimately show ?thesis by (simp add: decodeServiceAuth_def sample_relay_def sample_auth_def is_object_def)
qed

lemma run_auth: "relay_step sample_relay sample_world (Ev_receive 0 auth_frame) state_connected = Some state_asked"
proof -
  have "length (textEncode (js ''auth'')) \<le> MAX_FRAME_PAYLOAD" by (simp add: MAX_FRAME_PAYLOAD_def textEncode_ascii js_def)
  note f = frame_received [OF _ this, of 0 AUTH, folded auth_frame_def]
  have c: "\<not> cn_closed (rs_conns state_connected 0)" "cn_kind (rs_conns state_connected 0) = Service_conn"
    "cn_state (rs_conns state_connected 0) = Some Awaiting_auth" "cn_ip (rs_conns state_connected 0) = [1]"
    by (simp_all add: state_connected_def node_conn_def fresh_connection_def)
  have a: "allowAuth [1] (w_now sample_world) (rs_ips state_connected) = (True, [([1], sample_entry 128 9)])"
    by (simp add: allowAuth_def state_connected_def sample_entry_def tb_take_def tb_refill_def Let_def sample_world_def)
  have "receiveUnauthenticated sample_relay sample_world 0 f state_connected = state_asked"
    if "f_type f = FrameType AUTH" "f_circuitId f = 0" "f_payload f = textEncode (js ''auth'')" for f
    using that c a by (simp add: receiveUnauthenticated_def sample_decodes)
      (simp add: suspend_def domainKeyFor_def state_connected_def state_asked_def upd_conn_def emit_def relay_init_def)
  then show ?thesis using f c
    by (simp add: handleReceive_def receive_data_def receive_frame_def FrameType_inject) (simp add: state_connected_def)
qed

text \<open>The registry answers with the domain's key, and the node is registered.\<close>

definition state_looked :: relay_state where
  "state_looked = state_asked\<lparr>rs_lookups := [], rs_tasks := [\<lparr>rt_verify = Some ([sample_signed], sample_proof), rt_conn = 0,
     rt_name = js ''a.ox'', rt_lookup = Looked (Some (replicate 32 1))\<rparr>]\<rparr>"

lemma run_settle: "relay_step sample_relay sample_world (Ev_settled (js ''a.ox'') (Lookup_key (KeyBytes (replicate 32 1)))) state_asked = Some state_looked"
proof -
  have "settled_state (Lookup_key (KeyBytes (replicate 32 1))) = Looked (Some (replicate 32 1))"
    by (simp add: settled_state_def parsePublicKey_def PUBLIC_KEY_LENGTH_def del: replicate.simps)
  then show ?thesis
    by (simp add: settleLookup_def Let_def state_looked_def del: replicate.simps)
      (simp add: state_asked_def state_connected_def relay_init_def del: replicate.simps)
qed

definition node_ready :: connection where
  "node_ready = node_conn\<lparr>cn_state := Some Ready, cn_name := Some (js ''a.ox''), cn_nodeKeyHex := Some (toHex (replicate 32 2)),
     cn_domainKeyHex := Some (toHex (replicate 32 1)), cn_authNotAfter := Some (vc_notAfter (summary [sample_parsed])),
     cn_authCheckedAt := Some 15000, cn_challenge := None\<rparr>"

definition state_registered :: relay_state where
  "state_registered = state_looked\<lparr>rs_tasks := [], rs_conns := (rs_conns relay_init)(0 := node_ready), rs_services := [(js ''a.ox'', 0)],
     rs_out := rs_out state_looked @ [Out_send 0 (frame_bytes AUTH_OK 0 [])]\<rparr>"

lemma sample_verifies: "verifyChain (ro_verify sample_relay) (JArr [sample_signed]) (service_auth_options sample_world (js ''a.ox'') (replicate 32 1))
    = Inr (Verified (summary [sample_parsed]))"
proof -
  have "service_auth_options sample_world (js ''a.ox'') (replicate 32 1) = sample_options"
    by (simp add: service_auth_options_def sample_options_def sample_world_def del: replicate.simps)
  then show ?thesis using sample_accepted by (simp add: sample_relay_def)
qed

lemma sample_subject: "vc_subject (summary [sample_parsed]) = replicate 32 2"
  by (simp add: summary_def sample_parsed_def del: replicate.simps)

lemma sample_proves: "verifyServiceAuth (ro_verify sample_relay) \<lparr>sas_name = js ''a.ox'', sas_endpoint = ro_endpoint sample_relay,
    sas_challenge = sample_challenge, sas_nodeKey = KeyBytes (replicate 32 2)\<rparr> sample_proof"
proof -
  have "\<exists>b. encodeStatement \<lparr>sas_name = js ''a.ox'', sas_endpoint = js ''wss://r'', sas_challenge = sample_challenge,
      sas_nodeKey = KeyBytes (replicate 32 2)\<rparr> = Inr b"
    using sample_name
    by (simp add: encodeStatement_iff js_def MAX_ENDPOINT_LENGTH_def parsePublicKey_def PUBLIC_KEY_LENGTH_def sample_challenge_def del: replicate.simps)
  then show ?thesis
    by (auto simp: verifyServiceAuth_def sample_relay_def sample_proof_def decode_encode64 SIGNATURE_LENGTH_def parsePublicKey_def
        PUBLIC_KEY_LENGTH_def simp del: replicate.simps)
qed

lemma run_register: "relay_step sample_relay sample_world (Ev_task 0) state_looked = Some state_registered"
proof -
  have s: "rs_tasks state_looked = [\<lparr>rt_verify = Some ([sample_signed], sample_proof), rt_conn = 0, rt_name = js ''a.ox'',
      rt_lookup = Looked (Some (replicate 32 1))\<rparr>]" "rs_services state_looked = []" "\<not> cn_closed (rs_conns state_looked 0)"
    "cn_challenge (rs_conns state_looked 0) = Some sample_challenge"
    by (simp_all add: state_looked_def state_asked_def state_connected_def relay_init_def node_conn_def fresh_connection_def)
  have "verifyService sample_relay sample_world 0 (js ''a.ox'') [sample_signed] sample_proof (Looked (Some (replicate 32 1))) (state_looked\<lparr>rs_tasks := []\<rparr>)
      = register sample_world 0 (js ''a.ox'') (replicate 32 1) (summary [sample_parsed]) (state_looked\<lparr>rs_tasks := []\<rparr>)"
    using s sample_verifies sample_proves
    by (simp add: verifyService_def lookup_outcome_def sample_subject del: replicate.simps) (simp add: sample_relay_def DEFAULT_LIMITS_def)
  also have "\<dots> = state_registered"
    by (simp add: register_def Let_def state_registered_def sample_subject s(2) emit_def upd_conn_def sample_world_def del: replicate.simps)
      (simp add: state_looked_def state_asked_def node_ready_def fun_eq_iff del: replicate.simps)
  finally show ?thesis by (simp add: s(1) runTask_def del: replicate.simps)
qed

text \<open>A client connects and opens a circuit.\<close>

definition client_conn :: connection where
  "client_conn = fresh_connection Client_conn [2] 64 15000"

definition state_client :: relay_state where
  "state_client = state_registered\<lparr>rs_ips := [([1], sample_entry 128 9), ([2], sample_entry 128 10)],
     rs_conns := (rs_conns relay_init)(0 := node_ready, 1 := client_conn), rs_nextConn := 2, rs_live := [0, 1]\<rparr>"

lemma run_client:
  "relay_step sample_relay sample_world (Ev_admit [2]) state_registered = Some (state_registered\<lparr>rs_ips := [([1], sample_entry 128 9), ([2], sample_entry 128 10)]\<rparr>)"
  "relay_step sample_relay sample_world (Ev_accept_client [2]) (state_registered\<lparr>rs_ips := [([1], sample_entry 128 9), ([2], sample_entry 128 10)]\<rparr>) = Some state_client"
proof -
  have s: "rs_live state_registered = [0]" "rs_ips state_registered = [([1], sample_entry 128 9)]" "rs_nextConn state_registered = 1"
    "rs_conns state_registered = (rs_conns relay_init)(0 := node_ready)"
    by (simp_all add: state_registered_def state_looked_def state_asked_def state_connected_def)
  show "relay_step sample_relay sample_world (Ev_admit [2]) state_registered = Some (state_registered\<lparr>rs_ips := [([1], sample_entry 128 9), ([2], sample_entry 128 10)]\<rparr>)"
    by (simp add: admit_def s sample_relay_def sample_world_def DEFAULT_LIMITS_def ip_admit_def admit_entry_def fresh_entry_def
        tb_take_def tb_refill_def TokenBucket_def Let_def sample_entry_def)
  show "relay_step sample_relay sample_world (Ev_accept_client [2]) (state_registered\<lparr>rs_ips := [([1], sample_entry 128 9), ([2], sample_entry 128 10)]\<rparr>) = Some state_client"
    by (simp add: acceptClient_def newConnection_def s sample_relay_def sample_world_def DEFAULT_LIMITS_def state_client_def client_conn_def
        MAX_CIRCUITS_PER_CONNECTION_def)
qed

definition create_frame :: bytes where
  "create_frame = frame_bytes CIRCUIT_CREATE 7 sample_create"

definition sample_circuit :: circuit where
  "sample_circuit = \<lparr>cc_client = 1, cc_clientId = 7, cc_service = 0, cc_serviceId = 9, cc_open = False, cc_createdAt = 15000,
     cc_lastActivity = 15000, cc_name = js ''a.ox''\<rparr>"

definition state_circuit :: relay_state where
  "state_circuit = state_client\<lparr>rs_ips := [([1], sample_entry 128 9), ([2], sample_entry 127 10)],
     rs_circuits := (rs_circuits relay_init)(0 := sample_circuit), rs_nextCircuit := 1,
     rs_conns := (rs_conns relay_init)(0 := node_ready\<lparr>cn_circuits := \<lparr>ct_circuits = [(9, 0)], ct_max = 256\<rparr>\<rparr>,
       1 := client_conn\<lparr>cn_circuits := \<lparr>ct_circuits = [(7, 0)], ct_max = 64\<rparr>, cn_pending := 1, cn_perService := [(0, 1)]\<rparr>),
     rs_ipService := [(ipKey [2] (js ''a.ox''), 1)], rs_circuitCount := 1,
     rs_out := rs_out state_client @ [Out_send 0 (frame_bytes CIRCUIT_CREATE 9 sample_create)]\<rparr>"

lemma sample_create_decodes: "decodeCircuitCreate sample_create = Inr (js ''a.ox'', replicate HANDSHAKE_MESSAGE_SIZE 1)"
proof -
  have a: "ascii (js ''a.ox'')" by (simp add: ascii_def js_def)
  then have "length (textEncode (js ''a.ox'')) = 4" by (simp add: length_textEncode_ascii js_def)
  with textDecodeFatal_ascii [OF a] show ?thesis using sample_name
    by (simp add: decodeCircuitCreate_def sample_create_def)
qed

lemma run_create: "relay_step sample_relay sample_world (Ev_receive 1 create_frame) state_client = Some state_circuit"
proof -
  have "length (textEncode (js ''a.ox'')) = 4" by (simp add: length_textEncode_ascii ascii_def js_def)
  then have "length sample_create \<le> MAX_FRAME_PAYLOAD" by (simp add: sample_create_def MAX_FRAME_PAYLOAD_def HANDSHAKE_MESSAGE_SIZE_def)
  note f = frame_received [OF _ this, of 7 CIRCUIT_CREATE, folded create_frame_def]
  let ?f = "\<lparr>f_version = PROTOCOL_VERSION, f_type = FrameType CIRCUIT_CREATE, f_flags = 0, f_circuitId = 7, f_streamId = 0, f_payload = sample_create\<rparr>"
  have c: "rs_conns state_client = (rs_conns relay_init)(0 := node_ready, 1 := client_conn)" "rs_services state_client = [(js ''a.ox'', 0)]"
    "rs_circuitCount state_client = 0" "rs_ipService state_client = []" "rs_ips state_client = [([1], sample_entry 128 9), ([2], sample_entry 128 10)]"
    "rs_nextCircuit state_client = 0" "rs_circuits state_client = rs_circuits relay_init"
    by (simp_all add: state_client_def state_registered_def state_looked_def state_asked_def state_connected_def relay_init_def)
  have n: "cn_circuits node_ready = \<lparr>ct_circuits = [], ct_max = 256\<rparr>" "\<not> cn_closed node_ready" "cn_ip client_conn = [2]"
    "cn_circuits client_conn = \<lparr>ct_circuits = [], ct_max = 64\<rparr>" "cn_pending client_conn = 0" "cn_perService client_conn = []" "\<not> cn_closed client_conn"
    "cn_kind client_conn = Client_conn"
    by (simp_all add: node_ready_def node_conn_def client_conn_def fresh_connection_def CircuitTable_def)
  have a: "allowCreate [2] 15000 [([1], sample_entry 128 9), ([2], sample_entry 128 10)] = (True, [([1], sample_entry 128 9), ([2], sample_entry 127 10)])"
    by (simp add: allowCreate_def sample_entry_def tb_take_def tb_refill_def Let_def)
  have p: "pick_service_id \<lparr>ct_circuits = [], ct_max = 256\<rparr> (w_draws sample_world) = Some 9"
    by (subst pick_service_id.simps) (simp add: sample_world_def Let_def id_of_bytes_eq RESERVED_CIRCUIT_ID_def ct_has_def ct_get_def)
  have room: "\<not> atCapacity (\<lparr>ct_circuits = [], ct_max = 256\<rparr> :: nat circuit_table)" "\<not> atCapacity (\<lparr>ct_circuits = [], ct_max = 64\<rparr> :: nat circuit_table)"
    by (simp_all add: atCapacity_def ct_size_def)
  have l: "w_now sample_world = 15000" "maxPendingPerClient (ro_limits sample_relay) = 32" "maxCircuits (ro_limits sample_relay) = 32768"
    "maxCircuitsPerClientPerService (ro_limits sample_relay) = 16" "maxCircuitsPerIpPerService (ro_limits sample_relay) = 16"
    by (simp_all add: sample_world_def sample_relay_def DEFAULT_LIMITS_def MAX_PENDING_OPENS_def)
  have "createCircuit sample_relay sample_world 1 ?f state_client
      = Some (sendTo 0 CIRCUIT_CREATE 9 sample_create (insertCircuit sample_world 1 7 0 9 (js ''a.ox'') (state_client\<lparr>rs_ips := [([1], sample_entry 128 9), ([2], sample_entry 127 10)]\<rparr>)))"
    using a p room by (simp add: createCircuit_def Let_def c n l sample_create_decodes ct_has_def ct_get_def count_of_def)
  also have "\<dots> = Some state_circuit"
    using n(2) room by (simp add: sendTo_def emit_def insertCircuit_def Let_def upd_conn_def c n state_circuit_def count_of_def ct_add_def ct_has_def ct_get_def
        RESERVED_CIRCUIT_ID_def sample_circuit_def fun_eq_iff) (simp add: sample_world_def state_client_def)
  finally show ?thesis using f
    by (simp add: handleReceive_def receive_data_def receive_frame_def receiveFromClient_def FrameType_inject c n) (simp add: state_client_def)
qed

section \<open>All of them are reachable\<close>

lemma world_sample: "world_ok sample_world"
  by (simp add: world_ok_def sample_world_def)

lemma sample_reachable:
  "reachable sample_relay state_connected" "reachable sample_relay state_asked" "reachable sample_relay state_looked"
  "reachable sample_relay state_registered" "reachable sample_relay state_client" "reachable sample_relay state_circuit"
proof -
  note go = reachable.event [OF _ world_sample]
  show 1: "reachable sample_relay state_connected" by (rule go [OF go [OF reachable.start run_connect(1)] run_connect(2)])
  show 2: "reachable sample_relay state_asked" by (rule go [OF 1 run_auth])
  show 3: "reachable sample_relay state_looked" by (rule go [OF 2 run_settle])
  show 4: "reachable sample_relay state_registered" by (rule go [OF 3 run_register])
  show 5: "reachable sample_relay state_client" by (rule go [OF go [OF 4 run_client(1)] run_client(2)])
  show "reachable sample_relay state_circuit" by (rule go [OF 5 run_create])
qed

end
