(* ===== verification/Relay_Properties.thy ===== *)
theory Relay_Properties
  imports Relay_Sample
begin

text \<open>
  What the relay as a whole guarantees: the properties of \<^verbatim>\<open>core.ts\<close>, over every state a run can reach.
\<close>

section \<open>Every event is a run of the switchboard\<close>

text \<open>The connections that act in an event, and the registrations it may bring.\<close>

definition actors :: "relay_event \<Rightarrow> relay_state \<Rightarrow> nat set" where
  "actors e s = (case e of
     Ev_accept_client _ \<Rightarrow> {rs_nextConn s} | Ev_accept_service _ _ \<Rightarrow> {rs_nextConn s}
   | Ev_receive c _ \<Rightarrow> {c} | Ev_closed c \<Rightarrow> {c} | Ev_sweep \<Rightarrow> UNIV | Ev_shutdown \<Rightarrow> UNIV
   | Ev_task i \<Rightarrow> insert (rt_conn (rs_tasks s ! i)) {j. map_of (rs_services s) (rt_name (rs_tasks s ! i)) = Some j}
   | _ \<Rightarrow> {})"

definition grants :: "relay_options \<Rightarrow> relay_world \<Rightarrow> relay_event \<Rightarrow> relay_state \<Rightarrow> (jsstring \<times> nat) set" where
  "grants R W e s = {(rt_name t, rt_conn t) | t i chain sg. e = Ev_task i \<and> t = rs_tasks s ! i \<and> i < length (rs_tasks s) \<and>
     rt_verify t = Some (chain, sg) \<and> registers R W (rt_conn t) (rt_name t) chain sg (rt_lookup t) s}"

lemma kept_switches: "kept R cs ns s s' \<Longrightarrow> switches cs ns (board (view s)) (board (view s'))"
  by (simp add: kept_def)

lemma switch_step:
  assumes inv: "relay_inv R s" and W: "world_ok W" and step: "relay_step R W e s = Some s'"
  shows "switches (actors e s) (grants R W e s) (board (view s)) (board (view s'))"
proof -
  have ok: "relay_ok R s" and tasks: "\<forall>t \<in> set (rs_tasks s). rt_conn t < rs_nextConn s" using inv by (simp_all add: relay_inv_def)
  have same: "switches cs ns (board (view s)) (board (view t))" if "view t = view s" for cs ns t using that by simp
  have accept: "switches {rs_nextConn s} ns (board (view s)) (board (view s'))" if "view s' = v_accept m (view s)" "m_table m = CircuitTable (bound_of (ro_limits R) (m_kind m))"
      "m_pending m = 0" "m_perService m = []" "\<not> m_closed m" "m_state m \<noteq> Some Ready" "m_kind m = Client_conn \<Longrightarrow> m_challenge m = None \<and> m_state m = None" for m ns
    using switch_accept [OF ok [unfolded relay_ok_def] that(2-7), of ns] by (simp add: that(1))
  show ?thesis
  proof (cases e)
    case (Ev_admit ip)
    with step have "view s' = view s" by (auto simp: admit_def split: if_splits prod.splits)
    then show ?thesis by (rule same)
  next
    case (Ev_release ip)
    with step have "view s' = view s" by (auto simp: releaseAdmission_def)
    then show ?thesis by (rule same)
  next
    case (Ev_accept_client ip)
    with step have s': "s' = snd (acceptClient R W ip s)" and a: "actors e s = {rs_nextConn s}" by (simp_all add: actors_def)
    show ?thesis unfolding a by (intro accept [OF view_accept(1) [of R W ip s, folded s']])
      (simp_all add: member_of_def fresh_connection_def bound_of_def)
  next
    case (Ev_accept_service ip ch)
    with step have s': "s' = snd (acceptService R W ip ch s)" and a: "actors e s = {rs_nextConn s}" by (simp_all add: actors_def split: if_splits)
    show ?thesis unfolding a by (intro accept [OF view_accept(2) [of R W ip ch s, folded s']])
      (simp_all add: member_of_def fresh_connection_def bound_of_def)
  next
    case (Ev_receive c data)
    with step have c: "conn_in s c" "handleReceive R W c data s = Some s'" by (simp_all add: conn_in_def split: if_splits)
    show ?thesis by (rule kept_switches, rule kept_receive [OF ok c(1) W c(2)]) (simp add: actors_def Ev_receive)
  next
    case (Ev_closed c)
    with step have c: "conn_in s c" "s' = onTransportClosed c s" by (simp_all add: conn_in_def split: if_splits)
    show ?thesis by (rule kept_switches, rule kept_hangup [OF ok c(1)]) (simp_all add: actors_def Ev_closed c(2))
  next
    case Ev_sweep
    with step have s': "sweep R W s = s'" by simp
    have "kept R UNIV ns s s'" for ns using kept_sweep [OF ok, of ns W] unfolding s' .
    from kept_switches [OF this] show ?thesis by (simp add: actors_def Ev_sweep)
  next
    case (Ev_settled name r)
    with step have "view s' = view s" by (auto split: if_splits)
    then show ?thesis by (rule same)
  next
    case (Ev_task i)
    let ?t = "rs_tasks s ! i" and ?s = "s\<lparr>rs_tasks := take i (rs_tasks s) @ drop (Suc i) (rs_tasks s)\<rparr>"
    have i: "i < length (rs_tasks s)" "s' = runTask R W ?t ?s" using step Ev_task by (simp_all split: if_splits)
    have ok': "relay_ok R ?s" and cin: "conn_in ?s (rt_conn ?t)" using ok tasks i(1) by (simp_all add: relay_ok_def conn_in_def)
    have a: "rt_conn ?t \<in> actors e s" "map_of (rs_services ?s) (rt_name ?t) = Some j \<Longrightarrow> j \<in> actors e s" for j
      by (simp_all add: actors_def Ev_task)
    have "(rt_name ?t, rt_conn ?t) \<in> grants R W e s"
      if "rt_verify ?t = Some (chain, sg)" "registers R W (rt_conn ?t) (rt_name ?t) chain sg (rt_lookup ?t) ?s" for chain sg
      using that i(1) by (auto simp: grants_def Ev_task registers_def)
    then have "kept R (actors e s) (grants R W e s) ?s s'"
      unfolding i(2) runTask_def using kept_verify [OF ok' cin a] kept_recheck [OF ok' cin a(1)] by (auto split: option.splits)
    from kept_switches [OF this] show ?thesis by simp
  next
    case Ev_shutdown
    with step have s': "shutdown s = s'" by simp
    have "kept R UNIV ns s s'" for ns using kept_shutdown [OF ok, of ns] unfolding s' .
    from kept_switches [OF this] show ?thesis by (simp add: actors_def Ev_shutdown)
  qed
qed

section \<open>Properties\<close>

definition circuits_of :: "relay_state \<Rightarrow> nat set" where
  "circuits_of s = {k. k < rs_nextCircuit s \<and> owned_by_client k s}"

definition circuits_where :: "(circuit \<Rightarrow> bool) \<Rightarrow> relay_state \<Rightarrow> int" where
  "circuits_where F s = int (card {k \<in> circuits_of s. F (rs_circuits s k)})"

lemma circuits_held: "circuits_of s = held (view s)"
  by (simp add: circuits_of_def held_def owned_view)

lemma tally_circuits: "(\<And>k. G (link_of (rs_circuits s k)) = F (rs_circuits s k)) \<Longrightarrow> tally G (view s) = circuits_where F s"
  by (simp add: tally_def circuits_where_def circuits_held)

lemma circuits_where_le: "(\<And>k. F (rs_circuits s k) \<Longrightarrow> G (rs_circuits s k)) \<Longrightarrow> circuits_where F s \<le> circuits_where G s"
  unfolding circuits_where_def by (simp add: circuits_held) (rule card_mono, auto)

lemma reachable_ok: "reachable R s \<Longrightarrow> relay_ok R s"
  using reachable_relay_inv by (simp add: relay_inv_def)

lemma member_limits:
  fixes s R c
  defines "L \<equiv> ro_limits R" and "cn \<equiv> rs_conns s c"
  assumes ok: "relay_ok R s" and c: "c < rs_nextConn s"
  shows "length (ct_circuits (cn_circuits cn)) \<le> bound_of L (cn_kind cn)"
    "cn_pending cn = circuits_where (\<lambda>ci. cc_client ci = c \<and> \<not> cc_open ci) s" "cn_pending cn \<le> max 0 (maxPendingPerClient L)"
    "circuits_where (\<lambda>ci. cc_client ci = c \<and> cc_service ci = d) s \<le> max 0 (maxCircuitsPerClientPerService L)"
proof -
  have m: "member_ok L (view s) c" using ok_member [of L "view s"] ok c by (simp add: L_def relay_ok_def)
  then have "ct_inv (cn_circuits cn)" "ct_max (cn_circuits cn) = bound_of L (cn_kind cn)" by (simp_all add: member_ok_def Let_def cn_def)
  then show "length (ct_circuits (cn_circuits cn)) \<le> bound_of L (cn_kind cn)" by (simp add: ct_inv_def ct_size_def)
  have t: "tally (\<lambda>e. l_client e = c \<and> \<not> l_open e) (view s) = circuits_where (\<lambda>ci. cc_client ci = c \<and> \<not> cc_open ci) s"
    "tally (\<lambda>e. l_client e = c \<and> l_service e = d) (view s) = circuits_where (\<lambda>ci. cc_client ci = c \<and> cc_service ci = d) s"
    by (simp_all add: tally_circuits)
  with m show "cn_pending cn = circuits_where (\<lambda>ci. cc_client ci = c \<and> \<not> cc_open ci) s" "cn_pending cn \<le> max 0 (maxPendingPerClient L)"
    by (simp_all add: member_ok_def Let_def cn_def)
  have "circuits_where (\<lambda>ci. cc_client ci = c \<and> cc_service ci = d) s = count_of (cn_perService cn) d"
    using m t(2) by (simp add: member_ok_def Let_def counts_def cn_def)
  also have "\<dots> \<le> max 0 (maxCircuitsPerClientPerService L)" using m by (simp add: member_ok_def Let_def cn_def)
  finally show "circuits_where (\<lambda>ci. cc_client ci = c \<and> cc_service ci = d) s \<le> max 0 (maxCircuitsPerClientPerService L)" .
qed

lemma address_limit:
  assumes "totals_ok L (view s)"
  shows "circuits_where (\<lambda>ci. cn_ip (rs_conns s (cc_client ci)) = ip \<and> cc_name ci = name) s \<le> max 0 (maxCircuitsPerIpPerService L)"
proof -
  let ?F = "\<lambda>ci. ipKey (cn_ip (rs_conns s (cc_client ci))) (cc_name ci) = ipKey ip name"
  let ?G = "\<lambda>e. ipKey (m_ip (v_conns (view s) (l_client e))) (l_name e) = ipKey ip name"
  have "circuits_where (\<lambda>ci. cn_ip (rs_conns s (cc_client ci)) = ip \<and> cc_name ci = name) s \<le> circuits_where ?F s"
    by (rule circuits_where_le) simp
  also have "\<dots> = tally ?G (view s)" by (simp add: tally_circuits)
  also have "\<dots> = count_of (v_ipService (view s)) (ipKey ip name)" using assms by (simp add: totals_ok_def counts_def)
  also have "\<dots> \<le> max 0 (maxCircuitsPerIpPerService L)" using assms by (simp add: totals_ok_def)
  finally show ?thesis .
qed

lemma admitted_within:
  assumes "admit R W ip s = (Admitted, s')"
  shows "length (rs_live s) < maxConnections (ro_limits R)" "open_at (rs_ips s') ip \<le> maxConnectionsPerIp (ro_limits R)"
proof -
  obtain ips where v: "ip_admit (ro_limits R) ip (w_now W) (rs_ips s) = (Admit_ok, ips)" and s': "s' = s\<lparr>rs_ips := ips\<rparr>"
    and n: "length (rs_live s) < maxConnections (ro_limits R)"
    using assms by (auto simp: admit_def split: if_splits prod.splits)
  have entry: "ie_connections e' \<le> maxConnectionsPerIp (ro_limits R)" if "admit_entry (ro_limits R) (w_now W) e = (Admit_ok, e')" for e e'
    using that by (auto simp: admit_entry_def split: if_splits prod.splits bool.splits)
  have "open_at ips ip \<le> maxConnectionsPerIp (ro_limits R)"
    using v by (auto simp: ip_admit_def Let_def split: option.splits prod.splits if_splits dest: entry)
  with n s' show "length (rs_live s) < maxConnections (ro_limits R)" "open_at (rs_ips s') ip \<le> maxConnectionsPerIp (ro_limits R)" by simp_all
qed

text \<open>
  C4. The relay's limits on circuits and names hold in every reachable state, and its counters are what they say: the
  number of circuits, of half-open circuits of a client, of circuits per client and node, and of circuits per
  address and name are the cardinalities of those sets of circuits, and neither they nor the tables of the connections and
  the registered names exceed the configured bounds. Admission is bounded too: an address is admitted only while there are fewer than
  \<^verbatim>\<open>maxConnections\<close> connections, and counts then at most \<^verbatim>\<open>maxConnectionsPerIp\<close>. The relay accepts a connection without asking
  again, so the number of connections itself is bounded only by who calls it; and the bounds on violations, buffered bytes, lookups and
  remembered names are no part of this property.
\<close>

theorem relay_limits_hold:
  assumes "reachable R s"
  shows "rs_circuitCount s = circuits_where (\<lambda>_. True) s \<and> rs_circuitCount s \<le> max 0 (maxCircuits (ro_limits R)) \<and>
    length (rs_services s) \<le> maxServiceNodes (ro_limits R) \<and>
    (\<forall>c < rs_nextConn s. length (ct_circuits (cn_circuits (rs_conns s c))) \<le> bound_of (ro_limits R) (cn_kind (rs_conns s c)) \<and>
      cn_pending (rs_conns s c) = circuits_where (\<lambda>ci. cc_client ci = c \<and> \<not> cc_open ci) s \<and>
      cn_pending (rs_conns s c) \<le> max 0 (maxPendingPerClient (ro_limits R)) \<and>
      (\<forall>d. circuits_where (\<lambda>ci. cc_client ci = c \<and> cc_service ci = d) s \<le> max 0 (maxCircuitsPerClientPerService (ro_limits R)))) \<and>
    (\<forall>ip name. circuits_where (\<lambda>ci. cn_ip (rs_conns s (cc_client ci)) = ip \<and> cc_name ci = name) s \<le> max 0 (maxCircuitsPerIpPerService (ro_limits R))) \<and>
    (\<forall>W ip s'. admit R W ip s = (Admitted, s') \<longrightarrow>
       length (rs_live s) < maxConnections (ro_limits R) \<and> open_at (rs_ips s') ip \<le> maxConnectionsPerIp (ro_limits R))"
proof -
  have ok: "relay_ok R s" using reachable_ok [OF assms] .
  then have t: "totals_ok (ro_limits R) (view s)" by (simp add: relay_ok_def registry_ok_def)
  have "rs_circuitCount s = circuits_where (\<lambda>_. True) s \<and> rs_circuitCount s \<le> max 0 (maxCircuits (ro_limits R)) \<and>
      length (rs_services s) \<le> maxServiceNodes (ro_limits R)"
    using t tally_circuits [of "\<lambda>_. True" s "\<lambda>_. True"] by (simp add: totals_ok_def)
  with member_limits [OF ok] address_limit [OF t] admitted_within show ?thesis by blast
qed

text \<open>
  C3. The relay refines the abstract switchboard: whatever one event does to connections, circuits and names is a sequence of
  steps of the switchboard by the connections that act in that event. A connection joins or leaves, opens a circuit to the
  node registered for a name under identifiers no other circuit has, answers a circuit that is its own and still half
  open, drops one of its own; and a free name is given to a connection only where a proof was checked.
\<close>

theorem relay_refines_switchboard:
  assumes "reachable R s" "world_ok W" "relay_step R W e s = Some s'"
  shows "switches (actors e s) (grants R W e s) (board (view s)) (board (view s'))"
  using switch_step [OF reachable_relay_inv [OF assms(1)] assms(2,3)] .

text \<open>
  C5. Isolation. Whatever bytes a connection sends, the relay answers only to it, to the other ends of its own circuits
  and, for a frame that asks for a circuit, to a registered node; every other connection stays as it is, keeps the names
  it has and gains none; and every circuit the sender is not an end of stays, with its ends and its state.
\<close>

theorem frame_isolation:
  assumes "reachable R s" "world_ok W" "relay_step R W (Ev_receive c data) s = Some s'"
  shows "says (audience s c \<union> asked s data) s s' \<and>
    (\<forall>d < rs_nextConn s. d \<noteq> c \<longrightarrow> cn_closed (rs_conns s' d) = cn_closed (rs_conns s d) \<and>
       (\<forall>name. map_of (rs_services s') name = Some d \<longleftrightarrow> map_of (rs_services s) name = Some d)) \<and>
    (\<forall>k \<in> circuits_of s. cc_client (rs_circuits s k) \<noteq> c \<and> cc_service (rs_circuits s k) \<noteq> c \<longrightarrow>
       k \<in> circuits_of s' \<and> link_of (rs_circuits s' k) = link_of (rs_circuits s k))"
proof -
  have ok: "relay_ok R s" using reachable_ok [OF assms(1)] .
  have c: "conn_in s c" and r: "handleReceive R W c data s = Some s'" using assms(3) by (simp_all add: conn_in_def split: if_splits)
  have "kept R {c} {} s s'" using kept_receive [OF ok c assms(2) r] by simp
  then have ok': "relay_ok R s'" and n: "rs_nextConn s' = rs_nextConn s" and sw: "switches {c} {} (board (view s)) (board (view s'))"
    by (simp_all add: kept_def)
  note b = bystander [OF sw]
  have "says (audience s c \<union> asked s data) s s'" using says_receive [OF ok c assms(2) _ _ r] by simp
  moreover have "cn_closed (rs_conns s' d) = cn_closed (rs_conns s d)" if "d < rs_nextConn s" "d \<noteq> c" for d
    using b(1) [of d] that n member_live [OF ok [unfolded relay_ok_def], of d] member_live [OF ok' [unfolded relay_ok_def], of d] by simp
  moreover have "map_of (rs_services s') name = Some d \<longleftrightarrow> map_of (rs_services s) name = Some d" if "d \<noteq> c" for d name
    using b(2) [of d name] that by (simp add: board_sel)
  moreover have "k \<in> circuits_of s' \<and> link_of (rs_circuits s' k) = link_of (rs_circuits s k)"
    if "k \<in> circuits_of s" "cc_client (rs_circuits s k) \<noteq> c \<and> cc_service (rs_circuits s k) \<noteq> c" for k
    using b(3) [of "link_of (rs_circuits s k)" k] that by (auto simp: board_sel circuits_held split: if_splits)
  ultimately show ?thesis by blast
qed

text \<open>
  C6. A name becomes a connection's only by proof: a suspended call of that connection resumes with the domain key of
  the name, its chain leads to that key with the purpose and the scope asked for, the signature over name, endpoint and the challenge
  sent on this connection verifies under the chain's subject, and whoever held the name held the same node key.
\<close>

theorem names_only_by_proof:
  assumes "reachable R s" "world_ok W" "relay_step R W e s = Some s'"
    and "map_of (rs_services s') name = Some c" "map_of (rs_services s) name \<noteq> Some c"
  shows "\<exists>i chain sg. e = Ev_task i \<and> i < length (rs_tasks s) \<and> rt_name (rs_tasks s ! i) = name \<and> rt_conn (rs_tasks s ! i) = c \<and>
    rt_verify (rs_tasks s ! i) = Some (chain, sg) \<and> registers R W c name chain sg (rt_lookup (rs_tasks s ! i)) s"
proof -
  have "(name, c) \<in> grants R W e s"
    using names_granted [OF switch_step [OF reachable_relay_inv [OF assms(1)] assms(2,3)], of name c] assms(4,5) by (simp add: board_sel)
  then show ?thesis by (auto simp: grants_def)
qed

text \<open>
  C27. Everything the relay sends on any connection is one whole frame the peer's decoder accepts.
\<close>

theorem everything_sent_is_a_frame:
  assumes "reachable R s" "Out_send d data \<in> set (rs_out s)"
  shows "\<exists>f. decodeFrame data = Inr f"
  using log_proper [OF assms] by (simp add: is_ok_iff)

lemma counters_basic [simp]: "rs_counters (upd_conn c g s) = rs_counters s" "rs_counters (sendTo c t i p s) = rs_counters s"
  by (simp_all add: upd_conn_def sendTo_def emit_def)

lemma counters_remove [simp]: "rs_counters (removeCircuit k n r s) = rs_counters s"
  by (simp add: removeCircuit_def Let_def)

lemma open_ends:
  assumes ok: "relay_ok R s" and k: "k \<in> circuits_of s"
  shows "\<not> cn_closed (rs_conns s (cc_client (rs_circuits s k)))" "\<not> cn_closed (rs_conns s (cc_service (rs_circuits s k)))"
    "cc_clientId (rs_circuits s k) < 2 ^ 64" "cc_serviceId (rs_circuits s k) < 2 ^ 64"
proof -
  have reg: "registry_ok (ro_limits R) (view s)" and h: "k \<in> held (view s)" using ok k by (simp_all add: relay_ok_def circuits_held)
  note f = held_facts [OF reg h]
  have closed: "\<not> cn_closed (rs_conns s c)" if "c < rs_nextConn s" "ct_get (cn_circuits (rs_conns s c)) i = Some k" for c i
    using ok_member [OF reg, of c] that by (auto simp: member_ok_def Let_def ct_get_def)
  show "\<not> cn_closed (rs_conns s (cc_client (rs_circuits s k)))" "\<not> cn_closed (rs_conns s (cc_service (rs_circuits s k)))"
    using f(2-5) closed by (simp_all add: v_owned_c_def v_owned_s_def)
  show "cc_clientId (rs_circuits s k) < 2 ^ 64" "cc_serviceId (rs_circuits s k) < 2 ^ 64"
    using ok_link [OF reg f(1)] by (simp_all add: ends_ok_def Let_def)
qed

text \<open>
  C28. Forwarding. While the receiver's buffer has room, a frame of a circuit leaves towards the circuit's
  other end under that end's identifier, and is otherwise, type, flags, stream and payload, the frame that came; when the
  buffer has no room, this circuit is dropped, counted as lost to back pressure, and no other is touched.
\<close>

theorem forwarding_rewrites_only_the_id:
  assumes "reachable R s" "k \<in> circuits_of s" "decodeFrame raw = Inr f"
    and "(dest, destId, limit) = (if to = Client_conn
      then (cc_client (rs_circuits s k), cc_clientId (rs_circuits s k), clientBufferLimit (ro_limits R))
      else (cc_service (rs_circuits s k), cc_serviceId (rs_circuits s k), serviceBufferLimit (ro_limits R)))"
  shows "if w_buffered W (rs_out s) dest + length raw \<le> limit
    then circuits_of (forward R W k to raw s) = circuits_of s \<and>
      (\<exists>out. rs_out (forward R W k to raw s) = rs_out s @ [Out_send dest out] \<and> decodeFrame out = Inr (f\<lparr>f_circuitId := destId\<rparr>))
    else circuits_of (forward R W k to raw s) = circuits_of s - {k} \<and>
      rc_backpressureDestroys (rs_counters (forward R W k to raw s)) = rc_backpressureDestroys (rs_counters s) + 1"
proof -
  have ok: "relay_ok R s" using reachable_ok [OF assms(1)] .
  note e = open_ends [OF ok assms(2)]
  have d: "\<not> cn_closed (rs_conns s dest)" "destId < 2 ^ 64" using e assms(4) by (auto split: if_splits)
  have f: "forward R W k to raw s = (if w_buffered W (rs_out s) dest + length raw > limit
      then removeCircuit k To_both (ErrorCode RESOURCE_EXHAUSTED) (counted (rc_backpressureDestroys_update Suc) s)
      else let out = with_circuit_id destId raw; result = w_sent W (rs_out s) dest out; t = emit (Out_send dest out) s in
        if result = 0 then t else counted (rc_framesForwarded_update Suc \<circ> rc_bytesForwarded_update (\<lambda>n. n + length out))
          (upd_circuit k (\<lambda>ci. ci\<lparr>cc_lastActivity := w_now W\<rparr>) t))"
    using d(1) assms(4) by (auto simp: forward_def Let_def split: if_splits)
  show ?thesis
  proof (cases "w_buffered W (rs_out s) dest + length raw \<le> limit")
    case True
    have "view (upd_circuit k (\<lambda>ci. ci\<lparr>cc_lastActivity := w_now W\<rparr>) t) = view t" for t
      by (rule view_upd_circuit_same) (simp add: link_of_def)
    then have "view (forward R W k to raw s) = view s" using True by (simp add: f Let_def)
    moreover have "rs_out (forward R W k to raw s) = rs_out s @ [Out_send dest (with_circuit_id destId raw)]"
      using True by (simp add: f Let_def emit_def counted_def upd_circuit_def)
    ultimately show ?thesis using True with_circuit_id_decodes [OF assms(3) d(2)] by (simp add: circuits_held)
  next
    case False
    have "circuits_of (removeCircuit k n r (counted g s)) = circuits_of s - {k}" for n r g
      using removed_held [OF ok [unfolded relay_ok_def] _ refl, of k] assms(2) by (simp add: circuits_held)
    then show ?thesis using False by (simp add: f) (simp add: counted_def)
  qed
qed

text \<open>
  C29. A service node that has not proved itself is nobody: it owns no circuit and holds no name, and any
  frame it sends that is not a ping, a pong, a hello or its authentication closes its connection.
\<close>

theorem nothing_before_authentication:
  assumes "reachable R s" "c < rs_nextConn s" "cn_kind (rs_conns s c) = Service_conn" "cn_state (rs_conns s c) \<noteq> Some Ready"
  shows "ct_circuits (cn_circuits (rs_conns s c)) = [] \<and> (\<forall>name. map_of (rs_services s) name \<noteq> Some c) \<and>
    (\<forall>W data f. decodeFrame data = Inr f \<and> length data \<le> MAX_FRAME_SIZE \<and> f_type f \<notin> FrameType ` {PING, PONG, HELLO, AUTH} \<longrightarrow>
      (\<exists>s'. handleReceive R W c data s = Some s' \<and> cn_closed (rs_conns s' c)))"
proof -
  have ok: "relay_ok R s" using reachable_ok [OF assms(1)] .
  then have reg: "registry_ok (ro_limits R) (view s)" by (simp add: relay_ok_def)
  have cin: "conn_in s c" using assms(2) by (simp add: conn_in_def)
  have m: "member_ok (ro_limits R) (view s) c" using ok_member [OF reg] assms(2) by simp
  have "ct_get (cn_circuits (rs_conns s c)) i = None" for i
  proof (rule ccontr)
    assume "ct_get (cn_circuits (rs_conns s c)) i \<noteq> None"
    then obtain k where k: "ct_get (cn_circuits (rs_conns s c)) i = Some k" by auto
    have "k \<in> held (view s)" "cc_service (rs_circuits s k) = c" using ok_found(1,3) [OF ok cin k] assms(3) by simp_all
    with held_facts(9) [OF reg, of k] assms(4) show False by simp
  qed
  then have "ct_circuits (cn_circuits (rs_conns s c)) = []"
    using table_empty [of "cn_circuits (rs_conns s c)"] m by (simp add: member_ok_def Let_def)
  moreover have "map_of (rs_services s) name \<noteq> Some c" for name
    using reg assms(4) by (simp add: registry_ok_def services_ok_def del: map_of_eq_Some_iff)
  moreover have "\<exists>s'. handleReceive R W c data s = Some s' \<and> cn_closed (rs_conns s' c)"
    if "decodeFrame data = Inr f" "length data \<le> MAX_FRAME_SIZE" "f_type f \<notin> FrameType ` {PING, PONG, HELLO, AUTH}" for W data f
  proof (cases "cn_closed (rs_conns s c)")
    case True
    then show ?thesis by (simp add: handleReceive_def receive_data_def)
  next
    case False
    let ?t = "fail c (ErrorCode AUTH_REQUIRED) CLOSE_POLICY (counted (rc_authFailures_update Suc) s)"
    have "handleReceive R W c data s = Some ?t"
      using that False assms(3,4) by (simp add: handleReceive_def receive_data_def receive_frame_def receiveUnauthenticated_def)
    moreover have "m_closed (v_conns (view ?t) c)" using hangup_ok(6) [OF reg, of c] assms(2) by simp
    then have "cn_closed (rs_conns ?t c)" unfolding view_sel(1) member_of_sel(6) .
    ultimately show ?thesis by blast
  qed
  ultimately show ?thesis by blast
qed

lemma nobody_left:
  assumes "relay_ok R s" "rs_live s = []"
  shows "circuits_of s = {} \<and> rs_services s = [] \<and> rs_circuitCount s = 0"
proof -
  have reg: "registry_ok (ro_limits R) (view s)" using assms(1) by (simp add: relay_ok_def)
  have closed: "c < rs_nextConn s \<Longrightarrow> cn_closed (rs_conns s c)" for c
    using member_live [OF reg, of c] assms(2) by (simp add: board_sel)
  have none: "circuits_of s = {}"
  proof (rule ccontr)
    assume "circuits_of s \<noteq> {}"
    then obtain k where k: "k \<in> circuits_of s" by blast
    have "cc_client (rs_circuits s k) < rs_nextConn s" using held_facts(4) [OF reg, of k] k by (simp add: circuits_held)
    with closed open_ends(1) [OF assms(1) k] show False by blast
  qed
  moreover have "map_of (rs_services s) name = None" for name
  proof (rule ccontr)
    assume "map_of (rs_services s) name \<noteq> None"
    then obtain c where "map_of (rs_services s) name = Some c" by auto
    then have "c < rs_nextConn s \<and> \<not> cn_closed (rs_conns s c)" using reg by (simp add: registry_ok_def services_ok_def del: map_of_eq_Some_iff)
    with closed show False by blast
  qed
  then have "map_of (rs_services s) = (\<lambda>_. None)" by blast
  then have "rs_services s = []" by simp
  moreover have "rs_circuitCount s = tally (\<lambda>_. True) (view s)" using reg by (simp add: registry_ok_def totals_ok_def)
  then have "rs_circuitCount s = 0" using none by (simp add: tally_def circuits_held)
  ultimately show ?thesis by blast
qed

text \<open>
  C30. Shutting down from any reachable state leaves nothing behind: every connection is closed and forgotten, no circuit and no
  name is left, and the count of circuits is zero.
\<close>

theorem shutdown_leaves_nothing:
  assumes "reachable R s"
  shows "rs_live (shutdown s) = [] \<and> circuits_of (shutdown s) = {} \<and> rs_services (shutdown s) = [] \<and> rs_circuitCount (shutdown s) = 0 \<and>
    (\<forall>c < rs_nextConn s. cn_closed (rs_conns (shutdown s) c))"
proof -
  have ok: "relay_ok R s" using reachable_ok [OF assms] .
  have run: "relay_ok R t \<Longrightarrow> set cs \<subseteq> {c. c < rs_nextConn t} \<Longrightarrow>
      set (rs_live (fold (\<lambda>c. closeConnection c code reason) cs t)) = set (rs_live t) - set cs" for cs t code reason
  proof (induction cs arbitrary: t)
    case (Cons c cs)
    let ?t = "closeConnection c code reason t"
    have reg: "registry_ok (ro_limits R) (view t)" and c: "c < v_nextConn (view t)" using Cons.prems by (simp_all add: relay_ok_def)
    have k: "relay_ok R ?t" "rs_nextConn ?t = rs_nextConn t"
      using kept_hangup [OF Cons.prems(1), of c UNIV ?t UNIV] c by (simp_all add: conn_in_def kept_def)
    have "set (rs_live ?t) = set (rs_live t) - {c}"
    proof (cases "m_closed (v_conns (view t) c)")
      case True
      then have "c \<notin> set (rs_live t)" using member_live [OF reg, of c] by (simp add: board_sel)
      moreover have "closeConnection c code reason t = t" using True by (simp add: closeConnection_def)
      ultimately show ?thesis by simp
    next
      case False
      have "sb_members (board (view ?t)) = sb_members (board (view t)) - {c}"
        using hangup_ok(2) [OF reg c False] by (simp add: hang_up_def)
      then show ?thesis unfolding board_sel(1) view_sel(3) .
    qed
    with Cons.IH [OF k(1)] Cons.prems(2) k(2) show ?case by auto
  qed simp
  have "kept R UNIV UNIV s (shutdown s)" using kept_shutdown [OF ok] .
  then have ok': "relay_ok R (shutdown s)" and n: "rs_nextConn (shutdown s) = rs_nextConn s" by (simp_all add: kept_def)
  have live: "rs_live (shutdown s) = []" using run [OF ok, of "rs_live s"] live_bound [OF ok] by (auto simp: shutdown_def)
  moreover have "c < rs_nextConn s \<Longrightarrow> cn_closed (rs_conns (shutdown s) c)" for c
    using member_live [OF ok' [unfolded relay_ok_def], of c] live n by (simp add: board_sel)
  ultimately show ?thesis using nobody_left [OF ok' live] by blast
qed

section \<open>Witnesses\<close>

lemma sample_admits: "\<exists>s'. admit sample_relay sample_world [3] state_circuit = (Admitted, s')"
proof -
  have "length (rs_live state_circuit) = 2" "rs_ips state_circuit = [([1], sample_entry 128 9), ([2], sample_entry 127 10)]"
    by (simp_all add: state_circuit_def state_client_def)
  then show ?thesis
    by (simp add: admit_def sample_relay_def DEFAULT_LIMITS_def ip_admit_def admit_entry_def fresh_entry_def TokenBucket_def tb_take_def tb_refill_def)
qed

theorem relay_limits_hold_witness:
  "circuits_where (\<lambda>_. True) state_circuit = 1 \<and> circuits_where (\<lambda>_. True) state_circuit \<le> 32768 \<and>
   (\<exists>W s'. admit sample_relay W [3] state_circuit = (Admitted, s') \<and> length (rs_live state_circuit) < maxConnections (ro_limits sample_relay))"
proof -
  have "rs_circuitCount state_circuit = 1" "maxCircuits (ro_limits sample_relay) = 32768"
    by (simp_all add: state_circuit_def sample_relay_def DEFAULT_LIMITS_def)
  moreover obtain s' where "admit sample_relay sample_world [3] state_circuit = (Admitted, s')"
    using sample_admits by blast
  ultimately show ?thesis using relay_limits_hold [OF sample_reachable(6)] by auto
qed

theorem relay_refines_switchboard_witness:
  "switches {1} {} (board (view state_client)) (board (view state_circuit)) \<and> sb_services (board (view state_client)) (js ''a.ox'') = Some 0"
proof -
  have "actors (Ev_receive 1 create_frame) state_client = {1}" "grants sample_relay sample_world (Ev_receive 1 create_frame) state_client = {}"
    by (simp_all add: actors_def grants_def)
  moreover have "rs_services state_client = [(js ''a.ox'', 0)]" by (simp add: state_client_def state_registered_def)
  ultimately show ?thesis using relay_refines_switchboard [OF sample_reachable(5) world_sample run_create] by (simp add: board_sel)
qed

theorem frame_isolation_witness:
  "says (audience state_client 1 \<union> asked state_client create_frame) state_client state_circuit \<and>
   cn_closed (rs_conns state_circuit 0) = cn_closed (rs_conns state_client 0)"
proof -
  have "(0 :: nat) < rs_nextConn state_client" by (simp add: state_client_def)
  with frame_isolation [OF sample_reachable(5) world_sample run_create] show ?thesis by auto
qed

theorem names_only_by_proof_witness:
  "\<exists>chain sg. registers sample_relay sample_world 0 (js ''a.ox'') chain sg (rt_lookup (rs_tasks state_looked ! 0)) state_looked"
proof -
  have "map_of (rs_services state_registered) (js ''a.ox'') = Some 0" "map_of (rs_services state_looked) (js ''a.ox'') \<noteq> Some 0"
    by (simp_all add: state_registered_def state_looked_def state_asked_def state_connected_def relay_init_def)
  from names_only_by_proof [OF sample_reachable(3) world_sample run_register this] show ?thesis by auto
qed

theorem everything_sent_is_a_frame_witness: "\<exists>f. decodeFrame (frame_bytes HELLO 0 sample_challenge) = Inr f"
  by (rule everything_sent_is_a_frame [OF sample_reachable(1), of 0]) (simp add: state_connected_def)

theorem forwarding_rewrites_only_the_id_witness:
  "\<exists>out f. rs_out (forward sample_relay sample_world 0 Service_conn (frame_bytes STREAM_DATA 7 [1, 2, 3]) state_circuit)
     = rs_out state_circuit @ [Out_send 0 out] \<and> decodeFrame out = Inr f \<and> f_circuitId f = 9 \<and> f_payload f = [1, 2, 3]"
proof -
  let ?raw = "frame_bytes STREAM_DATA 7 [1, 2, 3]"
  have k: "0 \<in> circuits_of state_circuit"
    by (simp add: circuits_of_def owned_by_client_def state_circuit_def sample_circuit_def ct_get_def)
  have small: "length [1, 2, 3 :: byte] \<le> MAX_FRAME_PAYLOAD" by (simp add: MAX_FRAME_PAYLOAD_def)
  note f = frame_received [OF _ small, of 7 STREAM_DATA]
  have l: "length ?raw \<le> serviceBufferLimit (ro_limits sample_relay)"
    using f(2) by (simp add: sample_relay_def DEFAULT_LIMITS_def MAX_FRAME_SIZE_def HEADER_SIZE_def MAX_FRAME_PAYLOAD_def SLACK_def)
  have ends: "(0, 9, serviceBufferLimit (ro_limits sample_relay)) = (if Service_conn = Client_conn
      then (cc_client (rs_circuits state_circuit 0), cc_clientId (rs_circuits state_circuit 0), clientBufferLimit (ro_limits sample_relay))
      else (cc_service (rs_circuits state_circuit 0), cc_serviceId (rs_circuits state_circuit 0), serviceBufferLimit (ro_limits sample_relay)))"
    by (simp add: state_circuit_def sample_circuit_def)
  have "w_buffered sample_world (rs_out state_circuit) 0 = 0" by (simp add: sample_world_def)
  with forwarding_rewrites_only_the_id [OF sample_reachable(6) k f(1) ends, of sample_world] l show ?thesis by auto
qed

theorem nothing_before_authentication_witness:
  "map_of (rs_services state_connected) (js ''a.ox'') \<noteq> Some 0 \<and>
   (\<exists>s'. handleReceive sample_relay sample_world 0 (frame_bytes STREAM_DATA 1 []) state_connected = Some s' \<and> cn_closed (rs_conns s' 0))"
proof -
  have s: "0 < rs_nextConn state_connected" "cn_kind (rs_conns state_connected 0) = Service_conn" "cn_state (rs_conns state_connected 0) \<noteq> Some Ready"
    by (simp_all add: state_connected_def node_conn_def fresh_connection_def)
  have f: "decodeFrame (frame_bytes STREAM_DATA 1 []) = Inr \<lparr>f_version = PROTOCOL_VERSION, f_type = FrameType STREAM_DATA, f_flags = 0,
      f_circuitId = 1, f_streamId = 0, f_payload = []\<rparr>" "length (frame_bytes STREAM_DATA 1 []) \<le> MAX_FRAME_SIZE"
    using frame_received [of 1 "[]" STREAM_DATA] by simp_all
  from nothing_before_authentication [OF sample_reachable(1) s] f show ?thesis by (auto simp: FrameType_inject)
qed

theorem shutdown_leaves_nothing_witness: "rs_live (shutdown state_circuit) = [] \<and> rs_live state_circuit = [0, 1]"
  using shutdown_leaves_nothing [OF sample_reachable(6)] by (simp add: state_circuit_def state_client_def)

end
