(* ===== verification/Secure_Circuit.thy ===== *)
theory Secure_Circuit
  imports Channel Flow_Control Overlay
begin

text \<open>
  \<^verbatim>\<open>packages/client/src/overlay/secure-circuit.ts\<close>: one end of an end-to-end circuit. It joins the session of
  \<^verbatim>\<open>session.ts\<close>, the stream messages of \<^verbatim>\<open>overlay.ts\<close> and the credit window of \<^verbatim>\<open>flow-control.ts\<close>, and tells a local
  socket what arrives. The state carries a log of the calls the circuit makes: records its session seals and accepts,
  frames it hands to the link, and callbacks. A callback that calls the circuit back does so after the present call: \<^verbatim>\<open>onWritable\<close>,
  the only one that does at once, is the last thing its caller does. What the link answers is any function of
  the log so far; the clock stands still within a call.
\<close>

section \<open>State\<close>

datatype circuit_role = Client_end | Service_end

text \<open>\<^verbatim>\<open>Backlog\<close>, and at the same time the callbacks \<^verbatim>\<open>onData\<close>, \<^verbatim>\<open>onEnd\<close> and \<^verbatim>\<open>onClose\<close>; an error is a \<^verbatim>\<open>SessionError\<close>, given by its code.\<close>

datatype circuit_item = Item_data bytes | Item_end | Item_close "nat option"

datatype circuit_act =
    Act_seal send_op \<comment> \<open>a call of the session that made a record\<close>
  | Act_open opened_record \<comment> \<open>\<open>session.open\<close> accepted a record\<close>
  | Act_send bytes \<comment> \<open>\<open>link.send\<close>\<close>
  | Act_event circuit_item
  | Act_writable
  | Act_onOpen js_number
  | Act_onOpened
  | Act_onDone "nat option"

record secure_circuit =
  cc_id :: nat
  cc_role :: circuit_role
  cc_session :: session_cipher
  cc_sendWindow :: flow_window
  cc_receivedUngranted :: int
  cc_consumedUngranted :: int
  cc_started :: bool
  cc_sentOpened :: bool
  cc_sentFin :: bool
  cc_peerFin :: bool
  cc_sentClose :: bool
  cc_peerClose :: bool
  cc_done :: bool
  cc_bound :: bool \<comment> \<open>\<open>events\<close> is not null\<close>
  cc_backlog :: "circuit_item list"
  cc_lastActivity :: int
  cc_log :: "circuit_act list"

record circuit_world =
  cw_now :: int
  cw_send :: "circuit_act list \<Rightarrow> bytes \<Rightarrow> bool"
  cw_congested :: "circuit_act list \<Rightarrow> bool"

definition RECORD_HEADER :: record_header where
  "RECORD_HEADER = \<lparr>rh_type = FrameType STREAM_DATA, rh_flags = js_int 0, rh_streamId = js_int (int E2E_STREAM_ID)\<rparr>"

definition GRANT_THRESHOLD :: int where
  "GRANT_THRESHOLD = STREAM_WINDOW_INITIAL div 4"

definition SecureCircuit :: "circuit_world \<Rightarrow> nat \<Rightarrow> session_cipher \<Rightarrow> circuit_role \<Rightarrow> secure_circuit result" where
  "SecureCircuit w circuitId session role = rbind (FlowWindow (js_int STREAM_WINDOW_INITIAL)) (\<lambda>sendWindow.
     Inr \<lparr>cc_id = circuitId, cc_role = role, cc_session = session, cc_sendWindow = sendWindow, cc_receivedUngranted = 0,
          cc_consumedUngranted = 0, cc_started = False, cc_sentOpened = False, cc_sentFin = False, cc_peerFin = False,
          cc_sentClose = False, cc_peerClose = False, cc_done = False, cc_bound = False, cc_backlog = [],
          cc_lastActivity = cw_now w, cc_log = []\<rparr>)"

section \<open>Effects\<close>

text \<open>A statement that may throw, and what follows it.\<close>

definition and_then :: "('s \<Rightarrow> 'a result \<times> 's) \<Rightarrow> ('a \<Rightarrow> 's \<Rightarrow> 'b result \<times> 's) \<Rightarrow> 's \<Rightarrow> 'b result \<times> 's" where
  "and_then m f s = (case m s of (Inl e, s') \<Rightarrow> (Inl e, s') | (Inr x, s') \<Rightarrow> f x s')"

definition did :: "circuit_act \<Rightarrow> secure_circuit \<Rightarrow> secure_circuit" where
  "did x s = s\<lparr>cc_log := cc_log s @ [x]\<rparr>"

definition tell :: "circuit_item \<Rightarrow> secure_circuit \<Rightarrow> secure_circuit" where
  "tell x s = (if cc_bound s then did (Act_event x) s else s\<lparr>cc_backlog := cc_backlog s @ [x]\<rparr>)"

definition tell_writable :: "secure_circuit \<Rightarrow> secure_circuit" where
  "tell_writable s = (if cc_bound s then did Act_writable s else s)"

definition stream_frame :: "nat \<Rightarrow> bytes \<Rightarrow> bytes result" where
  "stream_frame circuitId payload = encodeFrame \<lparr>eo_type = FrameType STREAM_DATA, eo_circuitId = Some (int circuitId),
     eo_streamId = Some (js_int (int E2E_STREAM_ID)), eo_flags = None, eo_payload = Some payload\<rparr>"

definition destroy_frame :: "nat \<Rightarrow> bytes result" where
  "destroy_frame circuitId = rbind (encodeDestroy (js_int (int DESTROY_NORMAL))) (\<lambda>payload.
     encodeFrame \<lparr>eo_type = FrameType CIRCUIT_DESTROY, eo_circuitId = Some (int circuitId), eo_streamId = None, eo_flags = None,
       eo_payload = Some payload\<rparr>)"

text \<open>A circuit's identifier has 64 bits, so the encoder of the destroy frame never throws.\<close>

lemma destroy_frame_ok: "int i \<le> MAX_UINT64 \<Longrightarrow> \<exists>f. destroy_frame i = Inr f"
  by (simp add: destroy_frame_def encodeDestroy_def DESTROY_NORMAL_def encodeFrame_def isFrameType_def FRAME_TYPE_VALUES_def
      unknown_flag_bits_def wire_limits)

definition circuit_finish :: "nat option \<Rightarrow> bool \<Rightarrow> bool \<Rightarrow> secure_circuit \<Rightarrow> secure_circuit" where
  "circuit_finish error notifyRelay force s =
     (if cc_done s then s
      else let s = s\<lparr>cc_done := True\<rparr>;
               s = (if notifyRelay \<and> (cc_role s = Client_end \<or> force)
                    then (case destroy_frame (cc_id s) of Inl _ \<Rightarrow> s | Inr f \<Rightarrow> did (Act_send f) s) else s)
           in did (Act_onDone error) (tell (Item_close error) s))"

definition circuit_fail :: "nat \<Rightarrow> secure_circuit \<Rightarrow> secure_circuit" where
  "circuit_fail code = circuit_finish (Some code) True True"

definition circuit_violation :: "secure_circuit \<Rightarrow> secure_circuit" where
  "circuit_violation = circuit_fail (ErrorCode PROTOCOL_VIOLATION)"

section \<open>Sending\<close>

definition sendRecord :: "circuit_world \<Rightarrow> bytes \<Rightarrow> secure_circuit \<Rightarrow> bool result \<times> secure_circuit" where
  "sendRecord w rec s =
     (let s = s\<lparr>cc_lastActivity := cw_now w\<rparr> in
      case stream_frame (cc_id s) rec of
        Inl e \<Rightarrow> (Inl e, s)
      | Inr f \<Rightarrow>
          if cw_send w (cc_log s) f then (Inr True, did (Act_send f) s)
          else (Inr False, circuit_finish (Some (ErrorCode TRUNCATED)) False False (did (Act_send f) s)))"

text \<open>A call of \<^verbatim>\<open>seal\<close>, \<^verbatim>\<open>close\<close> or \<^verbatim>\<open>updateKey\<close> on the session.\<close>

definition session_send :: "crypto \<Rightarrow> send_op \<Rightarrow> secure_circuit \<Rightarrow> bytes result \<times> secure_circuit" where
  "session_send c x s = (case do_send c x RECORD_HEADER (cc_session s) of
     (Inl e, t) \<Rightarrow> (Inl e, s\<lparr>cc_session := t\<rparr>)
   | (Inr r, t) \<Rightarrow> (Inr r, did (Act_seal x) (s\<lparr>cc_session := t\<rparr>)))"

definition seal_message :: "crypto \<Rightarrow> stream_message \<Rightarrow> secure_circuit \<Rightarrow> bytes result \<times> secure_circuit" where
  "seal_message c message s = (case encodeStreamMessage message of
     Inl e \<Rightarrow> (Inl e, s) | Inr p \<Rightarrow> session_send c (Send_data p) s)"

definition send_key_update :: "crypto \<Rightarrow> circuit_world \<Rightarrow> secure_circuit \<Rightarrow> bool result \<times> secure_circuit" where
  "send_key_update c w = and_then (session_send c Send_key_update) (sendRecord w)"

definition seal_and_send :: "crypto \<Rightarrow> circuit_world \<Rightarrow> stream_message \<Rightarrow> secure_circuit \<Rightarrow> bool result \<times> secure_circuit" where
  "seal_and_send c w message =
     and_then (\<lambda>s. if needsKeyUpdate (cc_session s) then send_key_update c w s else (Inr True, s)) (\<lambda>_ s.
       case seal_message c message s of
         (Inr r, s) \<Rightarrow> sendRecord w r s
       | (Inl e, s) \<Rightarrow>
           if e \<noteq> RekeyRequiredError then (Inl e, s)
           else and_then (send_key_update c w) (\<lambda>_. and_then (seal_message c message) (sendRecord w)) s)"

fun session_code :: "exn \<Rightarrow> nat" where
  "session_code (SessionError code) = code"
| "session_code _ = ErrorCode PROTOCOL_VIOLATION"

definition sendMessage :: "crypto \<Rightarrow> circuit_world \<Rightarrow> stream_message \<Rightarrow> secure_circuit \<Rightarrow> bool \<times> secure_circuit" where
  "sendMessage c w message s =
     (if cc_done s \<or> cc_sentClose s then (False, s)
      else case seal_and_send c w message s of
        (Inr ok, s) \<Rightarrow> (ok, s)
      | (Inl e, s) \<Rightarrow> (False, circuit_fail (session_code e) s))"

definition sendSessionClose :: "crypto \<Rightarrow> circuit_world \<Rightarrow> secure_circuit \<Rightarrow> secure_circuit" where
  "sendSessionClose c w s =
     (if cc_sentClose s \<or> cc_done s then s
      else (snd (and_then (session_send c Send_close) (sendRecord w) s))\<lparr>cc_sentClose := True\<rparr>)"

definition maybeComplete :: "secure_circuit \<Rightarrow> secure_circuit" where
  "maybeComplete s = (if cc_sentClose s \<and> cc_peerClose s then circuit_finish None True False s else s)"

definition maybeClose :: "crypto \<Rightarrow> circuit_world \<Rightarrow> secure_circuit \<Rightarrow> secure_circuit" where
  "maybeClose c w s =
     (if cc_sentFin s \<and> cc_peerFin s \<and> \<not> cc_sentClose s then maybeComplete (sendSessionClose c w s) else s)"

section \<open>Calls of the owner\<close>

primrec replay :: "circuit_item list \<Rightarrow> secure_circuit \<Rightarrow> secure_circuit" where
  "replay [] s = s"
| "replay (x # xs) s = replay xs (did (Act_event x) s)"

definition circuit_bind :: "secure_circuit \<Rightarrow> secure_circuit" where
  "circuit_bind s =
     (let s = replay (cc_backlog s) (s\<lparr>cc_bound := True, cc_backlog := []\<rparr>) in
      if \<not> cc_done s then did Act_writable s else s)"

definition poke :: "secure_circuit \<Rightarrow> secure_circuit" where
  "poke s = (if \<not> cc_done s then tell_writable s else s)"

definition writable :: "circuit_world \<Rightarrow> secure_circuit \<Rightarrow> int" where
  "writable w s =
     (if cc_done s \<or> cc_sentFin s \<or> cw_congested w (cc_log s) then 0
      else if cc_role s = Service_end \<and> \<not> cc_sentOpened s then 0
      else min (remaining (cc_sendWindow s)) (int MAX_STREAM_DATA))"

definition circuit_open :: "crypto \<Rightarrow> circuit_world \<Rightarrow> js_number \<Rightarrow> secure_circuit \<Rightarrow> unit result \<times> secure_circuit" where
  "circuit_open c w port s =
     (if cc_role s \<noteq> Client_end then (Inl PlainError, s)
      else (Inr (), snd (sendMessage c w (Msg_open port) s)))"

definition circuit_accept :: "crypto \<Rightarrow> circuit_world \<Rightarrow> secure_circuit \<Rightarrow> secure_circuit" where
  "circuit_accept c w s =
     (if cc_role s \<noteq> Service_end \<or> cc_sentOpened s then s
      else tell_writable (snd (sendMessage c w Msg_opened (s\<lparr>cc_sentOpened := True\<rparr>))))"

lemma fw_consume_Inr: "fw_consume v (js_int n) = Inr (b, v') \<Longrightarrow> 0 \<le> n"
  by (auto simp: fw_consume_def valid_credit_def guard_def rbind_def split: if_splits)

function write_from :: "crypto \<Rightarrow> circuit_world \<Rightarrow> bytes \<Rightarrow> nat \<Rightarrow> secure_circuit \<Rightarrow> nat result \<times> secure_circuit" where
  "write_from c w data offset s =
     (if length data \<le> offset then (Inr offset, s)
      else let room = writable w s in
        if room = 0 then (Inr offset, s)
        else let n = min room (int (length data - offset)) in
          case fw_consume (cc_sendWindow s) (js_int n) of
            Inl e \<Rightarrow> (Inl e, s)
          | Inr (False, v) \<Rightarrow> (Inr offset, s\<lparr>cc_sendWindow := v\<rparr>)
          | Inr (True, v) \<Rightarrow>
              (case sendMessage c w (Msg_data (take (nat n) (drop offset data))) (s\<lparr>cc_sendWindow := v\<rparr>) of
                 (False, s) \<Rightarrow> (Inr offset, s)
               | (True, s) \<Rightarrow> write_from c w data (offset + nat n) s))"
  by pat_completeness auto
termination
  by (relation "measure (\<lambda>(c, w, data, offset, s). length data - offset)")
    (auto dest!: fw_consume_Inr)

declare write_from.simps [simp del]

definition circuit_write :: "crypto \<Rightarrow> circuit_world \<Rightarrow> bytes \<Rightarrow> secure_circuit \<Rightarrow> nat result \<times> secure_circuit" where
  "circuit_write c w data = write_from c w data 0"

definition consumed :: "crypto \<Rightarrow> circuit_world \<Rightarrow> nat \<Rightarrow> secure_circuit \<Rightarrow> secure_circuit" where
  "consumed c w n s =
     (if cc_done s \<or> cc_peerFin s \<or> cc_sentClose s then s
      else let s = s\<lparr>cc_consumedUngranted := cc_consumedUngranted s + int n\<rparr> in
        if cc_consumedUngranted s \<ge> GRANT_THRESHOLD then
          (let credit = min (cc_consumedUngranted s) (cc_receivedUngranted s);
               s = s\<lparr>cc_consumedUngranted := 0\<rparr> in
           if credit \<le> 0 then s
           else snd (sendMessage c w (Msg_window (js_int credit))
                  (s\<lparr>cc_receivedUngranted := cc_receivedUngranted s - credit\<rparr>)))
        else s)"

definition circuit_end :: "crypto \<Rightarrow> circuit_world \<Rightarrow> secure_circuit \<Rightarrow> secure_circuit" where
  "circuit_end c w s =
     (if cc_done s \<or> cc_sentFin s then s
      else maybeClose c w (snd (sendMessage c w Msg_fin (s\<lparr>cc_sentFin := True\<rparr>))))"

definition circuit_reset :: "crypto \<Rightarrow> circuit_world \<Rightarrow> js_number \<Rightarrow> secure_circuit \<Rightarrow> secure_circuit" where
  "circuit_reset c w code s =
     (if cc_done s then s
      else circuit_finish None True True (sendSessionClose c w (snd (sendMessage c w (Msg_reset code) s))))"

definition abort :: "secure_circuit \<Rightarrow> secure_circuit" where
  "abort s = (if cc_done s then s else circuit_finish (Some (ErrorCode TRUNCATED)) True False s)"

section \<open>Frames from the relay\<close>

definition remoteDestroyed :: "secure_circuit \<Rightarrow> secure_circuit" where
  "remoteDestroyed s =
     (if cc_done s then s
      else if cc_peerFin s then circuit_finish None False False s
      else circuit_finish (Some (ErrorCode TRUNCATED)) False False s)"

definition handleMessage :: "crypto \<Rightarrow> circuit_world \<Rightarrow> stream_message \<Rightarrow> secure_circuit \<Rightarrow> unit result \<times> secure_circuit" where
  "handleMessage c w message s0 =
     (let first = \<not> cc_started s0; s = s0\<lparr>cc_started := True\<rparr> in
      case message of
        Msg_open port \<Rightarrow>
          (Inr (), if cc_role s \<noteq> Service_end \<or> \<not> first then circuit_violation s else did (Act_onOpen port) s)
      | Msg_opened \<Rightarrow>
          (Inr (), if cc_role s \<noteq> Client_end \<or> \<not> first then circuit_violation s else tell_writable (did Act_onOpened s))
      | Msg_reset code \<Rightarrow> (Inr (), circuit_finish (Some (nat (int_of code))) True False s)
      | Msg_window credit \<Rightarrow>
          if first \<and> cc_role s = Service_end then (Inr (), circuit_violation s)
          else (case fw_grant (cc_sendWindow s) credit of
              Inl e \<Rightarrow> (Inl e, s)
            | Inr v \<Rightarrow> (Inr (), tell_writable (s\<lparr>cc_sendWindow := v\<rparr>)))
      | Msg_data d \<Rightarrow>
          (Inr (), if first \<or> cc_peerFin s then circuit_violation s
                   else if cc_receivedUngranted s + int (length d) > STREAM_WINDOW_INITIAL
                     then circuit_fail (ErrorCode FLOW_CONTROL) s
                   else tell (Item_data d) (s\<lparr>cc_receivedUngranted := cc_receivedUngranted s + int (length d)\<rparr>))
      | Msg_fin \<Rightarrow>
          (Inr (), if first \<or> cc_peerFin s then circuit_violation s
                   else maybeClose c w (tell Item_end (s\<lparr>cc_peerFin := True\<rparr>))))"

definition frame_header :: "frame \<Rightarrow> record_header" where
  "frame_header f = \<lparr>rh_type = f_type f, rh_flags = js_int (int (f_flags f)), rh_streamId = js_int (int (f_streamId f))\<rparr>"

fun decode_code :: "exn \<Rightarrow> nat" where
  "decode_code (FrameDecodeError code) = code"
| "decode_code _ = ErrorCode PROTOCOL_VIOLATION"

definition circuit_receive :: "crypto \<Rightarrow> circuit_world \<Rightarrow> frame \<Rightarrow> secure_circuit \<Rightarrow> unit result \<times> secure_circuit" where
  "circuit_receive c w f s0 =
     (if cc_done s0 then (Inr (), s0)
      else let s = s0\<lparr>cc_lastActivity := cw_now w\<rparr> in
        if f_type f = FrameType CIRCUIT_DESTROY then (Inr (), remoteDestroyed s)
        else if f_type f \<noteq> FrameType STREAM_DATA \<or> f_streamId f \<noteq> E2E_STREAM_ID \<or> f_flags f \<noteq> 0
          then (Inr (), circuit_fail (ErrorCode PROTOCOL_VIOLATION) s)
        else case open_record c (f_payload f) (frame_header f) (cc_session s) of
          (Inl e, t) \<Rightarrow> (Inr (), circuit_fail (session_code e) (s\<lparr>cc_session := t\<rparr>))
        | (Inr opened, t) \<Rightarrow>
            let s = did (Act_open opened) (s\<lparr>cc_session := t\<rparr>) in
            (case opened of
               Opened_key_update \<Rightarrow> (Inr (), s)
             | Opened_close \<Rightarrow>
                 let s = s\<lparr>cc_peerClose := True\<rparr> in
                 (Inr (), if \<not> cc_peerFin s then circuit_fail (ErrorCode TRUNCATED) s else maybeComplete s)
             | Opened_data plaintext \<Rightarrow>
                 (case decodeStreamMessage plaintext of
                    Inl e \<Rightarrow> (Inr (), circuit_fail (decode_code e) s)
                  | Inr message \<Rightarrow> handleMessage c w message s)))"

section \<open>Runs\<close>

datatype circuit_event =
    Ev_bind | Ev_poke | Ev_open js_number | Ev_accept | Ev_write bytes | Ev_consumed nat | Ev_end | Ev_reset js_number
  | Ev_abort | Ev_receive frame | Ev_destroyed

fun circuit_step :: "crypto \<Rightarrow> circuit_world \<times> circuit_event \<Rightarrow> secure_circuit \<Rightarrow> secure_circuit" where
  "circuit_step c (w, Ev_bind) s = circuit_bind s"
| "circuit_step c (w, Ev_poke) s = poke s"
| "circuit_step c (w, Ev_open port) s = snd (circuit_open c w port s)"
| "circuit_step c (w, Ev_accept) s = circuit_accept c w s"
| "circuit_step c (w, Ev_write data) s = snd (circuit_write c w data s)"
| "circuit_step c (w, Ev_consumed n) s = consumed c w n s"
| "circuit_step c (w, Ev_end) s = circuit_end c w s"
| "circuit_step c (w, Ev_reset code) s = circuit_reset c w code s"
| "circuit_step c (w, Ev_abort) s = abort s"
| "circuit_step c (w, Ev_receive f) s = snd (circuit_receive c w f s)"
| "circuit_step c (w, Ev_destroyed) s = remoteDestroyed s"

abbreviation circuit_run :: "crypto \<Rightarrow> (circuit_world \<times> circuit_event) list \<Rightarrow> secure_circuit \<Rightarrow> secure_circuit" where
  "circuit_run c \<equiv> fold (circuit_step c)"

end
