(* ===== verification/Circuit_Safety.thy ===== *)
theory Circuit_Safety
  imports Secure_Circuit
begin

text \<open>
  What every operation of a circuit does to what matters: the records its session made and accepted, the
  items its owner was told, and its counters. The relation \<open>moved\<close> describes an operation that receives nothing; it
  composes, so each operation is a chain of such steps. The invariants at the end say, for every
  run, how the items told derive from the messages opened, and how credit and data add up.
\<close>

section \<open>The log\<close>

definition sealed :: "secure_circuit \<Rightarrow> send_op list" where
  "sealed s = concat (map (\<lambda>a. case a of Act_seal x \<Rightarrow> [x] | _ \<Rightarrow> []) (cc_log s))"

definition records_opened :: "secure_circuit \<Rightarrow> opened_record list" where
  "records_opened s = concat (map (\<lambda>a. case a of Act_open x \<Rightarrow> [x] | _ \<Rightarrow> []) (cc_log s))"

text \<open>What the owner is told, in order, whether or not it has bound its callbacks yet.\<close>

definition notices :: "secure_circuit \<Rightarrow> circuit_item list" where
  "notices s = concat (map (\<lambda>a. case a of Act_event x \<Rightarrow> [x] | _ \<Rightarrow> []) (cc_log s)) @ cc_backlog s"

text \<open>The frames handed to the link.\<close>

definition frames_sent :: "secure_circuit \<Rightarrow> bytes list" where
  "frames_sent s = concat (map (\<lambda>a. case a of Act_send f \<Rightarrow> [f] | _ \<Rightarrow> []) (cc_log s))"

fun messages :: "opened_record list \<Rightarrow> stream_message list" where
  "messages [] = []"
| "messages (Opened_data p # xs) = (case decodeStreamMessage p of Inl _ \<Rightarrow> messages xs | Inr m \<Rightarrow> m # messages xs)"
| "messages (_ # xs) = messages xs"

text \<open>The stream messages a circuit has sealed, and those it has opened.\<close>

definition said :: "secure_circuit \<Rightarrow> stream_message list" where
  "said s = messages (map seen_as (sealed s))"

definition took :: "secure_circuit \<Rightarrow> stream_message list" where
  "took s = messages (records_opened s)"

fun items :: "stream_message list \<Rightarrow> circuit_item list" where
  "items [] = []"
| "items (Msg_data d # ms) = Item_data d # items ms"
| "items (Msg_fin # ms) = Item_end # items ms"
| "items (_ # ms) = items ms"

fun bytes_of :: "circuit_item list \<Rightarrow> bytes" where
  "bytes_of [] = []"
| "bytes_of (Item_data d # xs) = d @ bytes_of xs"
| "bytes_of (_ # xs) = bytes_of xs"

fun credits :: "stream_message list \<Rightarrow> int" where
  "credits [] = 0"
| "credits (Msg_window n # ms) = int_of n + credits ms"
| "credits (_ # ms) = credits ms"

lemma messages_append [simp]: "messages (xs @ ys) = messages xs @ messages ys"
  by (induction xs rule: messages.induct) (auto split: sum.splits)

lemma items_append [simp]: "items (xs @ ys) = items xs @ items ys"
  by (induction xs rule: items.induct) auto

lemma bytes_of_append [simp]: "bytes_of (xs @ ys) = bytes_of xs @ bytes_of ys"
  by (induction xs rule: bytes_of.induct) auto

lemma credits_append [simp]: "credits (xs @ ys) = credits xs + credits ys"
  by (induction xs rule: credits.induct) auto

lemma bytes_of_data [simp]: "bytes_of (map Item_data ds) = concat ds"
  by (induction ds) auto

lemma log_did [simp]:
  "sealed (did a s) = sealed s @ (case a of Act_seal x \<Rightarrow> [x] | _ \<Rightarrow> [])"
  "records_opened (did a s) = records_opened s @ (case a of Act_open x \<Rightarrow> [x] | _ \<Rightarrow> [])"
  "frames_sent (did a s) = frames_sent s @ (case a of Act_send x \<Rightarrow> [x] | _ \<Rightarrow> [])"
  by (simp_all add: sealed_def records_opened_def frames_sent_def did_def)

lemma log_updates [simp]:
  "sealed (s\<lparr>cc_session := t\<rparr>) = sealed s" "records_opened (s\<lparr>cc_session := t\<rparr>) = records_opened s" "notices (s\<lparr>cc_session := t\<rparr>) = notices s"
  "sealed (s\<lparr>cc_sendWindow := v\<rparr>) = sealed s" "records_opened (s\<lparr>cc_sendWindow := v\<rparr>) = records_opened s" "notices (s\<lparr>cc_sendWindow := v\<rparr>) = notices s"
  "sealed (s\<lparr>cc_receivedUngranted := n\<rparr>) = sealed s" "records_opened (s\<lparr>cc_receivedUngranted := n\<rparr>) = records_opened s"
  "notices (s\<lparr>cc_receivedUngranted := n\<rparr>) = notices s" "sealed (s\<lparr>cc_consumedUngranted := n\<rparr>) = sealed s"
  "records_opened (s\<lparr>cc_consumedUngranted := n\<rparr>) = records_opened s" "notices (s\<lparr>cc_consumedUngranted := n\<rparr>) = notices s"
  "sealed (s\<lparr>cc_started := b\<rparr>) = sealed s" "records_opened (s\<lparr>cc_started := b\<rparr>) = records_opened s" "notices (s\<lparr>cc_started := b\<rparr>) = notices s"
  "sealed (s\<lparr>cc_sentOpened := b\<rparr>) = sealed s" "records_opened (s\<lparr>cc_sentOpened := b\<rparr>) = records_opened s" "notices (s\<lparr>cc_sentOpened := b\<rparr>) = notices s"
  "sealed (s\<lparr>cc_sentFin := b\<rparr>) = sealed s" "records_opened (s\<lparr>cc_sentFin := b\<rparr>) = records_opened s" "notices (s\<lparr>cc_sentFin := b\<rparr>) = notices s"
  "sealed (s\<lparr>cc_peerFin := b\<rparr>) = sealed s" "records_opened (s\<lparr>cc_peerFin := b\<rparr>) = records_opened s" "notices (s\<lparr>cc_peerFin := b\<rparr>) = notices s"
  "sealed (s\<lparr>cc_sentClose := b\<rparr>) = sealed s" "records_opened (s\<lparr>cc_sentClose := b\<rparr>) = records_opened s" "notices (s\<lparr>cc_sentClose := b\<rparr>) = notices s"
  "sealed (s\<lparr>cc_peerClose := b\<rparr>) = sealed s" "records_opened (s\<lparr>cc_peerClose := b\<rparr>) = records_opened s" "notices (s\<lparr>cc_peerClose := b\<rparr>) = notices s"
  "sealed (s\<lparr>cc_done := b\<rparr>) = sealed s" "records_opened (s\<lparr>cc_done := b\<rparr>) = records_opened s" "notices (s\<lparr>cc_done := b\<rparr>) = notices s"
  "sealed (s\<lparr>cc_lastActivity := n\<rparr>) = sealed s" "records_opened (s\<lparr>cc_lastActivity := n\<rparr>) = records_opened s" "notices (s\<lparr>cc_lastActivity := n\<rparr>) = notices s"
  "sealed (s\<lparr>cc_backlog := xs\<rparr>) = sealed s" "records_opened (s\<lparr>cc_backlog := xs\<rparr>) = records_opened s"
  "sealed (s\<lparr>cc_bound := b\<rparr>) = sealed s" "records_opened (s\<lparr>cc_bound := b\<rparr>) = records_opened s" "notices (s\<lparr>cc_bound := b\<rparr>) = notices s"
  by (simp_all add: sealed_def records_opened_def notices_def)

text \<open>The fields no log entry touches.\<close>

lemma did_fields [simp]:
  "cc_id (did a s) = cc_id s" "cc_role (did a s) = cc_role s" "cc_session (did a s) = cc_session s"
  "cc_sendWindow (did a s) = cc_sendWindow s" "cc_receivedUngranted (did a s) = cc_receivedUngranted s"
  "cc_consumedUngranted (did a s) = cc_consumedUngranted s" "cc_started (did a s) = cc_started s"
  "cc_sentOpened (did a s) = cc_sentOpened s" "cc_sentFin (did a s) = cc_sentFin s" "cc_peerFin (did a s) = cc_peerFin s"
  "cc_sentClose (did a s) = cc_sentClose s" "cc_peerClose (did a s) = cc_peerClose s" "cc_done (did a s) = cc_done s"
  "cc_bound (did a s) = cc_bound s" "cc_backlog (did a s) = cc_backlog s" "cc_lastActivity (did a s) = cc_lastActivity s"
  by (simp_all add: did_def)

definition tidy :: "secure_circuit \<Rightarrow> bool" where
  "tidy s \<longleftrightarrow> (cc_bound s \<longrightarrow> cc_backlog s = [])"

lemma notices_did [simp]: "case a of Act_event _ \<Rightarrow> False | _ \<Rightarrow> True \<Longrightarrow> notices (did a s) = notices s"
  by (cases a) (simp_all add: notices_def did_def)

lemma notices_tell: "tidy s \<Longrightarrow> notices (tell x s) = notices s @ [x]"
  by (simp add: tell_def tidy_def notices_def did_def)

section \<open>The session\<close>

definition same_send :: "session_cipher \<Rightarrow> session_cipher \<Rightarrow> bool" where
  "same_send t u \<longleftrightarrow> sc_sendKey t = sc_sendKey u \<and> sc_sendCounter t = sc_sendCounter u \<and> sc_sentClose t = sc_sentClose u \<and>
     sc_limits t = sc_limits u \<and> sc_failed t = None \<and> sc_failed u = None"

definition receiving_part :: "session_cipher \<Rightarrow> bytes \<times> nat \<times> bool \<times> exn option \<times> resolved_limits" where
  "receiving_part t = (sc_receiveKey t, sc_receiveCounter t, sc_receivedClose t, sc_failed t, sc_limits t)"

text \<open>The session after a sequence of sends, each of which succeeds.\<close>

primrec after_sends :: "crypto \<Rightarrow> send_op list \<Rightarrow> session_cipher \<Rightarrow> session_cipher option" where
  "after_sends c [] t = Some t"
| "after_sends c (x # xs) t = (case do_send c x RECORD_HEADER t of (Inl _, _) \<Rightarrow> None | (Inr _, t') \<Rightarrow> after_sends c xs t')"

lemma after_sends_append:
  "after_sends c (xs @ ys) t = (case after_sends c xs t of None \<Rightarrow> None | Some t' \<Rightarrow> after_sends c ys t')"
  by (induction xs arbitrary: t) (auto split: sum.splits prod.splits)

lemma after_sends_history:
  "after_sends c xs t = Some t' \<Longrightarrow> map sent_op (send_all c e (map (\<lambda>x. (x, RECORD_HEADER)) xs) t) = xs"
proof (induction xs arbitrary: t e)
  case (Cons x xs)
  then show ?case by (auto split: sum.splits prod.splits)
qed simp

lemma do_send_receiving: "do_send c x h t = (r, t') \<Longrightarrow> receiving_part t' = receiving_part t"
proof (cases r)
  case (Inl e)
  moreover assume "do_send c x h t = (r, t')"
  ultimately show ?thesis by (auto dest: do_send_Inl)
next
  case (Inr b)
  moreover assume "do_send c x h t = (r, t')"
  ultimately have "do_send c x h t = (Inr b, t')" by simp
  then show ?thesis by (rule do_send_Inr) (cases x, auto simp: receiving_part_def)
qed

lemma do_send_same:
  assumes "same_send t u" and "do_send c x h u = (Inr r, u')"
  shows "\<exists>t'. do_send c x h t = (Inr r, t') \<and> same_send t' u'"
  using assms
  by (cases x) (auto simp: same_send_def seal_def close_def updateKey_def sealRecord_def assertCanSend_def Let_def
      split: if_splits sum.splits prod.splits option.splits)

lemma do_send_failed: "do_send c x h t = (Inr r, t') \<Longrightarrow> sc_failed t = None"
  by (elim do_send_Inr)

text \<open>Opening depends only on the receiving part, and leaves the sending part alone unless it ends the session.\<close>

lemma openRecord_receiving:
  assumes "receiving_part t = receiving_part u"
  shows "fst (openRecord c rec ad t) = fst (openRecord c rec ad u) \<and>
    receiving_part (snd (openRecord c rec ad t)) = receiving_part (snd (openRecord c rec ad u))"
proof -
  have eq: "sc_receiveKey t = sc_receiveKey u" "sc_receiveCounter t = sc_receiveCounter u"
    "sc_receivedClose t = sc_receivedClose u" "sc_failed t = sc_failed u" "sc_limits t = sc_limits u"
    using assms by (simp_all add: receiving_part_def)
  show ?thesis
    unfolding openRecord_def Let_def receiving_part_def eq by (simp add: eq split: option.split list.split)
qed

lemma open_record_receiving:
  assumes "receiving_part t = receiving_part u"
  shows "fst (open_record c rec h t) = fst (open_record c rec h u) \<and>
    receiving_part (snd (open_record c rec h t)) = receiving_part (snd (open_record c rec h u))"
proof (cases "header_ad h")
  case (Inr ad)
  have eq: "sc_failed t = sc_failed u" using assms by (simp add: receiving_part_def)
  obtain r t' q u' where o: "openRecord c rec ad t = (r, t')" "openRecord c rec ad u = (q, u')" by fastforce
  with openRecord_receiving [OF assms, of c rec ad] have rq: "q = r" "receiving_part t' = receiving_part u'" by auto
  then have p: "receiving_part (poison e t') = receiving_part (poison e u')" for e
    by (auto simp: receiving_part_def poison_def split: option.split)
  with eq assms Inr o rq show ?thesis by (auto simp: open_record_def split: option.split sum.split)
qed (use assms in \<open>auto simp: open_record_def receiving_part_def split: option.split\<close>)

lemma openRecord_sending: "openRecord c rec ad t = (r, t') \<Longrightarrow> sc_sendKey t' = sc_sendKey t \<and>
    sc_sendCounter t' = sc_sendCounter t \<and> sc_sentClose t' = sc_sentClose t \<and> sc_limits t' = sc_limits t"
  unfolding openRecord_def Let_def by (auto split: if_splits option.splits list.splits)

lemma open_record_sending:
  assumes "open_record c rec h t = (r, t')" and "sc_failed t' = None"
  shows "same_send t t'"
proof (cases r)
  case (Inl e)
  with assms have "t' = t" by (metis open_record_Inl option.distinct(1))
  with assms(2) show ?thesis by (simp add: same_send_def)
next
  case (Inr x)
  with assms obtain ad where f: "sc_failed t = None" "openRecord c rec ad t = (Inr x, t')" by (auto simp: open_record_Inr)
  from openRecord_sending [OF f(2)] f(1) assms(2) show ?thesis by (simp add: same_send_def)
qed

text \<open>The records a circuit has sealed are what its first session, asked for them one after another, would seal.\<close>

definition follows_session :: "crypto \<Rightarrow> session_cipher \<Rightarrow> secure_circuit \<Rightarrow> bool" where
  "follows_session c t0 s \<longleftrightarrow> (\<exists>t. after_sends c (sealed s) t0 = Some t \<and> (sc_failed (cc_session s) = None \<longrightarrow> same_send t (cc_session s)))"


section \<open>Operations that receive nothing\<close>

definition core :: "secure_circuit \<Rightarrow> (nat \<times> circuit_role \<times> flow_window \<times> int \<times> int) \<times> bool \<times> bool \<times> bool \<times> bool \<times> bool \<times> bool" where
  "core s = ((cc_id s, cc_role s, cc_sendWindow s, cc_receivedUngranted s, cc_consumedUngranted s),
     cc_started s, cc_sentOpened s, cc_sentFin s, cc_peerFin s, cc_peerClose s, cc_bound s)"

text \<open>Either the circuit goes on and the owner hears nothing, or it ends now, with one of the errors \<open>es\<close>.\<close>

definition ended :: "nat option set \<Rightarrow> secure_circuit \<Rightarrow> secure_circuit \<Rightarrow> bool" where
  "ended es s s' \<longleftrightarrow> cc_done s' = cc_done s \<and> notices s' = notices s \<or>
     \<not> cc_done s \<and> cc_done s' \<and> (\<exists>e \<in> es. notices s' = notices s @ [Item_close e])"

definition moved :: "crypto \<Rightarrow> nat option set \<Rightarrow> stream_message list \<Rightarrow> secure_circuit \<Rightarrow> secure_circuit \<Rightarrow> bool" where
  "moved c es ms s s' \<longleftrightarrow> (tidy s \<longrightarrow> tidy s' \<and> core s' = core s \<and> said s' = said s @ ms \<and> records_opened s' = records_opened s \<and>
     receiving_part (cc_session s') = receiving_part (cc_session s) \<and> (\<forall>t0. follows_session c t0 s \<longrightarrow> follows_session c t0 s') \<and> ended es s s')"

lemma movedI:
  assumes "core s' = core s" "cc_backlog s' = cc_backlog s" "notices s' = notices s" "sealed s' = sealed s" "records_opened s' = records_opened s"
    "cc_session s' = cc_session s" "cc_done s' = cc_done s"
  shows "moved c es [] s s'"
  using assms by (simp add: moved_def tidy_def core_def said_def follows_session_def ended_def)

lemma moved_refl [simp]: "moved c es [] s s"
  by (rule movedI) simp_all

lemma ended_trans: "ended es s s' \<Longrightarrow> ended es s' s'' \<Longrightarrow> ended es s s''"
  by (auto simp: ended_def)

lemma moved_trans [trans]: "moved c es xs s s' \<Longrightarrow> moved c es ys s' s'' \<Longrightarrow> moved c es (xs @ ys) s s''"
  unfolding moved_def using ended_trans [of es s s' s''] by simp

lemma moved_trans_Nil: "moved c es [] s s' \<Longrightarrow> moved c es ys s' s'' \<Longrightarrow> moved c es ys s s''"
  "moved c es ys s s' \<Longrightarrow> moved c es [] s' s'' \<Longrightarrow> moved c es ys s s''"
  using moved_trans [of c es "[]" s s' ys s''] moved_trans [of c es ys s s' "[]" s''] by simp_all

lemma moved_mono: "moved c es ms s s' \<Longrightarrow> es \<subseteq> fs \<Longrightarrow> moved c fs ms s s'"
  unfolding moved_def ended_def by (meson subsetD)

text \<open>Errors of the sending side are never a clean end.\<close>

abbreviation faults :: "nat option set" where
  "faults \<equiv> range Some"

lemma notices_finish: "tidy s \<Longrightarrow> \<not> cc_done s \<Longrightarrow> notices (circuit_finish e n f s) = notices s @ [Item_close e]"
  by (simp add: circuit_finish_def Let_def notices_tell tidy_def split: sum.split)

lemma sealed_tell [simp]: "sealed (tell x s) = sealed s" "records_opened (tell x s) = records_opened s"
  by (simp_all add: tell_def)

lemma finish_rest [simp]:
  "sealed (circuit_finish e n f s) = sealed s" "records_opened (circuit_finish e n f s) = records_opened s"
  "cc_session (circuit_finish e n f s) = cc_session s" "core (circuit_finish e n f s) = core s" "cc_done (circuit_finish e n f s)"
  "tidy s \<Longrightarrow> tidy (circuit_finish e n f s)"
  by (simp_all add: circuit_finish_def tell_def Let_def core_def tidy_def split: sum.split)

lemma moved_finish: "e \<in> es \<Longrightarrow> moved c es [] s (circuit_finish e n f s)"
  by (cases "cc_done s") (auto simp: moved_def said_def follows_session_def ended_def notices_finish, auto simp: circuit_finish_def)

lemma moved_fail: "moved c faults [] s (circuit_fail k s)"
  unfolding circuit_fail_def by (rule moved_finish) simp

lemma moved_sendRecord: "sendRecord w r s = (q, s') \<Longrightarrow> moved c faults [] s s'"
proof -
  assume r: "sendRecord w r s = (q, s')"
  let ?s = "s\<lparr>cc_lastActivity := cw_now w\<rparr>"
  have step: "moved c faults [] s ?s" "moved c faults [] ?s (did (Act_send f) ?s)" for f
    by (rule movedI; simp add: core_def)+
  have "\<exists>s1. moved c faults [] s s1 \<and> (s' = s1 \<or> s' = circuit_finish (Some (ErrorCode TRUNCATED)) False False s1)"
    using r step moved_trans_Nil(1) [OF step]
    by (auto simp: sendRecord_def Let_def split: sum.splits if_splits)
  then show ?thesis using moved_finish [of "Some (ErrorCode TRUNCATED)" faults c] moved_trans_Nil(1) by fastforce
qed

lemma moved_session_send:
  "session_send c x s = (q, s') \<Longrightarrow> moved c es (case q of Inl _ \<Rightarrow> [] | Inr _ \<Rightarrow> messages [seen_as x]) s s'"
proof -
  assume s: "session_send c x s = (q, s')"
  obtain r t where d: "do_send c x RECORD_HEADER (cc_session s) = (r, t)" by fastforce
  note rp = do_send_receiving [OF d]
  show ?thesis
  proof (cases r)
    case (Inl e)
    then have "t = cc_session s" using d by (auto dest: do_send_Inl)
    with s d Inl show ?thesis by (auto simp: session_send_def)
  next
    case (Inr b)
    with s d have s': "s' = did (Act_seal x) (s\<lparr>cc_session := t\<rparr>)" "q = Inr b" by (auto simp: session_send_def)
    have "follows_session c t0 s'" if "follows_session c t0 s" for t0
    proof -
      have live: "sc_failed (cc_session s) = None" using d Inr by (auto dest: do_send_failed)
      with that obtain u where "after_sends c (sealed s) t0 = Some u" "same_send u (cc_session s)" by (auto simp: follows_session_def)
      with do_send_same [of u "cc_session s" c x RECORD_HEADER b t] d Inr show ?thesis
        unfolding s' by (auto simp: follows_session_def after_sends_append)
    qed
    with rp show ?thesis unfolding s' by (simp add: moved_def tidy_def core_def said_def ended_def)
  qed
qed

lemma moved_and_then:
  assumes "\<And>q t. m s = (q, t) \<Longrightarrow> moved c es [] s t" and "and_then m f s = (r, s')"
    and "\<And>x t. m s = (Inr x, t) \<Longrightarrow> f x t = (r, s') \<Longrightarrow> moved c es ms t s'" and "\<And>e. r = Inl e \<Longrightarrow> ms = []"
  shows "moved c es ms s s'"
  using assms moved_trans_Nil(1) by (fastforce simp: and_then_def split: prod.splits sum.splits)

lemma moved_key_update: "send_key_update c w s = (q, s') \<Longrightarrow> moved c faults [] s s'"
  unfolding send_key_update_def
  by (rule moved_and_then) (auto dest: moved_session_send moved_sendRecord split: sum.splits)

text \<open>A message is sealed once or not at all.\<close>

lemma moved_seal_message:
  "seal_message c m s = (q, s') \<Longrightarrow> moved c es (case q of Inl _ \<Rightarrow> [] | Inr _ \<Rightarrow> [m]) s s'"
proof -
  assume s: "seal_message c m s = (q, s')"
  show ?thesis
  proof (cases "encodeStreamMessage m")
    case (Inr p)
    then have "messages [seen_as (Send_data p)] = [m]" by (simp add: stream_decode_encode)
    moreover from s Inr have "session_send c (Send_data p) s = (q, s')" by (simp add: seal_message_def)
    ultimately show ?thesis using moved_session_send by metis
  next
    case (Inl e)
    with s have "q = Inl e" "s' = s" by (simp_all add: seal_message_def)
    then show ?thesis by simp
  qed
qed

lemma moved_seal_send:
  assumes "and_then (seal_message c m) (sendRecord w) s = (q, s')"
  shows "\<exists>ms. moved c faults ms s s' \<and> (ms = [] \<or> ms = [m]) \<and> (\<forall>b. q = Inr b \<longrightarrow> ms = [m])"
proof -
  obtain r t where m: "seal_message c m s = (r, t)" by fastforce
  show ?thesis
  proof (cases r)
    case (Inl e)
    with m assms moved_seal_message [OF m, of faults] show ?thesis by (auto simp: and_then_def)
  next
    case (Inr b)
    with m assms have "sendRecord w b t = (q, s')" by (simp add: and_then_def)
    from moved_trans_Nil(2) [OF _ moved_sendRecord [OF this]] moved_seal_message [OF m, of faults] Inr
    show ?thesis by auto
  qed
qed

lemma moved_seal_and_send:
  assumes "seal_and_send c w m s = (q, s')"
  shows "\<exists>ms. moved c faults ms s s' \<and> (ms = [] \<or> ms = [m]) \<and> (\<forall>b. q = Inr b \<longrightarrow> ms = [m])"
proof -
  let ?ku = "\<lambda>s. if needsKeyUpdate (cc_session s) then send_key_update c w s else (Inr True, s)"
  obtain r t where ku: "?ku s = (r, t)" by fastforce
  have st: "moved c faults [] s t" using ku moved_key_update by (auto split: if_splits)
  show ?thesis
  proof (cases r)
    case (Inl e)
    with ku assms st show ?thesis by (auto simp: seal_and_send_def and_then_def)
  next
    case (Inr b)
    obtain r2 u where u: "seal_message c m t = (r2, u)" by fastforce
    show ?thesis
    proof (cases r2)
      case (Inr rec)
      with u ku \<open>r = Inr b\<close> assms have "and_then (seal_message c m) (sendRecord w) t = (q, s')"
        by (simp add: seal_and_send_def and_then_def)
      with moved_seal_send moved_trans_Nil(1) [OF st] show ?thesis by blast
    next
      case (Inl e)
      have su: "moved c faults [] s u" using moved_trans_Nil(1) [OF st] moved_seal_message [OF u, of faults] Inl by auto
      from u ku Inl \<open>r = Inr b\<close> assms have rest: "(if e \<noteq> RekeyRequiredError then (Inl e, u)
          else and_then (send_key_update c w) (\<lambda>_. and_then (seal_message c m) (sendRecord w)) u) = (q, s')"
        by (simp add: seal_and_send_def and_then_def)
      obtain r3 v where v: "send_key_update c w u = (r3, v)" by fastforce
      have sv: "moved c faults [] s v" using moved_trans_Nil(1) [OF su moved_key_update [OF v]] .
      show ?thesis
      proof (cases "e = RekeyRequiredError \<and> is_ok r3")
        case True
        with rest v have "and_then (seal_message c m) (sendRecord w) v = (q, s')"
          by (auto simp: and_then_def [of "send_key_update c w"] is_ok_def split: sum.splits)
        with moved_seal_send moved_trans_Nil(1) [OF sv] show ?thesis by blast
      next
        case False
        with rest v su sv show ?thesis
          by (auto simp: and_then_def is_ok_def split: if_splits sum.splits)
      qed
    qed
  qed
qed

lemma sendRecord_False: "sendRecord w r s = (Inr False, s') \<Longrightarrow> cc_done s'"
  by (auto simp: sendRecord_def Let_def split: sum.splits if_splits)

lemma seal_and_send_False: "seal_and_send c w m s = (Inr False, s') \<Longrightarrow> cc_done s'"
  by (auto simp: seal_and_send_def and_then_def dest: sendRecord_False split: prod.splits sum.splits if_splits)

lemma moved_sendMessage:
  assumes "sendMessage c w m s = (ok, s')"
  shows "\<exists>ms. moved c faults ms s s' \<and> (ms = [] \<or> ms = [m] \<and> (ok \<or> cc_done s')) \<and> (ok \<longrightarrow> ms = [m])"
proof (cases "cc_done s \<or> cc_sentClose s")
  case False
  obtain q t where q: "seal_and_send c w m s = (q, t)" by fastforce
  from moved_seal_and_send [OF this] obtain ms where ms: "moved c faults ms s t" "ms = [] \<or> ms = [m]" "\<forall>b. q = Inr b \<longrightarrow> ms = [m]"
    by blast
  show ?thesis
  proof (cases q)
    case (Inl e)
    with False q assms have s': "\<not> ok" "s' = circuit_fail (session_code e) t" by (simp_all add: sendMessage_def)
    have "moved c faults ms s s'" unfolding s' by (rule moved_trans_Nil(2) [OF ms(1) moved_fail])
    then show ?thesis using ms(2) s' by (intro exI [of _ ms]) (auto simp: circuit_fail_def)
  next
    case (Inr b)
    with False q assms have "ok = b" "s' = t" by (simp_all add: sendMessage_def)
    with ms Inr seal_and_send_False q show ?thesis by (intro exI [of _ ms]) auto
  qed
qed (use assms in \<open>auto simp: sendMessage_def intro: exI [of _ "[]"]\<close>)

lemma moved_sendSessionClose: "moved c faults [] s (sendSessionClose c w s)"
proof -
  obtain q t where q: "and_then (session_send c Send_close) (sendRecord w) s = (q, t)" by fastforce
  then have "moved c faults [] s t"
    by (rule moved_and_then [rotated]) (auto dest: moved_session_send moved_sendRecord split: sum.splits)
  moreover have "moved c faults [] t (t\<lparr>cc_sentClose := True\<rparr>)" by (rule movedI) (simp_all add: core_def)
  ultimately have "moved c faults [] s (t\<lparr>cc_sentClose := True\<rparr>)" by (rule moved_trans_Nil)
  with q show ?thesis by (simp add: sendSessionClose_def)
qed

lemma moved_maybeComplete: "moved c UNIV [] s (maybeComplete s)"
  by (auto simp: maybeComplete_def moved_finish)

lemma moved_maybeClose: "moved c UNIV [] s (maybeClose c w s)"
  using moved_trans_Nil(1) [OF moved_mono [OF moved_sendSessionClose, of UNIV] moved_maybeComplete, of c s w]
  by (simp add: maybeClose_def)

lemma maybeClose_early: "\<not> cc_peerFin s \<Longrightarrow> maybeClose c w s = s"
  by (simp add: maybeClose_def)


section \<open>Events\<close>

text \<open>An event that receives nothing, whatever it does to the counters.\<close>

definition behaved :: "crypto \<Rightarrow> nat option set \<Rightarrow> stream_message list \<Rightarrow> secure_circuit \<Rightarrow> secure_circuit \<Rightarrow> bool" where
  "behaved c es ms s s' \<longleftrightarrow> (tidy s \<longrightarrow> tidy s' \<and> said s' = said s @ ms \<and> records_opened s' = records_opened s \<and>
     cc_id s' = cc_id s \<and> cc_role s' = cc_role s \<and> cc_started s' = cc_started s \<and> cc_peerFin s' = cc_peerFin s \<and>
     receiving_part (cc_session s') = receiving_part (cc_session s) \<and> (\<forall>t0. follows_session c t0 s \<longrightarrow> follows_session c t0 s') \<and> ended es s s')"

lemma moved_behaved: "moved c es ms s s' \<Longrightarrow> behaved c es ms s s'"
  by (simp add: moved_def behaved_def core_def)

lemma moved_core: "moved c es ms s s' \<Longrightarrow> tidy s \<Longrightarrow> tidy s' \<and> core s' = core s"
  by (simp add: moved_def)

lemma behaved_trans: "behaved c es xs s s' \<Longrightarrow> behaved c es ys s' s'' \<Longrightarrow> behaved c es (xs @ ys) s s''"
  unfolding behaved_def using ended_trans [of es s s' s''] by simp

lemma behaved_mono: "behaved c es ms s s' \<Longrightarrow> es \<subseteq> fs \<Longrightarrow> behaved c fs ms s s'"
  unfolding behaved_def ended_def by (meson subsetD)

lemma behavedI:
  assumes "cc_backlog s' = cc_backlog s" "cc_bound s' = cc_bound s" "notices s' = notices s" "sealed s' = sealed s" "records_opened s' = records_opened s"
    "cc_session s' = cc_session s" "cc_done s' = cc_done s" "cc_id s' = cc_id s" "cc_role s' = cc_role s"
    "cc_started s' = cc_started s" "cc_peerFin s' = cc_peerFin s"
  shows "behaved c es [] s s'"
  using assms by (simp add: behaved_def tidy_def said_def follows_session_def ended_def)

lemma behaved_refl [simp]: "behaved c es [] s s"
  by (rule behavedI) simp_all

lemma behaved_after:
  assumes "behaved c es [] s s1" "moved c es ms s1 s'"
  shows "behaved c es ms s s'"
  using behaved_trans [OF assms(1) moved_behaved [OF assms(2)]] by simp

lemma moved_writable: "moved c es [] s (tell_writable s)"
  by (rule movedI) (simp_all add: tell_writable_def core_def)

lemma replay_rest [simp]:
  "sealed (replay xs s) = sealed s" "records_opened (replay xs s) = records_opened s" "core (replay xs s) = core s"
  "cc_session (replay xs s) = cc_session s" "cc_done (replay xs s) = cc_done s" "cc_backlog (replay xs s) = cc_backlog s"
  by (induction xs arbitrary: s) (simp_all add: core_def)

lemma notices_replay: "cc_backlog s = [] \<Longrightarrow> notices (replay xs s) = notices s @ xs"
  by (induction xs arbitrary: s) (simp_all add: notices_def did_def)

lemma behaved_bind: "behaved c es [] s (circuit_bind s)"
proof -
  let ?s = "s\<lparr>cc_bound := True, cc_backlog := []\<rparr>" and ?r = "replay (cc_backlog s) (s\<lparr>cc_bound := True, cc_backlog := []\<rparr>)"
  have "notices ?r = notices s" by (simp add: notices_replay) (simp add: notices_def)
  moreover have "core ?r = core ?s" by simp
  ultimately have "behaved c es [] s ?r"
    by (auto simp: behaved_def tidy_def said_def follows_session_def ended_def core_def)
  moreover have "moved c es [] ?r (did Act_writable ?r)" by (rule movedI) (simp_all add: core_def)
  ultimately show ?thesis using behaved_after by (auto simp: circuit_bind_def Let_def)
qed

lemma moved_poke: "moved c es [] s (poke s)"
  by (simp add: poke_def moved_writable)

lemma moved_open: "\<exists>ms. moved c faults ms s (snd (circuit_open c w port s)) \<and> set ms \<subseteq> {Msg_open port}"
proof (cases "cc_role s = Client_end")
  case True
  obtain ok t where "sendMessage c w (Msg_open port) s = (ok, t)" by fastforce
  with True moved_sendMessage [OF this] show ?thesis by (auto simp: circuit_open_def)
qed (auto simp: circuit_open_def intro: exI [of _ "[]"])

lemma behaved_accept:
  "\<exists>ms. behaved c faults ms s (circuit_accept c w s) \<and> set ms \<subseteq> {Msg_opened} \<and>
    (tidy s \<longrightarrow> core (circuit_accept c w s) = core (s\<lparr>cc_sentOpened := cc_sentOpened (circuit_accept c w s)\<rparr>))"
proof (cases "cc_role s \<noteq> Service_end \<or> cc_sentOpened s")
  case False
  let ?s = "s\<lparr>cc_sentOpened := True\<rparr>"
  obtain ok t where t: "sendMessage c w Msg_opened ?s = (ok, t)" by fastforce
  from moved_sendMessage [OF t] obtain ms where ms: "moved c faults ms ?s t" "set ms \<subseteq> {Msg_opened}" by auto
  have m: "moved c faults ms ?s (tell_writable t)" by (rule moved_trans_Nil(2) [OF ms(1) moved_writable])
  have "behaved c faults [] s ?s" by (rule behavedI) simp_all
  then have "behaved c faults ms s (tell_writable t)" using m by (rule behaved_after)
  moreover have "tidy s \<longrightarrow> core (tell_writable t) = core ?s" using moved_core [OF m] by (simp add: tidy_def)
  ultimately show ?thesis using False t ms(2) by (auto simp: circuit_accept_def core_def)
qed (auto simp: circuit_accept_def intro!: exI [of _ "[]"])

lemma moved_abort: "moved c faults [] s (abort s)"
  by (simp add: abort_def moved_finish)

text \<open>A clean end presupposes the peer's FIN.\<close>

definition outcomes :: "secure_circuit \<Rightarrow> nat option set" where
  "outcomes s = (if cc_peerFin s then UNIV else faults)"

lemma faults_outcomes: "faults \<subseteq> outcomes s"
  by (simp add: outcomes_def)

lemma moved_destroyed: "moved c (outcomes s) [] s (remoteDestroyed s)"
  by (simp add: remoteDestroyed_def moved_finish outcomes_def)

lemma moved_maybeClose_outcomes: "moved c (outcomes s) [] s (maybeClose c w s)"
  using moved_maybeClose [of c s w] by (simp add: outcomes_def maybeClose_early)

lemma moved_reset: "\<exists>ms. moved c UNIV ms s (circuit_reset c w code s) \<and> set ms \<subseteq> {Msg_reset code}"
proof (cases "cc_done s")
  case False
  obtain ok t where t: "sendMessage c w (Msg_reset code) s = (ok, t)" by fastforce
  from moved_sendMessage [OF t] obtain ms where ms: "moved c faults ms s t" "set ms \<subseteq> {Msg_reset code}" by auto
  have "moved c faults ms s (sendSessionClose c w t)" by (rule moved_trans_Nil(2) [OF ms(1) moved_sendSessionClose])
  then have "moved c UNIV ms s (sendSessionClose c w t)" by (rule moved_mono) simp
  then have "moved c UNIV ms s (circuit_finish None True True (sendSessionClose c w t))"
    by (rule moved_trans_Nil(2)) (simp add: moved_finish)
  with False t ms(2) show ?thesis by (auto simp: circuit_reset_def)
qed (auto simp: circuit_reset_def intro: exI [of _ "[]"])

lemma behaved_end:
  assumes "tidy s"
  shows "\<exists>ms. behaved c (outcomes s) ms s (circuit_end c w s) \<and> (ms = [] \<or> ms = [Msg_fin] \<and> \<not> cc_sentFin s) \<and>
    core (circuit_end c w s) = core (s\<lparr>cc_sentFin := cc_sentFin (circuit_end c w s)\<rparr>) \<and>
    (ms \<noteq> [] \<or> cc_sentFin s \<longrightarrow> cc_sentFin (circuit_end c w s))"
proof (cases "cc_done s \<or> cc_sentFin s")
  case False
  let ?s = "s\<lparr>cc_sentFin := True\<rparr>"
  obtain ok t where t: "sendMessage c w Msg_fin ?s = (ok, t)" by fastforce
  from moved_sendMessage [OF t] obtain ms where ms: "moved c faults ms ?s t" "ms = [] \<or> ms = [Msg_fin]" by auto
  have "core t = core ?s" using moved_core [OF ms(1)] assms by (simp add: tidy_def)
  then have "outcomes t = outcomes s" by (simp add: outcomes_def core_def)
  then have m: "moved c (outcomes s) ms ?s (maybeClose c w t)"
    using moved_trans_Nil(2) [OF moved_mono [OF ms(1) faults_outcomes] moved_maybeClose_outcomes] by simp
  have "behaved c (outcomes s) [] s ?s" by (rule behavedI) simp_all
  then have "behaved c (outcomes s) ms s (maybeClose c w t)" using m by (rule behaved_after)
  moreover have "core (maybeClose c w t) = core ?s" using moved_core [OF m] assms by (simp add: tidy_def)
  ultimately show ?thesis using False t ms(2) by (auto simp: circuit_end_def core_def)
qed (auto simp: circuit_end_def intro!: exI [of _ "[]"])

section \<open>Writing\<close>

lemma items_Msg_data [simp]: "items (map Msg_data ds) = map Item_data ds" "credits (map Msg_data ds) = 0"
  by (induction ds) auto

lemma take_drop_more: "a + b \<le> length xs \<Longrightarrow> take a (drop n xs) @ take b (drop (n + a) xs) = take (a + b) (drop n xs)"
  by (simp add: take_add add.commute)

lemma writable_le: "writable w s \<le> fw_available (cc_sendWindow s) \<or> writable w s = 0"
  by (simp add: writable_def remaining_def)

text \<open>
  A write seals an initial part of what is left of the data, within the credit there is. It reports no more than it sealed, and
  exactly that unless the circuit ended meanwhile.
\<close>

definition wrote :: "crypto \<Rightarrow> bytes \<Rightarrow> nat \<Rightarrow> secure_circuit \<Rightarrow> nat result \<Rightarrow> secure_circuit \<Rightarrow> bytes list \<Rightarrow> bool" where
  "wrote c data offset s r s' ds \<longleftrightarrow> behaved c faults (map Msg_data ds) s s' \<and>
     core s' = core (s\<lparr>cc_sendWindow := cc_sendWindow s'\<rparr>) \<and> (ds \<noteq> [] \<longrightarrow> \<not> cc_sentFin s) \<and>
     (\<exists>k. concat ds = take k (drop offset data)) \<and> wf_window (cc_sendWindow s') \<and>
     fw_initial (cc_sendWindow s') = fw_initial (cc_sendWindow s) \<and>
     fw_available (cc_sendWindow s') + int (length (concat ds)) \<le> fw_available (cc_sendWindow s) \<and>
     (\<exists>n. r = Inr n \<and> n \<le> offset + length (concat ds) \<and> (\<not> cc_done s' \<longrightarrow> n = offset + length (concat ds)))"

lemma wrote_nothing: "wf_window (cc_sendWindow s) \<Longrightarrow> wrote c data offset s (Inr offset) s []"
  by (auto simp: wrote_def core_def)

lemma fw_consume_ok:
  assumes "wf_window v" "1 \<le> n" "n \<le> fw_available v" "n \<le> int MAX_STREAM_DATA"
  shows "fw_consume v (js_int n) = Inr (True, v\<lparr>fw_available := fw_available v - n\<rparr>)"
  using assms by (simp add: fw_consume_eq valid_credit_def MAX_WINDOW_CREDIT_def MAX_STREAM_DATA_def wire_limits)

lemma write_step:
  assumes "tidy s" and "wf_window (cc_sendWindow s)" and "\<not> length data \<le> offset" and "writable w s \<noteq> 0"
    and "n = min (writable w s) (int (length data - offset))" and "chunk = take (nat n) (drop offset data)"
    and "sendMessage c w (Msg_data chunk) (s\<lparr>cc_sendWindow := (cc_sendWindow s)\<lparr>fw_available := fw_available (cc_sendWindow s) - n\<rparr>\<rparr>) = (ok, t)"
  shows "fw_consume (cc_sendWindow s) (js_int n) = Inr (True, (cc_sendWindow s)\<lparr>fw_available := fw_available (cc_sendWindow s) - n\<rparr>)"
    "length chunk = nat n" "tidy t" "1 \<le> n" "n \<le> fw_available (cc_sendWindow s)"
    "core t = core (s\<lparr>cc_sendWindow := (cc_sendWindow s)\<lparr>fw_available := fw_available (cc_sendWindow s) - n\<rparr>\<rparr>)" "\<not> cc_sentFin s"
    "\<exists>ds. (ds = [] \<or> ds = [chunk] \<and> (ok \<or> cc_done t)) \<and> (ok \<longrightarrow> ds = [chunk]) \<and> behaved c faults (map Msg_data ds) s t"
proof -
  let ?v = "(cc_sendWindow s)\<lparr>fw_available := fw_available (cc_sendWindow s) - n\<rparr>"
  let ?s = "s\<lparr>cc_sendWindow := ?v\<rparr>"
  have room: "0 \<le> writable w s" "writable w s \<le> fw_available (cc_sendWindow s)" "writable w s \<le> int MAX_STREAM_DATA"
    using assms(2,4) by (auto simp: writable_def remaining_def wf_window_def split: if_splits)
  show n: "1 \<le> n" "n \<le> fw_available (cc_sendWindow s)" using assms(3-5) room by auto
  show "fw_consume (cc_sendWindow s) (js_int n) = Inr (True, ?v)"
    using fw_consume_ok [OF assms(2) n] assms(5) room by auto
  show "length chunk = nat n" using assms(3,5,6) n by auto
  from moved_sendMessage [OF assms(7)] obtain ms where ms: "moved c faults ms ?s t"
    "ms = [] \<or> ms = [Msg_data chunk] \<and> (ok \<or> cc_done t)" "ok \<longrightarrow> ms = [Msg_data chunk]" by blast
  have "tidy ?s" using assms(1) by (simp add: tidy_def)
  then show "tidy t" "core t = core ?s" using moved_core [OF ms(1)] by simp_all
  show "\<not> cc_sentFin s" using assms(4) by (auto simp: writable_def)
  have "behaved c faults ms s t" by (rule behaved_after [OF _ ms(1)]) (rule behavedI; simp)
  then show "\<exists>ds. (ds = [] \<or> ds = [chunk] \<and> (ok \<or> cc_done t)) \<and> (ok \<longrightarrow> ds = [chunk]) \<and> behaved c faults (map Msg_data ds) s t"
    using ms(2,3) by (intro exI [of _ "if ms = [] then [] else [chunk]"]) auto
qed

lemma write_from_stop: "length data \<le> offset \<or> writable w s = 0 \<Longrightarrow> write_from c w data offset s = (Inr offset, s)"
  by (subst write_from.simps) (auto simp: Let_def)

lemma write_from_next:
  assumes "\<not> length data \<le> offset" "writable w s \<noteq> 0" "n = min (writable w s) (int (length data - offset))"
    "fw_consume (cc_sendWindow s) (js_int n) = Inr (True, v)"
    "sendMessage c w (Msg_data (take (nat n) (drop offset data))) (s\<lparr>cc_sendWindow := v\<rparr>) = (ok, t)"
  shows "write_from c w data offset s = (if ok then write_from c w data (offset + nat n) t else (Inr offset, t))"
  using assms by (subst write_from.simps) (simp add: Let_def)

lemma wrote_more:
  assumes "behaved c faults [Msg_data chunk] s t" "core t = core (s\<lparr>cc_sendWindow := cc_sendWindow t\<rparr>)" "\<not> cc_sentFin s"
    and "chunk = take k (drop offset data)" "length chunk = k" "fw_initial (cc_sendWindow t) = fw_initial (cc_sendWindow s)"
    and "fw_available (cc_sendWindow t) + int k \<le> fw_available (cc_sendWindow s)" and "wrote c data (offset + k) t r s' ds"
  shows "wrote c data offset s r s' (chunk # ds)"
proof -
  have "behaved c faults (map Msg_data (chunk # ds)) s s'"
    using behaved_trans [OF assms(1)] assms(8) by (simp add: wrote_def)
  moreover obtain j where j: "concat ds = take j (drop (offset + k) data)" using assms(8) by (auto simp: wrote_def)
  then have "\<exists>i. concat (chunk # ds) = take i (drop offset data)"
    using assms(4) by (auto simp: take_add add.commute [of offset k] intro!: exI [of _ "k + j"])
  moreover have "core s' = core (s\<lparr>cc_sendWindow := cc_sendWindow s'\<rparr>)"
    using assms(2,8) by (auto simp: wrote_def core_def)
  moreover have "length (concat (chunk # ds)) = k + length (concat ds)" using assms(5) by simp
  ultimately show ?thesis
    using assms(3,6-8) unfolding wrote_def by (auto simp del: concat.simps)
qed

lemma write_from_wrote:
  assumes "write_from c w data offset s = (r, s')" "tidy s" "wf_window (cc_sendWindow s)"
  shows "\<exists>ds. wrote c data offset s r s' ds"
  using assms
proof (induction "length data - offset" arbitrary: offset s rule: less_induct)
  case less
  show ?case
  proof (cases "length data \<le> offset \<or> writable w s = 0")
    case True
    with less.prems(1) have "r = Inr offset" "s' = s" by (auto simp: write_from_stop)
    then show ?thesis using wrote_nothing less.prems(3) by blast
  next
    case False
    define n where "n = min (writable w s) (int (length data - offset))"
    define v where "v = (cc_sendWindow s)\<lparr>fw_available := fw_available (cc_sendWindow s) - n\<rparr>"
    define chunk where "chunk = take (nat n) (drop offset data)"
    have ne: "\<not> length data \<le> offset" "writable w s \<noteq> 0" using False by auto
    obtain ok t where t: "sendMessage c w (Msg_data chunk) (s\<lparr>cc_sendWindow := v\<rparr>) = (ok, t)" by fastforce
    note st = write_step [OF less.prems(2,3) ne n_def chunk_def t [unfolded v_def], folded v_def]
    obtain ds where ds: "ds = [] \<or> ds = [chunk] \<and> (ok \<or> cc_done t)" "ok \<longrightarrow> ds = [chunk]" "behaved c faults (map Msg_data ds) s t"
      using st(8) by blast
    have win: "cc_sendWindow t = v" using st(6) by (simp add: core_def)
    have wf: "wf_window v" using less.prems(3) st(4,5) by (simp add: wf_window_def v_def)
    have coret: "core t = core (s\<lparr>cc_sendWindow := cc_sendWindow t\<rparr>)" using st(6) win by simp
    have eq: "write_from c w data offset s = (if ok then write_from c w data (offset + nat n) t else (Inr offset, t))"
      using write_from_next [OF ne n_def st(1)] t by (simp add: chunk_def)
    show ?thesis
    proof (cases ok)
      case True
      then have rest: "write_from c w data (offset + nat n) t = (r, s')" using eq less.prems(1) by simp
      have "length data - (offset + nat n) < length data - offset" using ne(1) st(4) by linarith
      from less.hyps [OF this rest st(3)] win wf obtain es where es: "wrote c data (offset + nat n) t r s' es" by auto
      have "wrote c data offset s r s' (chunk # es)"
        by (rule wrote_more [OF _ coret st(7) chunk_def st(2) _ _ es])
          (use ds True st(4) win in \<open>auto simp: v_def\<close>)
      then show ?thesis by blast
    next
      case nok: False
      with eq less.prems(1) have rs: "r = Inr offset" "s' = t" by auto
      have "wrote c data offset s r s' ds"
        unfolding rs wrote_def
        using ds nok st(2,4,5,7) coret win wf
        by (auto simp: v_def chunk_def intro: exI [of _ 0])
      then show ?thesis by blast
    qed
  qed
qed


section \<open>Credit returned\<close>

text \<open>What a call of \<^verbatim>\<open>consumed\<close> does to the counters: it grants at most what was reported consumed.\<close>

lemma behaved_consumed:
  assumes "tidy s" and "0 \<le> cc_receivedUngranted s" and "0 \<le> cc_consumedUngranted s"
  shows "\<exists>ms g. behaved c faults ms s (consumed c w n s) \<and> items ms = [] \<and> credits ms \<le> g \<and> 0 \<le> g \<and>
    cc_sendWindow (consumed c w n s) = cc_sendWindow s \<and> cc_sentFin (consumed c w n s) = cc_sentFin s \<and>
    cc_receivedUngranted (consumed c w n s) = cc_receivedUngranted s - g \<and> 0 \<le> cc_receivedUngranted (consumed c w n s) \<and>
    0 \<le> cc_consumedUngranted (consumed c w n s) \<and>
    cc_consumedUngranted (consumed c w n s) + g \<le> cc_consumedUngranted s + int n"
proof (cases "cc_done s \<or> cc_peerFin s \<or> cc_sentClose s \<or> cc_consumedUngranted s + int n < GRANT_THRESHOLD")
  case True
  then show ?thesis
    using assms by (intro exI [of _ "[]"] exI [of _ 0]) (auto simp: consumed_def intro: behavedI)
next
  case False
  define g where "g = min (cc_consumedUngranted s + int n) (cc_receivedUngranted s)"
  let ?z = "s\<lparr>cc_consumedUngranted := 0\<rparr>"
  let ?s = "s\<lparr>cc_consumedUngranted := 0, cc_receivedUngranted := cc_receivedUngranted s - g\<rparr>"
  show ?thesis
  proof (cases "g \<le> 0")
    case True
    then have "consumed c w n s = ?z" using False by (simp add: consumed_def g_def Let_def)
    moreover have "behaved c faults [] s ?z" by (rule behavedI) simp_all
    ultimately show ?thesis using assms by (intro exI [of _ "[]"] exI [of _ 0]) auto
  next
    case pos: False
    obtain ok t where t: "sendMessage c w (Msg_window (js_int g)) ?s = (ok, t)" by fastforce
    have eq: "consumed c w n s = t" using False pos t by (simp add: consumed_def g_def Let_def)
    from moved_sendMessage [OF t] obtain ms where ms: "moved c faults ms ?s t" "ms = [] \<or> ms = [Msg_window (js_int g)]" by blast
    have "behaved c faults ms s t" by (rule behaved_after [OF _ ms(1)]) (rule behavedI; simp)
    moreover have "core t = core ?s" using moved_core [OF ms(1)] assms(1) by (simp add: tidy_def)
    moreover have "items ms = []" "credits ms \<le> g" using ms(2) pos by auto
    ultimately show ?thesis
      using assms pos unfolding eq by (intro exI [of _ ms] exI [of _ g]) (auto simp: core_def g_def)
  qed
qed

section \<open>What a frame does\<close>

text \<open>
  A frame is ignored, ends the circuit, or carries the next record of the session. A message the circuit takes tells
  its owner at most one item, and then perhaps ends the circuit.
\<close>

lemma decoded_credit: "decodeStreamMessage p = Inr (Msg_window n) \<Longrightarrow> valid_credit n"
  using get_uint_less [of 4 p 1]
  by (auto simp: decodeStreamMessage_def Let_def valid_credit_def MAX_WINDOW_CREDIT_def split: if_splits)

definition handled :: "crypto \<Rightarrow> stream_message \<Rightarrow> secure_circuit \<Rightarrow> secure_circuit \<Rightarrow> bool" where
  "handled c m s s' \<longleftrightarrow> tidy s' \<and> said s' = said s \<and> records_opened s' = records_opened s \<and> cc_started s' \<and> cc_sentFin s' = cc_sentFin s \<and>
     receiving_part (cc_session s') = receiving_part (cc_session s) \<and> (\<forall>t0. follows_session c t0 s \<longrightarrow> follows_session c t0 s') \<and>
     cc_consumedUngranted s' = cc_consumedUngranted s \<and>
     (cc_peerFin s' = cc_peerFin s \<and> cc_receivedUngranted s' = cc_receivedUngranted s \<and> notices s' = notices s \<and> \<not> cc_done s' \<and>
        items [m] = [] \<and> cc_sendWindow s' = (case m of Msg_window n \<Rightarrow> (cc_sendWindow s)\<lparr>fw_available :=
          min (fw_initial (cc_sendWindow s)) (fw_available (cc_sendWindow s) + int_of n)\<rparr> | _ \<Rightarrow> cc_sendWindow s) \<or>
      cc_peerFin s' = cc_peerFin s \<and> cc_receivedUngranted s' = cc_receivedUngranted s \<and> cc_sendWindow s' = cc_sendWindow s \<and>
        cc_done s' \<and> (\<exists>e. notices s' = notices s @ [Item_close (Some e)]) \<or>
      (\<exists>d. m = Msg_data d \<and> \<not> cc_peerFin s \<and> \<not> cc_peerFin s' \<and> cc_sendWindow s' = cc_sendWindow s \<and> \<not> cc_done s' \<and>
        cc_receivedUngranted s' = cc_receivedUngranted s + int (length d) \<and>
        cc_receivedUngranted s' \<le> STREAM_WINDOW_INITIAL \<and> notices s' = notices s @ [Item_data d]) \<or>
      m = Msg_fin \<and> \<not> cc_peerFin s \<and> cc_peerFin s' \<and> cc_sendWindow s' = cc_sendWindow s \<and>
        cc_receivedUngranted s' = cc_receivedUngranted s \<and>
        (\<exists>xs. notices s' = notices s @ [Item_end] @ xs \<and> (xs = [] \<and> \<not> cc_done s' \<or> cc_done s' \<and> (\<exists>e. xs = [Item_close e]))))"

lemma handled_fault:
  assumes "tidy s" "\<not> cc_done s"
  shows "handled c m s (circuit_finish (Some e) n f (s\<lparr>cc_started := True\<rparr>))"
proof -
  let ?s = "s\<lparr>cc_started := True\<rparr>"
  have "moved c faults [] ?s (circuit_finish (Some e) n f ?s)" by (rule moved_finish) simp
  moreover have "notices (circuit_finish (Some e) n f ?s) = notices ?s @ [Item_close (Some e)]"
    by (rule notices_finish) (use assms in \<open>simp_all add: tidy_def\<close>)
  ultimately show ?thesis
    using assms by (auto simp: handled_def moved_def core_def tidy_def said_def follows_session_def)
qed

lemma tell_rest [simp]: "core (tell x s) = core s" "cc_session (tell x s) = cc_session s" "cc_done (tell x s) = cc_done s"
  "tidy s \<Longrightarrow> tidy (tell x s)"
  by (simp_all add: tell_def core_def tidy_def)

lemma tell_writable_rest [simp]: "core (tell_writable s) = core s" "cc_session (tell_writable s) = cc_session s"
  "cc_done (tell_writable s) = cc_done s" "tidy s \<Longrightarrow> tidy (tell_writable s)" "sealed (tell_writable s) = sealed s"
  "records_opened (tell_writable s) = records_opened s" "notices (tell_writable s) = notices s"
  by (simp_all add: tell_writable_def core_def tidy_def)

lemma handleMessage_handled:
  assumes "tidy s" "\<not> cc_done s" "decodeStreamMessage p = Inr m" "handleMessage c w m s = (r, s')"
  shows "r = Inr () \<and> handled c m s s'"
proof (cases m)
  case (Msg_data d)
  let ?s = "s\<lparr>cc_started := True\<rparr>"
  let ?t = "tell (Item_data d) (?s\<lparr>cc_receivedUngranted := cc_receivedUngranted s + int (length d)\<rparr>)"
  show ?thesis
  proof (cases "\<not> cc_started s \<or> cc_peerFin s \<or> cc_receivedUngranted s + int (length d) > STREAM_WINDOW_INITIAL")
    case True
    with assms(4) Msg_data handled_fault [OF assms(1,2)] show ?thesis
      by (auto simp: handleMessage_def Let_def circuit_violation_def circuit_fail_def split: if_splits)
  next
    case False
    with assms(4) Msg_data have r: "r = Inr ()" "s' = ?t" by (auto simp: handleMessage_def Let_def split: if_splits)
    have core: "core ?t = core (?s\<lparr>cc_receivedUngranted := cc_receivedUngranted s + int (length d)\<rparr>)" by simp
    have notices: "notices ?t = notices s @ [Item_data d]" using assms(1) by (subst notices_tell) (simp_all add: tidy_def)
    have "tidy ?t" using assms(1) by (intro tell_rest) (simp add: tidy_def)
    with core notices False Msg_data assms(2) show ?thesis
      unfolding r by (auto simp: handled_def core_def said_def follows_session_def)
  qed
next
  case Msg_fin
  let ?s = "s\<lparr>cc_started := True\<rparr>"
  let ?t = "tell Item_end (?s\<lparr>cc_peerFin := True\<rparr>)"
  show ?thesis
  proof (cases "\<not> cc_started s \<or> cc_peerFin s")
    case True
    with assms(4) Msg_fin handled_fault [OF assms(1,2)] show ?thesis
      by (auto simp: handleMessage_def Let_def circuit_violation_def circuit_fail_def split: if_splits)
  next
    case False
    with assms(4) Msg_fin have r: "r = Inr ()" "s' = maybeClose c w ?t" by (auto simp: handleMessage_def Let_def split: if_splits)
    have core: "core ?t = core (?s\<lparr>cc_peerFin := True\<rparr>)" by simp
    have notices: "notices ?t = notices s @ [Item_end]" using assms(1) by (subst notices_tell) (simp_all add: tidy_def)
    have tidy: "tidy ?t" using assms(1) by (intro tell_rest) (simp add: tidy_def)
    have t: "sealed ?t = sealed s" "records_opened ?t = records_opened s" "cc_session ?t = cc_session s" "cc_done ?t = cc_done s" by simp_all
    have m: "moved c UNIV [] ?t (maybeClose c w ?t)" by (rule moved_maybeClose)
    with tidy have m: "tidy s'" "core s' = core ?t" "said s' = said ?t" "records_opened s' = records_opened ?t"
      "receiving_part (cc_session s') = receiving_part (cc_session ?t)" "\<forall>t0. follows_session c t0 ?t \<longrightarrow> follows_session c t0 s'" "ended UNIV ?t s'"
      unfolding r by (simp_all add: moved_def)
    have e: "\<exists>xs. notices s' = notices s @ [Item_end] @ xs \<and> (xs = [] \<and> \<not> cc_done s' \<or> cc_done s' \<and> (\<exists>e. xs = [Item_close e]))"
      using m(7) notices t(4) assms(2) by (auto simp: ended_def)
    show ?thesis
      unfolding handled_def using m(1-6) core t(1-3) e False Msg_fin r(1)
      by (auto simp: core_def said_def follows_session_def)
  qed
next
  case (Msg_window n)
  let ?s = "s\<lparr>cc_started := True\<rparr>"
  have ok: "valid_credit n" using assms(3) Msg_window decoded_credit by blast
  show ?thesis
  proof (cases "\<not> cc_started s \<and> cc_role s = Service_end")
    case True
    with assms(4) Msg_window handled_fault [OF assms(1,2)] show ?thesis
      by (auto simp: handleMessage_def Let_def circuit_violation_def circuit_fail_def split: if_splits)
  next
    case False
    let ?t = "?s\<lparr>cc_sendWindow := (cc_sendWindow s)\<lparr>fw_available :=
          min (fw_initial (cc_sendWindow s)) (fw_available (cc_sendWindow s) + int_of n)\<rparr>\<rparr>"
    from False assms(4) Msg_window ok have r: "r = Inr ()" "s' = tell_writable ?t"
      by (auto simp: handleMessage_def Let_def fw_grant_eq split: if_splits)
    have "core s' = core ?t" "tidy s'" using assms(1) r(2) by (simp_all add: tidy_def tell_writable_def core_def)
    with r assms(2) Msg_window show ?thesis by (auto simp: handled_def core_def said_def follows_session_def)
  qed
next
  case (Msg_reset code)
  with assms(4) handled_fault [OF assms(1,2)] show ?thesis by (auto simp: handleMessage_def Let_def)
next
  case (Msg_open port)
  let ?t = "did (Act_onOpen port) (s\<lparr>cc_started := True\<rparr>)"
  show ?thesis
  proof (cases "cc_role s \<noteq> Service_end \<or> cc_started s")
    case True
    with assms(4) Msg_open handled_fault [OF assms(1,2)] show ?thesis
      by (auto simp: handleMessage_def Let_def circuit_violation_def circuit_fail_def split: if_splits)
  next
    case False
    with assms(4) Msg_open have r: "r = Inr ()" "s' = ?t" by (auto simp: handleMessage_def Let_def split: if_splits)
    with assms(1,2) Msg_open show ?thesis by (auto simp: handled_def core_def said_def follows_session_def tidy_def)
  qed
next
  case Msg_opened
  let ?t = "tell_writable (did Act_onOpened (s\<lparr>cc_started := True\<rparr>))"
  show ?thesis
  proof (cases "cc_role s \<noteq> Client_end \<or> cc_started s")
    case True
    with assms(4) Msg_opened handled_fault [OF assms(1,2)] show ?thesis
      by (auto simp: handleMessage_def Let_def circuit_violation_def circuit_fail_def split: if_splits)
  next
    case False
    with assms(4) Msg_opened have r: "r = Inr ()" "s' = ?t" by (auto simp: handleMessage_def Let_def split: if_splits)
    have "core ?t = core (s\<lparr>cc_started := True\<rparr>)" "tidy ?t" using assms(1) by (simp_all add: core_def tidy_def tell_writable_def)
    with r assms(2) Msg_opened show ?thesis by (auto simp: handled_def core_def said_def follows_session_def)
  qed
qed


section \<open>The invariant\<close>

fun fed_by :: "circuit_event \<Rightarrow> (bytes \<times> record_header) list" where
  "fed_by (Ev_receive f) = [(f_payload f, frame_header f)]"
| "fed_by _ = []"

fun eaten_by :: "circuit_event \<Rightarrow> int" where
  "eaten_by (Ev_consumed n) = int n"
| "eaten_by _ = 0"

text \<open>What was opened is what the first session would open of the frames that came.\<close>

definition received :: "crypto \<Rightarrow> session_cipher \<Rightarrow> (bytes \<times> record_header) list \<Rightarrow> secure_circuit \<Rightarrow> bool" where
  "received c t0 ds s \<longleftrightarrow> (\<exists>ds' ms t. set ds' \<subseteq> set ds \<and> deliver c ds' t0 = (ms, t) \<and> map snd ms = records_opened s \<and>
     receiving_part t = receiving_part (cc_session s))"

text \<open>The owner hears the data taken, then the end once there was a FIN, then how the circuit closed.\<close>

definition told :: "secure_circuit \<Rightarrow> bool" where
  "told s \<longleftrightarrow> (\<exists>xs body zs. body = map Item_data xs @ (if cc_peerFin s then [Item_end] else []) \<and> notices s = body @ zs \<and>
     prefix body (items (took s)) \<and> (\<not> cc_done s \<and> zs = [] \<and> body = items (took s) \<or> cc_done s \<and> (\<exists>e. zs = [Item_close e])))"

definition sending :: "secure_circuit \<Rightarrow> bool" where
  "sending s \<longleftrightarrow> wf_window (cc_sendWindow s) \<and> fw_initial (cc_sendWindow s) = STREAM_WINDOW_INITIAL \<and>
     fw_available (cc_sendWindow s) + int (length (bytes_of (items (said s)))) \<le> STREAM_WINDOW_INITIAL + credits (took s) \<and>
     (\<exists>xs fin. items (said s) = map Item_data xs @ (if fin then [Item_end] else []) \<and> (fin \<longrightarrow> cc_sentFin s))"

text \<open>The argument \<open>n\<close> is what the owner has reported consumed so far.\<close>

definition counting :: "int \<Rightarrow> secure_circuit \<Rightarrow> bool" where
  "counting n s \<longleftrightarrow> 0 \<le> cc_receivedUngranted s \<and> cc_receivedUngranted s \<le> STREAM_WINDOW_INITIAL \<and> 0 \<le> cc_consumedUngranted s \<and>
     credits (said s) \<le> int (length (bytes_of (notices s))) - cc_receivedUngranted s \<and>
     int (length (bytes_of (notices s))) - cc_receivedUngranted s + cc_consumedUngranted s \<le> n"

definition circuit_inv :: "crypto \<Rightarrow> session_cipher \<Rightarrow> (bytes \<times> record_header) list \<Rightarrow> int \<Rightarrow> secure_circuit \<Rightarrow> bool" where
  "circuit_inv c t0 ds n s \<longleftrightarrow> tidy s \<and> follows_session c t0 s \<and> received c t0 ds s \<and> told s \<and> sending s \<and> counting n s"

lemma received_mono: "received c t0 ds s \<Longrightarrow> set ds \<subseteq> set es \<Longrightarrow> received c t0 es s"
  unfolding received_def by (meson subset_trans)

lemma bytes_of_ended: "ended es s s' \<Longrightarrow> bytes_of (notices s') = bytes_of (notices s)"
  by (auto simp: ended_def)

lemma behaved_told: "behaved c es ms s s' \<Longrightarrow> tidy s \<Longrightarrow> told s \<Longrightarrow> told s'"
proof -
  assume b: "behaved c es ms s s'" "tidy s" and "told s"
  then obtain xs body zs where body: "body = map Item_data xs @ (if cc_peerFin s then [Item_end] else [])" "notices s = body @ zs"
    "prefix body (items (took s))" "\<not> cc_done s \<and> zs = [] \<and> body = items (took s) \<or> cc_done s \<and> (\<exists>e. zs = [Item_close e])"
    by (auto simp: told_def)
  from b have same: "cc_peerFin s' = cc_peerFin s" "took s' = took s" "ended es s s'" by (simp_all add: behaved_def took_def)
  from same(3) body(2,4) obtain zs' where zs': "notices s' = body @ zs'"
    "\<not> cc_done s' \<and> zs' = [] \<and> body = items (took s) \<or> cc_done s' \<and> (\<exists>e. zs' = [Item_close e])"
    unfolding ended_def by auto
  with body(1,3) same(1,2) show ?thesis
    unfolding told_def by (intro exI [of _ xs] exI [of _ body] exI [of _ zs']) simp
qed

lemma behaved_received: "behaved c es ms s s' \<Longrightarrow> tidy s \<Longrightarrow> received c t0 ds s \<Longrightarrow> received c t0 ds s'"
  by (auto simp: behaved_def received_def)

text \<open>An event that receives nothing keeps the invariant if it keeps the books.\<close>

lemma behaved_inv:
  assumes "circuit_inv c t0 ds n s" and "behaved c es ms s s'" and "sending s'" and "counting n' s'"
  shows "circuit_inv c t0 ds n' s'"
  using assms behaved_told [OF assms(2)] behaved_received [OF assms(2)]
  by (auto simp: circuit_inv_def) (auto simp: behaved_def)

lemma behaved_counting:
  assumes "tidy s" "counting n s" "behaved c es ms s s'" "n \<le> n'" "0 \<le> g" "credits ms \<le> g"
    "cc_receivedUngranted s' = cc_receivedUngranted s - g" "0 \<le> cc_receivedUngranted s'" "0 \<le> cc_consumedUngranted s'"
    "cc_consumedUngranted s' + g + n \<le> cc_consumedUngranted s + n'"
  shows "counting n' s'"
proof -
  have "said s' = said s @ ms" "bytes_of (notices s') = bytes_of (notices s)"
    using assms(1,3) bytes_of_ended by (auto simp: behaved_def)
  with assms show ?thesis by (simp add: counting_def)
qed

lemma behaved_sending:
  assumes "tidy s" "sending s" "behaved c es ms s s'" "cc_sendWindow s' = cc_sendWindow s" "items ms = []" "cc_sentFin s \<longrightarrow> cc_sentFin s'"
  shows "sending s'"
proof -
  have "said s' = said s @ ms" "took s' = took s" using assms(1,3) by (auto simp: behaved_def took_def)
  moreover obtain xs fin where "items (said s) = map Item_data xs @ (if fin then [Item_end] else [])" "fin \<longrightarrow> cc_sentFin s"
    using assms(2) by (auto simp: sending_def)
  ultimately show ?thesis using assms(2,4-6) unfolding sending_def by (intro conjI exI [of _ xs] exI [of _ fin]) auto
qed

lemma behaved_plain:
  assumes "circuit_inv c t0 ds n s" "behaved c es ms s s'" "cc_sendWindow s' = cc_sendWindow s" "items ms = []" "credits ms = 0"
    "cc_sentFin s' = cc_sentFin s" "cc_receivedUngranted s' = cc_receivedUngranted s" "cc_consumedUngranted s' = cc_consumedUngranted s"
  shows "circuit_inv c t0 ds n s'"
proof (rule behaved_inv [OF assms(1,2)])
  have inv: "tidy s" "sending s" "counting n s" using assms(1) by (simp_all add: circuit_inv_def)
  show "sending s'" by (rule behaved_sending [OF inv(1,2) assms(2,3,4)]) (use assms(6) in simp)
  show "counting n s'" by (rule behaved_counting [OF inv(1,3) assms(2), of _ 0]) (use assms inv(3) in \<open>simp_all add: counting_def\<close>)
qed

lemma moved_plain:
  assumes "circuit_inv c t0 ds n s" "moved c es ms s s'" "items ms = []" "credits ms = 0"
  shows "circuit_inv c t0 ds n s'"
proof (rule behaved_plain [OF assms(1) moved_behaved [OF assms(2)] _ assms(3,4)])
  have "core s' = core s" using moved_core [OF assms(2)] assms(1) by (simp add: circuit_inv_def)
  then show "cc_sendWindow s' = cc_sendWindow s" "cc_sentFin s' = cc_sentFin s"
    "cc_receivedUngranted s' = cc_receivedUngranted s" "cc_consumedUngranted s' = cc_consumedUngranted s"
    by (simp_all add: core_def)
qed

lemma plain_messages: "set ms \<subseteq> {m} \<Longrightarrow> items [m] = [] \<Longrightarrow> credits [m] = 0 \<Longrightarrow> items ms = [] \<and> credits ms = 0"
proof (induction ms)
  case (Cons a ms)
  then show ?case by (cases a) auto
qed simp

lemma inv_write:
  assumes "circuit_inv c t0 ds n s"
  shows "circuit_inv c t0 ds n (snd (circuit_write c w data s))"
proof -
  have inv: "tidy s" "sending s" "counting n s" using assms by (simp_all add: circuit_inv_def)
  obtain r s' where r: "circuit_write c w data s = (r, s')" by fastforce
  then have "write_from c w data 0 s = (r, s')" by (simp add: circuit_write_def)
  moreover have "wf_window (cc_sendWindow s)" using inv(2) by (simp add: sending_def)
  ultimately obtain es where es: "wrote c data 0 s r s' es" using write_from_wrote inv(1) by blast
  then have b: "behaved c faults (map Msg_data es) s s'" by (simp add: wrote_def)
  then have said: "said s' = said s @ map Msg_data es" "took s' = took s" using inv(1) by (simp_all add: behaved_def took_def)
  obtain xs fin where xs: "items (said s) = map Item_data xs @ (if fin then [Item_end] else [])" "fin \<longrightarrow> cc_sentFin s"
    using inv(2) by (auto simp: sending_def)
  have fields: "cc_sentFin s' = cc_sentFin s" "cc_receivedUngranted s' = cc_receivedUngranted s"
    "cc_consumedUngranted s' = cc_consumedUngranted s" using es by (simp_all add: wrote_def core_def)
  have "\<exists>xs fin. items (said s') = map Item_data xs @ (if fin then [Item_end] else []) \<and> (fin \<longrightarrow> cc_sentFin s')"
  proof (cases "es = []")
    case True
    with xs said fields show ?thesis by (intro exI [of _ xs] exI [of _ fin]) simp
  next
    case False
    with es xs(2) have "\<not> fin" by (auto simp: wrote_def)
    with xs said show ?thesis by (intro exI [of _ "xs @ es"] exI [of _ False]) simp
  qed
  then have "sending s'" using inv(2) es said by (simp add: sending_def wrote_def)
  moreover have "counting n s'"
    by (rule behaved_counting [OF inv(1,3) b, of _ 0]) (use fields inv(3) in \<open>simp_all add: counting_def\<close>)
  ultimately show ?thesis using behaved_inv [OF assms b] r by simp
qed

lemma inv_consumed:
  assumes "circuit_inv c t0 ds n s"
  shows "circuit_inv c t0 ds (n + int k) (consumed c w k s)"
proof -
  have inv: "tidy s" "sending s" "counting n s" using assms by (simp_all add: circuit_inv_def)
  then have "0 \<le> cc_receivedUngranted s" "0 \<le> cc_consumedUngranted s" by (simp_all add: counting_def)
  from behaved_consumed [OF inv(1) this, of c w k] obtain ms g where
    b: "behaved c faults ms s (consumed c w k s)" "items ms = []" "credits ms \<le> g" "0 \<le> g"
    "cc_sendWindow (consumed c w k s) = cc_sendWindow s" "cc_sentFin (consumed c w k s) = cc_sentFin s"
    "cc_receivedUngranted (consumed c w k s) = cc_receivedUngranted s - g" "0 \<le> cc_receivedUngranted (consumed c w k s)"
    "0 \<le> cc_consumedUngranted (consumed c w k s)"
    "cc_consumedUngranted (consumed c w k s) + g \<le> cc_consumedUngranted s + int k" by blast
  show ?thesis
  proof (rule behaved_inv [OF assms b(1)])
    show "sending (consumed c w k s)" by (rule behaved_sending [OF inv(1,2) b(1,5,2)]) (simp add: b(6))
    show "counting (n + int k) (consumed c w k s)" by (rule behaved_counting [OF inv(1,3) b(1) _ b(4,3,7,8,9)]) (use b(10) in simp_all)
  qed
qed

lemma inv_end:
  assumes "circuit_inv c t0 ds n s"
  shows "circuit_inv c t0 ds n (circuit_end c w s)"
proof -
  have inv: "tidy s" "sending s" "counting n s" using assms by (simp_all add: circuit_inv_def)
  let ?s' = "circuit_end c w s"
  obtain ms where ms: "behaved c (outcomes s) ms s ?s'" "ms = [] \<or> ms = [Msg_fin] \<and> \<not> cc_sentFin s"
    "core ?s' = core (s\<lparr>cc_sentFin := cc_sentFin ?s'\<rparr>)" "ms \<noteq> [] \<or> cc_sentFin s \<longrightarrow> cc_sentFin ?s'"
    using behaved_end [OF inv(1), of c w] by blast
  have fields: "cc_sendWindow ?s' = cc_sendWindow s" "cc_receivedUngranted ?s' = cc_receivedUngranted s"
    "cc_consumedUngranted ?s' = cc_consumedUngranted s" using ms(3) by (simp_all add: core_def)
  have said: "said ?s' = said s @ ms" "took ?s' = took s" using ms(1) inv(1) by (simp_all add: behaved_def took_def)
  obtain xs fin where xs: "items (said s) = map Item_data xs @ (if fin then [Item_end] else [])" "fin \<longrightarrow> cc_sentFin s"
    using inv(2) by (auto simp: sending_def)
  have "\<exists>xs fin. items (said ?s') = map Item_data xs @ (if fin then [Item_end] else []) \<and> (fin \<longrightarrow> cc_sentFin ?s')"
  proof (cases "ms = []")
    case True
    with xs said ms(4) show ?thesis by (intro exI [of _ xs] exI [of _ fin]) auto
  next
    case False
    with ms(2,4) xs said show ?thesis by (intro exI [of _ xs] exI [of _ True]) auto
  qed
  moreover have "bytes_of (items ms) = []" using ms(2) by auto
  ultimately have "sending ?s'" using inv(2) said fields by (simp add: sending_def)
  moreover have "counting n ?s'"
    by (rule behaved_counting [OF inv(1,3) ms(1), of _ 0]) (use fields inv(3) ms(2) in \<open>auto simp: counting_def\<close>)
  ultimately show ?thesis using behaved_inv [OF assms ms(1)] by simp
qed


subsection \<open>Receiving\<close>

lemma accept_all_append: "accept_all step (ds @ [d]) s = (case accept_all step ds s of (ms, t) \<Rightarrow>
    case step d t of (None, t') \<Rightarrow> (ms, t') | (Some m, t') \<Rightarrow> (ms @ [m], t'))"
  by (induction ds arbitrary: s) (auto split: prod.splits option.splits)

text \<open>The state once the session has judged a record, before the circuit acts on it.\<close>

definition judged :: "opened_record result \<Rightarrow> session_cipher \<Rightarrow> secure_circuit \<Rightarrow> secure_circuit" where
  "judged q t s = (case q of Inl _ \<Rightarrow> s\<lparr>cc_session := t\<rparr> | Inr o' \<Rightarrow> did (Act_open o') (s\<lparr>cc_session := t\<rparr>))"

lemma judged_rest [simp]: "core (judged q t s) = core s" "cc_done (judged q t s) = cc_done s" "notices (judged q t s) = notices s"
  "sealed (judged q t s) = sealed s" "cc_session (judged q t s) = t" "tidy (judged q t s) \<longleftrightarrow> tidy s"
  "records_opened (judged q t s) = records_opened s @ (case q of Inl _ \<Rightarrow> [] | Inr o' \<Rightarrow> [o'])"
  by (simp_all add: judged_def core_def tidy_def split: sum.split)

lemma judged_received:
  assumes "received c t0 ds s" and "open_record c rec h (cc_session s) = (q, t)"
  shows "received c t0 (ds @ [(rec, h)]) (judged q t s)"
proof -
  obtain ds' ms u where d: "set ds' \<subseteq> set ds" "deliver c ds' t0 = (ms, u)" "map snd ms = records_opened s"
    "receiving_part u = receiving_part (cc_session s)" using assms(1) by (auto simp: received_def)
  obtain q' u' where u': "open_record c rec h u = (q', u')" by fastforce
  with open_record_receiving [OF d(4), of c rec h] assms(2) have q: "q' = q" "receiving_part u' = receiving_part t" by simp_all
  show ?thesis unfolding received_def
  proof (intro exI conjI)
    show "set (ds' @ [(rec, h)]) \<subseteq> set (ds @ [(rec, h)])" using d(1) by auto
    show "deliver c (ds' @ [(rec, h)]) t0 = (ms @ (case q of Inl _ \<Rightarrow> [] | Inr o' \<Rightarrow> [(header_ad h, o')]), u')"
      using d(2) u' q by (simp add: accept_all_append receive_def split: sum.split)
  qed (use d(3) q(2) in \<open>simp_all split: sum.split\<close>)
qed

lemma same_send_trans: "same_send t u \<Longrightarrow> same_send u v \<Longrightarrow> same_send t v"
  by (simp add: same_send_def)

lemma judged_tracks:
  assumes "follows_session c t0 s" and "open_record c rec h (cc_session s) = (q, t)"
  shows "follows_session c t0 (judged q t s)"
  using assms(1) open_record_sending [OF assms(2)] same_send_trans by (auto simp: follows_session_def same_send_def)

lemma judged_plain:
  assumes "circuit_inv c t0 ds n s" and "open_record c rec h (cc_session s) = (q, t)"
    and "messages (case q of Inl _ \<Rightarrow> [] | Inr o' \<Rightarrow> [o']) = []"
  shows "circuit_inv c t0 (ds @ [(rec, h)]) n (judged q t s)"
proof -
  let ?j = "judged q t s"
  have j: "said ?j = said s" "took ?j = took s" using assms(3) by (simp_all add: said_def took_def)
  have core: "core ?j = core s" by simp
  have "told ?j \<longleftrightarrow> told s" "sending ?j \<longleftrightarrow> sending s" "counting n ?j \<longleftrightarrow> counting n s"
    using j core by (simp_all add: told_def sending_def counting_def core_def)
  with assms(1) judged_received [OF _ assms(2)] judged_tracks [OF _ assms(2)] show ?thesis by (simp add: circuit_inv_def)
qed

lemma told_live: "told s \<Longrightarrow> \<not> cc_done s \<Longrightarrow>
    \<exists>xs. notices s = map Item_data xs @ (if cc_peerFin s then [Item_end] else []) \<and> items (took s) = notices s"
  unfolding told_def by (elim exE conjE disjE) (simp_all, metis)

lemma toldI:
  assumes "notices s = map Item_data xs @ (if cc_peerFin s then [Item_end] else []) @ zs"
    and "prefix (map Item_data xs @ (if cc_peerFin s then [Item_end] else [])) (items (took s))"
    and "\<not> cc_done s \<and> zs = [] \<and> items (took s) = notices s \<or> cc_done s \<and> (\<exists>e. zs = [Item_close e])"
  shows "told s"
  unfolding told_def
  using assms by (intro exI [of _ xs] exI [of _ "map Item_data xs @ (if cc_peerFin s then [Item_end] else [])"] exI [of _ zs]) auto

lemma handled_inv:
  assumes inv: "circuit_inv c t0 ds n s" and live: "\<not> cc_done s"
    and q: "open_record c rec h (cc_session s) = (Inr (Opened_data p), t)" and p: "decodeStreamMessage p = Inr m"
    and h: "handled c m (judged (Inr (Opened_data p)) t s) s'"
  shows "circuit_inv c t0 (ds @ [(rec, h)]) n s'"
proof -
  let ?j = "judged (Inr (Opened_data p)) t s"
  have "core ?j = core s" by simp
  then have j: "cc_sendWindow ?j = cc_sendWindow s" "cc_receivedUngranted ?j = cc_receivedUngranted s" "cc_peerFin ?j = cc_peerFin s"
    "cc_consumedUngranted ?j = cc_consumedUngranted s" "cc_sentFin ?j = cc_sentFin s" by (simp_all add: core_def)
  have s: "tidy s" "follows_session c t0 s" "received c t0 ds s" "told s" "sending s" "counting n s" using inv by (simp_all add: circuit_inv_def)
  have s': "tidy s'" "said s' = said s" "records_opened s' = records_opened ?j" "receiving_part (cc_session s') = receiving_part t"
    "follows_session c t0 ?j \<longrightarrow> follows_session c t0 s'" "cc_sentFin s' = cc_sentFin s" "cc_consumedUngranted s' = cc_consumedUngranted s"
    using h j by (simp_all add: handled_def said_def)
  have took: "took s' = took s @ [m]" using s'(3) p by (simp add: took_def)
  have m: "credits [m] = (case m of Msg_window k \<Rightarrow> int_of k | _ \<Rightarrow> 0)" "0 \<le> credits [m]"
    using p by (cases m; simp add: decoded_credit)+
  have "follows_session c t0 s'" using s'(5) judged_tracks [OF s(2) q] by simp
  moreover have "received c t0 (ds @ [(rec, h)]) s'"
    using judged_received [OF s(3) q] s'(3,4) by (simp add: received_def)
  moreover obtain xs where body: "notices s = map Item_data xs @ (if cc_peerFin s then [Item_end] else [])"
    "items (took s) = notices s" using told_live [OF s(4) live] by blast
  have books: "fw_available (cc_sendWindow s) + int (length (bytes_of (items (said s)))) \<le> STREAM_WINDOW_INITIAL + credits (took s)"
    "wf_window (cc_sendWindow s)" "fw_initial (cc_sendWindow s) = STREAM_WINDOW_INITIAL"
    "\<exists>xs fin. items (said s') = map Item_data xs @ (if fin then [Item_end] else []) \<and> (fin \<longrightarrow> cc_sentFin s')"
    using s(5) s'(2,6) by (simp_all add: sending_def)
  have kept: "sending s'" if "cc_sendWindow s' = cc_sendWindow s"
    using books that s'(2,6) took m(2) by (simp add: sending_def)
  from h consider
      (quiet) "cc_peerFin s' = cc_peerFin s" "cc_receivedUngranted s' = cc_receivedUngranted s" "notices s' = notices s" "\<not> cc_done s'"
        "items [m] = []" "cc_sendWindow s' = (case m of Msg_window k \<Rightarrow> (cc_sendWindow s)\<lparr>fw_available :=
          min (fw_initial (cc_sendWindow s)) (fw_available (cc_sendWindow s) + int_of k)\<rparr> | _ \<Rightarrow> cc_sendWindow s)"
    | (over) e where "cc_peerFin s' = cc_peerFin s" "cc_receivedUngranted s' = cc_receivedUngranted s" "cc_sendWindow s' = cc_sendWindow s"
        "cc_done s'" "notices s' = notices s @ [Item_close (Some e)]"
    | (data) d where "m = Msg_data d" "\<not> cc_peerFin s" "\<not> cc_peerFin s'" "cc_sendWindow s' = cc_sendWindow s" "\<not> cc_done s'"
        "cc_receivedUngranted s' = cc_receivedUngranted s + int (length d)" "cc_receivedUngranted s' \<le> STREAM_WINDOW_INITIAL"
        "notices s' = notices s @ [Item_data d]"
    | (fin) zs where "m = Msg_fin" "\<not> cc_peerFin s" "cc_peerFin s'" "cc_sendWindow s' = cc_sendWindow s"
        "cc_receivedUngranted s' = cc_receivedUngranted s" "notices s' = notices s @ [Item_end] @ zs"
        "zs = [] \<and> \<not> cc_done s' \<or> cc_done s' \<and> (\<exists>e. zs = [Item_close e])"
    unfolding handled_def j judged_rest by (elim conjE disjE exE) (blast+)
  then have "told s' \<and> sending s' \<and> counting n s'"
  proof cases
    case quiet
    have "sending s'"
    proof (cases m)
      case (Msg_window k)
      with p decoded_credit have "valid_credit k" by blast
      with Msg_window quiet(6) books s'(2) took show ?thesis by (auto simp: sending_def wf_window_def)
    qed (use quiet(6) kept in simp_all)
    moreover have "told s'" by (rule toldI [of _ xs "[]"]) (use quiet took body in simp_all)
    ultimately show ?thesis using quiet s(6) s'(2,7) by (simp add: counting_def)
  next
    case over
    have "told s'" by (rule toldI [of _ xs "[Item_close (Some e)]"]) (use over took body in simp_all)
    then show ?thesis using over kept s(6) s'(2,7) by (simp add: counting_def)
  next
    case data
    have "told s'" by (rule toldI [of _ "xs @ [d]" "[]"]) (use data took body in simp_all)
    then show ?thesis using data kept s(6) s'(2,7) by (simp add: counting_def)
  next
    case fin
    have "told s'" by (rule toldI [of _ xs zs]) (use fin took body in auto)
    moreover have "bytes_of zs = []" using fin(7) by auto
    ultimately show ?thesis using fin kept s(6) s'(2,7) by (simp add: counting_def)
  qed
  ultimately show ?thesis using s'(1) by (simp add: circuit_inv_def)
qed


lemma inv_more_frames: "circuit_inv c t0 ds n s \<Longrightarrow> circuit_inv c t0 (ds @ es) n s"
  by (auto simp: circuit_inv_def intro: received_mono)

lemma circuit_receive_record:
  assumes "\<not> cc_done s" "f_type f = FrameType STREAM_DATA" "f_streamId f = E2E_STREAM_ID" "f_flags f = 0"
    and "open_record c (f_payload f) (frame_header f) (cc_session s) = (q, t)"
  shows "circuit_receive c w f s =
    (let s1 = judged q t (s\<lparr>cc_lastActivity := cw_now w\<rparr>) in
     case q of
       Inl e \<Rightarrow> (Inr (), circuit_fail (session_code e) s1)
     | Inr Opened_key_update \<Rightarrow> (Inr (), s1)
     | Inr Opened_close \<Rightarrow> (Inr (), if \<not> cc_peerFin s then circuit_fail (ErrorCode TRUNCATED) (s1\<lparr>cc_peerClose := True\<rparr>)
         else maybeComplete (s1\<lparr>cc_peerClose := True\<rparr>))
     | Inr (Opened_data p) \<Rightarrow> (case decodeStreamMessage p of
         Inl e \<Rightarrow> (Inr (), circuit_fail (decode_code e) s1) | Inr m \<Rightarrow> handleMessage c w m s1))"
  using assms by (auto simp: circuit_receive_def Let_def judged_def split: sum.split opened_record.split)

lemma inv_receive:
  assumes "circuit_inv c t0 ds n s"
  shows "fst (circuit_receive c w f s) = Inr () \<and>
    circuit_inv c t0 (ds @ [(f_payload f, frame_header f)]) n (snd (circuit_receive c w f s))"
proof (cases "cc_done s")
  case True
  then show ?thesis using inv_more_frames assms by (simp add: circuit_receive_def)
next
  case live: False
  let ?s = "s\<lparr>cc_lastActivity := cw_now w\<rparr>" and ?d = "(f_payload f, frame_header f)"
  have "moved c faults [] s ?s" by (rule movedI) (simp_all add: core_def)
  then have inv: "circuit_inv c t0 ds n ?s" by (rule moved_plain [OF assms]) simp_all
  show ?thesis
  proof (cases "f_type f = FrameType STREAM_DATA \<and> f_streamId f = E2E_STREAM_ID \<and> f_flags f = 0")
    case False
    then have "circuit_receive c w f s = (Inr (), remoteDestroyed ?s) \<or>
        circuit_receive c w f s = (Inr (), circuit_fail (ErrorCode PROTOCOL_VIOLATION) ?s)"
      using live by (auto simp: circuit_receive_def Let_def)
    with moved_plain [OF inv moved_destroyed] moved_plain [OF inv moved_fail] inv_more_frames show ?thesis by auto
  next
    case True
    obtain q t where q: "open_record c (f_payload f) (frame_header f) (cc_session s) = (q, t)" by fastforce
    then have qs: "open_record c (f_payload f) (frame_header f) (cc_session ?s) = (q, t)" by simp
    note r = circuit_receive_record [OF live _ _ _ q, of w, unfolded Let_def]
    let ?j = "judged q t ?s"
    have plain: "circuit_inv c t0 (ds @ [?d]) n ?j" if "messages (case q of Inl _ \<Rightarrow> [] | Inr o' \<Rightarrow> [o']) = []"
      by (rule judged_plain [OF inv qs that])
    show ?thesis
    proof (cases q)
      case (Inl e)
      with plain have "circuit_inv c t0 (ds @ [?d]) n ?j" by simp
      with r True Inl moved_plain [OF _ moved_fail] show ?thesis by simp
    next
      case (Inr x)
      show ?thesis
      proof (cases x)
        case Opened_key_update
        with plain r True Inr show ?thesis by simp
      next
        case Opened_close
        let ?k = "?j\<lparr>cc_peerClose := True\<rparr>"
        have "circuit_inv c t0 (ds @ [?d]) n ?j" using plain Inr Opened_close by simp
        then have "circuit_inv c t0 (ds @ [?d]) n ?k" by (rule behaved_plain [of _ _ _ _ _ faults "[]"]) (simp_all add: behavedI)
        with r True Inr Opened_close moved_plain [OF _ moved_fail] moved_plain [OF _ moved_maybeComplete] show ?thesis by simp
      next
        case (Opened_data p)
        show ?thesis
        proof (cases "decodeStreamMessage p")
          case (Inl e)
          with plain Inr Opened_data have "circuit_inv c t0 (ds @ [?d]) n ?j" by simp
          with r True Inr Opened_data Inl moved_plain [OF _ moved_fail] show ?thesis by simp
        next
          case m: (Inr m)
          obtain b s' where h: "handleMessage c w m ?j = (b, s')" by fastforce
          have "tidy ?j" "\<not> cc_done ?j" using inv live by (simp_all add: circuit_inv_def)
          from handleMessage_handled [OF this m h] have b: "b = Inr ()" "handled c m ?j s'" by auto
          have "circuit_inv c t0 (ds @ [?d]) n s'"
            by (rule handled_inv [OF inv _ _ m]) (use live q b Inr Opened_data in simp_all)
          with r True Inr Opened_data m h b(1) show ?thesis by simp
        qed
      qed
    qed
  qed
qed

section \<open>Runs\<close>

lemma inv_step: "circuit_inv c t0 ds n s \<Longrightarrow> circuit_inv c t0 (ds @ fed_by e) (n + eaten_by e) (circuit_step c (w, e) s)"
proof (cases e)
  case (Ev_open port)
  assume inv: "circuit_inv c t0 ds n s"
  obtain ms where ms: "moved c faults ms s (snd (circuit_open c w port s))" "set ms \<subseteq> {Msg_open port}" using moved_open by blast
  with plain_messages [OF ms(2)] moved_plain [OF inv ms(1)] Ev_open show ?thesis by simp
next
  case Ev_accept
  assume inv: "circuit_inv c t0 ds n s"
  obtain ms where ms: "behaved c faults ms s (circuit_accept c w s)" "set ms \<subseteq> {Msg_opened}"
    "core (circuit_accept c w s) = core (s\<lparr>cc_sentOpened := cc_sentOpened (circuit_accept c w s)\<rparr>)"
    using behaved_accept [of c s w] inv by (auto simp: circuit_inv_def)
  from ms(3) have "cc_sendWindow (circuit_accept c w s) = cc_sendWindow s" "cc_sentFin (circuit_accept c w s) = cc_sentFin s"
    "cc_receivedUngranted (circuit_accept c w s) = cc_receivedUngranted s"
    "cc_consumedUngranted (circuit_accept c w s) = cc_consumedUngranted s" by (simp_all add: core_def)
  with plain_messages [OF ms(2)] behaved_plain [OF inv ms(1)] Ev_accept show ?thesis by simp
next
  case (Ev_reset code)
  assume inv: "circuit_inv c t0 ds n s"
  obtain ms where ms: "moved c UNIV ms s (circuit_reset c w code s)" "set ms \<subseteq> {Msg_reset code}" using moved_reset by blast
  with plain_messages [OF ms(2)] moved_plain [OF inv ms(1)] Ev_reset show ?thesis by simp
next
  case Ev_bind
  assume inv: "circuit_inv c t0 ds n s"
  have "core (did a u) = core u" for a u by (simp add: core_def)
  then have "core (circuit_bind s) = core (s\<lparr>cc_bound := True, cc_backlog := []\<rparr>)" by (simp add: circuit_bind_def Let_def)
  then have "cc_sendWindow (circuit_bind s) = cc_sendWindow s" "cc_sentFin (circuit_bind s) = cc_sentFin s"
    "cc_receivedUngranted (circuit_bind s) = cc_receivedUngranted s" "cc_consumedUngranted (circuit_bind s) = cc_consumedUngranted s"
    by (simp_all add: core_def)
  then show ?thesis using behaved_plain [OF inv behaved_bind] Ev_bind by simp
qed (simp_all add: inv_write inv_consumed inv_end inv_receive moved_plain [OF _ moved_poke] moved_plain [OF _ moved_abort]
    moved_plain [OF _ moved_destroyed])

definition fed :: "(circuit_world \<times> circuit_event) list \<Rightarrow> (bytes \<times> record_header) list" where
  "fed evs = concat (map (fed_by \<circ> snd) evs)"

definition eaten :: "(circuit_world \<times> circuit_event) list \<Rightarrow> int" where
  "eaten evs = sum_list (map (eaten_by \<circ> snd) evs)"

lemma inv_run: "circuit_inv c t0 ds n s \<Longrightarrow> circuit_inv c t0 (ds @ fed evs) (n + eaten evs) (circuit_run c evs s)"
proof (induction evs arbitrary: ds n s)
  case (Cons x evs)
  obtain w e where x: "x = (w, e)" by fastforce
  from Cons.IH [OF inv_step [OF Cons.prems, of e w]] show ?case by (simp add: x fed_def eaten_def add.assoc)
qed (simp add: fed_def eaten_def)

lemma SecureCircuit_Inr:
  assumes "SecureCircuit w i t role = Inr s"
  shows "cc_session s = t" "cc_log s = []" "cc_backlog s = []" "cc_id s = i" "cc_role s = role"
    "\<not> cc_done s" "\<not> cc_peerFin s" "\<not> cc_sentFin s" "\<not> cc_bound s" "cc_receivedUngranted s = 0" "cc_consumedUngranted s = 0"
    "cc_sendWindow s = \<lparr>fw_available = STREAM_WINDOW_INITIAL, fw_initial = STREAM_WINDOW_INITIAL\<rparr>" "\<not> cc_started s"
    "\<not> cc_sentClose s" "\<not> cc_peerClose s"
  using assms by (auto simp: SecureCircuit_def FlowWindow_def rbind_def split: sum.splits if_splits)

lemma inv_start:
  assumes "SecureCircuit w i t role = Inr s" and "sc_failed t = None"
  shows "circuit_inv c t [] 0 s"
proof -
  note st = SecureCircuit_Inr [OF assms(1)]
  have e: "sealed s = []" "records_opened s = []" "notices s = []" using st by (simp_all add: sealed_def records_opened_def notices_def)
  then have "said s = []" "took s = []" by (simp_all add: said_def took_def)
  moreover have "received c t [] s" unfolding received_def by (intro exI [of _ "[]"]) (use e st in simp)
  ultimately show ?thesis
    using e st assms(2)
    by (auto simp: circuit_inv_def tidy_def follows_session_def same_send_def told_def sending_def counting_def wf_window_def STREAM_WINDOW_INITIAL_def)
qed

text \<open>What holds after any run of a new circuit.\<close>

lemma run_inv:
  assumes "SecureCircuit w i t role = Inr s" and "sc_failed t = None"
  shows "circuit_inv c t (fed evs) (eaten evs) (circuit_run c evs s)"
  using inv_run [OF inv_start [OF assms], of c evs] by simp

end
