(* ===== verification/Circuit_Properties.thy ===== *)
theory Circuit_Properties
  imports Circuit_Safety
begin

text \<open>
  The properties of \<^verbatim>\<open>SecureCircuit\<close>: what its owner is told, what that says about the owner at the other end whatever the
  relay between them does, and how much either end may have outstanding.
\<close>

section \<open>Clean ends\<close>

fun resets :: "circuit_event \<Rightarrow> bool" where
  "resets (Ev_reset _) = True"
| "resets _ = False"

definition clean :: "secure_circuit \<Rightarrow> bool" where
  "clean s \<longleftrightarrow> (Item_close None \<in> set (notices s) \<longrightarrow> cc_peerFin s)"

lemma clean_ended: "ended es s s' \<Longrightarrow> cc_peerFin s' = cc_peerFin s \<Longrightarrow> clean s \<Longrightarrow> (None \<in> es \<Longrightarrow> cc_peerFin s) \<Longrightarrow> clean s'"
  unfolding clean_def ended_def by auto

lemma clean_behaved:
  "behaved c es ms s s' \<Longrightarrow> tidy s \<Longrightarrow> clean s \<Longrightarrow> (None \<in> es \<Longrightarrow> cc_peerFin s) \<Longrightarrow> clean s'"
  unfolding behaved_def by (meson clean_ended)

lemma clean_faults: "behaved c faults ms s s' \<Longrightarrow> tidy s \<Longrightarrow> clean s \<Longrightarrow> clean s'"
  by (rule clean_behaved) auto

lemma clean_moved: "moved c faults ms s s' \<Longrightarrow> tidy s \<Longrightarrow> clean s \<Longrightarrow> clean s'"
  by (blast intro: clean_faults moved_behaved)

lemma clean_outcomes: "behaved c (outcomes s) ms s s' \<Longrightarrow> tidy s \<Longrightarrow> clean s \<Longrightarrow> clean s'"
  by (rule clean_behaved) (auto simp: outcomes_def split: if_splits)

lemma clean_judged: "clean (judged q t s) \<longleftrightarrow> clean s"
  using arg_cong [OF judged_rest(1), of "\<lambda>(_, _, _, _, f, _). f" q t s] by (simp add: clean_def core_def)

lemma clean_handled: "handled c m s s' \<Longrightarrow> clean s \<Longrightarrow> clean s'"
  unfolding clean_def handled_def by (elim conjE disjE exE) auto

lemma clean_receive:
  assumes "tidy s" "clean s"
  shows "clean (snd (circuit_receive c w f s))"
proof (cases "cc_done s")
  case True
  with assms show ?thesis by (simp add: circuit_receive_def)
next
  case live: False
  let ?s = "s\<lparr>cc_lastActivity := cw_now w\<rparr>"
  have s: "tidy ?s" "clean ?s" using assms by (simp_all add: tidy_def clean_def)
  show ?thesis
  proof (cases "f_type f = FrameType STREAM_DATA \<and> f_streamId f = E2E_STREAM_ID \<and> f_flags f = 0")
    case False
    then have "circuit_receive c w f s = (Inr (), remoteDestroyed ?s) \<or>
        circuit_receive c w f s = (Inr (), circuit_fail (ErrorCode PROTOCOL_VIOLATION) ?s)"
      using live by (auto simp: circuit_receive_def Let_def)
    with clean_outcomes [OF moved_behaved [OF moved_destroyed] s] clean_moved [OF moved_fail s] show ?thesis by auto
  next
    case True
    obtain q t where q: "open_record c (f_payload f) (frame_header f) (cc_session s) = (q, t)" by fastforce
    note r = circuit_receive_record [OF live _ _ _ q, of w, unfolded Let_def]
    let ?j = "judged q t ?s" and ?k = "(judged q t ?s)\<lparr>cc_peerClose := True\<rparr>"
    have j: "tidy ?j" "clean ?j" "\<not> cc_done ?j" using s live by (simp_all add: clean_judged)
    have "core ?j = core ?s" by simp
    then have k: "tidy ?k" "clean ?k" "cc_peerFin ?k = cc_peerFin s" using j by (simp_all add: tidy_def clean_def core_def)
    have fail: "clean (circuit_fail n ?j)" "clean (circuit_fail n ?k)" for n
      using clean_moved [OF moved_fail] j k by blast+
    have complete: "clean (maybeComplete ?k)" if "cc_peerFin s"
      by (rule clean_behaved [OF moved_behaved [OF moved_maybeComplete] k(1,2)]) (simp add: k(3) that)
    have "clean (snd (handleMessage c w m ?j))" if "decodeStreamMessage p = Inr m" for p m
      using handleMessage_handled [OF j(1,3) that, of c w] clean_handled j(2) by (cases "handleMessage c w m ?j") auto
    with r True fail complete j show ?thesis by (auto split: sum.split opened_record.split)
  qed
qed

lemma clean_step: "circuit_inv c t0 ds n s \<Longrightarrow> clean s \<Longrightarrow> \<not> resets e \<Longrightarrow> clean (circuit_step c (w, e) s)"
proof -
  assume inv: "circuit_inv c t0 ds n s" and cl: "clean s" and e: "\<not> resets e"
  have tidy: "tidy s" and cnt: "0 \<le> cc_receivedUngranted s" "0 \<le> cc_consumedUngranted s"
    and win: "wf_window (cc_sendWindow s)" using inv by (simp_all add: circuit_inv_def counting_def sending_def)
  show ?thesis
  proof (cases e)
    case Ev_bind
    then show ?thesis using clean_faults [OF behaved_bind tidy cl] by simp
  next
    case Ev_poke
    then show ?thesis using clean_moved [OF moved_poke tidy cl] by simp
  next
    case (Ev_open port)
    then show ?thesis using moved_open [of c s w port] clean_moved tidy cl by auto
  next
    case Ev_accept
    then show ?thesis using behaved_accept [of c s w] clean_faults tidy cl by auto
  next
    case (Ev_write data)
    obtain r s' where r: "write_from c w data 0 s = (r, s')" by fastforce
    from write_from_wrote [OF r tidy win] clean_faults tidy cl Ev_write r show ?thesis
      by (auto simp: wrote_def circuit_write_def)
  next
    case (Ev_consumed k)
    then show ?thesis using behaved_consumed [OF tidy cnt, of c w k] clean_faults tidy cl by auto
  next
    case Ev_end
    then show ?thesis using behaved_end [OF tidy, of c w] clean_outcomes tidy cl by auto
  next
    case Ev_abort
    then show ?thesis using clean_moved [OF moved_abort tidy cl] by simp
  next
    case (Ev_receive f)
    then show ?thesis using clean_receive [OF tidy cl] by simp
  next
    case Ev_destroyed
    then show ?thesis using clean_outcomes [OF moved_behaved [OF moved_destroyed] tidy cl] by simp
  qed (use e in simp)
qed

lemma clean_run: "circuit_inv c t0 ds n s \<Longrightarrow> clean s \<Longrightarrow> \<forall>x \<in> set evs. \<not> resets (snd x) \<Longrightarrow> clean (circuit_run c evs s)"
proof (induction evs arbitrary: ds n s)
  case (Cons x evs)
  obtain w e where x: "x = (w, e)" by fastforce
  from Cons.IH [OF inv_step [OF Cons.prems(1), of e w] clean_step [OF Cons.prems(1,2), of e w]] Cons.prems(3) show ?case
    by (simp add: x)
qed simp

section \<open>The other end\<close>

text \<open>The records a circuit has sealed since its session was new, as the network sees them.\<close>

definition history :: "crypto \<Rightarrow> session_cipher \<Rightarrow> secure_circuit \<Rightarrow> sent list" where
  "history c t s = send_all c 0 (map (\<lambda>x. (x, RECORD_HEADER)) (sealed s)) t"

lemma tracks_history: "follows_session c t s \<Longrightarrow> map (seen_as \<circ> sent_op) (history c t s) = map seen_as (sealed s)"
  using after_sends_history [of c "sealed s" t] unfolding follows_session_def history_def by (metis map_map)

lemma messages_prefix: "prefix xs ys \<Longrightarrow> prefix (messages xs) (messages ys)"
  by (auto simp: prefix_def)

lemma items_prefix: "prefix xs ys \<Longrightarrow> prefix (items xs) (items ys)"
  by (auto simp: prefix_def)

lemma unforged_subset: "unforged c k hist ds \<Longrightarrow> set ds' \<subseteq> set ds \<Longrightarrow> unforged c k hist ds'"
  unfolding unforged_def by blast

text \<open>Without forgeries, the messages one end takes are an initial part of those the other end has sealed.\<close>

lemma took_prefix_said:
  assumes "circuit_inv c tA dsA nA A" "circuit_inv c tB dsB nB B"
    and "sc_sendCounter tA = sc_receiveCounter tB" and "unforged c (sc_receiveKey tB) (history c tA A) dsB"
  shows "prefix (took B) (said A)"
proof -
  from assms(2) obtain ds ms t where d: "set ds \<subseteq> set dsB" "deliver c ds tB = (ms, t)" "map snd ms = records_opened B"
    by (auto simp: circuit_inv_def received_def)
  have "prefix (fst (deliver c ds tB)) (map content (history c tA A))"
    unfolding history_def
    by (rule received_prefix) (use unforged_subset [OF assms(4) d(1)] assms(3) in \<open>simp_all add: history_def\<close>)
  then have "prefix (map snd ms) (map snd (map content (history c tA A)))"
    using d(2) map_mono_prefix [of ms "map content (history c tA A)" snd] by simp
  then have "prefix (records_opened B) (map seen_as (sealed A))"
    using d(3) tracks_history [of c tA A] assms(1) by (simp add: circuit_inv_def comp_def)
  then show ?thesis by (simp add: took_def said_def messages_prefix)
qed

lemma told_obtain:
  assumes "told s"
  obtains xs ys zs where "notices s = map Item_data xs @ (if cc_peerFin s then [Item_end] else []) @ zs"
    "items (took s) = (map Item_data xs @ (if cc_peerFin s then [Item_end] else [])) @ ys"
    "bytes_of (notices s) = concat xs" "Item_end \<in> set (notices s) \<longleftrightarrow> cc_peerFin s"
    "if cc_done s then \<exists>e. zs = [Item_close e] else zs = []"
proof -
  from assms obtain xs body zs where b: "body = map Item_data xs @ (if cc_peerFin s then [Item_end] else [])" "notices s = body @ zs"
    "prefix body (items (took s))" "\<not> cc_done s \<and> zs = [] \<and> body = items (took s) \<or> cc_done s \<and> (\<exists>e. zs = [Item_close e])"
    unfolding told_def by blast
  from b(4) have z: "bytes_of zs = []" "Item_end \<notin> set zs" "if cc_done s then \<exists>e. zs = [Item_close e] else zs = []" by auto
  from b(3) obtain ys where ys: "items (took s) = body @ ys" unfolding prefix_def by blast
  have "bytes_of body = concat xs" "Item_end \<in> set body \<longleftrightarrow> cc_peerFin s" by (auto simp: b(1))
  then have "bytes_of (notices s) = concat xs" "Item_end \<in> set (notices s) \<longleftrightarrow> cc_peerFin s" using z(1,2) by (simp_all add: b(2))
  with b(1,2) z(3) ys show ?thesis by (intro that [of xs zs ys]) simp_all
qed

lemma data_before_end: "map Item_data ys @ [Item_end] = map Item_data xs @ Item_end # zs \<Longrightarrow> xs = ys"
proof (induction xs arbitrary: ys)
  case Nil
  then show ?case by (cases ys) simp_all
next
  case (Cons x xs)
  then show ?case by (cases ys) simp_all
qed

lemma all_of_stream:
  assumes "prefix (map Item_data xs @ [Item_end]) (map Item_data ys @ (if fin then [Item_end] else []))"
  shows "fin \<and> xs = ys"
proof -
  obtain zs where eq: "map Item_data ys @ (if fin then [Item_end] else []) = map Item_data xs @ Item_end # zs"
    using assms by (auto simp: prefix_def)
  have "Item_end \<in> set (map Item_data ys @ (if fin then [Item_end] else []))" unfolding eq by simp
  then have fin by (auto split: if_splits)
  with eq data_before_end [of ys xs zs] show ?thesis by simp
qed

text \<open>What an owner has been told, against the stream the other end has sealed.\<close>

lemma delivered_stream:
  assumes "told s" and "prefix (items (took s)) stream" and "stream = map Item_data ys @ (if fin then [Item_end] else [])"
  shows "prefix (bytes_of (notices s)) (bytes_of stream) \<and> (Item_end \<in> set (notices s) \<longrightarrow> bytes_of (notices s) = bytes_of stream \<and> fin)"
proof -
  from assms(1) obtain xs us zs where h: "items (took s) = (map Item_data xs @ (if cc_peerFin s then [Item_end] else [])) @ us"
    "bytes_of (notices s) = concat xs" "Item_end \<in> set (notices s) \<longleftrightarrow> cc_peerFin s"
    by (rule told_obtain)
  from assms(2) obtain vs where vs: "stream = items (took s) @ vs" by (auto simp: prefix_def)
  then have "bytes_of stream = concat xs @ bytes_of us @ bytes_of vs" using h(1) by simp
  moreover have "fin \<and> xs = ys" if "cc_peerFin s"
  proof -
    have "stream = (map Item_data xs @ [Item_end]) @ us @ vs" using vs h(1) that by simp
    then show ?thesis using all_of_stream [of xs ys fin] assms(3) by (metis prefixI)
  qed
  ultimately show ?thesis using h(2,3) assms(3) by auto
qed

lemma credits_nonneg: "\<forall>m \<in> set ms. \<exists>p. decodeStreamMessage p = Inr m \<Longrightarrow> 0 \<le> credits ms"
proof (induction ms)
  case (Cons m ms)
  then have "0 \<le> credits [m]" by (cases m) (auto dest: decoded_credit)
  with Cons credits_append [of "[m]" ms] show ?case by simp
qed simp

lemma messages_decoded: "m \<in> set (messages xs) \<Longrightarrow> \<exists>p. decodeStreamMessage p = Inr m"
  by (induction xs rule: messages.induct) (auto split: sum.splits)

lemma credits_prefix: "prefix (took A) (said B) \<Longrightarrow> credits (took A) \<le> credits (said B)"
proof -
  assume "prefix (took A) (said B)"
  then obtain ms where ms: "said B = took A @ ms" by (auto simp: prefix_def)
  have "\<forall>m \<in> set ms. m \<in> set (said B)" using ms by simp
  then have "0 \<le> credits ms" using credits_nonneg messages_decoded by (metis said_def)
  with ms show ?thesis by simp
qed

lemma circuit_parts:
  assumes "SecureCircuit wA iA tA roleA = Inr A0" and "SecureCircuit wB iB tB roleB = Inr B0"
    and "sc_failed tA = None" and "sc_failed tB = None" and "sc_sendCounter tA = sc_receiveCounter tB"
    and "A = circuit_run c evsA A0" and "B = circuit_run c evsB B0"
    and "unforged c (sc_receiveKey tB) (history c tA A) (fed evsB)"
  shows "prefix (bytes_of (notices B)) (bytes_of (items (said A))) \<and>
    (Item_end \<in> set (notices B) \<longrightarrow> bytes_of (notices B) = bytes_of (items (said A)) \<and> cc_sentFin A)"
proof -
  have A: "circuit_inv c tA (fed evsA) (eaten evsA) A" unfolding assms(6) by (rule run_inv [OF assms(1,3)])
  have B: "circuit_inv c tB (fed evsB) (eaten evsB) B" unfolding assms(7) by (rule run_inv [OF assms(2,4)])
  have "prefix (items (took B)) (items (said A))" by (rule items_prefix [OF took_prefix_said [OF A B assms(5,8)]])
  moreover have "told B" using B by (simp add: circuit_inv_def)
  moreover obtain ys fin where ys: "items (said A) = map Item_data ys @ (if fin then [Item_end] else [])" "fin \<longrightarrow> cc_sentFin A"
    using A by (auto simp: circuit_inv_def sending_def)
  ultimately show ?thesis using ys delivered_stream [of B "items (said A)" ys fin] by blast
qed

section \<open>Properties\<close>

text \<open>
  C7. End-to-end integrity. Let two circuits hold the two ends of a session, and let anything happen at either of them: any calls by their owners and
  any frames from the network, without forgeries. Then the bytes one owner is given are an initial part of the bytes the other end has sealed, in
  order; and if it is told that the data ended, it was given all of them, and the other end will send no more.
\<close>

theorem circuit_integrity:
  assumes "SecureCircuit wA iA tA roleA = Inr A0" and "SecureCircuit wB iB tB roleB = Inr B0"
    and "sc_failed tA = None" and "sc_failed tB = None" and "sc_sendCounter tA = sc_receiveCounter tB"
    and "A = circuit_run c evsA A0" and "B = circuit_run c evsB B0"
    and "unforged c (sc_receiveKey tB) (history c tA A) (fed evsB)"
  shows "prefix (bytes_of (notices B)) (bytes_of (items (said A))) \<and>
    (Item_end \<in> set (notices B) \<longrightarrow> bytes_of (notices B) = bytes_of (items (said A)) \<and> cc_sentFin A)"
  using assms by (rule circuit_parts)

text \<open>
  C31. What the owner is told, and in which order, over any run: pieces of data, then at most one end of the data, then the close, once, exactly when
  the circuit is over. That the callbacks were bound late makes no difference.
\<close>

theorem circuit_events_in_order:
  assumes "SecureCircuit w i t role = Inr s0" and "sc_failed t = None" and "s = circuit_run c evs s0"
  shows "\<exists>xs. notices s = map Item_data xs @ (if cc_peerFin s then [Item_end] else []) @
      (if cc_done s then [last (notices s)] else []) \<and> (cc_done s \<longrightarrow> (\<exists>e. last (notices s) = Item_close e))"
proof -
  have "told s" using run_inv [OF assms(1,2), of c evs] assms(3) by (simp add: circuit_inv_def)
  then obtain xs us zs where h: "notices s = map Item_data xs @ (if cc_peerFin s then [Item_end] else []) @ zs"
    "if cc_done s then \<exists>e. zs = [Item_close e] else zs = []" by (rule told_obtain)
  then show ?thesis by (intro exI [of _ xs]) (auto split: if_splits)
qed

text \<open>
  C8. A clean end is a complete one. If the owner of one end never resets it and is told that the circuit closed without error, then it was
  given every byte the other end sealed, and the other end had finished: a relay cannot make a cut stream look finished.
\<close>

theorem clean_end_is_complete:
  assumes "SecureCircuit wA iA tA roleA = Inr A0" and "SecureCircuit wB iB tB roleB = Inr B0"
    and "sc_failed tA = None" and "sc_failed tB = None" and "sc_sendCounter tA = sc_receiveCounter tB"
    and "A = circuit_run c evsA A0" and "B = circuit_run c evsB B0"
    and "unforged c (sc_receiveKey tB) (history c tA A) (fed evsB)"
    and "\<forall>x \<in> set evsB. \<not> resets (snd x)" and "Item_close None \<in> set (notices B)"
  shows "bytes_of (notices B) = bytes_of (items (said A)) \<and> Item_end \<in> set (notices B) \<and> cc_sentFin A"
proof -
  note st = SecureCircuit_Inr [OF assms(2)]
  have "clean B0" using st by (simp add: clean_def notices_def)
  then have "clean B" using clean_run [OF inv_start [OF assms(2,4)]] assms(7,9) by blast
  moreover have "told B" using run_inv [OF assms(2,4), of c evsB] assms(7) by (simp add: circuit_inv_def)
  then have "Item_end \<in> set (notices B) \<longleftrightarrow> cc_peerFin B" by (rule told_obtain)
  ultimately have "Item_end \<in> set (notices B)" using assms(10) by (simp add: clean_def)
  with circuit_parts [OF assms(1-8)] show ?thesis by blast
qed

text \<open>
  C10. Back-pressure bounds what a circuit holds. Whatever the peer sends, the bytes a circuit has accepted and its owner has not yet reported
  consumed, held back for a late binding or queued at the owner, never exceed one initial window.
\<close>

theorem receive_buffer_bounded:
  assumes "SecureCircuit w i t role = Inr s0" and "sc_failed t = None"
  shows "int (length (bytes_of (notices (circuit_run c evs s0)))) \<le> STREAM_WINDOW_INITIAL + eaten evs"
  using run_inv [OF assms, of c evs] by (simp add: circuit_inv_def counting_def)

text \<open>
  C9. Honest ends never violate flow control. When the messages two circuits take are those the other sealed, in order, a piece of data always
  finds room: it is handed to the owner and the circuit goes on.
\<close>

theorem honest_data_is_taken:
  assumes "SecureCircuit wA iA tA roleA = Inr A0" and "SecureCircuit wB iB tB roleB = Inr B0"
    and "sc_failed tA = None" and "sc_failed tB = None"
    and "A = circuit_run c evsA A0" and "B = circuit_run c evsB B0"
    and "prefix (took A) (said B)" and "prefix (took B @ [Msg_data d]) (said A)"
    and "\<not> cc_done B" and "cc_started B"
  shows "fst (handleMessage c w (Msg_data d) B) = Inr () \<and> \<not> cc_done (snd (handleMessage c w (Msg_data d) B)) \<and>
    notices (snd (handleMessage c w (Msg_data d) B)) = notices B @ [Item_data d]"
proof -
  have A: "circuit_inv c tA (fed evsA) (eaten evsA) A" unfolding assms(5) by (rule run_inv [OF assms(1,3)])
  have B: "circuit_inv c tB (fed evsB) (eaten evsB) B" unfolding assms(6) by (rule run_inv [OF assms(2,4)])
  obtain xs where xs: "notices B = map Item_data xs @ (if cc_peerFin B then [Item_end] else [])" "items (took B) = notices B"
    using told_live assms(9) B by (auto simp: circuit_inv_def)
  obtain ys fin where ys: "items (said A) = map Item_data ys @ (if fin then [Item_end] else [])"
    using A by (auto simp: circuit_inv_def sending_def)
  have pre: "prefix (items (took B) @ [Item_data d]) (items (said A))" using items_prefix [OF assms(8)] by simp
  have "\<not> cc_peerFin B"
  proof
    assume "cc_peerFin B"
    with pre xs ys have p: "prefix ((map Item_data xs @ [Item_end]) @ [Item_data d]) (map Item_data ys @ (if fin then [Item_end] else []))"
      by simp
    then have "fin \<and> xs = ys" using all_of_stream append_prefixD by blast
    with p show False by simp
  qed
  moreover have "cc_receivedUngranted B + int (length d) \<le> STREAM_WINDOW_INITIAL"
  proof -
    obtain zs where "items (said A) = (items (took B) @ [Item_data d]) @ zs" using pre by (auto simp: prefix_def)
    then have "bytes_of (items (said A)) = bytes_of (notices B) @ d @ bytes_of zs" using xs(2) by simp
    then have "length (bytes_of (notices B)) + length d \<le> length (bytes_of (items (said A)))" by simp
    moreover have "0 \<le> fw_available (cc_sendWindow A)" "credits (took A) \<le> credits (said B)"
      using A credits_prefix [OF assms(7)] by (simp_all add: circuit_inv_def sending_def wf_window_def)
    ultimately show ?thesis using A B by (simp add: circuit_inv_def sending_def counting_def)
  qed
  moreover have "tidy B" using B by (simp add: circuit_inv_def)
  ultimately show ?thesis
    using assms(9,10) notices_tell [of "B\<lparr>cc_started := True, cc_receivedUngranted := cc_receivedUngranted B + int (length d)\<rparr>"]
    by (simp add: handleMessage_def Let_def tidy_def)
qed

text \<open>
  Writing. On any circuit a write returns a number of bytes taken and never throws; what it seals is an initial part of the
  data, at least as long as that number, and exactly as long unless the circuit ended during the write. An owner that keeps the rest and writes
  it later loses and repeats nothing.
\<close>

theorem write_takes_a_prefix:
  assumes "SecureCircuit w0 i t role = Inr s0" and "sc_failed t = None" and "s = circuit_run c evs s0"
    and "circuit_write c w data s = (r, s')"
  shows "\<exists>n ds k. r = Inr n \<and> n \<le> length data \<and> said s' = said s @ map Msg_data ds \<and> concat ds = take k data \<and>
    n \<le> length (concat ds) \<and> (\<not> cc_done s' \<longrightarrow> n = length (concat ds))"
proof -
  have inv: "circuit_inv c t (fed evs) (eaten evs) s" unfolding assms(3) by (rule run_inv [OF assms(1,2)])
  from assms(4) have "write_from c w data 0 s = (r, s')" by (simp add: circuit_write_def)
  from write_from_wrote [OF this] inv obtain ds where ds: "wrote c data 0 s r s' ds"
    by (auto simp: circuit_inv_def sending_def)
  from ds have "\<exists>k. concat ds = take k data" by (simp add: wrote_def)
  then obtain k where k: "concat ds = take k data" ..
  from ds have "\<exists>n. r = Inr n \<and> n \<le> length (concat ds) \<and> (\<not> cc_done s' \<longrightarrow> n = length (concat ds))" by (simp add: wrote_def)
  then obtain n where "r = Inr n" "n \<le> length (concat ds)" "\<not> cc_done s' \<longrightarrow> n = length (concat ds)" by blast
  note n = this k
  moreover have "said s' = said s @ map Msg_data ds" using ds inv by (simp add: wrote_def behaved_def circuit_inv_def)
  moreover have "n \<le> length data" using n(2,4) by simp
  moreover note n
  ultimately show ?thesis by (intro exI [of _ n] exI [of _ ds] exI [of _ k]) simp
qed

section \<open>After the end\<close>

definition silent :: "secure_circuit \<Rightarrow> secure_circuit \<Rightarrow> bool" where
  "silent s s' \<longleftrightarrow> cc_done s' \<and> tidy s' \<and> frames_sent s' = frames_sent s \<and> notices s' = notices s \<and> cc_session s' = cc_session s"

lemma frames_updates [simp]:
  "frames_sent (s\<lparr>cc_sentOpened := b\<rparr>) = frames_sent s" "frames_sent (s\<lparr>cc_bound := b\<rparr>) = frames_sent s"
  "frames_sent (s\<lparr>cc_backlog := xs\<rparr>) = frames_sent s"
  by (simp_all add: frames_sent_def)

lemma frames_replay [simp]: "frames_sent (replay xs s) = frames_sent s"
  by (induction xs arbitrary: s) simp_all

lemma sendMessage_done: "cc_done s \<Longrightarrow> sendMessage c w m s = (False, s)"
  by (simp add: sendMessage_def)

lemma silent_writable: "silent s s' \<Longrightarrow> silent s (tell_writable s')"
  by (simp add: silent_def tell_writable_def tidy_def)

lemma silent_step:
  assumes "cc_done s" "tidy s"
  shows "silent s (circuit_step c (w, e) s)"
proof (cases e)
  case Ev_bind
  have "notices (circuit_bind s) = notices s" "tidy (circuit_bind s)"
    using behaved_bind [of c "{}" s] assms by (auto simp: behaved_def ended_def)
  moreover have "frames_sent (circuit_bind s) = frames_sent s" "cc_done (circuit_bind s)" "cc_session (circuit_bind s) = cc_session s"
    using assms(1) by (simp_all add: circuit_bind_def Let_def)
  ultimately show ?thesis using Ev_bind by (simp add: silent_def)
next
  case (Ev_write data)
  have "writable w s = 0" using assms(1) by (simp add: writable_def)
  with assms Ev_write show ?thesis by (simp add: silent_def circuit_write_def write_from_stop)
next
  case Ev_accept
  have "silent s (s\<lparr>cc_sentOpened := True\<rparr>)" "silent s s" using assms by (simp_all add: silent_def tidy_def)
  with assms Ev_accept show ?thesis by (simp add: circuit_accept_def sendMessage_done silent_writable)
qed (use assms in \<open>simp_all add: silent_def poke_def circuit_open_def sendMessage_done consumed_def circuit_end_def circuit_reset_def
      abort_def circuit_receive_def remoteDestroyed_def\<close>)

lemma silent_run: "cc_done s \<Longrightarrow> tidy s \<Longrightarrow> silent s (circuit_run c evs s)"
proof (induction evs arbitrary: s)
  case (Cons x evs)
  obtain w e where "x = (w, e)" by fastforce
  with silent_step [OF Cons.prems, of c w e] Cons.IH [of "circuit_step c x s"] show ?case by (simp add: silent_def)
qed (simp add: silent_def)

text \<open>
  A circuit that is over stays over: whatever its owner calls and whatever still arrives, it hands nothing more to the link, seals and opens no
  further record, and tells its owner nothing new.
\<close>

theorem circuit_over_is_final:
  assumes "SecureCircuit w i t role = Inr s0" and "sc_failed t = None" and "s = circuit_run c evs s0" and "cc_done s"
  shows "frames_sent (circuit_run c later s) = frames_sent s \<and> notices (circuit_run c later s) = notices s \<and>
    cc_session (circuit_run c later s) = cc_session s \<and> cc_done (circuit_run c later s)"
  using silent_run [OF assms(4), of c later] run_inv [OF assms(1,2), of c evs] assms(3) by (simp add: silent_def circuit_inv_def)

section \<open>A concrete circuit\<close>

text \<open>A client that asks for port 80, writes two bytes and ends; a service node that gets its records.\<close>

definition sample_link :: circuit_world where
  "sample_link = \<lparr>cw_now = 0, cw_send = (\<lambda>_ _. True), cw_congested = (\<lambda>_. False)\<rparr>"

definition sample_end :: "session_cipher \<Rightarrow> circuit_role \<Rightarrow> secure_circuit" where
  "sample_end t role = \<lparr>cc_id = 9, cc_role = role, cc_session = t,
     cc_sendWindow = \<lparr>fw_available = STREAM_WINDOW_INITIAL, fw_initial = STREAM_WINDOW_INITIAL\<rparr>, cc_receivedUngranted = 0,
     cc_consumedUngranted = 0, cc_started = False, cc_sentOpened = False, cc_sentFin = False, cc_peerFin = False,
     cc_sentClose = False, cc_peerClose = False, cc_done = False, cc_bound = False, cc_backlog = [], cc_lastActivity = 0, cc_log = []\<rparr>"

lemma sample_new: "SecureCircuit sample_link 9 t role = Inr (sample_end t role)"
  by (simp add: SecureCircuit_def FlowWindow_def sample_end_def sample_link_def valid_credit_def guard_def MAX_WINDOW_CREDIT_def
      STREAM_WINDOW_INITIAL_def)

definition sample_writes :: "(circuit_world \<times> circuit_event) list" where
  "sample_writes = map (Pair sample_link) [Ev_open (js_int 80), Ev_write [7, 8], Ev_end]"

definition sample_frame :: "nat \<Rightarrow> bytes \<Rightarrow> frame" where
  "sample_frame n inner = \<lparr>f_version = PROTOCOL_VERSION, f_type = FrameType STREAM_DATA, f_flags = 0, f_circuitId = 9,
     f_streamId = E2E_STREAM_ID, f_payload = sample_record n inner\<rparr>"

definition sample_reads :: "(circuit_world \<times> circuit_event) list" where
  "sample_reads = map (Pair sample_link) [Ev_receive (sample_frame 0 [0, 1, 0, 80]), Ev_receive (sample_frame 1 [0, 3, 7, 8]),
     Ev_receive (sample_frame 2 [0, 6]), Ev_destroyed]"

lemma sample_record_header: "header_ad RECORD_HEADER = Inr [1, 0x22, 0, 0, 0, 0, 0, 1]"
proof -
  have "be_bytes 4 1 = [0, 0, 0, 1]" by (rule be_nat_inj; simp)+
  then show ?thesis
    unfolding frameAssociatedData_def RECORD_HEADER_def
    by (simp add: unknown_flag_bits_def PROTOCOL_VERSION_def sample_be isFrameType_def FRAME_TYPE_VALUES_def E2E_STREAM_ID_def)
qed

lemma sample_frame_header: "frame_header (sample_frame n inner) = RECORD_HEADER"
  by (simp add: frame_header_def sample_frame_def RECORD_HEADER_def)

lemma sample_frame_type: "f_type (sample_frame n inner) = FrameType STREAM_DATA" "f_streamId (sample_frame n inner) = E2E_STREAM_ID"
  "f_flags (sample_frame n inner) = 0" "f_payload (sample_frame n inner) = sample_record n inner"
  by (simp_all add: sample_frame_def)

lemma sample_seal:
  assumes "cc_session s = sample_session\<lparr>sc_sendCounter := n\<rparr>" "n < 3" "\<not> cc_done s" "\<not> cc_sentClose s"
    "encodeStreamMessage m = Inr p" "length p \<le> MAX_SEALED_PLAINTEXT"
    "stream_frame (cc_id s) (sample_record n (0 # p)) = Inr f"
  shows "sendMessage keyed_crypto sample_link m s = (True, s\<lparr>cc_session := sample_session\<lparr>sc_sendCounter := Suc n\<rparr>, cc_lastActivity := 0,
    cc_log := cc_log s @ [Act_seal (Send_data p), Act_send f]\<rparr>)"
  using assms
  by (simp add: sendMessage_def seal_and_send_def and_then_def seal_message_def session_send_def needsKeyUpdate_def sendRecord_def
      seal_def assertCanSend_def sealRecord_def sample_record_header sample_session_def SessionCipher_def sample_limits_def
      encryptWithAd_def aeadSeal_def keyed_crypto_def RecordType sample_link_def did_def
      del: replicate.simps be_bytes.simps)

lemma sample_stream_frame: "length payload \<le> 1000 \<Longrightarrow> \<exists>f. stream_frame 9 payload = Inr f"
  by (simp add: stream_frame_def encodeFrame_def isFrameType_def FRAME_TYPE_VALUES_def unknown_flag_bits_def wire_limits
      E2E_STREAM_ID_def MAX_UINT64_def)

lemma sample_encodings:
  "encodeStreamMessage (Msg_open (js_int 80)) = Inr [1, 0, 80]" "encodeStreamMessage (Msg_data [7, 8]) = Inr [3, 7, 8]"
  "encodeStreamMessage Msg_fin = Inr [6]"
proof -
  have "be_bytes 2 80 = [0, 80]" by (rule be_nat_inj; simp)
  then show "encodeStreamMessage (Msg_open (js_int 80)) = Inr [1, 0, 80]" by (simp add: StreamMessageType)
qed (simp_all add: StreamMessageType MAX_STREAM_DATA_def wire_limits)

lemma sample_decodings:
  "decodeStreamMessage [1, 0, 80] = Inr (Msg_open (js_int 80))" "decodeStreamMessage [3, 7, 8] = Inr (Msg_data [7, 8])"
  "decodeStreamMessage [6] = Inr Msg_fin"
  using stream_decode_encode sample_encodings by blast+

abbreviation sample_client_end :: secure_circuit where
  "sample_client_end \<equiv> sample_end sample_session Client_end"

abbreviation sample_service_end :: secure_circuit where
  "sample_service_end \<equiv> sample_end sample_receiver Service_end"

lemma sample_counter: "sample_session\<lparr>sc_sendCounter := 0\<rparr> = sample_session"
  "sample_receiver\<lparr>sc_receiveCounter := 0\<rparr> = sample_receiver"
  by (simp_all add: sample_session_def sample_receiver_def SessionCipher_def)

lemma sample_client_log: "sealed (circuit_run keyed_crypto sample_writes sample_client_end) =
    [Send_data [1, 0, 80], Send_data [3, 7, 8], Send_data [6]] \<and>
    records_opened (circuit_run keyed_crypto sample_writes sample_client_end) = []"
proof -
  have "\<exists>f. stream_frame 9 (sample_record 0 [0, 1, 0, 80]) = Inr f" "\<exists>f. stream_frame 9 (sample_record 1 [0, 3, 7, 8]) = Inr f"
    "\<exists>f. stream_frame 9 (sample_record 2 [0, 6]) = Inr f"
    by (rule sample_stream_frame; simp)+
  then obtain f0 f1 f2 where f: "stream_frame 9 (sample_record 0 [0, 1, 0, 80]) = Inr f0"
    "stream_frame 9 (sample_record 1 [0, 3, 7, 8]) = Inr f1" "stream_frame 9 (sample_record 2 [0, 6]) = Inr f2" by blast
  define at_n where "at_n n l s = s\<lparr>cc_session := sample_session\<lparr>sc_sendCounter := n\<rparr>, cc_lastActivity := 0, cc_log := l\<rparr>"
    for n l and s :: secure_circuit
  define win where "win = \<lparr>fw_available = STREAM_WINDOW_INITIAL - 2, fw_initial = STREAM_WINDOW_INITIAL\<rparr>"
  let ?l1 = "[Act_seal (Send_data [1, 0, 80]), Act_send f0]"
  let ?l2 = "?l1 @ [Act_seal (Send_data [3, 7, 8]), Act_send f1]"
  let ?s1 = "at_n 1 ?l1 sample_client_end" and ?s2 = "at_n 2 ?l2 (sample_client_end\<lparr>cc_sendWindow := win\<rparr>)"
  have small: "length [1, 0, 80 :: byte] \<le> MAX_SEALED_PLAINTEXT" "length [3, 7, 8 :: byte] \<le> MAX_SEALED_PLAINTEXT"
    "length [6 :: byte] \<le> MAX_SEALED_PLAINTEXT" by (simp_all add: wire_limits)
  have 1: "circuit_step keyed_crypto (sample_link, Ev_open (js_int 80)) sample_client_end = ?s1"
    using sample_seal [of sample_client_end 0 "Msg_open (js_int 80)" "[1, 0, 80]" f0] f(1) sample_encodings(1) small(1) sample_counter(1)
    by (simp add: circuit_open_def sample_end_def at_n_def del: replicate.simps be_bytes.simps encodeStreamMessage.simps)
  have room: "writable sample_link ?s1 = int MAX_STREAM_DATA"
    by (simp add: writable_def sample_end_def at_n_def sample_link_def remaining_def MAX_STREAM_DATA_def wire_limits STREAM_WINDOW_INITIAL_def)
  have m2: "sendMessage keyed_crypto sample_link (Msg_data [7, 8]) (?s1\<lparr>cc_sendWindow := win\<rparr>) = (True, ?s2)"
    using sample_seal [of "?s1\<lparr>cc_sendWindow := win\<rparr>" 1 "Msg_data [7, 8]" "[3, 7, 8]" f1] f(2) sample_encodings(2) small(2)
    by (simp add: sample_end_def at_n_def numeral_2_eq_2 del: replicate.simps be_bytes.simps encodeStreamMessage.simps)
  have "write_from keyed_crypto sample_link [7, 8] 0 ?s1 = write_from keyed_crypto sample_link [7, 8] (0 + nat 2) ?s2"
  proof -
    have "write_from keyed_crypto sample_link [7, 8] 0 ?s1 =
        (if True then write_from keyed_crypto sample_link [7, 8] (0 + nat 2) ?s2 else (Inr 0, ?s2))"
    proof (rule write_from_next)
      show "2 = min (writable sample_link ?s1) (int (length [7, 8 :: byte] - 0))" "writable sample_link ?s1 \<noteq> 0"
        using room by (simp_all add: MAX_STREAM_DATA_def wire_limits)
      show "fw_consume (cc_sendWindow ?s1) (js_int 2) = Inr (True, win)"
        by (simp add: fw_consume_eq at_n_def sample_end_def win_def valid_credit_def MAX_WINDOW_CREDIT_def STREAM_WINDOW_INITIAL_def)
      show "sendMessage keyed_crypto sample_link (Msg_data (take (nat 2) (drop 0 [7, 8]))) (?s1\<lparr>cc_sendWindow := win\<rparr>) = (True, ?s2)"
        using m2 by simp
    qed simp
    then show ?thesis by simp
  qed
  then have 2: "circuit_step keyed_crypto (sample_link, Ev_write [7, 8]) ?s1 = ?s2"
    by (simp add: circuit_write_def write_from_stop)
  let ?t = "?s2\<lparr>cc_sentFin := True\<rparr>"
  have "sendMessage keyed_crypto sample_link Msg_fin ?t =
      (True, at_n 3 (?l2 @ [Act_seal (Send_data [6]), Act_send f2]) ?t)"
    using sample_seal [of ?t 2 Msg_fin "[6]" f2] f(3) sample_encodings(3) small(3)
    by (simp add: sample_end_def at_n_def numeral_3_eq_3 numeral_2_eq_2 del: replicate.simps be_bytes.simps encodeStreamMessage.simps)
  then have 3: "circuit_step keyed_crypto (sample_link, Ev_end) ?s2 = at_n 3 (?l2 @ [Act_seal (Send_data [6]), Act_send f2]) ?t"
    by (simp add: circuit_end_def maybeClose_def) (simp add: sample_end_def at_n_def maybeClose_def)
  have "circuit_run keyed_crypto sample_writes sample_client_end = at_n 3 (?l2 @ [Act_seal (Send_data [6]), Act_send f2]) ?t"
    by (simp only: sample_writes_def list.map fold_simps 1 2 3)
  then show ?thesis by (simp add: at_n_def sealed_def records_opened_def sample_end_def)
qed

lemmas sample_sealed = sample_client_log [THEN conjunct1]

lemma sample_open:
  assumes "cc_session s = sample_receiver\<lparr>sc_receiveCounter := n\<rparr>" "n < 3" "1 \<le> length p" "length p \<le> 1000"
  shows "open_record keyed_crypto (f_payload (sample_frame n (0 # p))) (frame_header (sample_frame n (0 # p))) (cc_session s) =
    (Inr (Opened_data p), sample_receiver\<lparr>sc_receiveCounter := Suc n\<rparr>)"
proof -
  have "decryptWithAd keyed_crypto (replicate 32 7) n ad (0 # p @ replicate 16 7) = Some (0 # p)" for ad
    using sample_decrypt [of n ad "0 # p"] by (simp del: replicate.simps)
  moreover have "be_nat (be_bytes 8 n) = n" using counter_bytes [of n] assms(2) by simp
  ultimately show ?thesis
    using assms
    by (simp add: sample_frame_type sample_frame_header open_record_def openRecord_def sample_record_header sample_receiver_def
        SessionCipher_def sample_limits_def RecordType wire_limits Let_def del: replicate.simps be_bytes.simps)
qed

lemma sample_step:
  assumes "cc_session s = sample_receiver\<lparr>sc_receiveCounter := n\<rparr>" "n < 3" "1 \<le> length p" "length p \<le> 1000" "\<not> cc_done s"
    "decodeStreamMessage p = Inr m"
  shows "circuit_step keyed_crypto (sample_link, Ev_receive (sample_frame n (0 # p))) s =
    snd (handleMessage keyed_crypto sample_link m (did (Act_open (Opened_data p))
      (s\<lparr>cc_lastActivity := 0, cc_session := sample_receiver\<lparr>sc_receiveCounter := Suc n\<rparr>\<rparr>)))"
  using circuit_receive_record [OF assms(5) _ _ _ sample_open [OF assms(1-4)], of sample_link] assms(6)
  by (simp add: sample_frame_type judged_def sample_link_def)

lemma sample_first: "circuit_step keyed_crypto (sample_link, Ev_receive (sample_frame 0 [0, 1, 0, 80])) sample_service_end =
    sample_service_end\<lparr>cc_session := sample_receiver\<lparr>sc_receiveCounter := 1\<rparr>, cc_lastActivity := 0, cc_started := True,
      cc_log := [Act_open (Opened_data [1, 0, 80]), Act_onOpen (js_int 80)]\<rparr>"
  using sample_step [of sample_service_end 0 "[1, 0, 80]"] sample_decodings(1) sample_counter(2)
  by (simp add: sample_end_def handleMessage_def did_def del: circuit_step.simps)

lemma sample_service_log: "notices (circuit_run keyed_crypto sample_reads sample_service_end) = [Item_data [7, 8], Item_end, Item_close None] \<and>
    cc_done (circuit_run keyed_crypto sample_reads sample_service_end)"
proof -
  define at_n where "at_n n l s = s\<lparr>cc_session := sample_receiver\<lparr>sc_receiveCounter := n\<rparr>, cc_lastActivity := 0, cc_started := True, cc_log := l\<rparr>"
    for n l and s :: secure_circuit
  let ?l1 = "[Act_open (Opened_data [1, 0, 80]), Act_onOpen (js_int 80)]"
  let ?l2 = "?l1 @ [Act_open (Opened_data [3, 7, 8])]" and ?l3 = "?l1 @ [Act_open (Opened_data [3, 7, 8]), Act_open (Opened_data [6])]"
  let ?s1 = "at_n 1 ?l1 sample_service_end"
  let ?s2 = "at_n 2 ?l2 (sample_service_end\<lparr>cc_receivedUngranted := 2, cc_backlog := [Item_data [7, 8]]\<rparr>)"
  let ?s3 = "at_n 3 ?l3 (sample_service_end\<lparr>cc_receivedUngranted := 2, cc_backlog := [Item_data [7, 8], Item_end], cc_peerFin := True\<rparr>)"
  have 1: "circuit_step keyed_crypto (sample_link, Ev_receive (sample_frame 0 [0, 1, 0, 80])) sample_service_end = ?s1"
    unfolding sample_first by (simp add: at_n_def)
  have 2: "circuit_step keyed_crypto (sample_link, Ev_receive (sample_frame 1 [0, 3, 7, 8])) ?s1 = ?s2"
    using sample_step [of ?s1 1 "[3, 7, 8]"] sample_decodings(2)
    by (simp add: sample_end_def handleMessage_def did_def tell_def at_n_def STREAM_WINDOW_INITIAL_def numeral_2_eq_2 del: circuit_step.simps)
  have 3: "circuit_step keyed_crypto (sample_link, Ev_receive (sample_frame 2 [0, 6])) ?s2 = ?s3"
    using sample_step [of ?s2 2 "[6]"] sample_decodings(3)
    by (simp add: sample_end_def handleMessage_def did_def tell_def at_n_def maybeClose_def numeral_3_eq_3 numeral_2_eq_2 del: circuit_step.simps)
  have "circuit_run keyed_crypto sample_reads sample_service_end = circuit_finish None False False ?s3"
    by (simp only: sample_reads_def list.map fold_simps 1 2 3)
      (simp add: remoteDestroyed_def at_n_def sample_end_def)
  then show ?thesis by (simp add: circuit_finish_def tell_def at_n_def sample_end_def notices_def did_def)
qed

lemmas sample_heard = sample_service_log [THEN conjunct1]

lemma sample_circuits_unforged:
  "unforged keyed_crypto (sc_receiveKey sample_receiver)
    (history keyed_crypto sample_session (circuit_run keyed_crypto sample_writes sample_client_end)) (fed sample_reads)"
proof -
  have h: "history keyed_crypto sample_session (circuit_run keyed_crypto sample_writes sample_client_end) =
    [\<lparr>sent_epoch = 0, sent_counter = 0, sent_header = RECORD_HEADER, sent_op = Send_data [1, 0, 80], sent_record = sample_record 0 [0, 1, 0, 80]\<rparr>,
     \<lparr>sent_epoch = 0, sent_counter = 1, sent_header = RECORD_HEADER, sent_op = Send_data [3, 7, 8], sent_record = sample_record 1 [0, 3, 7, 8]\<rparr>,
     \<lparr>sent_epoch = 0, sent_counter = 2, sent_header = RECORD_HEADER, sent_op = Send_data [6], sent_record = sample_record 2 [0, 6]\<rparr>]"
    unfolding history_def sample_sealed
    by (simp add: sample_session_def SessionCipher_def sample_limits_def seal_def assertCanSend_def
        sealRecord_def sample_record_header encryptWithAd_def aeadSeal_def keyed_crypto_def RecordType wire_limits Let_def
        numeral_2_eq_2 del: replicate.simps be_bytes.simps)
  have b: "be_nat (be_bytes 8 0) = 0" "be_nat (be_bytes 8 1) = 1" "be_nat (be_bytes 8 2) = 2"
    using counter_bytes [of 0] counter_bytes [of 1] counter_bytes [of 2] by (simp_all del: be_bytes.simps)
  have d: "decryptWithAd keyed_crypto (replicate 32 7) n ad (inner @ replicate 16 7) = Some inner" for n ad inner
    using sample_decrypt [of n ad inner] by (simp del: replicate.simps)
  show ?thesis
    unfolding unforged_def h key_updates_def fed_def sample_reads_def
    using b d [of _ _ "[0, 1, 0, 80]"] d [of _ _ "[0, 3, 7, 8]"] d [of _ _ "[0, 6]"]
    by (simp add: sample_frame_type sample_frame_header sample_record_header sample_receiver_def SessionCipher_def RecordType
      del: replicate.simps be_bytes.simps)
qed

lemma sample_sessions: "sc_failed sample_session = None" "sc_failed sample_receiver = None"
  "sc_sendCounter sample_session = sc_receiveCounter sample_receiver"
  by (simp_all add: sample_session_def sample_receiver_def SessionCipher_def)

lemma sample_said: "said (circuit_run keyed_crypto sample_writes sample_client_end) =
    [Msg_open (js_int 80), Msg_data [7, 8], Msg_fin]"
  by (simp add: said_def sample_sealed sample_decodings)

lemmas sample_new_client = sample_new [of sample_session Client_end]
lemmas sample_new_service = sample_new [of sample_receiver Service_end]

abbreviation sample_client_run :: secure_circuit where
  "sample_client_run \<equiv> circuit_run keyed_crypto sample_writes sample_client_end"

abbreviation sample_service_run :: secure_circuit where
  "sample_service_run \<equiv> circuit_run keyed_crypto sample_reads sample_service_end"

theorem circuit_integrity_witness:
  "bytes_of (notices sample_service_run) = bytes_of (items (said sample_client_run)) \<and> bytes_of (notices sample_service_run) = [7, 8] \<and>
    cc_sentFin sample_client_run"
  using circuit_integrity [OF sample_new_client sample_new_service sample_sessions refl refl sample_circuits_unforged] sample_heard by simp

theorem circuit_events_in_order_witness:
  "\<exists>xs. notices sample_service_run = map Item_data xs @ (if cc_peerFin sample_service_run then [Item_end] else []) @ [Item_close None]"
  using circuit_events_in_order [OF sample_new_service sample_sessions(2) refl, of keyed_crypto sample_reads] sample_service_log by simp

theorem clean_end_is_complete_witness:
  "bytes_of (notices sample_service_run) = bytes_of (items (said sample_client_run)) \<and> Item_end \<in> set (notices sample_service_run)"
  using clean_end_is_complete [OF sample_new_client sample_new_service sample_sessions refl refl sample_circuits_unforged] sample_heard
  by (simp add: sample_reads_def del: circuit_step.simps)

theorem receive_buffer_bounded_witness:
  "int (length (bytes_of (notices sample_service_run))) \<le> STREAM_WINDOW_INITIAL"
  using receive_buffer_bounded [OF sample_new_service sample_sessions(2), of keyed_crypto sample_reads]
  by (simp add: eaten_def sample_reads_def)

theorem honest_data_is_taken_witness:
  "let B = circuit_run keyed_crypto [(sample_link, Ev_receive (sample_frame 0 [0, 1, 0, 80]))] sample_service_end in
   notices (snd (handleMessage keyed_crypto sample_link (Msg_data [7, 8]) B)) = notices B @ [Item_data [7, 8]]"
proof -
  let ?B = "circuit_run keyed_crypto [(sample_link, Ev_receive (sample_frame 0 [0, 1, 0, 80]))] sample_service_end"
  have B: "?B = sample_service_end\<lparr>cc_session := sample_receiver\<lparr>sc_receiveCounter := 1\<rparr>, cc_lastActivity := 0, cc_started := True,
      cc_log := [Act_open (Opened_data [1, 0, 80]), Act_onOpen (js_int 80)]\<rparr>"
    by (simp only: fold_simps sample_first)
  have b: "took ?B = [Msg_open (js_int 80)]" "\<not> cc_done ?B" "cc_started ?B"
    unfolding B by (simp_all add: took_def records_opened_def sample_decodings sample_end_def)
  have "took sample_client_run = []" using sample_client_log by (simp add: took_def)
  then have "prefix (took sample_client_run) (said ?B)" by simp
  moreover have "prefix (took ?B @ [Msg_data [7, 8]]) (said sample_client_run)" unfolding b(1) sample_said by simp
  ultimately show ?thesis
    using honest_data_is_taken [OF sample_new_client sample_new_service sample_sessions(1,2) refl refl _ _ b(2,3)] unfolding Let_def by blast
qed

theorem write_takes_a_prefix_witness:
  "\<exists>r s' n ds k. circuit_write keyed_crypto sample_link [7, 8] sample_client_end = (r, s') \<and> r = Inr n \<and> n \<le> 2 \<and>
    concat ds = take k [7, 8 :: byte] \<and> n \<le> length (concat ds)"
proof -
  obtain r s' where w: "circuit_write keyed_crypto sample_link [7, 8] sample_client_end = (r, s')" by fastforce
  have "sample_client_end = circuit_run keyed_crypto [] sample_client_end" by simp
  from write_takes_a_prefix [OF sample_new_client sample_sessions(1) this w] obtain n ds k where
    "r = Inr n" "n \<le> length [7, 8 :: byte]" "concat ds = take k [7, 8 :: byte]" "n \<le> length (concat ds)" by blast
  with w show ?thesis by (intro exI [of _ r] exI [of _ s'] exI [of _ n] exI [of _ ds] exI [of _ k]) simp
qed

theorem circuit_over_is_final_witness:
  "notices (circuit_run keyed_crypto [(sample_link, Ev_write [1]), (sample_link, Ev_bind)] sample_service_run) =
    [Item_data [7, 8], Item_end, Item_close None]"
  using circuit_over_is_final [OF sample_new_service sample_sessions(2) refl sample_service_log [THEN conjunct2]] sample_heard by metis

end
