(* ===== verification/Key_Shapes.thy ===== *)
theory Key_Shapes
  imports Domain_Key Key_Agreement Relay_Directory
begin

text \<open>
  \<^verbatim>\<open>packages/shared-types/src/key-material.ts\<close>, with \<^verbatim>\<open>parse.ts\<close> and \<^verbatim>\<open>parseDnsResolveOverlay\<close> of
  \<^verbatim>\<open>dns-resolve.ts\<close>: the checks of form on key material that crosses the registry. A parser returns the value or nothing; the text of its
  error is not modelled. \<^verbatim>\<open>Date.parse\<close> is an argument, as the test whether it gives a number.
\<close>

definition MAX_CHAIN_LENGTH :: nat where "MAX_CHAIN_LENGTH = 4"
definition MAX_ROTATIONS :: nat where "MAX_ROTATIONS = 32"
definition MAX_B64 :: nat where "MAX_B64 = 88"

definition asRecord :: "jsval \<Rightarrow> jsval option" where
  "asRecord v = (if is_object v then Some v else None)"

definition stringField :: "jsval \<Rightarrow> jsstring \<Rightarrow> jsstring option" where
  "stringField r field = (case as_string (js_prop r field) of
     None \<Rightarrow> None | Some v \<Rightarrow> if js_trim v = [] then None else Some (js_trim v))"

definition integerField :: "jsval \<Rightarrow> jsstring \<Rightarrow> int \<Rightarrow> int \<Rightarrow> js_number option" where
  "integerField r field lo hi = (case as_number (js_prop r field) of
     None \<Rightarrow> None
   | Some v \<Rightarrow> if \<not> isInteger v \<or> js_less v (js_int lo) \<or> js_less (js_int hi) v then None else Some v)"

definition optionalStringField :: "jsval \<Rightarrow> jsstring \<Rightarrow> jsstring option" where
  "optionalStringField r field = (let v = js_prop r field in
     if v = Undefined \<or> v = Null then Some []
     else (case as_string v of None \<Rightarrow> None | Some s \<Rightarrow> Some (js_trim s)))"

definition NAME_RE :: "jsstring \<Rightarrow> bool" where
  "NAME_RE s \<longleftrightarrow> 1 \<le> length s \<and> length s \<le> 253 \<and> list_all LABEL (split_on 46 s)"

definition is_canonical_name :: "jsval \<Rightarrow> bool" where
  "is_canonical_name v = (case as_string v of None \<Rightarrow> False | Some s \<Rightarrow> NAME_RE s)"

definition onlyFields :: "jsval \<Rightarrow> jsstring list \<Rightarrow> jsstring option" where
  "onlyFields r allowed = find (\<lambda>k. k \<notin> set allowed) (object_keys r)"

text \<open>The callers test the field that was found for truth, so the empty field name counts as none.\<close>

definition unexpected :: "jsstring option \<Rightarrow> bool" where
  "unexpected f = (case f of None \<Rightarrow> False | Some k \<Rightarrow> k \<noteq> [])"

definition isB64 :: "jsval \<Rightarrow> bool" where
  "isB64 v = (case as_string v of None \<Rightarrow> False | Some s \<Rightarrow> length s > 0 \<and> length s \<le> MAX_B64)"

definition isUint :: "jsval \<Rightarrow> bool" where
  "isUint v = (case as_number v of None \<Rightarrow> False | Some n \<Rightarrow> isSafeInteger n \<and> \<not> js_less n (js_int 0))"

definition purposes_shape :: "jsval \<Rightarrow> bool" where
  "purposes_shape v = (case as_array v of
     None \<Rightarrow> False
   | Some ps \<Rightarrow> length ps \<noteq> 0 \<and> length ps \<le> 8 \<and>
       list_all (\<lambda>p. case as_string p of None \<Rightarrow> False | Some s \<Rightarrow> length s \<le> 32) ps)"

definition parseGrantShape :: "jsval \<Rightarrow> jsval option" where
  "parseGrantShape v =
     (if asRecord v = None then None
      else if unexpected (onlyFields v [js ''issuer'', js ''subject'', js ''purposes'', js ''notBefore'', js ''notAfter'', js ''serial'',
          js ''scope'', js ''signature'']) then None
      else if \<not> isB64 (js_prop v (js ''issuer'')) \<or> \<not> isB64 (js_prop v (js ''subject'')) \<or> \<not> isB64 (js_prop v (js ''signature'')) then None
      else if \<not> purposes_shape (js_prop v (js ''purposes'')) then None
      else if \<not> isUint (js_prop v (js ''notBefore'')) \<or> \<not> isUint (js_prop v (js ''notAfter'')) \<or> \<not> isUint (js_prop v (js ''serial'')) then None
      else if js_prop v (js ''scope'') \<noteq> Undefined \<and> \<not> is_canonical_name (js_prop v (js ''scope'')) then None
      else Some v)"

fun each_shape :: "(jsval \<Rightarrow> jsval option) \<Rightarrow> jsval list \<Rightarrow> jsval list option" where
  "each_shape parse [] = Some []"
| "each_shape parse (v # vs) = (case parse v of
     None \<Rightarrow> None | Some x \<Rightarrow> (case each_shape parse vs of None \<Rightarrow> None | Some xs \<Rightarrow> Some (x # xs)))"

definition parseChainShape :: "jsval \<Rightarrow> jsval list option" where
  "parseChainShape v = (case as_array v of
     None \<Rightarrow> None
   | Some vs \<Rightarrow> if length vs = 0 \<or> length vs > MAX_CHAIN_LENGTH then None else each_shape parseGrantShape vs)"

definition parseKeyAgreementCertificateShape :: "jsval \<Rightarrow> jsval option" where
  "parseKeyAgreementCertificateShape v =
     (if asRecord v = None then None
      else if unexpected (onlyFields v [js ''signer'', js ''key'', js ''role'', js ''scope'', js ''notBefore'', js ''notAfter'', js ''serial'',
          js ''signature'']) then None
      else if \<not> isB64 (js_prop v (js ''signer'')) \<or> \<not> isB64 (js_prop v (js ''key'')) \<or> \<not> isB64 (js_prop v (js ''signature'')) then None
      else if js_prop v (js ''role'') \<noteq> JStr (js ''service-node'') \<and> js_prop v (js ''role'') \<noteq> JStr (js ''relay'') then None
      else if \<not> is_canonical_name (js_prop v (js ''scope'')) then None
      else if \<not> isUint (js_prop v (js ''notBefore'')) \<or> \<not> isUint (js_prop v (js ''notAfter'')) \<or> \<not> isUint (js_prop v (js ''serial'')) then None
      else Some v)"

definition parseRotationShape :: "jsval \<Rightarrow> jsval option" where
  "parseRotationShape v =
     (if asRecord v = None then None
      else if unexpected (onlyFields v [js ''name'', js ''previousKey'', js ''nextKey'', js ''issuedAt'', js ''signature'']) then None
      else if \<not> is_canonical_name (js_prop v (js ''name'')) then None
      else if \<not> isB64 (js_prop v (js ''previousKey'')) \<or> \<not> isB64 (js_prop v (js ''nextKey'')) \<or> \<not> isB64 (js_prop v (js ''signature'')) then None
      else if \<not> isUint (js_prop v (js ''issuedAt'')) then None
      else Some v)"

definition parseRotationsShape :: "jsval \<Rightarrow> jsval list option" where
  "parseRotationsShape v = (case as_array v of
     None \<Rightarrow> None
   | Some vs \<Rightarrow> if length vs > MAX_ROTATIONS then None else each_shape parseRotationShape vs)"

record domain_key_reset =
  kr_previousKeyFingerprint :: jsstring
  kr_since :: jsstring

definition FINGERPRINT_RE :: "jsstring \<Rightarrow> bool" where
  "FINGERPRINT_RE s \<longleftrightarrow> length s = 64 \<and> list_all (\<lambda>c. 48 \<le> c \<and> c \<le> 57 \<or> 97 \<le> c \<and> c \<le> 102) s"

definition parseKeyResetShape :: "(jsstring \<Rightarrow> bool) \<Rightarrow> jsval \<Rightarrow> domain_key_reset option option" where
  "parseKeyResetShape is_date v =
     (if v = Undefined then Some None
      else if asRecord v = None then None
      else if unexpected (onlyFields v [js ''previousKeyFingerprint'', js ''since'']) then None
      else case (as_string (js_prop v (js ''previousKeyFingerprint'')), as_string (js_prop v (js ''since''))) of
        (Some f, Some s) \<Rightarrow>
          if \<not> FINGERPRINT_RE f then None
          else if \<not> is_date s \<or> length s > 40 then None
          else Some (Some \<lparr>kr_previousKeyFingerprint = f, kr_since = s\<rparr>)
      | _ \<Rightarrow> None)"

definition parseKeyShape :: "jsval \<Rightarrow> jsstring option" where
  "parseKeyShape v = (if \<not> isB64 v then None else as_string v)"

definition parseRelayBindingShape :: "jsval \<Rightarrow> jsval option option" where
  "parseRelayBindingShape v =
     (if v = Undefined \<or> v = Null then Some None
      else if asRecord v = None then None
      else if unexpected (onlyFields v [js ''endpoint'', js ''relayKey'', js ''issuedAt'', js ''signature'']) then None
      else case (as_string (js_prop v (js ''endpoint'')), as_string (js_prop v (js ''relayKey'')),
                 as_string (js_prop v (js ''signature''))) of
        (Some e, Some k, Some s) \<Rightarrow>
          if length e = 0 \<or> length e > 512 then None
          else if length k \<noteq> 44 then None
          else if \<not> isUint (js_prop v (js ''issuedAt'')) then None
          else if length s \<noteq> MAX_B64 then None
          else Some (Some (JObj [(js ''endpoint'', JStr e), (js ''relayKey'', JStr k), (js ''issuedAt'', js_prop v (js ''issuedAt'')),
            (js ''signature'', JStr s)]))
      | _ \<Rightarrow> None)"

section \<open>The overlay block\<close>

record dns_overlay =
  ov_relay :: jsstring
  ov_available :: bool
  ov_domainKey :: jsstring
  ov_rotations :: "jsval list"
  ov_chain :: "jsval list"
  ov_kaCert :: jsval
  ov_keyReset :: "domain_key_reset option"
  ov_relayBinding :: "jsval option"

definition relay_shape :: "jsval \<Rightarrow> jsstring option" where
  "relay_shape v = (case as_string v of None \<Rightarrow> None | Some s \<Rightarrow> if length s = 0 \<or> length s > 512 then None else Some s)"

fun as_bool :: "jsval \<Rightarrow> bool option" where
  "as_bool (JBool b) = Some b"
| "as_bool _ = None"

definition parseDnsResolveOverlay :: "(jsstring \<Rightarrow> bool) \<Rightarrow> jsval \<Rightarrow> dns_overlay option" where
  "parseDnsResolveOverlay is_date v =
     Option.bind (asRecord v) (\<lambda>r.
     Option.bind (relay_shape (js_prop r (js ''relay''))) (\<lambda>relay.
     Option.bind (as_bool (js_prop r (js ''available''))) (\<lambda>available.
     Option.bind (parseKeyShape (js_prop r (js ''domainKey''))) (\<lambda>domainKey.
     Option.bind (parseRotationsShape (js_prop r (js ''rotations''))) (\<lambda>rotations.
     Option.bind (parseChainShape (js_prop r (js ''chain''))) (\<lambda>chain.
     Option.bind (parseKeyAgreementCertificateShape (js_prop r (js ''kaCert''))) (\<lambda>kaCert.
     Option.bind (parseKeyResetShape is_date (js_prop r (js ''keyReset''))) (\<lambda>keyReset.
     Option.bind (parseRelayBindingShape (js_prop r (js ''relayBinding''))) (\<lambda>relayBinding.
       Some \<lparr>ov_relay = relay, ov_available = available, ov_domainKey = domainKey, ov_rotations = rotations, ov_chain = chain,
         ov_kaCert = kaCert, ov_keyReset = keyReset, ov_relayBinding = relayBinding\<rparr>)))))))))"

section \<open>What the verifiers accept has the right form\<close>

lemma NAME_RE_valid: "NAME_RE s \<longleftrightarrow> valid_name s"
  by (auto simp: NAME_RE_def valid_name_def MAX_NAME_LENGTH_def Suc_le_eq)

lemma is_canonical_name_scope: "is_canonical_name v \<longleftrightarrow> isValidScope v"
  by (simp add: is_canonical_name_def isValidScope_def NAME_RE_valid split: option.split)

lemma isUint_assert: "assertUint v = Inr n \<Longrightarrow> isUint v"
  by (auto simp: assertUint_def isUint_def split: option.splits if_splits)

lemma isB64_decoded: "decodeBase64Strict v (Some n) = Inr b \<Longrightarrow> 0 < n \<Longrightarrow> n \<le> 66 \<Longrightarrow> isB64 v"
proof -
  assume "decodeBase64Strict v (Some n) = Inr b" "0 < n" "n \<le> 66"
  moreover from this have "length b = n" by (simp add: decode64_iff)
  then have "3 div 3 \<le> (length b + 2) div 3 \<and> (length b + 2) div 3 \<le> 68 div 3"
    using \<open>0 < n\<close> \<open>n \<le> 66\<close> by (intro conjI div_le_mono) auto
  ultimately show ?thesis by (simp add: decode64_iff isB64_def MAX_B64_def length_encodeBase64)
qed

lemma isB64_key: "parsePublicKey (KeyString s) = Inr b \<Longrightarrow> isB64 (JStr s)"
  by (auto simp: parsePublicKey_def PUBLIC_KEY_LENGTH_def dest: isB64_decoded)

lemma isB64_signature: "decodeBase64Strict v (Some SIGNATURE_LENGTH) = Inr b \<Longrightarrow> isB64 v"
  by (auto simp: SIGNATURE_LENGTH_def dest: isB64_decoded)

lemma onlyFields_None: "onlyFields r fs = None \<longleftrightarrow> (\<forall>f \<in> set (object_keys r). f \<in> set fs)"
  by (auto simp: onlyFields_def find_None_iff)

lemma not_unexpected [simp]: "\<not> unexpected None"
  by (simp add: unexpected_def)

lemma asRecord_object [simp]: "asRecord v = None \<longleftrightarrow> \<not> is_object v"
  by (simp add: asRecord_def)

lemma parse_purposes_strings:
  "parse_purposes ps acc = Inr qs \<Longrightarrow> \<exists>xs. ps = map (\<lambda>p. JStr (GrantPurpose p)) xs \<and> qs = acc @ xs"
proof (induction ps arbitrary: acc)
  case (Cons p ps)
  then obtain q where q: "p = JStr (GrantPurpose q)" "parse_purposes ps (acc @ [q]) = Inr qs"
    by (auto simp: purpose_of_iff split: option.splits if_splits)
  then obtain xs where "ps = map (\<lambda>p. JStr (GrantPurpose p)) xs" "qs = (acc @ [q]) @ xs" using Cons.IH by blast
  with q show ?case by (intro exI [of _ "q # xs"]) simp
qed simp

lemma purposes_shape_parsed:
  assumes "parse_purposes ps [] = Inr qs" "distinct qs" "ps \<noteq> []"
  shows "purposes_shape (JArr ps)"
proof -
  obtain xs where xs: "ps = map (\<lambda>p. JStr (GrantPurpose p)) xs" "qs = xs" using parse_purposes_strings [OF assms(1)] by auto
  have "length (GrantPurpose p) \<le> 32" for p using GrantPurpose_text [of p] by linarith
  then show ?thesis
    using xs assms(2,3) purposes_le_5 [of qs] by (auto simp: purposes_shape_def list_all_iff)
qed

lemma grant_shape: "parse_signed v = Inr l \<Longrightarrow> parseGrantShape v = Some v"
proof -
  assume p: "parse_signed v = Inr l"
  then obtain g s where g: "parseUnsigned v True = Inr g" and s: "decodeBase64Strict (js_prop v (js ''signature'')) (Some SIGNATURE_LENGTH) = Inr s"
    by (auto simp: parse_signed_def rbind_eq_Inr)
  from g obtain i sb ps where ob: "is_object v" and fs: "\<forall>f \<in> set (object_keys v). f \<in> set GRANT_FIELDS"
    and i: "js_prop v (js ''issuer'') = JStr i" "parsePublicKey (KeyString i) = Inr (pg_issuer g)"
    and sb: "js_prop v (js ''subject'') = JStr sb" "parsePublicKey (KeyString sb) = Inr (pg_subject g)"
    and ps: "js_prop v (js ''purposes'') = JArr ps" "ps \<noteq> []" "parse_purposes ps [] = Inr (pg_purposes g)"
    and n: "assertUint (js_prop v (js ''notBefore'')) = Inr (pg_notBefore g)"
      "assertUint (js_prop v (js ''notAfter'')) = Inr (pg_notAfter g)" "assertUint (js_prop v (js ''serial'')) = Inr (pg_serial g)"
    and sc: "parse_scope (js_prop v (js ''scope'')) (pg_purposes g) = Inr (pg_scope g)"
    unfolding parseUnsigned_def by (auto simp: rbind_eq_Inr list_ex_iff split: if_splits option.splits)
  have "distinct (pg_purposes g)" using parseUnsigned_wf [OF g] by (simp add: wf_grant_def)
  then have pu: "purposes_shape (JArr ps)" using purposes_shape_parsed ps by blast
  have on: "onlyFields v GRANT_FIELDS = None" using fs by (simp add: onlyFields_None)
  have name: "js_prop v (js ''scope'') = Undefined \<or> is_canonical_name (js_prop v (js ''scope''))"
    using sc by (auto simp: parse_scope_def is_canonical_name_scope split: if_splits)
  show ?thesis
    unfolding parseGrantShape_def GRANT_FIELDS_def [symmetric]
    using ob on name pu isB64_key [OF i(2)] isB64_key [OF sb(2)] isB64_signature [OF s] n [THEN isUint_assert]
    by (simp add: i(1) sb(1) ps(1))
qed

lemma certificate_shape: "parse_signed_certificate c v = Inr l \<Longrightarrow> parseKeyAgreementCertificateShape v = Some v"
proof -
  assume p: "parse_signed_certificate c v = Inr l"
  then obtain g s where g: "parseCertificate c v True = Inr g"
    and s: "decodeBase64Strict (js_prop v (js ''signature'')) (Some SIGNATURE_LENGTH) = Inr s"
    by (auto simp: parse_signed_certificate_def rbind_eq_Inr)
  from g obtain i k where ob: "is_object v" and fs: "\<forall>f \<in> set (object_keys v). f \<in> set CERT_FIELDS"
    and i: "js_prop v (js ''signer'') = JStr i" "parsePublicKey (KeyString i) = Inr (pc_signer g)"
    and k: "js_prop v (js ''key'') = JStr k" "parsePublicKey (KeyString k) = Inr (pc_key g)"
    and r: "parse_role (js_prop v (js ''role'')) = Inr (pc_role g)"
    and sc: "isValidScope (js_prop v (js ''scope''))"
    and n: "assertUint (js_prop v (js ''notBefore'')) = Inr (pc_notBefore g)"
      "assertUint (js_prop v (js ''notAfter'')) = Inr (pc_notAfter g)" "assertUint (js_prop v (js ''serial'')) = Inr (pc_serial g)"
    unfolding parseCertificate_def by (auto simp: rbind_eq_Inr list_ex_iff split: if_splits option.splits sum.splits)
  have on: "onlyFields v CERT_FIELDS = None" using fs by (simp add: onlyFields_None)
  have role: "\<not> (js_prop v (js ''role'') \<noteq> JStr (js ''service-node'') \<and> js_prop v (js ''role'') \<noteq> JStr (js ''relay''))"
    using r by (auto simp: parse_role_def split: if_splits)
  show ?thesis
    unfolding parseKeyAgreementCertificateShape_def CERT_FIELDS_def [symmetric]
    using ob on role sc isB64_key [OF i(2)] isB64_key [OF k(2)] isB64_signature [OF s] n [THEN isUint_assert]
    by (simp add: i(1) k(1) is_canonical_name_scope)
qed

lemma rotation_shape: "parse_signed_rotation v = Inr l \<Longrightarrow> parseRotationShape v = Some v"
proof -
  assume p: "parse_signed_rotation v = Inr l"
  then obtain g s where g: "parseRotation v True = Inr g"
    and s: "decodeBase64Strict (js_prop v (js ''signature'')) (Some SIGNATURE_LENGTH) = Inr s"
    by (auto simp: parse_signed_rotation_def rbind_eq_Inr)
  from g obtain i k where ob: "is_object v" and fs: "\<forall>f \<in> set (object_keys v). f \<in> set ROTATION_FIELDS"
    and i: "js_prop v (js ''previousKey'') = JStr i" "parsePublicKey (KeyString i) = Inr (pr_previousKey g)"
    and k: "js_prop v (js ''nextKey'') = JStr k" "parsePublicKey (KeyString k) = Inr (pr_nextKey g)"
    and sc: "isValidScope (js_prop v (js ''name''))"
    and n: "assertUint (js_prop v (js ''issuedAt'')) = Inr (pr_issuedAt g)"
    unfolding parseRotation_def by (auto simp: rbind_eq_Inr list_ex_iff split: if_splits option.splits)
  have on: "onlyFields v ROTATION_FIELDS = None" using fs by (simp add: onlyFields_None)
  show ?thesis
    unfolding parseRotationShape_def ROTATION_FIELDS_def [symmetric]
    using ob on sc isB64_key [OF i(2)] isB64_key [OF k(2)] isB64_signature [OF s] n [THEN isUint_assert]
    by (simp add: i(1) k(1) is_canonical_name_scope)
qed

lemma binding_shape:
  assumes "parse_binding name v = Inr p"
  shows "\<exists>w. parseRelayBindingShape v = Some (Some w) \<and> parse_binding name w = Inr p"
proof -
  from assms have ob: "is_object v" and fs: "\<forall>f \<in> set (object_keys v). f \<in> set BINDING_FIELDS"
    by (auto simp: parse_binding_def list_ex_iff split: if_splits)
  from assms obtain n k s e where n: "assertUint (js_prop v (js ''issuedAt'')) = Inr n"
    and k: "decodeBase64Strict (js_prop v (js ''relayKey'')) (Some PUBLIC_KEY_LENGTH) = Inr k"
    and s: "decodeBase64Strict (js_prop v (js ''signature'')) (Some SIGNATURE_LENGTH) = Inr s"
    and e: "parseEndpoint (js_prop v (js ''endpoint'')) = Inr e"
    by (auto simp: parse_binding_def Let_def rbind_eq_Inr split: if_splits)
  have k': "js_prop v (js ''relayKey'') = JStr (encodeBase64 k)" "length (encodeBase64 k) = 44"
    using k by (auto simp: decode64_iff length_encodeBase64 PUBLIC_KEY_LENGTH_def)
  have s': "js_prop v (js ''signature'') = JStr (encodeBase64 s)" "length (encodeBase64 s) = MAX_B64"
    using s by (auto simp: decode64_iff length_encodeBase64 SIGNATURE_LENGTH_def MAX_B64_def)
  have e': "js_prop v (js ''endpoint'') = JStr e" "0 < length e" "length e \<le> 512"
    using e parseEndpoint_iff [of "js_prop v (js ''endpoint'')" e]
    by (auto simp: parseEndpoint_def MAX_RELAY_ENDPOINT_LENGTH_def split: if_splits)
  let ?w = "JObj [(js ''endpoint'', JStr e), (js ''relayKey'', JStr (encodeBase64 k)), (js ''issuedAt'', js_prop v (js ''issuedAt'')),
    (js ''signature'', JStr (encodeBase64 s))]"
  have "onlyFields v BINDING_FIELDS = None" using fs by (simp add: onlyFields_None)
  moreover have "v \<noteq> Undefined" "v \<noteq> Null" using ob by (auto simp: is_object_def)
  ultimately have "parseRelayBindingShape v = Some (Some ?w)"
    using ob k' s' e' isUint_assert [OF n] unfolding parseRelayBindingShape_def BINDING_FIELDS_def [symmetric] by simp
  moreover have w: "js_prop ?w (js ''endpoint'') = JStr e" "js_prop ?w (js ''relayKey'') = JStr (encodeBase64 k)"
    "js_prop ?w (js ''issuedAt'') = js_prop v (js ''issuedAt'')" "js_prop ?w (js ''signature'') = JStr (encodeBase64 s)"
    "is_object ?w" "\<forall>f \<in> set (object_keys ?w). f \<in> set BINDING_FIELDS"
    by (simp_all add: js_def is_object_def BINDING_FIELDS_def)
  have "parse_binding name ?w = parse_binding name v"
    using ob fs w(5,6) unfolding parse_binding_def w(1-4) e'(1) k'(1) s'(1) by (simp add: list_ex_iff)
  ultimately show ?thesis using assms by auto
qed

lemma chain_shape: "rmap parse_signed cs = Inr links \<Longrightarrow> each_shape parseGrantShape cs = Some cs"
  by (induction cs arbitrary: links) (auto simp: rbind_eq_Inr grant_shape)

section \<open>Properties\<close>

text \<open>
  C15. The checks of form never stand in the way of material that verifies. A chain and a certificate the verifier accepts, a rotation
  statement it accepts and a relay binding it accepts all pass the shape parsers, the first three unchanged and the binding in a form
  with the same outcome.
\<close>

theorem verified_material_has_its_shape:
  "(verifyKeyAgreementCertificate c verify cert chain opts reg = Inr (KA_ok k, reg') \<longrightarrow>
      parseKeyAgreementCertificateShape cert = Some cert \<and> (\<exists>cs. chain = JArr cs \<and> parseChainShape chain = Some cs)) \<and>
   (verifyDomainKeyRotation verify v name = Inr (Some r) \<longrightarrow> parseRotationShape v = Some v) \<and>
   (verifyServiceRelayBinding verify name b nodeKey now = Binding_ok e key t \<longrightarrow>
      (\<exists>w. parseRelayBindingShape b = Some (Some w) \<and> verifyServiceRelayBinding verify name w nodeKey now = Binding_ok e key t))"
proof (intro conjI impI)
  assume ka: "verifyKeyAgreementCertificate c verify cert chain opts reg = Inr (KA_ok k, reg')"
  obtain p s u where p: "parse_signed_certificate c cert = Inr (p, s)"
    and u: "verifyChainCore verify chain (ka_chain_options opts) = Inr (Verified u)" using ka_accepts [OF ka] by blast
  show "parseKeyAgreementCertificateShape cert = Some cert" using p by (rule certificate_shape)
  obtain cs links where cs: "chain = JArr cs" "rmap parse_signed cs = Inr links" "links \<noteq> []" "length links \<le> MAX_CHAIN_DEPTH"
    using u unfolding verifyChainCore_Verified by (auto simp: accepted_def)
  have "length cs = length links" using links_wf(1) [OF cs(2)] by simp
  then show "\<exists>cs. chain = JArr cs \<and> parseChainShape chain = Some cs"
    using cs chain_shape [OF cs(2)] by (auto simp: parseChainShape_def MAX_CHAIN_LENGTH_def MAX_CHAIN_DEPTH_def)
next
  assume "verifyDomainKeyRotation verify v name = Inr (Some r)"
  then show "parseRotationShape v = Some v" using rotation_shape by (auto simp: verifyRotation_genuine genuine_def)
next
  assume ok: "verifyServiceRelayBinding verify name b nodeKey now = Binding_ok e key t"
  then obtain p where p: "parse_binding name b = Inr p" by (auto simp: verifyServiceRelayBinding_def split: sum.splits)
  obtain w where w: "parseRelayBindingShape b = Some (Some w)" "parse_binding name w = Inr p" using binding_shape [OF p] by blast
  then have "verifyServiceRelayBinding verify name w nodeKey now = Binding_ok e key t"
    using ok p by (simp add: verifyServiceRelayBinding_def)
  with w(1) show "\<exists>w. parseRelayBindingShape b = Some (Some w) \<and> verifyServiceRelayBinding verify name w nodeKey now = Binding_ok e key t"
    by blast
qed

theorem verified_material_has_its_shape_witness:
  "parseKeyAgreementCertificateShape sample_cert = Some sample_cert \<and> parseChainShape (JArr [sample_signed]) = Some [sample_signed]"
proof -
  obtain k reg' where k: "verifyKeyAgreementCertificate sample_crypto sample_verify sample_cert (JArr [sample_signed]) sample_ka_options
      empty_registry = Inr (KA_ok k, reg')" using sample_ka by blast
  from conjunct1 [OF verified_material_has_its_shape, rule_format, OF k] show ?thesis by auto
qed

text \<open>
  A field with the empty name hides itself and every unexpected field that follows it: the verifier refuses this certificate, the
  shape parser does not.
\<close>

lemma empty_field_name_passes:
  assumes "sample_cert = JObj ps"
  shows "parseKeyAgreementCertificateShape (JObj (([], Null) # (js ''x'', Null) # ps)) \<noteq> None"
    and "is_ok (parseCertificate c (JObj (([], Null) # (js ''x'', Null) # ps)) True) = False"
proof -
  let ?v = "JObj (([], Null) # (js ''x'', Null) # ps)"
  have eq: "js_prop ?v f = js_prop sample_cert f" if "f \<noteq> []" "f \<noteq> js ''x''" for f using that by (simp add: assms)
  have "unexpected (onlyFields ?v fs) = False" if "[] \<notin> set fs" for fs using that by (simp add: onlyFields_def unexpected_def)
  moreover have "[] \<notin> set CERT_FIELDS" by (simp add: CERT_FIELDS_def js_def)
  moreover have "parseKeyAgreementCertificateShape sample_cert \<noteq> None" using certificate_shape [OF sample_cert_parse] by simp
  ultimately show "parseKeyAgreementCertificateShape ?v \<noteq> None"
    using eq unfolding parseKeyAgreementCertificateShape_def CERT_FIELDS_def [symmetric]
    by (simp add: is_object_def js_def split: if_splits)
  show "is_ok (parseCertificate c ?v True) = False"
    by (simp add: parseCertificate_def is_object_def CERT_FIELDS_def js_def is_ok_def)
qed

end
