(* ===== verification/Client_Pins.thy ===== *)
theory Client_Pins
  imports Key_Shapes
begin

text \<open>
  \<^verbatim>\<open>packages/client/src/overlay/pins.ts\<close>: the file of domain keys a client has pinned, one per name, and the
  marks below which it refuses serials.

  The file on disk is the JSON of the list of pins, and \<^verbatim>\<open>JSON.parse\<close> gives back what \<^verbatim>\<open>JSON.stringify\<close> was given; a file that
  does not parse or has another format is \<open>Bad_file\<close>. Fields that \<^verbatim>\<open>read\<close> does not test have their declared types. The names asked for
  have a dot, so none of them is a property of \<^verbatim>\<open>Object.prototype\<close>. Taking the lock and writing the file may each throw, which
  is part of the world of a call; under the lock a call runs alone, and a write that throws has replaced nothing.
\<close>

record pin =
  pin_domainKey :: jsstring
  pin_pinnedAt :: jsstring
  pin_serials :: "(jsstring \<times> js_number) list"

record stored_pin =
  sp_domainKey :: jsstring
  sp_pinnedAt :: jsstring
  sp_serials :: "(jsstring \<times> js_number) list option"

datatype pin_disk = No_file | Bad_file | Pin_file "(jsstring \<times> stored_pin) list"

record store_world =
  sw_lock :: bool
  sw_write :: bool

definition MAX_SERIALS_PER_PIN :: nat where "MAX_SERIALS_PER_PIN = 256"

text \<open>\<^verbatim>\<open>Math.max\<close>.\<close>

definition js_max :: "js_number \<Rightarrow> js_number \<Rightarrow> js_number" where
  "js_max a b = (if a = NaN \<or> b = NaN then NaN else if js_less a b then b else a)"

text \<open>A \<^verbatim>\<open>Map\<close> is its list of entries: \<^verbatim>\<open>delete\<close> and then \<^verbatim>\<open>set\<close> puts the entry last.\<close>

fun raise_entries :: "(jsstring \<times> nat) list \<Rightarrow> (jsstring \<times> js_number) list \<Rightarrow> (jsstring \<times> js_number) list" where
  "raise_entries [] entries = entries"
| "raise_entries ((key, serial) # serials) entries =
     raise_entries serials
       (AList.delete key entries @ [(key, js_max (nullish (map_of entries key) (js_int 0)) (js_int (int serial)))])"

definition raiseSerials :: "(jsstring \<times> js_number) list \<Rightarrow> (jsstring \<times> nat) list \<Rightarrow> (jsstring \<times> js_number) list" where
  "raiseSerials current serials =
     (let xs = raise_entries serials current in drop (length xs - MAX_SERIALS_PER_PIN) xs)"

definition read_entry :: "jsstring \<times> stored_pin \<Rightarrow> (jsstring \<times> pin) result" where
  "read_entry e = (case e of (name, p) \<Rightarrow>
     if \<not> is_canonical_name (JStr name) then Inl PlainError
     else rbind (parsePublicKey (KeyString (sp_domainKey p))) (\<lambda>_.
       Inr (name, \<lparr>pin_domainKey = sp_domainKey p, pin_pinnedAt = sp_pinnedAt p, pin_serials = nullish (sp_serials p) []\<rparr>)))"

definition pins_read :: "pin_disk \<Rightarrow> (jsstring \<times> pin) list result" where
  "pins_read disk = (case disk of
     No_file \<Rightarrow> Inr []
   | Bad_file \<Rightarrow> Inl PlainError
   | Pin_file es \<Rightarrow> rmap read_entry es)"

definition stored :: "jsstring \<times> pin \<Rightarrow> jsstring \<times> stored_pin" where
  "stored e = (fst e, \<lparr>sp_domainKey = pin_domainKey (snd e), sp_pinnedAt = pin_pinnedAt (snd e),
     sp_serials = Some (pin_serials (snd e))\<rparr>)"

definition pins_get :: "jsstring \<Rightarrow> pin_disk \<Rightarrow> pin option result" where
  "pins_get name disk = rbind (pins_read disk) (\<lambda>file. Inr (map_of file name))"

definition pins_knownSerials :: "jsstring \<Rightarrow> pin_disk \<Rightarrow> (jsstring \<times> js_number) list result" where
  "pins_knownSerials name disk = rbind (pins_get name disk) (\<lambda>p.
     Inr (case p of None \<Rightarrow> [] | Some q \<Rightarrow> pin_serials q))"

text \<open>The callback \<open>decide\<close> has a state of its own; \<open>thrown\<close> makes an exception of the store one of the caller's.\<close>

definition pins_update :: "(exn \<Rightarrow> 'e) \<Rightarrow> store_world \<Rightarrow> jsstring \<Rightarrow> (pin option \<Rightarrow> 's \<Rightarrow> ('e + pin option \<times> 'a) \<times> 's)
    \<Rightarrow> pin_disk \<Rightarrow> 's \<Rightarrow> ('e + 'a) \<times> pin_disk \<times> 's" where
  "pins_update thrown w name decide disk s =
     (if \<not> sw_lock w then (Inl (thrown PlainError), disk, s)
      else case pins_read disk of
        Inl e \<Rightarrow> (Inl (thrown e), disk, s)
      | Inr file \<Rightarrow> (case decide (map_of file name) s of
          (Inl e, s') \<Rightarrow> (Inl e, disk, s')
        | (Inr (None, r), s') \<Rightarrow> (Inr r, disk, s')
        | (Inr (Some p, r), s') \<Rightarrow>
            if Some p = map_of file name then (Inr r, disk, s')
            else if \<not> sw_write w then (Inl (thrown PlainError), disk, s')
            else (Inr r, Pin_file (map stored (AList.update name p file)), s')))"

text \<open>The argument \<open>stamp\<close> is \<^verbatim>\<open>new Date().toISOString()\<close>.\<close>

definition pin_next :: "jsstring \<Rightarrow> pin option \<Rightarrow> jsstring \<Rightarrow> (jsstring \<times> nat) list \<Rightarrow> pin" where
  "pin_next stamp existing domainKey serials = (case existing of
     None \<Rightarrow> \<lparr>pin_domainKey = domainKey, pin_pinnedAt = stamp, pin_serials = raiseSerials [] serials\<rparr>
   | Some p \<Rightarrow>
       if pin_domainKey p \<noteq> domainKey
       then \<lparr>pin_domainKey = domainKey, pin_pinnedAt = stamp, pin_serials = raiseSerials [] serials\<rparr>
       else \<lparr>pin_domainKey = domainKey, pin_pinnedAt = pin_pinnedAt p, pin_serials = raiseSerials (pin_serials p) serials\<rparr>)"

definition pins_record :: "store_world \<Rightarrow> jsstring \<Rightarrow> jsstring \<Rightarrow> jsstring \<Rightarrow> (jsstring \<times> nat) list \<Rightarrow> pin_disk
    \<Rightarrow> unit result \<times> pin_disk" where
  "pins_record w stamp name domainKey serials disk =
     (case pins_update (\<lambda>e. e) w name (\<lambda>existing s. (Inr (Some (pin_next stamp existing domainKey serials), ()), s)) disk () of
        (r, disk', _) \<Rightarrow> (r, disk'))"

definition pins_forget :: "store_world \<Rightarrow> jsstring \<Rightarrow> pin_disk \<Rightarrow> bool result \<times> pin_disk" where
  "pins_forget w name disk =
     (if \<not> sw_lock w then (Inl PlainError, disk)
      else case pins_read disk of
        Inl e \<Rightarrow> (Inl e, disk)
      | Inr file \<Rightarrow>
          if map_of file name = None then (Inr False, disk)
          else if \<not> sw_write w then (Inl PlainError, disk)
          else (Inr True, Pin_file (map stored (AList.delete name file))))"

section \<open>The file\<close>

text \<open>What a client knows: its pin of each name, as it would read it now.\<close>

definition pinned :: "pin_disk \<Rightarrow> jsstring \<Rightarrow> pin option" where
  "pinned disk name = (case pins_read disk of Inl _ \<Rightarrow> None | Inr file \<Rightarrow> map_of file name)"

definition good_entry :: "jsstring \<times> pin \<Rightarrow> bool" where
  "good_entry e \<longleftrightarrow> valid_name (fst e) \<and> is_ok (parsePublicKey (KeyString (pin_domainKey (snd e))))"

lemma read_stored: "good_entry e \<Longrightarrow> read_entry (stored e) = Inr e"
  by (cases e) (auto simp: good_entry_def read_entry_def stored_def is_canonical_name_scope is_ok_def split: sum.splits)

lemma read_entry_good: "read_entry x = Inr e \<Longrightarrow> good_entry e"
  by (cases x) (auto simp: read_entry_def good_entry_def rbind_eq_Inr is_canonical_name_scope is_ok_def split: if_splits)

lemma read_all_good: "rmap read_entry xs = Inr es \<Longrightarrow> e \<in> set es \<Longrightarrow> good_entry e"
  by (induction xs arbitrary: es) (auto simp: rbind_eq_Inr dest: read_entry_good)

lemma pins_read_good: "pins_read disk = Inr es \<Longrightarrow> e \<in> set es \<Longrightarrow> good_entry e"
  by (auto simp: pins_read_def read_all_good split: pin_disk.splits)

lemma read_written: "(\<And>e. e \<in> set es \<Longrightarrow> good_entry e) \<Longrightarrow> pins_read (Pin_file (map stored es)) = Inr es"
proof -
  assume "\<And>e. e \<in> set es \<Longrightarrow> good_entry e"
  then have "rmap read_entry (map stored es) = Inr es" by (induction es) (auto simp: read_stored)
  then show ?thesis by (simp add: pins_read_def)
qed

lemma pinned_good: "pinned disk name = Some p \<Longrightarrow> good_entry (name, p)"
  by (auto simp: pinned_def split: sum.splits dest: map_of_SomeD pins_read_good)

lemma update_good:
  "(\<And>e. e \<in> set es \<Longrightarrow> good_entry e) \<Longrightarrow> good_entry (name, p) \<Longrightarrow> e \<in> set (AList.update name p es) \<Longrightarrow> good_entry e"
proof (induction es)
  case (Cons x es)
  obtain n q where x: "x = (n, q)" by (cases x)
  from Cons.prems(3) have "e = (name, p) \<or> e = x \<or> e \<in> set es \<or> e \<in> set (AList.update name p es)"
    by (auto simp: x split: if_splits)
  with Cons show ?case by (metis list.set_intros)
qed simp

text \<open>An update leaves the file as it was, or puts the decided pin in it and returns.\<close>

lemma pins_update_cases:
  assumes "pins_update thrown w name decide disk s = (r, disk', s')"
  obtains (early) e where "r = Inl (thrown e)" "disk' = disk" "s' = s"
    | (refused) es e where "pins_read disk = Inr es" "decide (map_of es name) s = (Inl e, s')" "r = Inl e" "disk' = disk"
    | (kept) es q x where "pins_read disk = Inr es" "decide (map_of es name) s = (Inr (q, x), s')" "r = Inr x" "disk' = disk"
        "q = None \<or> q = map_of es name"
    | (unwritten) es p x where "pins_read disk = Inr es" "decide (map_of es name) s = (Inr (Some p, x), s')"
        "r = Inl (thrown PlainError)" "disk' = disk"
    | (written) es p x where "pins_read disk = Inr es" "decide (map_of es name) s = (Inr (Some p, x), s')" "r = Inr x"
        "disk' = Pin_file (map stored (AList.update name p es))"
proof (cases "sw_lock w")
  case False
  with assms show thesis by (intro early) (auto simp: pins_update_def)
next
  case lock: True
  show thesis
  proof (cases "pins_read disk")
    case (Inl e)
    with assms lock show thesis by (intro early) (auto simp: pins_update_def)
  next
    case (Inr es)
    obtain d t where d: "decide (map_of es name) s = (d, t)" by (cases "decide (map_of es name) s")
    show thesis
    proof (cases d)
      case e: (Inl e)
      with assms lock Inr d show thesis by (intro refused [OF Inr]) (auto simp: pins_update_def)
    next
      case ok: (Inr y)
      obtain q x where y: "y = (q, x)" by (cases y)
      show thesis
      proof (cases q)
        case None
        with assms lock Inr d ok y show thesis by (intro kept [OF Inr, of None x]) (auto simp: pins_update_def)
      next
        case (Some p)
        show thesis
        proof (cases "Some p = map_of es name")
          case True
          then have "decide (Some p) s = (Inr (Some p, x), t)" using d ok y Some by simp
          then have "r = Inr x \<and> disk' = disk \<and> s' = t"
            using assms lock True [symmetric] by (simp add: pins_update_def Inr)
          with True d ok y Some show thesis by (intro kept [OF Inr, of "Some p" x]) auto
        next
          case False
          then have "(r, disk', s') = (if \<not> sw_write w then (Inl (thrown PlainError), disk, t)
              else (Inr x, Pin_file (map stored (AList.update name p es)), t))"
            using assms lock by (simp add: pins_update_def Inr d ok y Some)
          with d ok y Some show thesis
            by (cases "sw_write w") (auto intro: unwritten [OF Inr, of p x] written [OF Inr, of p x])
        qed
      qed
    qed
  qed
qed

section \<open>Serial marks\<close>

definition marks_ok :: "(jsstring \<times> js_number) list \<Rightarrow> bool" where
  "marks_ok es \<longleftrightarrow> distinct (map fst es) \<and> (\<forall>e \<in> set es. snd e \<noteq> NaN)"

lemma js_leq_int [simp]: "js_leq (js_int a) (js_int b) \<longleftrightarrow> a \<le> b"
  by (auto simp: js_leq_def js_int_def)

lemma js_leq_refl: "a \<noteq> NaN \<Longrightarrow> js_leq a a"
  by (simp add: js_leq_def)

lemma js_leq_trans: "js_leq a b \<Longrightarrow> js_leq b c \<Longrightarrow> js_leq a c"
  by (cases a; cases b; cases c) (auto simp: js_leq_def)

lemma js_leq_not_less: "js_leq a b \<Longrightarrow> \<not> js_less b a"
  by (cases a; cases b) (auto simp: js_leq_def)

lemma js_less_leq: "js_less a b \<Longrightarrow> js_leq b c \<Longrightarrow> js_less a c"
  by (cases a; cases b; cases c) (auto simp: js_leq_def)

lemma js_max_upper: "a \<noteq> NaN \<Longrightarrow> b \<noteq> NaN \<Longrightarrow> js_leq a (js_max a b) \<and> js_leq b (js_max a b) \<and> js_max a b \<noteq> NaN"
  by (cases a; cases b) (auto simp: js_leq_def js_max_def)

lemma delete_filter: "AList.delete k es = filter (\<lambda>e. fst e \<noteq> k) es"
  by (induction es) auto

lemma map_of_moved: "map_of (AList.delete k es @ [(k, v)]) = (map_of es)(k \<mapsto> v)"
  by (auto simp: fun_eq_iff map_of_append map_add_def AList.delete_conv' split: option.splits)

lemma marks_ok_moved:
  assumes "marks_ok es" "v \<noteq> NaN"
  shows "marks_ok (AList.delete k es @ [(k, v)])"
  using assms by (auto simp: marks_ok_def AList.distinct_delete delete_filter distinct_map_filter)

lemma raise_entries_marks:
  assumes "marks_ok es"
  shows "marks_ok (raise_entries ss es) \<and>
    (\<forall>k u. map_of es k = Some u \<longrightarrow> (\<exists>v. map_of (raise_entries ss es) k = Some v \<and> js_leq u v)) \<and>
    (\<forall>k n. (k, n) \<in> set ss \<longrightarrow> (\<exists>v. map_of (raise_entries ss es) k = Some v \<and> js_leq (js_int (int n)) v))"
  using assms
proof (induction ss es rule: raise_entries.induct)
  case (1 es)
  then show ?case by (auto simp: marks_ok_def intro!: js_leq_refl dest: map_of_SomeD)
next
  case (2 key serial ss es)
  let ?u = "nullish (map_of es key) (js_int 0)"
  let ?v = "js_max ?u (js_int (int serial))"
  let ?es = "AList.delete key es @ [(key, ?v)]"
  have num: "js_int i \<noteq> NaN" for i by (simp add: js_int_def)
  have "?u \<noteq> NaN" using 2(2) num by (auto simp: nullish_def marks_ok_def dest: map_of_SomeD split: option.splits)
  then have v: "js_leq ?u ?v" "js_leq (js_int (int serial)) ?v" "?v \<noteq> NaN" using js_max_upper num by blast+
  then have ok: "marks_ok ?es" using 2(2) marks_ok_moved by blast
  note ih = 2(1) [OF ok]
  have "map_of ?es key = Some ?v" by (simp only: map_of_moved fun_upd_same)
  with ih obtain x where x: "map_of (raise_entries ss ?es) key = Some x" "js_leq ?v x" by blast
  have "\<exists>y. map_of (raise_entries ss ?es) k = Some y \<and> js_leq u y" if u: "map_of es k = Some u" for k u
  proof (cases "k = key")
    case True
    with u have "?u = u" by simp
    with x v(1) show ?thesis unfolding True using js_leq_trans by metis
  next
    case False
    then have "map_of ?es k = Some u" using u unfolding map_of_moved by (metis fun_upd_other)
    with ih show ?thesis by blast
  qed
  moreover have "\<exists>y. map_of (raise_entries ss ?es) k = Some y \<and> js_leq (js_int (int n)) y" if "(k, n) \<in> set ((key, serial) # ss)" for k n
  proof (cases "(k, n) = (key, serial)")
    case True
    with x v(2) show ?thesis using js_leq_trans by blast
  next
    case False
    with that have "(k, n) \<in> set ss" by auto
    with ih show ?thesis by blast
  qed
  ultimately show ?case using ih by (simp only: raise_entries.simps) blast
qed

lemma raise_entries_bound:
  assumes "\<And>e. e \<in> set es \<Longrightarrow> js_leq (snd e) b" "\<And>k n. (k, n) \<in> set ss \<Longrightarrow> js_leq (js_int (int n)) b" "js_leq (js_int 0) b"
  shows "e \<in> set (raise_entries ss es) \<Longrightarrow> js_leq (snd e) b"
  using assms
proof (induction ss es rule: raise_entries.induct)
  case (2 key serial ss es)
  let ?u = "nullish (map_of es key) (js_int 0)"
  have "js_leq ?u b" using 2(3,5) by (cases "map_of es key") (auto dest: map_of_SomeD)
  moreover have "js_leq (js_int (int serial)) b" using 2(4) [of key serial] by simp
  ultimately have "js_leq (js_max ?u (js_int (int serial))) b" by (auto simp: js_max_def js_leq_def js_int_def)
  then have new: "js_leq (snd x) b" if "x \<in> set (AList.delete key es @ [(key, js_max ?u (js_int (int serial)))])" for x
    using that 2(3) [of x] by (auto simp: delete_filter)
  have "js_leq (js_int (int n)) b" if "(k, n) \<in> set ss" for k n using 2(4) [of k n] that by simp
  from 2(1) [OF _ new this 2(5)] 2(2) show ?case by simp
qed simp

text \<open>Entries move to the end as they are raised, so the raised ones stay together there.\<close>

lemma raise_entries_recent:
  "\<exists>pre' suf'. raise_entries ss (pre @ suf) = pre' @ suf' \<and> fst ` set suf' = fst ` set suf \<union> fst ` set ss"
proof (induction ss arbitrary: pre suf)
  case Nil
  show ?case by (intro exI [of _ pre] exI [of _ suf]) simp
next
  case (Cons s ss)
  obtain key serial where s: "s = (key, serial)" by (cases s)
  let ?v = "js_max (nullish (map_of (pre @ suf) key) (js_int 0)) (js_int (int serial))"
  let ?suf = "AList.delete key suf @ [(key, ?v)]"
  obtain pre' suf' where ih: "raise_entries ss (AList.delete key pre @ ?suf) = pre' @ suf'"
    "fst ` set suf' = fst ` set ?suf \<union> fst ` set ss" using Cons.IH by metis
  have "fst ` set ?suf = insert key (fst ` set suf)" by (auto simp: delete_filter image_iff)
  moreover have "raise_entries (s # ss) (pre @ suf) = raise_entries ss (AList.delete key pre @ ?suf)"
    by (simp add: s delete_filter)
  ultimately show ?case using ih by (intro exI [of _ pre'] exI [of _ suf']) (simp add: s)
qed

lemma map_of_drop:
  assumes "distinct (map fst xs)" "map_of (drop n xs) k = Some v"
  shows "map_of xs k = Some v"
proof -
  have "(k, v) \<in> set xs" using assms(2) map_of_SomeD set_drop_subset by fastforce
  with assms(1) show ?thesis by simp
qed

text \<open>The bound drops none of the last \<open>MAX_SERIALS_PER_PIN\<close> keys raised.\<close>

lemma raiseSerials_recent:
  assumes "marks_ok (pre @ suf)" "card (fst ` set suf \<union> fst ` set ss) \<le> MAX_SERIALS_PER_PIN"
  shows "\<exists>pre' suf'. raiseSerials (pre @ suf) ss = pre' @ suf' \<and> fst ` set suf' = fst ` set suf \<union> fst ` set ss"
proof -
  obtain pre' suf' where r: "raise_entries ss (pre @ suf) = pre' @ suf'" "fst ` set suf' = fst ` set suf \<union> fst ` set ss"
    using raise_entries_recent [of ss pre suf] by (elim exE conjE)
  have "marks_ok (pre' @ suf')" using conjunct1 [OF raise_entries_marks [OF assms(1), of ss]] unfolding r(1) .
  then have "distinct (map fst suf')" by (simp add: marks_ok_def)
  then have "length suf' = card (fst ` set suf')" using distinct_card by fastforce
  then have "length suf' \<le> MAX_SERIALS_PER_PIN" using assms(2) r(2) by simp
  then have "length (pre' @ suf') - MAX_SERIALS_PER_PIN - length pre' = 0" using assms(2) r(2) by simp
  then have "raiseSerials (pre @ suf) ss = drop (length (pre' @ suf') - MAX_SERIALS_PER_PIN) pre' @ suf'"
    unfolding raiseSerials_def Let_def r(1) drop_append by (simp only: drop_0)
  with r(2) show ?thesis by blast
qed

lemma raiseSerials_marks:
  assumes "marks_ok es"
  shows "marks_ok (raiseSerials es ss)"
    and "length (raiseSerials es ss) \<le> MAX_SERIALS_PER_PIN"
    and "map_of es k = Some u \<Longrightarrow> map_of (raiseSerials es ss) k = Some v \<Longrightarrow> js_leq u v"
    and "length ss \<le> MAX_SERIALS_PER_PIN \<Longrightarrow> (k, n) \<in> set ss \<Longrightarrow>
      \<exists>v. map_of (raiseSerials es ss) k = Some v \<and> js_leq (js_int (int n)) v"
proof -
  let ?xs = "raise_entries ss es"
  let ?d = "length ?xs - MAX_SERIALS_PER_PIN"
  note r = raise_entries_marks [OF assms, of ss]
  have di: "distinct (map fst ?xs)" using r by (simp add: marks_ok_def)
  have eq: "raiseSerials es ss = drop ?d ?xs" by (simp add: raiseSerials_def Let_def)
  show "marks_ok (raiseSerials es ss)"
    using r unfolding eq marks_ok_def by (auto simp: drop_map [symmetric] dest: in_set_dropD)
  show "length (raiseSerials es ss) \<le> MAX_SERIALS_PER_PIN" unfolding eq by simp
  show "js_leq u v" if "map_of es k = Some u" "map_of (raiseSerials es ss) k = Some v"
  proof -
    have "\<exists>x. map_of ?xs k = Some x \<and> js_leq u x" using conjunct1 [OF conjunct2 [OF r]] that(1) by (elim allE impE)
    then obtain x where "map_of ?xs k = Some x" "js_leq u x" by (elim exE conjE)
    with map_of_drop [OF di, of ?d k v] that(2) show ?thesis unfolding eq by simp
  qed
  show "\<exists>v. map_of (raiseSerials es ss) k = Some v \<and> js_leq (js_int (int n)) v"
    if len: "length ss \<le> MAX_SERIALS_PER_PIN" and k: "(k, n) \<in> set ss"
  proof -
    have "card (fst ` set ss) \<le> length ss" using card_length [of "map fst ss"] by simp
    then obtain pre suf where ps: "raiseSerials es ss = pre @ suf" "fst ` set suf = fst ` set ss"
      using raiseSerials_recent [of es "[]" ss] assms len by auto
    have "k \<in> fst ` set suf" using k ps(2) by force
    then have "k \<in> fst ` set (drop ?d ?xs)" using ps(1) unfolding eq by auto
    then obtain v where v: "map_of (drop ?d ?xs) k = Some v" by (metis map_of_eq_None_iff not_Some_eq)
    obtain x where "map_of ?xs k = Some x" "js_leq (js_int (int n)) x" using r k by blast
    with map_of_drop [OF di v] v show ?thesis unfolding eq by simp
  qed
qed

end
