(* ===== verification/Overlay_Trust.thy ===== *)
theory Overlay_Trust
  imports Client_Pins
begin

text \<open>
  \<^verbatim>\<open>packages/client/src/overlay/verify.ts\<close>: from what the registry answers for a name to the only key the handshake accepts, or to a
  refusal. The text of a refusal is not modelled, apart from whether it tells the user of a reset. The argument \<open>lower\<close> is
  \<^verbatim>\<open>toLowerCase\<close>.
\<close>

datatype overlay_refusal =
    Not_native
  | No_overlay
  | Overlay_malformed
  | Pin_mismatch bool
  | Bad_chain verify_failure
  | Bad_binding binding_rejection

datatype overlay_error = Overlay_refused overlay_refusal | Threw exn

definition strip_dot :: "jsstring \<Rightarrow> jsstring" where
  "strip_dot s = (if s \<noteq> [] \<and> last s = 46 then butlast s else s)"

definition serviceNameFor :: "(jsstring \<Rightarrow> jsstring) \<Rightarrow> jsstring \<Rightarrow> overlay_error + jsstring" where
  "serviceNameFor lower destination =
     (let name = strip_dot (lower (js_trim destination));
          labels = split_on 46 name;
          service = join_with 46 (drop (length labels - 2) labels)
      in if length labels < 2 \<or> \<not> is_canonical_name (JStr service) then Inl (Overlay_refused Not_native) else Inr service)"

record verified_overlay =
  vr_name :: jsstring
  vr_relay :: jsstring
  vr_relayBinding :: "(jsstring \<times> bytes) option"
  vr_key :: verified_key
  vr_firstContact :: bool
  vr_keyReset :: "domain_key_reset option"

text \<open>The first step of the decision: the domain key must be the pinned one or follow from it.\<close>

definition follow_pin :: "jsstring \<Rightarrow> pin \<Rightarrow> dns_overlay \<Rightarrow> follow_options" where
  "follow_pin name p ov = \<lparr>fo_name = name, fo_pinned = KeyString (pin_domainKey p), fo_current = KeyString (ov_domainKey ov),
     fo_rotations = JArr (ov_rotations ov)\<rparr>"

definition check_pin :: "crypto \<Rightarrow> ed_verify \<Rightarrow> jsstring \<Rightarrow> dns_overlay \<Rightarrow> pin option \<Rightarrow> overlay_error option" where
  "check_pin c verify name ov pin = (case pin of
     None \<Rightarrow> None
   | Some p \<Rightarrow>
       if pin_domainKey p = ov_domainKey ov then None
       else (case followDomainKeyRotations verify (follow_pin name p ov) of
         Inl e \<Rightarrow> Some (Threw e)
       | Inr (Follow_ok _) \<Rightarrow> None
       | Inr Follow_failed \<Rightarrow> (case ov_keyReset ov of
           None \<Rightarrow> Some (Overlay_refused (Pin_mismatch False))
         | Some r \<Rightarrow> (case domainKeyFingerprint c (KeyString (pin_domainKey p)) of
             Inl e \<Rightarrow> Some (Threw e)
           | Inr f \<Rightarrow> Some (Overlay_refused (Pin_mismatch (kr_previousKeyFingerprint r = f)))))))"

definition pin_marks :: "pin option \<Rightarrow> (jsstring \<times> js_number) list" where
  "pin_marks pin = (case pin of None \<Rightarrow> [] | Some p \<Rightarrow> pin_serials p)"

definition overlay_options :: "js_number \<Rightarrow> jsstring \<Rightarrow> dns_overlay \<Rightarrow> pin option \<Rightarrow> ka_options" where
  "overlay_options now name ov pin =
     \<lparr>ko_base = \<lparr>vo_trustedRoots = [KeyString (ov_domainKey ov)], vo_now = now, vo_revoked = None,
        vo_knownSerials = Some (map_of (pin_marks pin)), vo_requirePurpose = SERVICE_NODE, vo_requireScope = None\<rparr>,
      ko_role = KA_SERVICE_NODE, ko_name = name\<rparr>"

definition check_binding :: "ed_verify \<Rightarrow> js_number \<Rightarrow> jsstring \<Rightarrow> dns_overlay \<Rightarrow> bytes
    \<Rightarrow> overlay_error + (jsstring \<times> bytes) option" where
  "check_binding verify now name ov subject = (case ov_relayBinding ov of
     None \<Rightarrow> Inr None
   | Some b \<Rightarrow> (case verifyServiceRelayBinding verify name b subject now of
       Binding_rejected f \<Rightarrow> Inl (Overlay_refused (Bad_binding f))
     | Binding_ok endpoint relayKey _ \<Rightarrow> Inr (Some (endpoint, relayKey))))"

text \<open>The serials a verification presents: those of the chain, then that of the certificate.\<close>

definition presented :: "ka_verified \<Rightarrow> (jsstring \<times> nat) list" where
  "presented k = vc_serials (kv_chain k) @ [(kv_serialKey k, kv_serial k)]"

definition decide_overlay :: "crypto \<Rightarrow> ed_verify \<Rightarrow> jsstring \<Rightarrow> js_number \<Rightarrow> jsstring \<Rightarrow> dns_overlay \<Rightarrow> pin option \<Rightarrow> key_registry
    \<Rightarrow> (overlay_error + pin option \<times> verified_overlay) \<times> key_registry" where
  "decide_overlay c verify stamp now name ov pin reg =
     (case check_pin c verify name ov pin of
       Some e \<Rightarrow> (Inl e, reg)
     | None \<Rightarrow> (case verifyKeyAgreementCertificate c verify (ov_kaCert ov) (JArr (ov_chain ov)) (overlay_options now name ov pin) reg of
         Inl e \<Rightarrow> (Inl (Threw e), reg)
       | Inr (KA_failed f, reg') \<Rightarrow> (Inl (Overlay_refused (Bad_chain f)), reg')
       | Inr (KA_ok k, reg') \<Rightarrow> (case check_binding verify now name ov (vc_subject (kv_chain k)) of
           Inl e \<Rightarrow> (Inl e, reg')
         | Inr binding \<Rightarrow>
             (Inr (Some (pin_next stamp pin (ov_domainKey ov) (presented k)),
                   \<lparr>vr_name = name, vr_relay = ov_relay ov, vr_relayBinding = binding, vr_key = kv_key k,
                    vr_firstContact = (pin = None), vr_keyReset = ov_keyReset ov\<rparr>), reg'))))"

definition verifyOverlay :: "crypto \<Rightarrow> ed_verify \<Rightarrow> (jsstring \<Rightarrow> bool) \<Rightarrow> store_world \<Rightarrow> jsstring \<Rightarrow> js_number \<Rightarrow> jsstring \<Rightarrow> jsval
    \<Rightarrow> pin_disk \<Rightarrow> key_registry \<Rightarrow> (overlay_error + verified_overlay) \<times> pin_disk \<times> key_registry" where
  "verifyOverlay c verify is_date w stamp now name overlayInput disk reg =
     (case parseDnsResolveOverlay is_date overlayInput of
       None \<Rightarrow> (Inl (Overlay_refused Overlay_malformed), disk, reg)
     | Some ov \<Rightarrow>
         if \<not> ov_available ov then (Inl (Overlay_refused No_overlay), disk, reg)
         else pins_update Threw w name (decide_overlay c verify stamp now name ov) disk reg)"

section \<open>What an acceptance means\<close>

text \<open>From one key to another by statements for \<open>name\<close>, each signed by the key it retires.\<close>

definition signed_line :: "ed_verify \<Rightarrow> jsstring \<Rightarrow> bytes \<Rightarrow> bytes \<Rightarrow> bool" where
  "signed_line verify name k k' \<longleftrightarrow> (\<exists>path. linked k path k' \<and> (\<forall>r \<in> set path. \<exists>v. genuine verify name v r))"

lemma linked_append: "linked k as k' \<Longrightarrow> linked k' bs k'' \<Longrightarrow> linked k (as @ bs) k''"
  by (induction as arbitrary: k) auto

lemma signed_line_refl: "signed_line verify name k k"
  unfolding signed_line_def by (intro exI [of _ "[]"]) simp

lemma signed_line_trans:
  assumes "signed_line verify name k k'" "signed_line verify name k' k''"
  shows "signed_line verify name k k''"
proof -
  obtain as bs where "linked k as k'" "linked k' bs k''" "\<forall>r \<in> set as. \<exists>v. genuine verify name v r"
    "\<forall>r \<in> set bs. \<exists>v. genuine verify name v r" using assms unfolding signed_line_def by blast
  then show ?thesis unfolding signed_line_def by (intro exI [of _ "as @ bs"]) (auto intro: linked_append)
qed

text \<open>The key a pin stands for.\<close>

definition pin_key :: "pin \<Rightarrow> bytes result" where
  "pin_key p = parsePublicKey (KeyString (pin_domainKey p))"

definition moved_by_signature :: "ed_verify \<Rightarrow> jsstring \<Rightarrow> pin \<Rightarrow> pin \<Rightarrow> bool" where
  "moved_by_signature verify name p q \<longleftrightarrow> (\<exists>k k'. pin_key p = Inr k \<and> pin_key q = Inr k' \<and> signed_line verify name k k')"

lemma check_pin_line:
  assumes "check_pin c verify name ov (Some p) = None" "pin_key p = Inr k" "parsePublicKey (KeyString (ov_domainKey ov)) = Inr k'"
  shows "signed_line verify name k k'"
proof (cases "pin_domainKey p = ov_domainKey ov")
  case True
  with assms(2,3) show ?thesis using signed_line_refl by (simp add: pin_key_def)
next
  case False
  with assms(1) obtain n where n: "followDomainKeyRotations verify (follow_pin name p ov) = Inr (Follow_ok n)"
    unfolding check_pin_def by (auto split: sum.splits follow_result.splits option.splits)
  from conjunct2 [OF rotation_follow_sound, rule_format, OF n] obtain pinned current
    where pc: "parsePublicKey (fo_pinned (follow_pin name p ov)) = Inr pinned" "parsePublicKey (fo_current (follow_pin name p ov)) = Inr current"
      "n = 0 \<and> pinned = current \<or> (\<exists>vs path. succession verify (fo_name (follow_pin name p ov)) vs pinned path current)" by blast
  have "pinned = k" "current = k'" using pc(1,2) assms(2,3) by (simp_all add: follow_pin_def pin_key_def)
  from pc(3) show ?thesis
  proof (elim disjE exE)
    assume "n = 0 \<and> pinned = current"
    then show ?thesis using \<open>pinned = k\<close> \<open>current = k'\<close> signed_line_refl by simp
  next
    fix vs path
    assume "succession verify (fo_name (follow_pin name p ov)) vs pinned path current"
    then show ?thesis
      using \<open>pinned = k\<close> \<open>current = k'\<close> unfolding signed_line_def succession_def follow_pin_def by (intro exI [of _ path]) auto
  qed
qed

lemma decide_ok:
  assumes "decide_overlay c verify stamp now name ov pin reg = (Inr (q, r), reg')"
  obtains k binding where "check_pin c verify name ov pin = None"
    "verifyKeyAgreementCertificate c verify (ov_kaCert ov) (JArr (ov_chain ov)) (overlay_options now name ov pin) reg = Inr (KA_ok k, reg')"
    "check_binding verify now name ov (vc_subject (kv_chain k)) = Inr binding"
    "q = Some (pin_next stamp pin (ov_domainKey ov) (presented k))"
    "r = \<lparr>vr_name = name, vr_relay = ov_relay ov, vr_relayBinding = binding, vr_key = kv_key k,
          vr_firstContact = (pin = None), vr_keyReset = ov_keyReset ov\<rparr>"
  using assms unfolding decide_overlay_def
  by (auto split: option.splits sum.splits prod.splits ka_result.splits)

lemma pin_next_key [simp]: "pin_domainKey (pin_next stamp pin dk ss) = dk"
  by (auto simp: pin_next_def split: option.splits)

lemma ka_root:
  assumes "verifyKeyAgreementCertificate c verify cert chain (overlay_options now name ov pin) reg = Inr (KA_ok k, reg')"
  shows "valid_name name" and "\<exists>root. parsePublicKey (KeyString (ov_domainKey ov)) = Inr root"
proof -
  obtain p s v roots revoked where n: "valid_name (ko_name (overlay_options now name ov pin))"
    and g: "good_options (ka_chain_options (overlay_options now name ov pin)) roots revoked"
    using ka_accepts [OF assms] by blast
  show "valid_name name" using n by (simp add: overlay_options_def)
  show "\<exists>root. parsePublicKey (KeyString (ov_domainKey ov)) = Inr root"
    using g by (auto simp: good_options_def overlay_options_def rbind_eq_Inr)
qed

text \<open>What an accepted answer is, and what it leaves on disk.\<close>

lemma overlay_ok:
  assumes "verifyOverlay c verify is_date w stamp now name input disk reg = (Inr r, disk', reg')"
  obtains ov k binding where "parseDnsResolveOverlay is_date input = Some ov" "ov_available ov"
    "check_pin c verify name ov (pinned disk name) = None"
    "verifyKeyAgreementCertificate c verify (ov_kaCert ov) (JArr (ov_chain ov)) (overlay_options now name ov (pinned disk name)) reg
       = Inr (KA_ok k, reg')"
    "check_binding verify now name ov (vc_subject (kv_chain k)) = Inr binding"
    "r = \<lparr>vr_name = name, vr_relay = ov_relay ov, vr_relayBinding = binding, vr_key = kv_key k,
          vr_firstContact = (pinned disk name = None), vr_keyReset = ov_keyReset ov\<rparr>"
    "pinned disk' name = Some (pin_next stamp (pinned disk name) (ov_domainKey ov) (presented k))"
proof -
  note finish = that
  obtain ov where ov: "parseDnsResolveOverlay is_date input = Some ov" "ov_available ov"
    and u: "pins_update Threw w name (decide_overlay c verify stamp now name ov) disk reg = (Inr r, disk', reg')"
    using assms by (auto simp: verifyOverlay_def split: option.splits if_splits)
  have step: thesis
    if es: "pins_read disk = Inr es" and d: "decide_overlay c verify stamp now name ov (map_of es name) reg = (Inr (q, r), reg')"
      and disk': "disk' = disk \<and> (q = None \<or> q = map_of es name) \<or> (\<exists>p. q = Some p \<and> disk' = Pin_file (map stored (AList.update name p es)))"
    for es q
  proof -
    have p: "pinned disk name = map_of es name" by (simp add: pinned_def es)
    obtain k binding where k: "check_pin c verify name ov (map_of es name) = None"
      "verifyKeyAgreementCertificate c verify (ov_kaCert ov) (JArr (ov_chain ov)) (overlay_options now name ov (map_of es name)) reg
         = Inr (KA_ok k, reg')"
      "check_binding verify now name ov (vc_subject (kv_chain k)) = Inr binding"
      "q = Some (pin_next stamp (map_of es name) (ov_domainKey ov) (presented k))"
      "r = \<lparr>vr_name = name, vr_relay = ov_relay ov, vr_relayBinding = binding, vr_key = kv_key k,
          vr_firstContact = (map_of es name = None), vr_keyReset = ov_keyReset ov\<rparr>"
      using d by (rule decide_ok)
    let ?p = "pin_next stamp (map_of es name) (ov_domainKey ov) (presented k)"
    have "pinned disk' name = Some ?p"
    proof (cases "disk' = disk \<and> Some ?p = map_of es name")
      case True
      then show ?thesis by (simp add: p)
    next
      case False
      then have "disk' = Pin_file (map stored (AList.update name ?p es))" using disk' k(4) by auto
      moreover have "good_entry (name, ?p)" using ka_root [OF k(2)] by (auto simp: good_entry_def is_ok_iff)
      ultimately have "pins_read disk' = Inr (AList.update name ?p es)"
        using read_written update_good pins_read_good [OF es] by metis
      then show ?thesis by (simp add: pinned_def update_conv)
    qed
    then show thesis using finish [OF ov] k p by metis
  qed
  from u show thesis
  proof (cases rule: pins_update_cases)
    case (kept es q x)
    then show thesis using step by auto
  next
    case (written es p x)
    then show thesis using step by auto
  qed auto
qed

lemma overlay_error_keeps:
  assumes "verifyOverlay c verify is_date w stamp now name input disk reg = (Inl e, disk', reg')"
  shows "disk' = disk"
proof (cases "parseDnsResolveOverlay is_date input")
  case (Some ov)
  show ?thesis
  proof (cases "ov_available ov")
    case True
    then have "pins_update Threw w name (decide_overlay c verify stamp now name ov) disk reg = (Inl e, disk', reg')"
      using assms Some by (simp add: verifyOverlay_def)
    then show ?thesis by (cases rule: pins_update_cases) auto
  qed (use assms Some in \<open>auto simp: verifyOverlay_def\<close>)
qed (use assms in \<open>auto simp: verifyOverlay_def\<close>)

lemma overlay_others:
  assumes "verifyOverlay c verify is_date w stamp now name input disk reg = (x, disk', reg')" "n \<noteq> name"
  shows "pinned disk' n = pinned disk n"
proof (cases x)
  case (Inl e)
  with overlay_error_keeps assms(1) show ?thesis by metis
next
  case (Inr r)
  from assms(1) obtain ov where u: "pins_update Threw w name (decide_overlay c verify stamp now name ov) disk reg = (Inr r, disk', reg')"
    unfolding Inr by (auto simp: verifyOverlay_def split: option.splits if_splits)
  then show ?thesis
  proof (cases rule: pins_update_cases)
    case (written es p y)
    obtain k where "verifyKeyAgreementCertificate c verify (ov_kaCert ov) (JArr (ov_chain ov))
        (overlay_options now name ov (map_of es name)) reg = Inr (KA_ok k, reg')"
      and p: "p = pin_next stamp (map_of es name) (ov_domainKey ov) (presented k)"
      using written(2) by (rule decide_ok) auto
    then have "good_entry (name, p)" using ka_root by (auto simp: good_entry_def is_ok_iff)
    then have "pins_read disk' = Inr (AList.update name p es)"
      using read_written update_good pins_read_good [OF written(1)] written(4) by metis
    with assms(2) written(1) show ?thesis by (simp add: pinned_def update_conv)
  qed auto
qed

lemma forget_keeps:
  assumes "pins_forget w name disk = (x, disk')" "n \<noteq> name"
  shows "pinned disk' n = pinned disk n"
proof (cases "disk' = disk")
  case False
  then obtain es where es: "pins_read disk = Inr es" "disk' = Pin_file (map stored (AList.delete name es))"
    using assms(1) by (auto simp: pins_forget_def split: if_splits sum.splits)
  have "pins_read disk' = Inr (AList.delete name es)"
    unfolding es(2) using pins_read_good [OF es(1)] by (intro read_written) (auto simp: delete_filter)
  with es(1) assms(2) show ?thesis by (simp add: pinned_def)
qed simp

section \<open>Serials\<close>

lemma core_serials:
  assumes "verifyChainCore verify chain opts = Inr (Verified v)" "vo_knownSerials opts = Some m" "(k, n) \<in> set (vc_serials v)" "m k = Some u"
  shows "\<not> js_less (js_int (int n)) u"
proof -
  obtain roots revoked cs links where l: "rmap parse_signed cs = Inr links" and a: "accepted verify roots revoked opts links"
    and v: "v = summary (map fst links)"
    using assms(1) unfolding verifyChainCore_Verified by blast
  obtain g t where g: "(g, t) \<in> set links" "k = toHex (pg_issuer g) @ [124] @ toHex (pg_subject g)" "n = pg_serial g"
    using assms(3) by (auto simp: v summary_def)
  have "pg_issuerHex g = toHex (pg_issuer g) \<and> pg_subjectHex g = toHex (pg_subject g)"
    using parse_signed_wf [OF l g(1)] by (simp add: wf_grant_def)
  then have "seen_serial opts g = Some u" using g(2) assms(2,4) by (simp add: seen_serial_def)
  moreover have "grant_ok verify revoked opts g t" using a g(1) by (auto simp: accepted_def)
  ultimately show ?thesis using g(3) by (simp add: grant_ok_def)
qed

lemma core_short: "verifyChainCore verify chain opts = Inr (Verified v) \<Longrightarrow> length (vc_serials v) \<le> MAX_CHAIN_DEPTH"
  unfolding verifyChainCore_Verified by (auto simp: accepted_def summary_def)

lemma ka_serial_key:
  assumes "verifyKeyAgreementCertificate c verify cert chain opts reg = Inr (KA_ok k, reg')"
    "parse_signed_certificate c cert = Inr (p, s)"
  shows "kv_serialKey k = toHex (pc_signer p) @ [124] @ toHex (pc_key p)"
proof -
  obtain v where name: "valid_name (ko_name opts)" and v: "verifyChainCore verify chain (ka_chain_options opts) = Inr (Verified v)"
    using ka_accepts [OF assms(1)] by blast
  obtain f where f: "check_certificate verify opts v p s = Inr f"
    using assms(1) by (auto simp: verifyKeyAgreementCertificate_def assms(2) name v rbind_eq_Inr)
  obtain key reg2 where m: "makeVerifiedKey p reg = (key, reg2)" by (cases "makeVerifiedKey p reg")
  show ?thesis
    using assms(1) by (auto simp: verifyKeyAgreementCertificate_def assms(2) name v f m split: option.splits)
qed

lemma presented_serials:
  assumes "verifyKeyAgreementCertificate c verify cert chain opts reg = Inr (KA_ok k, reg')" "vo_knownSerials (ko_base opts) = Some m"
    "(x, n) \<in> set (presented k)" "m x = Some u"
  shows "\<not> js_less (js_int (int n)) u"
proof -
  obtain p s v revoked where ps: "parse_signed_certificate c cert = Inr (p, s)"
    and v: "verifyChainCore verify chain (ka_chain_options opts) = Inr (Verified v)"
    and a: "cert_accepted verify opts revoked v p s" and k: "kv_chain k = v" "kv_serial k = pc_serial p"
    using ka_accepts [OF assms(1)] by blast
  from assms(3) consider "(x, n) \<in> set (vc_serials v)" | "x = kv_serialKey k" "n = kv_serial k"
    by (auto simp: presented_def k(1))
  then show ?thesis
  proof cases
    case 1
    with core_serials [OF v] assms(2,4) show ?thesis by simp
  next
    case 2
    with a k(2) ka_serial_key [OF assms(1) ps] assms(2,4) show ?thesis by (simp add: cert_accepted_def serial_fresh_def)
  qed
qed

lemma presented_short:
  assumes "verifyKeyAgreementCertificate c verify cert chain opts reg = Inr (KA_ok k, reg')"
  shows "length (presented k) \<le> MAX_SERIALS_PER_PIN"
proof -
  obtain v where "verifyChainCore verify chain (ka_chain_options opts) = Inr (Verified v)" "kv_chain k = v"
    using ka_accepts [OF assms] by blast
  then have "length (vc_serials (kv_chain k)) \<le> MAX_CHAIN_DEPTH" using core_short by blast
  then show ?thesis by (simp add: presented_def MAX_CHAIN_DEPTH_def MAX_SERIALS_PER_PIN_def)
qed

lemma pin_next_marks:
  assumes "marks_ok (pin_marks pin)" "length ss \<le> MAX_SERIALS_PER_PIN"
  shows "marks_ok (pin_serials (pin_next stamp pin dk ss))"
    and "length (pin_serials (pin_next stamp pin dk ss)) \<le> MAX_SERIALS_PER_PIN"
    and "(k, n) \<in> set ss \<Longrightarrow> \<exists>v. map_of (pin_serials (pin_next stamp pin dk ss)) k = Some v \<and> js_leq (js_int (int n)) v"
proof -
  obtain es where es: "marks_ok es" "pin_serials (pin_next stamp pin dk ss) = raiseSerials es ss"
  proof (cases "\<exists>p. pin = Some p \<and> pin_domainKey p = dk")
    case True
    then show thesis using assms(1) that by (auto simp: pin_next_def pin_marks_def)
  next
    case False
    have "marks_ok []" by (simp add: marks_ok_def)
    with False show thesis using that by (auto simp: pin_next_def split: option.splits)
  qed
  show "marks_ok (pin_serials (pin_next stamp pin dk ss))" "length (pin_serials (pin_next stamp pin dk ss)) \<le> MAX_SERIALS_PER_PIN"
    using raiseSerials_marks(1,2) [OF es(1)] by (simp_all add: es(2))
  show "\<exists>v. map_of (pin_serials (pin_next stamp pin dk ss)) k = Some v \<and> js_leq (js_int (int n)) v" if "(k, n) \<in> set ss"
    using raiseSerials_marks(4) [OF es(1) assms(2) that] by (simp add: es(2))
qed

text \<open>The material an acceptance rests on.\<close>

definition accepts_material :: "crypto \<Rightarrow> ed_verify \<Rightarrow> (jsstring \<Rightarrow> bool) \<Rightarrow> js_number \<Rightarrow> jsstring \<Rightarrow> jsval \<Rightarrow> pin option
    \<Rightarrow> key_registry \<Rightarrow> ka_verified \<Rightarrow> bool" where
  "accepts_material c verify is_date now name input pin reg k \<longleftrightarrow>
     (\<exists>ov reg'. parseDnsResolveOverlay is_date input = Some ov \<and>
       verifyKeyAgreementCertificate c verify (ov_kaCert ov) (JArr (ov_chain ov)) (overlay_options now name ov pin) reg = Inr (KA_ok k, reg'))"

section \<open>Names\<close>

lemma service_name_iff:
  "(2 \<le> length (split_on 46 n) \<and> NAME_RE (join_with 46 (drop (length (split_on 46 n) - 2) (split_on 46 n))) \<and>
     join_with 46 (drop (length (split_on 46 n) - 2) (split_on 46 n)) = s) \<longleftrightarrow>
   valid_name s \<and> length (labels s) = 2 \<and> (n = s \<or> endsWith n (46 # s))"
  (is "?l \<longleftrightarrow> ?r")
proof
  assume l: ?l
  let ?ls = "split_on 46 n"
  let ?two = "drop (length ?ls - 2) ?ls"
  let ?rest = "take (length ?ls - 2) ?ls"
  have two: "length ?two = 2" using l by simp
  then have ne: "?two \<noteq> []" by auto
  have sep: "\<And>p. p \<in> set ?two \<Longrightarrow> 46 \<notin> set p" by (meson in_set_dropD split_on_no_sep)
  have sp: "split_on 46 s = ?two" using l split_join [OF ne sep] by metis
  have "n = s \<or> endsWith n (46 # s)"
  proof (cases "?rest = []")
    case True
    then have "split_on 46 n = split_on 46 s" using sp by (metis append_take_drop_id self_append_conv2)
    then show ?thesis using split_on_inj by blast
  next
    case False
    have "\<And>p. p \<in> set ?rest \<Longrightarrow> 46 \<notin> set p" by (meson in_set_takeD split_on_no_sep)
    then have "split_on 46 (join_with 46 ?rest @ 46 # s) = ?rest @ ?two"
      using split_join [OF False] sp by (simp add: split_on_append)
    then have "n = join_with 46 ?rest @ 46 # s" using split_on_inj append_take_drop_id by metis
    then show ?thesis by (metis endsWith_iff)
  qed
  moreover have "valid_name s" using l by (metis NAME_RE_valid)
  ultimately show ?r using sp two by (simp add: labels_def)
next
  assume r: ?r
  have len: "length (split_on 46 s) = 2" using r by (simp add: labels_def)
  from r have "n = s \<or> (\<exists>p. n = p @ 46 # s)" by (auto simp: endsWith_iff)
  then obtain qs where "split_on 46 n = qs @ split_on 46 s" by (metis append_Nil split_on_append)
  with len r show ?l by (simp add: NAME_RE_valid)
qed

section \<open>Runs\<close>

text \<open>Everything that changes the pins of a client: answers of the registry it verifies, and pins its user forgets.\<close>

datatype trust_op =
    Op_verify store_world jsstring js_number jsstring jsval \<comment> \<open>the time twice, as a stamp and as a number; the name; the answer\<close>
  | Op_forget store_world jsstring

fun trust_step :: "crypto \<Rightarrow> ed_verify \<Rightarrow> (jsstring \<Rightarrow> bool) \<Rightarrow> trust_op \<Rightarrow> pin_disk \<times> key_registry \<Rightarrow> pin_disk \<times> key_registry" where
  "trust_step c verify is_date (Op_verify w stamp now name input) (disk, reg) =
     snd (verifyOverlay c verify is_date w stamp now name input disk reg)"
| "trust_step c verify is_date (Op_forget w name) (disk, reg) = (snd (pins_forget w name disk), reg)"

definition trust_run :: "crypto \<Rightarrow> ed_verify \<Rightarrow> (jsstring \<Rightarrow> bool) \<Rightarrow> trust_op list \<Rightarrow> pin_disk \<times> key_registry \<Rightarrow> pin_disk \<times> key_registry" where
  "trust_run c verify is_date ops s = fold (trust_step c verify is_date) ops s"

text \<open>The serials a step presents to the pin of \<open>name\<close>, if it is an answer for it and is accepted, and those of a run.\<close>

definition shown :: "crypto \<Rightarrow> ed_verify \<Rightarrow> (jsstring \<Rightarrow> bool) \<Rightarrow> jsstring \<Rightarrow> trust_op \<Rightarrow> pin_disk \<times> key_registry \<Rightarrow> (jsstring \<times> nat) list" where
  "shown c verify is_date name op s = (case op of
     Op_forget _ _ \<Rightarrow> []
   | Op_verify w stamp now n input \<Rightarrow>
       (case (fst (verifyOverlay c verify is_date w stamp now n input (fst s) (snd s)), parseDnsResolveOverlay is_date input) of
         (Inr _, Some ov) \<Rightarrow>
           (case verifyKeyAgreementCertificate c verify (ov_kaCert ov) (JArr (ov_chain ov)) (overlay_options now n ov (pinned (fst s) n)) (snd s) of
             Inr (KA_ok k, _) \<Rightarrow> if n = name then presented k else []
           | _ \<Rightarrow> [])
       | _ \<Rightarrow> []))"

fun shown_run :: "crypto \<Rightarrow> ed_verify \<Rightarrow> (jsstring \<Rightarrow> bool) \<Rightarrow> jsstring \<Rightarrow> trust_op list \<Rightarrow> pin_disk \<times> key_registry \<Rightarrow> (jsstring \<times> nat) list" where
  "shown_run c verify is_date name [] s = []"
| "shown_run c verify is_date name (op # ops) s =
     shown c verify is_date name op s @ shown_run c verify is_date name ops (trust_step c verify is_date op s)"

text \<open>From the first contact on, the pin of \<open>name\<close> stays and keeps its domain key.\<close>

fun steady :: "crypto \<Rightarrow> ed_verify \<Rightarrow> (jsstring \<Rightarrow> bool) \<Rightarrow> jsstring \<Rightarrow> trust_op list \<Rightarrow> pin_disk \<times> key_registry \<Rightarrow> bool" where
  "steady c verify is_date name [] s = True"
| "steady c verify is_date name (op # ops) s =
     ((case pinned (fst s) name of
        None \<Rightarrow> True
      | Some p \<Rightarrow> map_option pin_domainKey (pinned (fst (trust_step c verify is_date op s)) name) = Some (pin_domainKey p)) \<and>
      steady c verify is_date name ops (trust_step c verify is_date op s))"

fun forgets :: "jsstring \<Rightarrow> trust_op \<Rightarrow> bool" where
  "forgets name (Op_forget _ n) = (n = name)"
| "forgets name (Op_verify _ _ _ _ _) = False"

lemma pin_key_pinned: "pinned disk name = Some p \<Longrightarrow> \<exists>k. pin_key p = Inr k"
  using pinned_good by (auto simp: good_entry_def pin_key_def is_ok_iff)

lemma pin_moved_refl: "pinned disk name = Some p \<Longrightarrow> moved_by_signature verify name p p"
  unfolding moved_by_signature_def using pin_key_pinned signed_line_refl by metis

lemma pin_moved_trans: "moved_by_signature verify name p q \<Longrightarrow> moved_by_signature verify name q r \<Longrightarrow> moved_by_signature verify name p r"
  unfolding moved_by_signature_def by (metis Inr_inject signed_line_trans)

lemma verify_moves:
  assumes "verifyOverlay c verify is_date w stamp now name input disk reg = (x, disk', reg')" "pinned disk name = Some p"
  shows "\<exists>q. pinned disk' name = Some q \<and> moved_by_signature verify name p q"
proof (cases x)
  case (Inl e)
  then have "disk' = disk" using assms(1) overlay_error_keeps by metis
  then show ?thesis using assms(2) pin_moved_refl by blast
next
  case (Inr r)
  obtain ov k binding where ov: "check_pin c verify name ov (pinned disk name) = None"
    "verifyKeyAgreementCertificate c verify (ov_kaCert ov) (JArr (ov_chain ov)) (overlay_options now name ov (pinned disk name)) reg
       = Inr (KA_ok k, reg')"
    "pinned disk' name = Some (pin_next stamp (pinned disk name) (ov_domainKey ov) (presented k))"
    using assms(1) unfolding Inr by (rule overlay_ok)
  obtain k0 where k0: "pin_key p = Inr k0" using pin_key_pinned assms(2) by blast
  obtain k1 where k1: "parsePublicKey (KeyString (ov_domainKey ov)) = Inr k1" using ka_root(2) [OF ov(2)] by blast
  have "signed_line verify name k0 k1" using check_pin_line ov(1) k0 k1 assms(2) by metis
  with ov(3) k0 k1 show ?thesis by (auto simp: moved_by_signature_def pin_key_def)
qed

lemma step_moves:
  assumes "pinned (fst s) name = Some p" "\<not> forgets name op"
  shows "\<exists>q. pinned (fst (trust_step c verify is_date op s)) name = Some q \<and> moved_by_signature verify name p q"
proof (cases op)
  case (Op_verify w stamp now n input)
  obtain x disk' reg' where v: "verifyOverlay c verify is_date w stamp now n input (fst s) (snd s) = (x, disk', reg')"
    by (cases "verifyOverlay c verify is_date w stamp now n input (fst s) (snd s)")
  then have st: "trust_step c verify is_date op s = (disk', reg')" using Op_verify by (cases s) simp
  show ?thesis
  proof (cases "n = name")
    case True
    with v st assms(1) verify_moves show ?thesis by (metis fst_conv)
  next
    case False
    with v st assms(1) overlay_others pin_moved_refl show ?thesis by (metis fst_conv)
  qed
next
  case (Op_forget w n)
  obtain x disk' where f: "pins_forget w n (fst s) = (x, disk')" by (cases "pins_forget w n (fst s)")
  then have "trust_step c verify is_date op s = (disk', snd s)" using Op_forget by (cases s) simp
  moreover have "n \<noteq> name" using assms(2) Op_forget by simp
  ultimately show ?thesis using f assms(1) forget_keeps pin_moved_refl by (metis fst_conv)
qed

section \<open>Marks along a run\<close>

lemma shown_accepted:
  assumes "verifyOverlay c verify is_date w stamp now name input disk reg = (Inr r, disk', reg')"
  obtains ov k where "parseDnsResolveOverlay is_date input = Some ov"
    "verifyKeyAgreementCertificate c verify (ov_kaCert ov) (JArr (ov_chain ov)) (overlay_options now name ov (pinned disk name)) reg
       = Inr (KA_ok k, reg')"
    "pinned disk' name = Some (pin_next stamp (pinned disk name) (ov_domainKey ov) (presented k))"
    "shown c verify is_date name (Op_verify w stamp now name input) (disk, reg) = presented k"
  using assms by (rule overlay_ok) (rule that, auto simp: shown_def assms)

text \<open>A step presents something for a name only by accepting an answer for it; any other step leaves its pin or forgets it.\<close>

lemma step_cases:
  obtains (accepted) w stamp now input r disk' reg' where "op = Op_verify w stamp now name input"
      "verifyOverlay c verify is_date w stamp now name input (fst s) (snd s) = (Inr r, disk', reg')"
      "trust_step c verify is_date op s = (disk', reg')"
  | (idle) "shown c verify is_date name op s = []"
      "pinned (fst (trust_step c verify is_date op s)) name = pinned (fst s) name \<or> pinned (fst (trust_step c verify is_date op s)) name = None"
proof (cases op)
  case (Op_verify w stamp now n input)
  obtain x disk' reg' where v: "verifyOverlay c verify is_date w stamp now n input (fst s) (snd s) = (x, disk', reg')"
    by (cases "verifyOverlay c verify is_date w stamp now n input (fst s) (snd s)")
  then have st: "trust_step c verify is_date op s = (disk', reg')" using Op_verify by (cases s) simp
  show thesis
  proof (cases "n = name \<and> (\<exists>r. x = Inr r)")
    case True
    with v st Op_verify accepted show thesis by blast
  next
    case False
    then have "shown c verify is_date name op s = []"
      by (auto simp: shown_def Op_verify v split: sum.splits option.splits prod.splits ka_result.splits)
    moreover have "pinned disk' name = pinned (fst s) name"
      using False v overlay_others overlay_error_keeps by (metis sum.exhaust)
    ultimately show thesis using idle st by simp
  qed
next
  case (Op_forget w n)
  obtain x disk' where f: "pins_forget w n (fst s) = (x, disk')" by (cases "pins_forget w n (fst s)")
  then have st: "trust_step c verify is_date op s = (disk', snd s)" using Op_forget by (cases s) simp
  have "pinned disk' name = pinned (fst s) name \<or> pinned disk' name = None"
  proof (cases "n = name \<and> disk' \<noteq> fst s")
    case True
    then obtain es where es: "pins_read (fst s) = Inr es" "disk' = Pin_file (map stored (AList.delete name es))"
      using f by (auto simp: pins_forget_def split: if_splits sum.splits)
    have "pins_read disk' = Inr (AList.delete name es)"
      unfolding es(2) using pins_read_good [OF es(1)] by (intro read_written) (auto simp: delete_filter)
    then show ?thesis by (simp add: pinned_def delete_conv)
  qed (use f forget_keeps in metis)
  moreover have "shown c verify is_date name op s = []" by (simp add: shown_def Op_forget)
  ultimately show thesis using idle st by simp
qed

text \<open>The pin remembers what was shown: its last marks are those of the keys shown, none below a serial shown.\<close>

definition remembers :: "pin option \<Rightarrow> (jsstring \<times> nat) list \<Rightarrow> bool" where
  "remembers pin L \<longleftrightarrow> marks_ok (pin_marks pin) \<and> (\<exists>pre suf. pin_marks pin = pre @ suf \<and> fst ` set suf = fst ` set L) \<and>
     (\<forall>k n. (k, n) \<in> set L \<longrightarrow> (\<exists>u. map_of (pin_marks pin) k = Some u \<and> js_leq (js_int (int n)) u))"

lemma pin_next_remembers:
  assumes pin: "remembers pin L" and ss: "card (fst ` set (L @ ss)) \<le> MAX_SERIALS_PER_PIN" "length ss \<le> MAX_SERIALS_PER_PIN"
    and same: "pin \<noteq> None \<Longrightarrow> map_option pin_domainKey pin = Some dk"
  shows "remembers (Some (pin_next stamp pin dk ss)) (L @ ss)"
proof -
  have marks: "pin_marks (Some (pin_next stamp pin dk ss)) = raiseSerials (pin_marks pin) ss"
    using same by (auto simp: pin_marks_def pin_next_def split: option.splits)
  obtain pre suf where m: "marks_ok (pin_marks pin)" "pin_marks pin = pre @ suf" "fst ` set suf = fst ` set L"
    using pin unfolding remembers_def by blast
  then have "marks_ok (pre @ suf)" "card (fst ` set suf \<union> fst ` set ss) \<le> MAX_SERIALS_PER_PIN"
    using ss(1) by (simp_all add: image_Un)
  from raiseSerials_recent [OF this] obtain pre' suf' where r: "raiseSerials (pin_marks pin) ss = pre' @ suf'"
    "fst ` set suf' = fst ` set (L @ ss)" unfolding m(2) by (auto simp: m(3) image_Un)
  note up = raiseSerials_marks [OF m(1), where ss = ss]
  have "\<exists>u. map_of (raiseSerials (pin_marks pin) ss) k = Some u \<and> js_leq (js_int (int n)) u" if kn: "(k, n) \<in> set (L @ ss)" for k n
  proof (cases "(k, n) \<in> set L")
    case True
    then obtain u where u: "map_of (pin_marks pin) k = Some u" "js_leq (js_int (int n)) u" using pin unfolding remembers_def by blast
    have "k \<in> fst ` set (raiseSerials (pin_marks pin) ss)" using r kn by force
    then obtain u' where u': "map_of (raiseSerials (pin_marks pin) ss) k = Some u'" by (metis map_of_eq_None_iff not_Some_eq)
    from up(3) [OF u(1) u'] u(2) u' show ?thesis using js_leq_trans by blast
  next
    case False
    with up(4) ss(2) kn show ?thesis by auto
  qed
  with up(1) r show ?thesis unfolding remembers_def marks by blast
qed

lemma run_remembers:
  assumes "remembers (pinned (fst s) name) L" "steady c verify is_date name ops s"
    "card (fst ` set (L @ shown_run c verify is_date name ops s)) \<le> MAX_SERIALS_PER_PIN"
    "L \<noteq> [] \<longrightarrow> pinned (fst s) name \<noteq> None"
  shows "remembers (pinned (fst (trust_run c verify is_date ops s)) name) (L @ shown_run c verify is_date name ops s)"
  using assms
proof (induction ops arbitrary: s L)
  case Nil
  then show ?case by (simp add: trust_run_def)
next
  case (Cons op ops)
  let ?s = "trust_step c verify is_date op s"
  let ?new = "shown c verify is_date name op s"
  let ?rest = "shown_run c verify is_date name ops ?s"
  have same: "\<And>p. pinned (fst s) name = Some p \<Longrightarrow> map_option pin_domainKey (pinned (fst ?s) name) = Some (pin_domainKey p)"
    and rest: "steady c verify is_date name ops ?s" using Cons.prems(2) by (auto split: option.splits)
  have "remembers (pinned (fst ?s) name) (L @ ?new) \<and> (L @ ?new \<noteq> [] \<longrightarrow> pinned (fst ?s) name \<noteq> None)"
  proof (cases rule: step_cases [of op name c verify is_date s])
    case (accepted w stamp now input r disk' reg')
    obtain ov k where ov: "verifyKeyAgreementCertificate c verify (ov_kaCert ov) (JArr (ov_chain ov))
        (overlay_options now name ov (pinned (fst s) name)) (snd s) = Inr (KA_ok k, reg')"
      "pinned disk' name = Some (pin_next stamp (pinned (fst s) name) (ov_domainKey ov) (presented k))"
      "shown c verify is_date name (Op_verify w stamp now name input) (fst s, snd s) = presented k"
      using accepted(2) by (rule shown_accepted)
    have new: "?new = presented k" using ov(3) accepted(1) by simp
    have "card (fst ` set (L @ presented k)) \<le> card (fst ` set (L @ shown_run c verify is_date name (op # ops) s))"
      by (rule card_mono) (auto simp: new)
    then have card: "card (fst ` set (L @ presented k)) \<le> MAX_SERIALS_PER_PIN" using Cons.prems(3) by linarith
    have dk: "map_option pin_domainKey (pinned (fst s) name) = Some (ov_domainKey ov)" if "pinned (fst s) name \<noteq> None"
      using that same accepted(3) ov(2) by auto
    show ?thesis using pin_next_remembers [OF Cons.prems(1) card presented_short [OF ov(1)] dk] accepted(3) ov(2) new by simp
  next
    case idle
    have "pinned (fst ?s) name = pinned (fst s) name" using idle(2) same by (cases "pinned (fst s) name") auto
    with idle(1) Cons.prems(1,4) show ?thesis by simp
  qed
  then have "remembers (pinned (fst (trust_run c verify is_date ops ?s)) name) ((L @ ?new) @ ?rest)"
    using Cons.prems(3) rest by (intro Cons.IH) simp_all
  then show ?case by (simp add: trust_run_def)
qed

section \<open>Properties\<close>

text \<open>
  C11. A key the client will shake hands with belongs to the name it asked for, under the key it pinned. When \<^verbatim>\<open>verifyOverlay\<close> accepts
  an answer, whoever wrote it: the returned key is certified for exactly that name and the role of a service node, is current and
  known to the handshake; its certificate is signed by the node key at the lower end of the chain the answer carries, an unbroken path of
  grants, each given by the key above it, whose one root is the domain key that is now pinned; a relay it names was named by that same node key; and a domain key pinned before leads to the one pinned now by
  statements each signed by the key it retires, or the name was not pinned and the result says so.
\<close>

theorem overlay_key_belongs_to_the_pin:
  assumes "verifyOverlay c verify is_date w stamp now name input disk reg = (Inr r, disk', reg')"
  shows "\<exists>ov p root cert s links v.
    parseDnsResolveOverlay is_date input = Some ov \<and> pinned disk' name = Some p \<and> pin_domainKey p = ov_domainKey ov \<and>
    pin_key p = Inr root \<and> vr_name r = name \<and>
    vk_scope (vr_key r) = name \<and> vk_role (vr_key r) = KA_SERVICE_NODE \<and> vk_publicKey (vr_key r) = pc_key cert \<and>
    isVerifiedKeyAgreementKey (vr_key r) reg' \<and> int_of now < int (vk_notAfter (vr_key r)) \<and>
    verify (enc_fields (cert_fields cert)) s (vc_subject v) \<and>
    rmap parse_signed (ov_chain ov) = Inr links \<and>
    trusted_path verify (ka_chain_options (overlay_options now name ov (pinned disk name))) [root] [] links v \<and>
    (\<forall>e k. vr_relayBinding r = Some (e, k) \<longrightarrow>
       (\<exists>b t. ov_relayBinding ov = Some b \<and> verifyServiceRelayBinding verify name b (vc_subject v) now = Binding_ok e k t)) \<and>
    (vr_firstContact r \<longleftrightarrow> pinned disk name = None) \<and>
    (\<forall>old. pinned disk name = Some old \<longrightarrow> moved_by_signature verify name old p)"
proof -
  obtain ov k binding where ov: "parseDnsResolveOverlay is_date input = Some ov"
    and ka: "verifyKeyAgreementCertificate c verify (ov_kaCert ov) (JArr (ov_chain ov)) (overlay_options now name ov (pinned disk name)) reg
       = Inr (KA_ok k, reg')"
    and b: "check_binding verify now name ov (vc_subject (kv_chain k)) = Inr binding"
    and r: "r = \<lparr>vr_name = name, vr_relay = ov_relay ov, vr_relayBinding = binding, vr_key = kv_key k,
          vr_firstContact = (pinned disk name = None), vr_keyReset = ov_keyReset ov\<rparr>"
    and p: "pinned disk' name = Some (pin_next stamp (pinned disk name) (ov_domainKey ov) (presented k))"
    using assms by (rule overlay_ok)
  let ?o = "overlay_options now name ov (pinned disk name)"
  obtain root where root: "parsePublicKey (KeyString (ov_domainKey ov)) = Inr root" using ka_root(2) [OF ka] by blast
  obtain cert s roots revoked cs links where c: "vk_publicKey (kv_key k) = pc_key cert" "vk_scope (kv_key k) = ko_name ?o"
    "vk_role (kv_key k) = ko_role ?o" "verify (enc_fields (cert_fields cert)) s (pc_signer cert)"
    "good_options (ka_chain_options ?o) roots revoked" "trusted_path verify (ka_chain_options ?o) roots revoked links (kv_chain k)"
    "vc_subject (kv_chain k) = pc_signer cert" "int_of (vo_now (ko_base ?o)) < int (vk_notAfter (kv_key k))"
    and cs: "JArr (ov_chain ov) = JArr cs" "rmap parse_signed cs = Inr links"
    using key_agreement_key_is_chained [OF ka] by blast
  have roots: "roots = [root]" "revoked = []" using c(5) root by (auto simp: good_options_def overlay_options_def rbind_eq_Inr)
  obtain q where "makeVerifiedKey q reg = (kv_key k, reg')" using ka_accepts [OF ka] by blast
  then have reg: "isVerifiedKeyAgreementKey (kv_key k) reg'" by (auto simp: isVerifiedKeyAgreementKey_def dest: makeVerifiedKey_fields)
  have bind: "\<exists>b t. ov_relayBinding ov = Some b \<and> verifyServiceRelayBinding verify name b (vc_subject (kv_chain k)) now = Binding_ok e x t"
    if "binding = Some (e, x)" for e x
    using b that by (auto simp: check_binding_def split: option.splits binding_result.splits)
  have moved: "moved_by_signature verify name old (pin_next stamp (pinned disk name) (ov_domainKey ov) (presented k))"
    if "pinned disk name = Some old" for old using verify_moves [OF assms that] p by simp
  show ?thesis
    using p root c(2,3,8) c(4) [folded c(7)] cs c(6) [unfolded roots] reg bind moved
    by (intro exI [of _ ov] exI [of _ "pin_next stamp (pinned disk name) (ov_domainKey ov) (presented k)"] exI [of _ root]
        exI [of _ cert] exI [of _ s] exI [of _ links] exI [of _ "kv_chain k"])
      (auto simp: ov r pin_key_def c(1) overlay_options_def)
qed

text \<open>
  C12. A pin moves by signatures only. Over any run of verifications, of any answers for any names in any order, with any failures of the
  lock and the file, and of pins of other names the user forgets, a pinned name stays pinned, and its key at the end is reached from
  its key at the start by statements for the name, each signed by the key it retires.
\<close>

theorem pin_moves_by_signatures_only:
  assumes "pinned (fst s) name = Some p" and "\<And>op. op \<in> set ops \<Longrightarrow> \<not> forgets name op"
  shows "\<exists>q. pinned (fst (trust_run c verify is_date ops s)) name = Some q \<and> moved_by_signature verify name p q"
  using assms
proof (induction ops arbitrary: s p)
  case Nil
  then show ?case using pin_moved_refl by (auto simp: trust_run_def)
next
  case (Cons op ops)
  obtain q where q: "pinned (fst (trust_step c verify is_date op s)) name = Some q" "moved_by_signature verify name p q"
    using step_moves Cons.prems by (metis list.set_intros(1))
  from Cons.IH [OF q(1)] Cons.prems(2) obtain r
    where "pinned (fst (trust_run c verify is_date ops (trust_step c verify is_date op s))) name = Some r" "moved_by_signature verify name q r"
    by auto
  then show ?case using q(2) pin_moved_trans by (fastforce simp: trust_run_def)
qed

text \<open>
  C13. What was superseded stays refused. Along any run of answers, accepted or not, for any names, while the name keeps its pin and its
  domain key and at most 256 distinct pairs of keys were accepted for it, the next answer that is accepted for the name, even
  one that rotates the domain key, has for no pair of keys a serial below any accepted before; and the file then keeps at
  most 256 marks for the name. A rotation of the domain key starts the marks afresh, and past 256 pairs the least recently
  raised are dropped: nothing is claimed across either.
\<close>

theorem superseded_material_is_refused:
  assumes "marks_ok (pin_marks (pinned (fst s) name))"
    and "steady c verify is_date name ops s"
    and "card (fst ` set (shown_run c verify is_date name ops s)) \<le> MAX_SERIALS_PER_PIN"
    and "trust_run c verify is_date ops s = (disk, reg)"
    and "verifyOverlay c verify is_date w stamp now name input disk reg = (Inr r, disk', reg')"
  shows "\<exists>k. accepts_material c verify is_date now name input (pinned disk name) reg k \<and>
    (\<forall>x n n'. (x, n) \<in> set (shown_run c verify is_date name ops s) \<and> (x, n') \<in> set (presented k) \<longrightarrow> n \<le> n') \<and>
    length (pin_marks (pinned disk' name)) \<le> MAX_SERIALS_PER_PIN"
proof -
  let ?L = "shown_run c verify is_date name ops s"
  have "remembers (pinned (fst s) name) []" using assms(1) by (simp add: remembers_def)
  from run_remembers [OF this assms(2)] assms(3,4) have rem: "remembers (pinned disk name) ?L" by simp
  obtain ov k where ov: "parseDnsResolveOverlay is_date input = Some ov"
    and k: "verifyKeyAgreementCertificate c verify (ov_kaCert ov) (JArr (ov_chain ov)) (overlay_options now name ov (pinned disk name)) reg
       = Inr (KA_ok k, reg')"
    and p: "pinned disk' name = Some (pin_next stamp (pinned disk name) (ov_domainKey ov) (presented k))"
    using assms(5) by (rule shown_accepted)
  have "n \<le> n'" if x: "(x, n) \<in> set ?L" "(x, n') \<in> set (presented k)" for x n n'
  proof -
    obtain u where u: "map_of (pin_marks (pinned disk name)) x = Some u" "js_leq (js_int (int n)) u"
      using rem x(1) unfolding remembers_def by blast
    have "\<not> js_less (js_int (int n')) u" using presented_serials [OF k _ x(2)] u(1) by (simp add: overlay_options_def)
    then have "\<not> int n' < int n" using js_less_leq [of "js_int (int n')" "js_int (int n)" u] u(2) by - (rule notI, simp)
    then show ?thesis by simp
  qed
  moreover have "marks_ok (pin_marks (pinned disk name))" using rem by (simp add: remembers_def)
  from pin_next_marks(2) [OF this presented_short [OF k]] have "length (pin_marks (pinned disk' name)) \<le> MAX_SERIALS_PER_PIN"
    by (simp add: p pin_marks_def)
  ultimately show ?thesis using ov k unfolding accepts_material_def by blast
qed

text \<open>
  C14. A refusal teaches a client nothing, and a pin file that cannot be read is never taken for an empty one. Whatever
  \<^verbatim>\<open>verifyOverlay\<close> throws, the file is as it was; an answer for one name never touches the pin of another; and if the file does not parse, has
  a malformed entry, or is locked by another process, nothing is accepted.
\<close>

theorem refusal_keeps_pins:
  assumes "verifyOverlay c verify is_date w stamp now name input disk reg = (x, disk', reg')"
  shows "(\<forall>e. x = Inl e \<longrightarrow> disk' = disk) \<and> (\<forall>n. n \<noteq> name \<longrightarrow> pinned disk' n = pinned disk n) \<and>
    (\<not> sw_lock w \<or> \<not> is_ok (pins_read disk) \<longrightarrow> (\<exists>e. x = Inl e))"
proof -
  have "\<exists>e. x = Inl e" if "\<not> sw_lock w \<or> \<not> is_ok (pins_read disk)"
    using assms that
    by (auto simp: verifyOverlay_def pins_update_def is_ok_def split: option.splits if_splits sum.splits)
  then show ?thesis using assms overlay_error_keeps overlay_others by metis
qed

text \<open>
  The name a client verifies is its own reading of what it was asked to reach. \<^verbatim>\<open>serviceNameFor\<close> gives \<open>s\<close> exactly when \<open>s\<close> is a
  canonical name of two labels and the destination, trimmed, in lower case and without one final dot, is \<open>s\<close> or ends in a dot and
  \<open>s\<close>; every other destination is refused as not native.
\<close>

theorem service_name_is_the_last_two_labels:
  "(serviceNameFor lower destination = Inr s \<longleftrightarrow>
     valid_name s \<and> length (labels s) = 2 \<and>
     (strip_dot (lower (js_trim destination)) = s \<or> endsWith (strip_dot (lower (js_trim destination))) (46 # s))) \<and>
   (serviceNameFor lower destination = Inl (Overlay_refused Not_native) \<or> serviceNameFor lower destination \<in> range Inr)"
  unfolding service_name_iff [symmetric]
  by (auto simp: serviceNameFor_def Let_def is_canonical_name_def)

section \<open>Witnesses\<close>

definition sample_overlay :: dns_overlay where
  "sample_overlay = \<lparr>ov_relay = js ''wss://r'', ov_available = True, ov_domainKey = encodeBase64 (replicate 32 1), ov_rotations = [],
     ov_chain = [sample_signed], ov_kaCert = sample_cert, ov_keyReset = None, ov_relayBinding = None\<rparr>"

definition sample_answer :: "jsstring \<Rightarrow> jsval" where
  "sample_answer key = JObj [(js ''relay'', JStr (js ''wss://r'')), (js ''available'', JBool True), (js ''domainKey'', JStr key),
     (js ''rotations'', JArr []), (js ''chain'', JArr [sample_signed]), (js ''kaCert'', sample_cert)]"

lemma sample_signed_parse: "parse_signed sample_signed = Inr (sample_parsed, replicate 64 7)"
  unfolding sample_signed_def parse_signed_def
  using parse_with_signature [OF sample_parse]
  by (simp add: js_prop_with sample_grant_def is_object_def decode_encode64 SIGNATURE_LENGTH_def del: replicate.simps)

lemma sample_answer_parse:
  assumes "isB64 (JStr key)"
  shows "parseDnsResolveOverlay is_date (sample_answer key) = Some (sample_overlay\<lparr>ov_domainKey := key\<rparr>)"
proof -
  have "parseChainShape (JArr [sample_signed]) = Some [sample_signed]"
    using grant_shape [OF sample_signed_parse] by (simp add: parseChainShape_def MAX_CHAIN_LENGTH_def)
  moreover have "parseRotationsShape (JArr []) = Some []" by (simp add: parseRotationsShape_def)
  moreover have "parseKeyAgreementCertificateShape sample_cert = Some sample_cert" using certificate_shape sample_cert_parse by blast
  moreover have "relay_shape (JStr (js ''wss://r'')) = Some (js ''wss://r'')" by (simp add: relay_shape_def js_def)
  ultimately show ?thesis
    using assms unfolding sample_answer_def
    by (simp add: parseDnsResolveOverlay_def is_object_def asRecord_def parseKeyShape_def parseKeyResetShape_def parseRelayBindingShape_def
        sample_overlay_def js_def)
qed

lemma sample_key_64: "isB64 (JStr (encodeBase64 (replicate 32 1)))"
  by (simp add: isB64_def length_encodeBase64 MAX_B64_def)

abbreviation sample_root :: jsstring where
  "sample_root \<equiv> encodeBase64 (replicate 32 1)"

abbreviation ready :: store_world where
  "ready \<equiv> \<lparr>sw_lock = True, sw_write = True\<rparr>"

lemma sample_overlay_key: "sample_overlay\<lparr>ov_domainKey := sample_root\<rparr> = sample_overlay"
  by (simp add: sample_overlay_def del: replicate.simps)

lemma sample_overlay_ka:
  assumes "\<And>k u. map_of (pin_marks pin) k = Some u \<Longrightarrow> \<not> js_less (js_int 1) u"
  shows "\<exists>k reg'. verifyKeyAgreementCertificate sample_crypto sample_verify sample_cert (JArr [sample_signed])
     (overlay_options (js_int 15) (js ''a.ox'') sample_overlay pin) reg = Inr (KA_ok k, reg') \<and> kv_chain k = summary [sample_parsed] \<and>
     kv_serial k = 1"
proof -
  let ?o = "overlay_options (js_int 15) (js ''a.ox'') sample_overlay pin"
  have good: "good_options (ka_chain_options ?o) [replicate 32 1] []"
    by (simp add: good_options_def overlay_options_def isSafeInteger_def MAX_SAFE_INTEGER_def parsePublicKey_def sample_overlay_def
        decode_encode64 PUBLIC_KEY_LENGTH_def del: replicate.simps)
  have fields: "pg_serial sample_parsed = 1" "pg_subject sample_parsed = replicate 32 2" "pg_issuer sample_parsed = replicate 32 1"
    "pg_notBefore sample_parsed = 10" "pg_notAfter sample_parsed = 20" "pg_purposes sample_parsed = [SERVICE_NODE]"
    by (simp_all add: sample_parsed_def)
  have "\<not> js_less (js_int 1) u" if seen: "seen_serial (ka_chain_options ?o) sample_parsed = Some u" for u
    by (rule assms [of "pg_issuerHex sample_parsed @ [124] @ pg_subjectHex sample_parsed"])
      (use seen in \<open>simp add: seen_serial_def overlay_options_def\<close>)
  then have "grant_ok sample_verify [] (ka_chain_options ?o) sample_parsed (replicate 64 7)"
    unfolding grant_ok_def fields by (simp add: overlay_options_def)
  then have acc: "accepted sample_verify [replicate 32 1] [] (ka_chain_options ?o) [(sample_parsed, replicate 64 7)]"
    by (simp add: accepted_def MAX_CHAIN_DEPTH_def fields overlay_options_def del: replicate.simps)
  have "rmap parse_signed [sample_signed] = Inr [(sample_parsed, replicate 64 7)]" by (simp add: sample_signed_parse)
  then have core: "verifyChainCore sample_verify (JArr [sample_signed]) (ka_chain_options ?o) = Inr (Verified (summary [sample_parsed]))"
    using good acc unfolding verifyChainCore_Verified
    by (intro exI [of _ "[replicate 32 1]"] exI [of _ "[]"] exI [of _ "[sample_signed]"] exI [of _ "[(sample_parsed, replicate 64 7)]"])
      (simp del: replicate.simps)
  have "scopeCovers (js ''a.ox'') (js ''a.ox'')" using sample_name by (rule scope.covers_refl)
  moreover have "serial_fresh ?o sample_cert_parsed"
    using assms [of "toHex (pc_signer sample_cert_parsed) @ [124] @ toHex (pc_key sample_cert_parsed)"]
    by (cases "map_of (pin_marks pin) (toHex (pc_signer sample_cert_parsed) @ [124] @ toHex (pc_key sample_cert_parsed))")
      (simp_all add: serial_fresh_def overlay_options_def sample_cert_parsed_def)
  ultimately have "cert_accepted sample_verify ?o [] (summary [sample_parsed]) sample_cert_parsed (replicate 64 7)"
    by (simp add: cert_accepted_def summary_def sample_parsed_def sample_cert_parsed_def overlay_options_def del: replicate.simps)
  moreover have "rmap parsePublicKey (nullish (vo_revoked (ko_base ?o)) []) = Inr []" by (simp add: overlay_options_def)
  ultimately have chk: "check_certificate sample_verify ?o (summary [sample_parsed]) sample_cert_parsed (replicate 64 7) = Inr None"
    using check_certificate_None [OF parse_signed_certificate_wf [OF sample_cert_parse]] by blast
  have "isValidScope (JStr (ko_name ?o))" by (simp add: overlay_options_def sample_name)
  with chk show ?thesis
    unfolding verifyKeyAgreementCertificate_def sample_cert_parse using core
    by (simp add: makeVerifiedKey_def sample_cert_parsed_def del: replicate.simps)
qed

lemma sample_answer_verifies:
  assumes "pins_read disk = Inr es" "\<And>p. map_of es (js ''a.ox'') = Some p \<Longrightarrow> pin_domainKey p = sample_root"
    "\<And>k u. map_of (pin_marks (map_of es (js ''a.ox''))) k = Some u \<Longrightarrow> \<not> js_less (js_int 1) u"
  shows "\<exists>r disk' reg'. verifyOverlay sample_crypto sample_verify is_date ready stamp (js_int 15) (js ''a.ox'') (sample_answer sample_root) disk reg
    = (Inr r, disk', reg')"
proof -
  let ?n = "js ''a.ox''"
  let ?o = "map_of es ?n"
  obtain k reg' where k: "verifyKeyAgreementCertificate sample_crypto sample_verify sample_cert (JArr [sample_signed])
      (overlay_options (js_int 15) ?n sample_overlay ?o) reg = Inr (KA_ok k, reg')"
    using sample_overlay_ka [of ?o reg] assms(3) by blast
  have ov: "ov_domainKey sample_overlay = sample_root" "ov_kaCert sample_overlay = sample_cert" "ov_chain sample_overlay = [sample_signed]"
    "ov_relayBinding sample_overlay = None" "ov_available sample_overlay" by (simp_all add: sample_overlay_def)
  have "check_pin sample_crypto sample_verify ?n sample_overlay ?o = None"
    using assms(2) by (auto simp: check_pin_def ov split: option.splits)
  then have "\<exists>p r. decide_overlay sample_crypto sample_verify stamp (js_int 15) ?n sample_overlay ?o reg = (Inr (Some p, r), reg')"
    by (simp add: decide_overlay_def ov k check_binding_def)
  then have "\<exists>r disk'. pins_update Threw ready ?n (decide_overlay sample_crypto sample_verify stamp (js_int 15) ?n sample_overlay) disk reg
      = (Inr r, disk', reg')"
    by (auto simp: pins_update_def assms(1))
  then show ?thesis
    using sample_answer_parse [OF sample_key_64, of is_date] by (auto simp: verifyOverlay_def sample_overlay_key ov)
qed

lemma sample_first_contact: "\<exists>r disk' reg'. verifyOverlay sample_crypto sample_verify is_date ready stamp (js_int 15) (js ''a.ox'')
    (sample_answer sample_root) No_file reg = (Inr r, disk', reg')"
  by (rule sample_answer_verifies [of No_file "[]"]) (simp_all add: pins_read_def pin_marks_def)

theorem overlay_key_belongs_to_the_pin_witness:
  "\<exists>r disk' reg' p. verifyOverlay sample_crypto sample_verify (\<lambda>_. True) ready [] (js_int 15) (js ''a.ox'') (sample_answer sample_root) No_file
      empty_registry = (Inr r, disk', reg') \<and> vk_scope (vr_key r) = js ''a.ox'' \<and> vr_firstContact r \<and>
      pinned disk' (js ''a.ox'') = Some p \<and> pin_domainKey p = sample_root"
proof -
  obtain r disk' reg' where v: "verifyOverlay sample_crypto sample_verify (\<lambda>_. True) ready [] (js_int 15) (js ''a.ox'')
      (sample_answer sample_root) No_file empty_registry = (Inr r, disk', reg')" using sample_first_contact by blast
  obtain ov p where ov: "parseDnsResolveOverlay (\<lambda>_. True) (sample_answer sample_root) = Some ov" "pinned disk' (js ''a.ox'') = Some p"
    "pin_domainKey p = ov_domainKey ov" "vk_scope (vr_key r) = js ''a.ox''" "vr_firstContact r = (pinned No_file (js ''a.ox'') = None)"
    using overlay_key_belongs_to_the_pin [OF v] by (elim exE conjE) (rule that, assumption+)
  have "ov = sample_overlay\<lparr>ov_domainKey := sample_root\<rparr>" using ov(1) sample_answer_parse [OF sample_key_64] by simp
  then have "ov_domainKey ov = sample_root" by simp
  with v ov show ?thesis by (auto simp: pinned_def pins_read_def simp del: replicate.simps)
qed

theorem pin_moves_by_signatures_only_witness:
  "\<exists>q. pinned (fst (trust_run sample_crypto sample_verify (\<lambda>_. True)
      [Op_verify ready [] (js_int 15) (js ''a.ox'') (sample_answer (encodeBase64 (replicate 32 9))), Op_forget ready (js ''b.ox'')]
      (Pin_file [(js ''a.ox'', \<lparr>sp_domainKey = sample_root, sp_pinnedAt = [], sp_serials = None\<rparr>)], empty_registry))) (js ''a.ox'') = Some q"
proof -
  let ?ops = "[Op_verify ready [] (js_int 15) (js ''a.ox'') (sample_answer (encodeBase64 (replicate 32 9))), Op_forget ready (js ''b.ox'')]"
  let ?s = "(Pin_file [(js ''a.ox'', \<lparr>sp_domainKey = sample_root, sp_pinnedAt = [], sp_serials = None\<rparr>)], empty_registry)"
  have "pinned (fst ?s) (js ''a.ox'') = Some \<lparr>pin_domainKey = sample_root, pin_pinnedAt = [], pin_serials = []\<rparr>"
    using sample_name by (simp add: pinned_def pins_read_def read_entry_def is_canonical_name_scope parsePublicKey_def decode_encode64
        PUBLIC_KEY_LENGTH_def nullish_def del: replicate.simps)
  moreover have "\<not> forgets (js ''a.ox'') x" if "x \<in> set ?ops" for x using that by (auto simp: js_def)
  ultimately show ?thesis using pin_moves_by_signatures_only [of ?s _ _ ?ops] by blast
qed

theorem superseded_material_is_refused_witness:
  "\<exists>r disk1 reg1 r' disk2 reg2 k. let op = Op_verify ready [] (js_int 15) (js ''a.ox'') (sample_answer sample_root) in
     verifyOverlay sample_crypto sample_verify (\<lambda>_. True) ready [] (js_int 15) (js ''a.ox'') (sample_answer sample_root) No_file empty_registry
       = (Inr r, disk1, reg1) \<and>
     verifyOverlay sample_crypto sample_verify (\<lambda>_. True) ready [] (js_int 15) (js ''a.ox'') (sample_answer sample_root) disk1 reg1
       = (Inr r', disk2, reg2) \<and>
     shown_run sample_crypto sample_verify (\<lambda>_. True) (js ''a.ox'') [op] (No_file, empty_registry) \<noteq> [] \<and>
     (\<forall>x n n'. (x, n) \<in> set (shown_run sample_crypto sample_verify (\<lambda>_. True) (js ''a.ox'') [op] (No_file, empty_registry)) \<and>
       (x, n') \<in> set (presented k) \<longrightarrow> n \<le> n')"
proof -
  let ?n = "js ''a.ox''"
  let ?run = "verifyOverlay sample_crypto sample_verify (\<lambda>_. True) ready [] (js_int 15) ?n (sample_answer sample_root)"
  let ?op = "Op_verify ready [] (js_int 15) ?n (sample_answer sample_root)"
  let ?shown = "shown_run sample_crypto sample_verify (\<lambda>_. True) ?n [?op] (No_file, empty_registry)"
  obtain r disk1 reg1 where v: "?run No_file empty_registry = (Inr r, disk1, reg1)" using sample_first_contact by blast
  have none: "pinned No_file ?n = None" by (simp add: pinned_def pins_read_def)
  obtain ov k where ov: "parseDnsResolveOverlay (\<lambda>_. True) (sample_answer sample_root) = Some ov"
    and k: "verifyKeyAgreementCertificate sample_crypto sample_verify (ov_kaCert ov) (JArr (ov_chain ov))
      (overlay_options (js_int 15) ?n ov (pinned No_file ?n)) empty_registry = Inr (KA_ok k, reg1)"
    and p: "pinned disk1 ?n = Some (pin_next [] (pinned No_file ?n) (ov_domainKey ov) (presented k))"
    and sh: "shown sample_crypto sample_verify (\<lambda>_. True) ?n ?op (No_file, empty_registry) = presented k"
    using v by (rule shown_accepted)
  have "ov = sample_overlay" using ov sample_answer_parse [OF sample_key_64] sample_overlay_key by simp
  then have dk: "ov_domainKey ov = sample_root" "ov_kaCert ov = sample_cert" "ov_chain ov = [sample_signed]" "ov = sample_overlay"
    by (simp_all add: sample_overlay_def)
  have k2: "verifyKeyAgreementCertificate sample_crypto sample_verify sample_cert (JArr [sample_signed])
      (overlay_options (js_int 15) ?n sample_overlay None) empty_registry = Inr (KA_ok k, reg1)"
    using k [unfolded dk(2,3), unfolded dk(4) none] .
  obtain l lreg where "verifyKeyAgreementCertificate sample_crypto sample_verify sample_cert (JArr [sample_signed])
      (overlay_options (js_int 15) ?n sample_overlay None) empty_registry = Inr (KA_ok l, lreg)"
    "kv_chain l = summary [sample_parsed]" "kv_serial l = 1"
    using sample_overlay_ka [of None empty_registry] by (auto simp: pin_marks_def)
  then have one: "\<And>x m. (x, m) \<in> set (presented k) \<Longrightarrow> m = 1"
    using k2 by (auto simp: presented_def summary_def sample_parsed_def)
  obtain es where es: "pins_read disk1 = Inr es" "map_of es ?n = pinned disk1 ?n"
    using p by (auto simp: pinned_def split: sum.splits)
  have bound: "js_leq (snd e) (js_int 1)" if "e \<in> set (raise_entries (presented k) [])" for e
    using that one by (intro raise_entries_bound [of "[]" "js_int 1" "presented k" e]) auto
  have "\<not> js_less (js_int 1) u" if "map_of (pin_marks (map_of es ?n)) x = Some u" for x u
  proof -
    have "(x, u) \<in> set (raiseSerials [] (presented k))"
      using map_of_SomeD [OF that] by (simp add: es(2) p none pin_marks_def pin_next_def)
    then have "(x, u) \<in> set (raise_entries (presented k) [])" by (auto simp: raiseSerials_def Let_def dest: in_set_dropD)
    with bound show ?thesis using js_leq_not_less by fastforce
  qed
  moreover have "pin_domainKey q = sample_root" if "map_of es ?n = Some q" for q
    using that es(2) p dk(1) by (metis option.inject pin_next_key)
  ultimately obtain r' disk2 reg2 where v2: "?run disk1 reg1 = (Inr r', disk2, reg2)"
    using sample_answer_verifies [OF es(1)] by blast
  have "marks_ok (pin_marks (pinned No_file ?n))" by (simp add: none pin_marks_def marks_ok_def)
  moreover have "steady sample_crypto sample_verify (\<lambda>_. True) ?n [?op] (No_file, empty_registry)" by (simp add: none)
  moreover have shown: "?shown = presented k" using sh by simp
  then have "card (fst ` set ?shown) \<le> MAX_SERIALS_PER_PIN"
    using card_length [of "map fst (presented k)"] presented_short [OF k] by simp
  moreover have "trust_run sample_crypto sample_verify (\<lambda>_. True) [?op] (No_file, empty_registry) = (disk1, reg1)"
    using v by (simp add: trust_run_def)
  ultimately obtain k' where "\<forall>x n n'. (x, n) \<in> set ?shown \<and> (x, n') \<in> set (presented k') \<longrightarrow> n \<le> n'"
    using superseded_material_is_refused [OF _ _ _ _ v2, of "(No_file, empty_registry)" "[?op]"] by auto
  moreover have "?shown \<noteq> []" using shown by (simp add: presented_def)
  ultimately show ?thesis using v v2 unfolding Let_def by blast
qed

theorem refusal_keeps_pins_witness:
  "\<exists>x disk' reg'. verifyOverlay sample_crypto sample_verify (\<lambda>_. True) ready [] (js_int 15) (js ''a.ox'') (sample_answer sample_root) Bad_file
     empty_registry = (x, disk', reg') \<and> disk' = Bad_file"
proof -
  obtain x disk' reg' where v: "verifyOverlay sample_crypto sample_verify (\<lambda>_. True) ready [] (js_int 15) (js ''a.ox'')
      (sample_answer sample_root) Bad_file empty_registry = (x, disk', reg')" by (metis prod.exhaust)
  note keeps = refusal_keeps_pins [OF v]
  have "\<not> is_ok (pins_read Bad_file)" by (simp add: pins_read_def is_ok_def)
  then obtain e where "x = Inl e" using keeps by blast
  then have "disk' = Bad_file" using keeps by blast
  with v show ?thesis by blast
qed

text \<open>
  For a name that is not pinned, a domain key that is a short string but not a key makes the call throw an exception that is no refusal.
\<close>

lemma unpinned_bad_key_throws:
  "verifyOverlay sample_crypto sample_verify is_date ready stamp (js_int 15) (js ''a.ox'') (sample_answer [65]) No_file reg =
     (Inl (Threw EncodingError), No_file, reg)"
proof -
  let ?ov = "sample_overlay\<lparr>ov_domainKey := [65]\<rparr>"
  have "parseDnsResolveOverlay is_date (sample_answer [65]) = Some ?ov"
    by (rule sample_answer_parse) (simp add: isB64_def MAX_B64_def)
  moreover have "parsePublicKey (KeyString [65]) = Inl EncodingError" by (simp add: parsePublicKey_def decodeBase64Strict_def)
  then have "verifyChainCore sample_verify ch (ka_chain_options (overlay_options (js_int 15) (js ''a.ox'') ?ov None)) = Inl EncodingError" for ch
    by (simp add: verifyChainCore_def overlay_options_def isSafeInteger_def MAX_SAFE_INTEGER_def)
  then have "verifyKeyAgreementCertificate sample_crypto sample_verify sample_cert ch (overlay_options (js_int 15) (js ''a.ox'') ?ov None) reg
      = Inl EncodingError" for ch
    by (simp add: verifyKeyAgreementCertificate_def sample_cert_parse sample_name) (simp add: overlay_options_def sample_name)
  moreover have "ov_available ?ov" "ov_kaCert ?ov = sample_cert" by (simp_all add: sample_overlay_def)
  ultimately show ?thesis
    by (simp add: verifyOverlay_def pins_update_def pins_read_def decide_overlay_def check_pin_def)
qed

end
