(* ===== verification/Rules_Envelope.thy ===== *)
theory Rules_Envelope
  imports Grants
begin

text \<open>
  \<^verbatim>\<open>packages/crypto/src/dns-rules.ts\<close>: the encrypted envelope of a user's DNS rules. An envelope is an untrusted value, as it
  comes from the API. The primitives of noble and \<^verbatim>\<open>String.prototype.normalize\<close> are a record of functions; the random bytes a call draws are
  its arguments. A refusal carries its code; an exception of another kind is \<open>Rules_threw\<close>.
\<close>

record rules_crypto =
  rc_argon2id :: "bytes \<Rightarrow> bytes \<Rightarrow> nat \<Rightarrow> nat \<Rightarrow> nat \<Rightarrow> bytes" \<comment> \<open>passphrase, salt, m, t, p; 32 bytes\<close>
  rc_hkdf :: "bytes \<Rightarrow> bytes \<Rightarrow> bytes \<Rightarrow> nat \<Rightarrow> bytes"
  rc_sha256 :: "bytes \<Rightarrow> bytes"
  rc_encrypt :: "bytes \<Rightarrow> bytes \<Rightarrow> bytes \<Rightarrow> bytes \<Rightarrow> bytes" \<comment> \<open>key, nonce, associated data, plaintext\<close>
  rc_decrypt :: "bytes \<Rightarrow> bytes \<Rightarrow> bytes \<Rightarrow> bytes \<Rightarrow> bytes option"
  rc_nfc :: "jsstring \<Rightarrow> jsstring"

definition RULES_ENVELOPE_VERSION :: nat where "RULES_ENVELOPE_VERSION = 1"
definition RULES_KEY_LENGTH :: nat where "RULES_KEY_LENGTH = 32"
definition RULES_SALT_LENGTH :: nat where "RULES_SALT_LENGTH = 16"
definition RULES_NONCE_LENGTH :: nat where "RULES_NONCE_LENGTH = 24"
definition RULES_TAG_LENGTH :: nat where "RULES_TAG_LENGTH = 16"
definition RULES_WRAPPED_KEY_LENGTH :: nat where
  "RULES_WRAPPED_KEY_LENGTH = RULES_NONCE_LENGTH + RULES_KEY_LENGTH + RULES_TAG_LENGTH"
definition RULES_MAX_CIPHERTEXT_BYTES :: nat where "RULES_MAX_CIPHERTEXT_BYTES = 256 * 1024"
definition MAX_PLAINTEXT_BYTES :: nat where "MAX_PLAINTEXT_BYTES = RULES_MAX_CIPHERTEXT_BYTES - RULES_TAG_LENGTH"
definition MIN_PLAINTEXT_BUCKET :: nat where "MIN_PLAINTEXT_BUCKET = 4096"

lemmas rules_limits = RULES_ENVELOPE_VERSION_def RULES_KEY_LENGTH_def RULES_SALT_LENGTH_def RULES_NONCE_LENGTH_def
  RULES_TAG_LENGTH_def RULES_WRAPPED_KEY_LENGTH_def RULES_MAX_CIPHERTEXT_BYTES_def MAX_PLAINTEXT_BYTES_def MIN_PLAINTEXT_BUCKET_def

datatype rules_code = Rules_malformed | Wrong_passphrase | Rules_tampered | Rollback | Too_large

datatype rules_error = Rules_refused rules_code | Rules_threw exn

type_synonym 'a rules = "rules_error + 'a"

definition ebind :: "'a rules \<Rightarrow> ('a \<Rightarrow> 'b rules) \<Rightarrow> 'b rules" where
  "ebind m f = (case m of Inl e \<Rightarrow> Inl e | Inr x \<Rightarrow> f x)"

definition lift_exn :: "'a result \<Rightarrow> 'a rules" where
  "lift_exn m = (case m of Inl e \<Rightarrow> Inl (Rules_threw e) | Inr x \<Rightarrow> Inr x)"

definition need :: "bool \<Rightarrow> rules_code \<Rightarrow> unit rules" where
  "need ok code = (if ok then Inr () else Inl (Rules_refused code))"

lemma ebind_simps [simp]: "ebind (Inl e) f = Inl e" "ebind (Inr x) f = f x"
  by (simp_all add: ebind_def)

lemma ebind_Inr: "ebind m f = Inr y \<longleftrightarrow> (\<exists>x. m = Inr x \<and> f x = Inr y)"
  by (cases m) auto

lemma lift_exn_simps [simp]: "lift_exn (Inl e) = Inl (Rules_threw e)" "lift_exn (Inr x) = Inr x"
  by (simp_all add: lift_exn_def)

lemma lift_exn_Inr [simp]: "lift_exn m = Inr x \<longleftrightarrow> m = Inr x"
  by (cases m) auto

lemma need_True [simp]: "need True code = Inr ()"
  by (simp add: need_def)

lemma need_Inr [simp]: "need ok code = Inr u \<longleftrightarrow> ok"
  by (simp add: need_def)

section \<open>Parameters, versions, fields\<close>

record kdf_params =
  kd_m :: nat
  kd_t :: nat
  kd_p :: nat

definition ARGON2ID :: jsstring where "ARGON2ID = js ''argon2id''"

definition DEFAULT_RULES_KDF :: jsval where
  "DEFAULT_RULES_KDF = JObj [(js ''alg'', JStr ARGON2ID), (js ''m'', js_nat 65536), (js ''t'', js_nat 3), (js ''p'', js_nat 1)]"

definition isIntIn :: "jsval \<Rightarrow> int \<Rightarrow> int \<Rightarrow> nat option" where
  "isIntIn v lo hi = (case as_number v of
     None \<Rightarrow> None
   | Some x \<Rightarrow> if isInteger x \<and> \<not> js_less x (js_int lo) \<and> \<not> js_less (js_int hi) x then Some (nat (int_of x)) else None)"

text \<open>The bounds are those of \<^verbatim>\<open>RULES_KDF_LIMITS\<close>.\<close>

definition assertRulesKdfParams :: "jsval \<Rightarrow> kdf_params rules" where
  "assertRulesKdfParams v =
     (if js_prop v (js ''alg'') \<noteq> JStr ARGON2ID then Inl (Rules_refused Rules_malformed)
      else case (isIntIn (js_prop v (js ''m'')) 19456 1048576, isIntIn (js_prop v (js ''t'')) 2 10, isIntIn (js_prop v (js ''p'')) 1 4) of
        (Some m, Some t, Some p) \<Rightarrow> Inr \<lparr>kd_m = m, kd_t = t, kd_p = p\<rparr>
      | _ \<Rightarrow> Inl (Rules_refused Rules_malformed))"

definition assertUserId :: "jsstring \<Rightarrow> unit rules" where
  "assertUserId userId = need (length userId \<noteq> 0 \<and> length userId \<le> 256) Rules_malformed"

definition assertVersion :: "jsval \<Rightarrow> nat rules" where
  "assertVersion v = (case isIntIn v 1 MAX_SAFE_INTEGER of None \<Rightarrow> Inl (Rules_refused Rules_malformed) | Some n \<Rightarrow> Inr n)"

definition decodeField :: "jsval \<Rightarrow> nat option \<Rightarrow> bytes rules" where
  "decodeField v n = (case decodeBase64Strict v n of
     Inl EncodingError \<Rightarrow> Inl (Rules_refused Rules_malformed)
   | Inl e \<Rightarrow> Inl (Rules_threw e)
   | Inr b \<Rightarrow> Inr b)"

section \<open>Keys and associated data\<close>

definition LABEL_WRAP_KEY :: bytes where "LABEL_WRAP_KEY = textEncode (js ''tnp/dns-rules/v1/wrap-key'')"
definition LABEL_RULE_SET_KEY :: bytes where "LABEL_RULE_SET_KEY = textEncode (js ''tnp/dns-rules/v1/rule-set-key'')"
definition AAD_WRAP :: jsstring where "AAD_WRAP = js ''tnp/dns-rules/v1/wrap''"
definition AAD_RULE_SET :: jsstring where "AAD_RULE_SET = js ''tnp/dns-rules/v1/rule-set''"
definition PLAINTEXT_LABEL :: jsstring where "PLAINTEXT_LABEL = js ''tnp/dns-rules/v1/plaintext''"

definition deriveWrappingKey :: "rules_crypto \<Rightarrow> jsstring \<Rightarrow> bytes \<Rightarrow> jsval \<Rightarrow> bytes rules" where
  "deriveWrappingKey rc passphrase salt params =
     ebind (assertRulesKdfParams params) (\<lambda>k.
     ebind (need (length salt = RULES_SALT_LENGTH) Rules_malformed) (\<lambda>_.
     ebind (need (length passphrase \<noteq> 0) Rules_malformed) (\<lambda>_.
       let stretched = rc_argon2id rc (textEncode (rc_nfc rc passphrase)) salt (kd_m k) (kd_t k) (kd_p k) in
       Inr (rc_hkdf rc stretched salt LABEL_WRAP_KEY RULES_KEY_LENGTH))))"

definition wrapAad :: "jsstring \<Rightarrow> kdf_params \<Rightarrow> bytes \<Rightarrow> bytes result" where
  "wrapAad userId k salt =
     rbind (w_uint (w_string [] AAD_WRAP) (js_nat RULES_ENVELOPE_VERSION)) (\<lambda>w.
     rbind (w_uint (w_string (w_string w userId) ARGON2ID) (js_nat (kd_m k))) (\<lambda>w.
     rbind (w_uint w (js_nat (kd_t k))) (\<lambda>w.
     rbind (w_uint w (js_nat (kd_p k))) (\<lambda>w. Inr (w_finish (w_bytesPrefixed w salt))))))"

definition ruleSetAad :: "jsstring \<Rightarrow> nat \<Rightarrow> bytes result" where
  "ruleSetAad userId version =
     rbind (w_uint (w_string [] AAD_RULE_SET) (js_nat RULES_ENVELOPE_VERSION)) (\<lambda>w.
     rbind (w_uint (w_string w userId) (js_nat version)) (\<lambda>w. Inr (w_finish w)))"

definition ruleSetKey :: "rules_crypto \<Rightarrow> bytes \<Rightarrow> bytes rules" where
  "ruleSetKey rc rulesKey = ebind (need (length rulesKey = RULES_KEY_LENGTH) Rules_malformed) (\<lambda>_.
     Inr (rc_hkdf rc rulesKey [] LABEL_RULE_SET_KEY RULES_KEY_LENGTH))"

section \<open>The plaintext\<close>

text \<open>The loop starts at \<open>MIN_PLAINTEXT_BUCKET\<close>, so \<open>bucket\<close> is never zero.\<close>

function grow_bucket :: "nat \<Rightarrow> nat \<Rightarrow> nat" where
  "grow_bucket bucket len = (if 0 < bucket \<and> bucket < len then grow_bucket (bucket * 2) len else bucket)"
  by pat_completeness auto
termination by (relation "measure (\<lambda>(bucket, len). len - bucket)") auto

declare grow_bucket.simps [simp del]

definition paddedPlaintextLength :: "nat \<Rightarrow> nat rules" where
  "paddedPlaintextLength len =
     (if len > MAX_PLAINTEXT_BYTES then Inl (Rules_refused Too_large)
      else Inr (min (grow_bucket MIN_PLAINTEXT_BUCKET len) MAX_PLAINTEXT_BYTES))"

definition framed :: "jsstring \<Rightarrow> nat \<Rightarrow> bytes \<Rightarrow> bytes result" where
  "framed userId version body =
     rbind (w_uint (w_string (w_string [] PLAINTEXT_LABEL) userId) (js_nat version)) (\<lambda>w. Inr (w_finish (w_bytesPrefixed w body)))"

definition framePlaintext :: "jsstring \<Rightarrow> nat \<Rightarrow> bytes \<Rightarrow> bytes rules" where
  "framePlaintext userId version body =
     ebind (lift_exn (framed userId version body)) (\<lambda>f.
     ebind (paddedPlaintextLength (length f)) (\<lambda>n. Inr (f @ replicate (n - length f) 0)))"

text \<open>Reading moves along the rest of the plaintext, as the code moves its offset.\<close>

definition readPrefixed :: "bytes \<Rightarrow> (bytes \<times> bytes) rules" where
  "readPrefixed rest =
     (if length rest < 4 then Inl (Rules_refused Rules_tampered)
      else let len = be_nat (take 4 rest); rest = drop 4 rest in
        if length rest < len then Inl (Rules_refused Rules_tampered)
        else Inr (take len rest, drop len rest))"

definition unframePlaintext :: "bytes \<Rightarrow> jsstring \<Rightarrow> nat \<Rightarrow> bytes rules" where
  "unframePlaintext plain userId version =
     ebind (readPrefixed plain) (\<lambda>(l, rest).
     ebind (lift_exn (textDecodeFatal l)) (\<lambda>label.
     ebind (need (label = PLAINTEXT_LABEL) Rules_tampered) (\<lambda>_.
     ebind (readPrefixed rest) (\<lambda>(u, rest).
     ebind (lift_exn (textDecodeFatal u)) (\<lambda>user.
     ebind (need (user = userId) Rules_tampered) (\<lambda>_.
     ebind (need (8 \<le> length rest) Rules_tampered) (\<lambda>_.
     ebind (need (be_nat (take 8 rest) = version) Rules_tampered) (\<lambda>_.
     ebind (readPrefixed (drop 8 rest)) (\<lambda>(body, rest).
     ebind (need (list_all (\<lambda>b. b = 0) rest) Rules_tampered) (\<lambda>_. Inr body))))))))))"

section \<open>Envelopes\<close>

definition sealRuleSet :: "rules_crypto \<Rightarrow> bytes \<Rightarrow> jsstring \<Rightarrow> nat \<Rightarrow> bytes \<Rightarrow> bytes \<Rightarrow> (jsstring \<times> jsstring) rules" where
  "sealRuleSet rc rulesKey userId version body nonce =
     ebind (ruleSetKey rc rulesKey) (\<lambda>key.
     ebind (framePlaintext userId version body) (\<lambda>plain.
     ebind (lift_exn (ruleSetAad userId version)) (\<lambda>aad.
       Inr (encodeBase64 nonce, encodeBase64 (rc_encrypt rc key nonce aad plain)))))"

definition wrapKey :: "rules_crypto \<Rightarrow> bytes \<Rightarrow> bytes \<Rightarrow> jsstring \<Rightarrow> kdf_params \<Rightarrow> bytes \<Rightarrow> bytes \<Rightarrow> jsstring rules" where
  "wrapKey rc rulesKey wrappingKey userId k salt nonce =
     ebind (lift_exn (wrapAad userId k salt)) (\<lambda>aad.
       Inr (encodeBase64 (nonce @ rc_encrypt rc wrappingKey nonce aad rulesKey)))"

definition rules_envelope :: "jsval \<Rightarrow> jsval \<Rightarrow> jsval \<Rightarrow> jsstring \<Rightarrow> jsstring \<Rightarrow> nat \<Rightarrow> jsval" where
  "rules_envelope kdfParams salt wrappedKey nonce ciphertext version =
     JObj [(js ''v'', js_nat RULES_ENVELOPE_VERSION), (js ''kdfParams'', kdfParams), (js ''salt'', salt), (js ''wrappedKey'', wrappedKey),
       (js ''nonce'', JStr nonce), (js ''ciphertext'', JStr ciphertext), (js ''version'', js_nat version)]"

definition assertRulesEnvelope :: "jsval \<Rightarrow> unit rules" where
  "assertRulesEnvelope envelope =
     ebind (need (js_prop envelope (js ''v'') = js_nat RULES_ENVELOPE_VERSION) Rules_malformed) (\<lambda>_.
     ebind (assertRulesKdfParams (js_prop envelope (js ''kdfParams''))) (\<lambda>_.
     ebind (assertVersion (js_prop envelope (js ''version''))) (\<lambda>_.
     ebind (decodeField (js_prop envelope (js ''salt'')) (Some RULES_SALT_LENGTH)) (\<lambda>_.
     ebind (decodeField (js_prop envelope (js ''wrappedKey'')) (Some RULES_WRAPPED_KEY_LENGTH)) (\<lambda>_.
     ebind (decodeField (js_prop envelope (js ''nonce'')) (Some RULES_NONCE_LENGTH)) (\<lambda>_.
     ebind (decodeField (js_prop envelope (js ''ciphertext'')) None) (\<lambda>ciphertext.
     ebind (need (RULES_TAG_LENGTH + MIN_PLAINTEXT_BUCKET \<le> length ciphertext) Rules_malformed) (\<lambda>_.
       need (length ciphertext \<le> RULES_MAX_CIPHERTEXT_BYTES) Too_large))))))))"

definition createRulesEnvelope :: "rules_crypto \<Rightarrow> jsstring \<Rightarrow> jsstring \<Rightarrow> bytes \<Rightarrow> jsval option \<Rightarrow> bytes \<Rightarrow> bytes \<Rightarrow> bytes \<Rightarrow> bytes
    \<Rightarrow> (jsval \<times> bytes) rules" where
  "createRulesEnvelope rc passphrase userId body kdfOption salt rulesKey wrapNonce nonce =
     (let kdfParams = nullish kdfOption DEFAULT_RULES_KDF in
      ebind (assertUserId userId) (\<lambda>_.
      ebind (assertRulesKdfParams kdfParams) (\<lambda>k.
      ebind (deriveWrappingKey rc passphrase salt kdfParams) (\<lambda>wrappingKey.
      ebind (wrapKey rc rulesKey wrappingKey userId k salt wrapNonce) (\<lambda>wrappedKey.
      ebind (sealRuleSet rc rulesKey userId 1 body nonce) (\<lambda>(n, ct).
        Inr (rules_envelope kdfParams (JStr (encodeBase64 salt)) (JStr wrappedKey) n ct 1, rulesKey)))))))"

definition unlockRulesKey :: "rules_crypto \<Rightarrow> jsstring \<Rightarrow> jsstring \<Rightarrow> jsval \<Rightarrow> bytes rules" where
  "unlockRulesKey rc passphrase userId envelope =
     ebind (assertUserId userId) (\<lambda>_.
     ebind (assertRulesEnvelope envelope) (\<lambda>_.
     ebind (decodeField (js_prop envelope (js ''salt'')) (Some RULES_SALT_LENGTH)) (\<lambda>salt.
     ebind (decodeField (js_prop envelope (js ''wrappedKey'')) (Some RULES_WRAPPED_KEY_LENGTH)) (\<lambda>wrapped.
     ebind (deriveWrappingKey rc passphrase salt (js_prop envelope (js ''kdfParams''))) (\<lambda>wrappingKey.
     ebind (assertRulesKdfParams (js_prop envelope (js ''kdfParams''))) (\<lambda>k.
       case wrapAad userId k salt of
         Inl _ \<Rightarrow> Inl (Rules_refused Wrong_passphrase)
       | Inr aad \<Rightarrow> (case rc_decrypt rc wrappingKey (take RULES_NONCE_LENGTH wrapped) aad (drop RULES_NONCE_LENGTH wrapped) of
           None \<Rightarrow> Inl (Rules_refused Wrong_passphrase)
         | Some key \<Rightarrow> Inr key)))))))"

definition openRulesEnvelope :: "rules_crypto \<Rightarrow> bytes \<Rightarrow> jsstring \<Rightarrow> jsval \<Rightarrow> js_number \<Rightarrow> bytes rules" where
  "openRulesEnvelope rc rulesKey userId envelope minVersion =
     ebind (assertUserId userId) (\<lambda>_.
     ebind (assertRulesEnvelope envelope) (\<lambda>_.
     ebind (assertVersion (js_prop envelope (js ''version''))) (\<lambda>version.
     ebind (need (\<not> js_less (js_int (int version)) minVersion) Rollback) (\<lambda>_.
     ebind (ruleSetKey rc rulesKey) (\<lambda>key.
       case (decodeField (js_prop envelope (js ''nonce'')) (Some RULES_NONCE_LENGTH), lift_exn (ruleSetAad userId version),
             decodeField (js_prop envelope (js ''ciphertext'')) None) of
         (Inr nonce, Inr aad, Inr ciphertext) \<Rightarrow> (case rc_decrypt rc key nonce aad ciphertext of
           None \<Rightarrow> Inl (Rules_refused Rules_tampered)
         | Some plain \<Rightarrow> unframePlaintext plain userId version)
       | _ \<Rightarrow> Inl (Rules_refused Rules_tampered))))))"

definition resealRulesEnvelope :: "rules_crypto \<Rightarrow> bytes \<Rightarrow> jsstring \<Rightarrow> jsval \<Rightarrow> bytes \<Rightarrow> bytes \<Rightarrow> jsval rules" where
  "resealRulesEnvelope rc rulesKey userId previous body nonce =
     ebind (assertUserId userId) (\<lambda>_.
     ebind (assertRulesEnvelope previous) (\<lambda>_.
     ebind (assertVersion (js_prop previous (js ''version''))) (\<lambda>old.
     ebind (assertVersion (js_nat (old + 1))) (\<lambda>version.
     ebind (sealRuleSet rc rulesKey userId version body nonce) (\<lambda>(n, ct).
       Inr (rules_envelope (js_prop previous (js ''kdfParams'')) (js_prop previous (js ''salt'')) (js_prop previous (js ''wrappedKey'')) n ct version))))))"

definition sameRulesKey :: "bytes \<Rightarrow> bytes \<Rightarrow> bool" where
  "sameRulesKey a b = constantTimeEqual a b"

definition rulesCiphertextDigest :: "rules_crypto \<Rightarrow> jsval \<Rightarrow> jsstring rules" where
  "rulesCiphertextDigest rc envelope = ebind (decodeField (js_prop envelope (js ''ciphertext'')) None) (\<lambda>ct. Inr (toHex (rc_sha256 rc ct)))"

section \<open>Numbers, fields and associated data\<close>

lemma isIntIn_iff: "0 \<le> lo \<Longrightarrow> isIntIn v lo hi = Some n \<longleftrightarrow> v = js_nat n \<and> lo \<le> int n \<and> int n \<le> hi"
proof -
  assume lo: "0 \<le> lo"
  show ?thesis
  proof
    assume "isIntIn v lo hi = Some n"
    then obtain x where x: "v = JNum x" "isInteger x" "lo \<le> int_of x" "int_of x \<le> hi" "n = nat (int_of x)"
      by (auto simp: isIntIn_def not_less split: option.splits if_splits)
    have i: "int_of x = int n" using x(3,5) lo by simp
    have "x = js_int (int n)" using isInteger_iff [of x] x(2) unfolding i by blast
    then show "v = js_nat n \<and> lo \<le> int n \<and> int n \<le> hi" using x(1,3,4) i by (auto simp: js_nat_def)
  next
    assume "v = js_nat n \<and> lo \<le> int n \<and> int n \<le> hi"
    then show "isIntIn v lo hi = Some n" by (simp add: isIntIn_def js_nat_def)
  qed
qed

lemma assertVersion_iff: "assertVersion v = Inr n \<longleftrightarrow> v = js_nat n \<and> 1 \<le> n \<and> int n \<le> MAX_SAFE_INTEGER"
  using isIntIn_iff [of 1 v MAX_SAFE_INTEGER n]
  by (cases "isIntIn v 1 MAX_SAFE_INTEGER") (auto simp: assertVersion_def MAX_SAFE_INTEGER_def)

lemma decodeField_iff: "decodeField v n = Inr b \<longleftrightarrow> v = JStr (encodeBase64 b) \<and> (n = None \<or> n = Some (length b))"
proof -
  have "decodeField v n = Inr b \<longleftrightarrow> decodeBase64Strict v n = Inr b"
    by (auto simp: decodeField_def split: sum.splits exn.splits)
  then show ?thesis by (simp add: decode64_iff)
qed

definition kdf_ok :: "kdf_params \<Rightarrow> bool" where
  "kdf_ok k \<longleftrightarrow> int (kd_m k) \<le> MAX_SAFE_INTEGER \<and> int (kd_t k) \<le> MAX_SAFE_INTEGER \<and> int (kd_p k) \<le> MAX_SAFE_INTEGER"

lemma assertRulesKdfParams_ok: "assertRulesKdfParams v = Inr k \<Longrightarrow> kdf_ok k"
  by (auto simp: assertRulesKdfParams_def isIntIn_iff kdf_ok_def MAX_SAFE_INTEGER_def split: if_splits option.splits)

definition wrap_fields :: "jsstring \<Rightarrow> kdf_params \<Rightarrow> bytes \<Rightarrow> field list" where
  "wrap_fields userId k salt = [Prefixed (textEncode AAD_WRAP), U64 RULES_ENVELOPE_VERSION, Prefixed (textEncode userId),
     Prefixed (textEncode ARGON2ID), U64 (kd_m k), U64 (kd_t k), U64 (kd_p k), Prefixed salt]"

lemma wrapAad_ok: "kdf_ok k \<Longrightarrow> wrapAad userId k salt = Inr (enc_fields (wrap_fields userId k salt))"
  by (simp add: wrapAad_def w_uint_def assertUint_js_nat kdf_ok_def wrap_fields_def enc_fields_def rules_limits MAX_SAFE_INTEGER_def)

definition rule_fields :: "jsstring \<Rightarrow> nat \<Rightarrow> field list" where
  "rule_fields userId version = [Prefixed (textEncode AAD_RULE_SET), U64 RULES_ENVELOPE_VERSION, Prefixed (textEncode userId), U64 version]"

lemma ruleSetAad_ok: "int version \<le> MAX_SAFE_INTEGER \<Longrightarrow> ruleSetAad userId version = Inr (enc_fields (rule_fields userId version))"
  by (simp add: ruleSetAad_def w_uint_def assertUint_js_nat rule_fields_def enc_fields_def rules_limits MAX_SAFE_INTEGER_def)

section \<open>Framing and padding\<close>

lemma grow_bucket_ge: "0 < b \<Longrightarrow> len \<le> grow_bucket b len \<and> b \<le> grow_bucket b len"
proof (induction b len rule: grow_bucket.induct)
  case (1 b len)
  then show ?case by (subst (1 2) grow_bucket.simps) (auto simp: not_less)
qed

text \<open>The loop stops at the first bucket that is large enough.\<close>

lemma grow_bucket_first: "0 < b \<Longrightarrow> len \<le> b * 2 ^ j \<Longrightarrow> j = 0 \<or> b * 2 ^ (j - 1) < len \<Longrightarrow> grow_bucket b len = b * 2 ^ j"
proof (induction j arbitrary: b)
  case 0
  then show ?case by (subst grow_bucket.simps) auto
next
  case (Suc j)
  then have lt: "b * 2 ^ j < len" by simp
  have "b * 1 \<le> b * 2 ^ j" by (rule mult_le_mono2) simp
  with lt have b: "b < len" by linarith
  have "j = 0 \<or> b * 2 * 2 ^ (j - 1) < len" using lt by (cases j) (simp_all add: mult.assoc)
  then have "grow_bucket (b * 2) len = b * 2 * 2 ^ j" using Suc.prems by (intro Suc.IH) (auto simp: mult.assoc)
  then show ?case using b Suc.prems(1) by (subst grow_bucket.simps) simp
qed

lemma grow_bucket_power:
  "0 < b \<Longrightarrow> \<exists>j. grow_bucket b len = b * 2 ^ j \<and> len \<le> b * 2 ^ j \<and> (j = 0 \<or> b * 2 ^ (j - 1) < len)"
proof (induction b len rule: grow_bucket.induct)
  case (1 b len)
  show ?case
  proof (cases "b < len")
    case True
    with 1 obtain j where "grow_bucket (b * 2) len = b * 2 * 2 ^ j" "len \<le> b * 2 * 2 ^ j" "j = 0 \<or> b * 2 * 2 ^ (j - 1) < len" by auto
    with True 1(2) show ?thesis
      by (subst grow_bucket.simps) (cases j; auto intro!: exI [of _ "Suc j"] simp: mult.assoc)
  next
    case False
    then show ?thesis by (subst grow_bucket.simps) (auto intro: exI [of _ 0])
  qed
qed

lemma padded_bounds:
  assumes "paddedPlaintextLength len = Inr n"
  shows "len \<le> n" "MIN_PLAINTEXT_BUCKET \<le> n" "n \<le> MAX_PLAINTEXT_BYTES"
  using assms grow_bucket_ge [of MIN_PLAINTEXT_BUCKET len]
  by (auto simp: paddedPlaintextLength_def rules_limits split: if_splits)

definition frame_fields :: "jsstring \<Rightarrow> nat \<Rightarrow> bytes \<Rightarrow> field list" where
  "frame_fields userId version body = [Prefixed (textEncode PLAINTEXT_LABEL), Prefixed (textEncode userId), U64 version, Prefixed body]"

lemma framed_ok: "int version \<le> MAX_SAFE_INTEGER \<Longrightarrow> framed userId version body = Inr (enc_fields (frame_fields userId version body))"
  by (simp add: framed_def w_uint_def assertUint_js_nat frame_fields_def enc_fields_def)

lemma framePlaintext_steps:
  assumes "framePlaintext userId version body = Inr plain" "int version \<le> MAX_SAFE_INTEGER"
  obtains z where "plain = enc_fields (frame_fields userId version body) @ replicate z 0"
    "MIN_PLAINTEXT_BUCKET \<le> length plain" "length plain \<le> MAX_PLAINTEXT_BYTES"
proof -
  let ?f = "enc_fields (frame_fields userId version body)"
  obtain n where n: "paddedPlaintextLength (length ?f) = Inr n" "plain = ?f @ replicate (n - length ?f) 0"
    using assms by (auto simp: framePlaintext_def framed_ok ebind_Inr)
  with padded_bounds [OF n(1)] that show thesis by auto
qed

lemma length_enc_fields_frame:
  "length (enc_fields (frame_fields userId version body)) =
     4 + length (textEncode PLAINTEXT_LABEL) + 4 + length (textEncode userId) + 8 + 4 + length body"
  by (simp add: frame_fields_def enc_fields_def)

lemma readPrefixed_field: "length x < 2 ^ 32 \<Longrightarrow> readPrefixed (be_bytes 4 (length x) @ x @ rest) = Inr (x, rest)"
  by (simp add: readPrefixed_def Let_def)

lemma readPrefixed_Inr: "readPrefixed bs = Inr (x, rest) \<Longrightarrow> bs = be_bytes 4 (length x) @ x @ rest \<and> length x < 2 ^ 32"
proof -
  assume r: "readPrefixed bs = Inr (x, rest)"
  then have len: "4 \<le> length bs" "be_nat (take 4 bs) \<le> length (drop 4 bs)" "x = take (be_nat (take 4 bs)) (drop 4 bs)"
    "rest = drop (be_nat (take 4 bs)) (drop 4 bs)"
    by (auto simp: readPrefixed_def Let_def not_less split: if_splits)
  then have l: "length x = be_nat (take 4 bs)" by simp
  have "be_bytes 4 (length x) = take 4 bs" using len(1) by (simp add: l)
  moreover have "x @ rest = drop 4 bs" unfolding len(3,4) by (rule append_take_drop_id)
  moreover have "length x < 2 ^ 32" using be_nat_less [of "take 4 bs"] len(1) by (simp add: l)
  ultimately show ?thesis by simp
qed

lemma label_ascii: "ascii PLAINTEXT_LABEL"
  by (simp add: PLAINTEXT_LABEL_def js_def)

lemma label_length: "length (textEncode PLAINTEXT_LABEL) = 26"
  unfolding length_textEncode_ascii [OF label_ascii] by (simp add: PLAINTEXT_LABEL_def js_def)

text \<open>A user id that \<^verbatim>\<open>TextDecoder\<close> gives back as it was encoded.\<close>

definition plain_id :: "jsstring \<Rightarrow> bool" where
  "plain_id u \<longleftrightarrow> well_formed16 u \<and> (u = [] \<or> hd u \<noteq> 0xFEFF)"

lemma unframe_frame:
  assumes "framePlaintext userId version body = Inr plain" "int version \<le> MAX_SAFE_INTEGER" "plain_id userId"
  shows "unframePlaintext plain userId version = Inr body"
proof -
  obtain z where z: "plain = enc_fields (frame_fields userId version body) @ replicate z 0" "length plain \<le> MAX_PLAINTEXT_BYTES"
    using assms(1,2) by (rule framePlaintext_steps)
  have short: "length (textEncode userId) < 2 ^ 32" "length body < 2 ^ 32" "length (textEncode PLAINTEXT_LABEL) < 2 ^ 32"
    using z(2) label_length by (simp_all add: z(1) length_enc_fields_frame rules_limits)
  have v: "version < 2 ^ 64" "version mod 2 ^ 64 = version" using assms(2) by (simp_all add: MAX_SAFE_INTEGER_def)
  have u: "textDecodeFatal (textEncode userId) = Inr userId" using assms(3) textDecode_textEncode(2) by (simp add: plain_id_def)
  show ?thesis
    unfolding z(1) frame_fields_def enc_fields_def
    using short v by (simp add: unframePlaintext_def readPrefixed_field u textDecodeFatal_ascii [OF label_ascii] list_all_iff)
qed

text \<open>What unframing returns is in the plaintext, with the account and the version it was asked for.\<close>

lemma unframe_sound:
  assumes "unframePlaintext plain userId version = Inr body"
  shows "\<exists>l u z. plain = be_bytes 4 (length l) @ l @ be_bytes 4 (length u) @ u @ be_bytes 8 version @ be_bytes 4 (length body) @ body @ replicate z 0 \<and>
    textDecodeFatal l = Inr PLAINTEXT_LABEL \<and> textDecodeFatal u = Inr userId \<and> length l < 2 ^ 32 \<and> length u < 2 ^ 32 \<and> length body < 2 ^ 32"
proof -
  obtain l r1 u r2 r3 where l: "readPrefixed plain = Inr (l, r1)" "textDecodeFatal l = Inr PLAINTEXT_LABEL"
    and u: "readPrefixed r1 = Inr (u, r2)" "textDecodeFatal u = Inr userId"
    and v: "8 \<le> length r2" "be_nat (take 8 r2) = version" and b: "readPrefixed (drop 8 r2) = Inr (body, r3)" "list_all (\<lambda>b. b = 0) r3"
    using assms unfolding unframePlaintext_def by (auto simp: ebind_Inr split: prod.splits)
  have "be_bytes 8 version = take 8 r2" using v by auto
  then have r2: "r2 = be_bytes 8 version @ drop 8 r2" by simp
  have r3: "r3 = replicate (length r3) 0" using b(2) by (simp add: list_all_iff replicate_eqI)
  note rl = readPrefixed_Inr [OF l(1)] and ru = readPrefixed_Inr [OF u(1)] and rb = readPrefixed_Inr [OF b(1)]
  have "plain = be_bytes 4 (length l) @ l @ be_bytes 4 (length u) @ u @ be_bytes 8 version @ be_bytes 4 (length body) @ body @ r3"
    using rl ru rb r2 by metis
  with r3 l(2) u(2) rl ru rb show ?thesis by (metis (no_types, lifting))
qed

section \<open>What is relied on of the primitives\<close>

text \<open>Documented behaviour of XChaCha20-Poly1305: what is sealed opens under the same key, nonce and associated data; the tag has 16 bytes.\<close>

definition rules_correct :: "rules_crypto \<Rightarrow> bool" where
  "rules_correct rc \<longleftrightarrow> (\<forall>k n a p. rc_decrypt rc k n a (rc_encrypt rc k n a p) = Some p \<and>
     length (rc_encrypt rc k n a p) = length p + RULES_TAG_LENGTH)"

section \<open>A good envelope\<close>

definition holds_rules :: "rules_crypto \<Rightarrow> jsstring \<Rightarrow> jsstring \<Rightarrow> bytes \<Rightarrow> nat \<Rightarrow> bytes \<Rightarrow> jsval \<Rightarrow> bool" where
  "holds_rules rc passphrase userId key v body env \<longleftrightarrow>
     assertRulesEnvelope env = Inr () \<and> js_prop env (js ''version'') = js_nat v \<and> 1 \<le> v \<and> int v \<le> MAX_SAFE_INTEGER \<and>
     unlockRulesKey rc passphrase userId env = Inr key \<and>
     (\<forall>m. openRulesEnvelope rc key userId env m = (if js_less (js_int (int v)) m then Inl (Rules_refused Rollback) else Inr body))"

lemma envelope_props [simp]:
  "js_prop (rules_envelope k s w n c v) (js ''v'') = js_nat RULES_ENVELOPE_VERSION"
  "js_prop (rules_envelope k s w n c v) (js ''kdfParams'') = k"
  "js_prop (rules_envelope k s w n c v) (js ''salt'') = s"
  "js_prop (rules_envelope k s w n c v) (js ''wrappedKey'') = w"
  "js_prop (rules_envelope k s w n c v) (js ''nonce'') = JStr n"
  "js_prop (rules_envelope k s w n c v) (js ''ciphertext'') = JStr c"
  "js_prop (rules_envelope k s w n c v) (js ''version'') = js_nat v"
  by (simp_all add: rules_envelope_def js_def)

text \<open>The body fits when its frame does.\<close>

definition fits :: "jsstring \<Rightarrow> bytes \<Rightarrow> bool" where
  "fits userId body \<longleftrightarrow> 46 + length (textEncode userId) + length body \<le> MAX_PLAINTEXT_BYTES"

lemma frame_exists:
  assumes "int v \<le> MAX_SAFE_INTEGER" "fits userId body"
  shows "\<exists>plain. framePlaintext userId v body = Inr plain"
  using assms by (simp add: framePlaintext_def framed_ok paddedPlaintextLength_def length_enc_fields_frame label_length fits_def)

lemma sealed_opens:
  assumes "rules_correct rc" "plain_id userId" "int v \<le> MAX_SAFE_INTEGER" "length key = RULES_KEY_LENGTH" "fits userId body"
  shows "\<exists>ct k plain. sealRuleSet rc key userId v body nonce = Inr (encodeBase64 nonce, encodeBase64 ct) \<and>
    ruleSetKey rc key = Inr k \<and> rc_decrypt rc k nonce (enc_fields (rule_fields userId v)) ct = Some plain \<and>
    unframePlaintext plain userId v = Inr body \<and>
    RULES_TAG_LENGTH + MIN_PLAINTEXT_BUCKET \<le> length ct \<and> length ct \<le> RULES_MAX_CIPHERTEXT_BYTES"
proof -
  obtain plain where plain: "framePlaintext userId v body = Inr plain" using frame_exists assms(3,5) by blast
  obtain z where z: "MIN_PLAINTEXT_BUCKET \<le> length plain" "length plain \<le> MAX_PLAINTEXT_BYTES"
    using plain assms(3) by (rule framePlaintext_steps)
  obtain k where k: "ruleSetKey rc key = Inr k" using assms(4) by (simp add: ruleSetKey_def)
  let ?ct = "rc_encrypt rc k nonce (enc_fields (rule_fields userId v)) plain"
  have "sealRuleSet rc key userId v body nonce = Inr (encodeBase64 nonce, encodeBase64 ?ct)"
    by (simp add: sealRuleSet_def k plain ruleSetAad_ok [OF assms(3)])
  moreover have "rc_decrypt rc k nonce (enc_fields (rule_fields userId v)) ?ct = Some plain" "length ?ct = length plain + RULES_TAG_LENGTH"
    using assms(1) by (simp_all add: rules_correct_def)
  ultimately show ?thesis
    using k unframe_frame [OF plain assms(3,2)] z
    by (intro exI [of _ ?ct] exI [of _ k] exI [of _ plain]) (simp add: rules_limits)
qed

lemma envelope_holds:
  assumes kdf: "assertRulesKdfParams kdfParams = Inr kd" and user: "assertUserId userId = Inr ()"
    and v: "1 \<le> v" "int v \<le> MAX_SAFE_INTEGER"
    and salt: "salt = JStr (encodeBase64 sa)" "length sa = RULES_SALT_LENGTH"
    and wrapped: "wrapped = JStr (encodeBase64 wk)" "length wk = RULES_WRAPPED_KEY_LENGTH"
    and derive: "deriveWrappingKey rc passphrase sa kdfParams = Inr wkey"
    and unwrap: "rc_decrypt rc wkey (take RULES_NONCE_LENGTH wk) (enc_fields (wrap_fields userId kd sa)) (drop RULES_NONCE_LENGTH wk) = Some key"
    and nonce: "length nonce = RULES_NONCE_LENGTH"
    and ct: "ruleSetKey rc key = Inr k" "rc_decrypt rc k nonce (enc_fields (rule_fields userId v)) ct = Some plain"
      "unframePlaintext plain userId v = Inr body" "RULES_TAG_LENGTH + MIN_PLAINTEXT_BUCKET \<le> length ct" "length ct \<le> RULES_MAX_CIPHERTEXT_BYTES"
  shows "holds_rules rc passphrase userId key v body (rules_envelope kdfParams salt wrapped (encodeBase64 nonce) (encodeBase64 ct) v)"
proof -
  let ?e = "rules_envelope kdfParams salt wrapped (encodeBase64 nonce) (encodeBase64 ct) v"
  have f: "decodeField salt (Some RULES_SALT_LENGTH) = Inr sa" "decodeField wrapped (Some RULES_WRAPPED_KEY_LENGTH) = Inr wk"
    "decodeField (JStr (encodeBase64 nonce)) (Some RULES_NONCE_LENGTH) = Inr nonce" "decodeField (JStr (encodeBase64 ct)) None = Inr ct"
    using salt wrapped nonce by (simp_all add: decodeField_iff)
  have ver: "assertVersion (js_nat v) = Inr v" using v by (simp add: assertVersion_iff)
  have a: "assertRulesEnvelope ?e = Inr ()" using ct(4,5) by (simp add: assertRulesEnvelope_def kdf ver f)
  have w: "wrapAad userId kd sa = Inr (enc_fields (wrap_fields userId kd sa))"
    using wrapAad_ok assertRulesKdfParams_ok [OF kdf] by blast
  have "unlockRulesKey rc passphrase userId ?e = Inr key" by (simp add: unlockRulesKey_def user a f derive kdf w unwrap)
  moreover have "openRulesEnvelope rc key userId ?e m = (if js_less (js_int (int v)) m then Inl (Rules_refused Rollback) else Inr body)" for m
    by (simp add: openRulesEnvelope_def user a ver ct(1) f ruleSetAad_ok [OF v(2)] ct(2,3) need_def)
  ultimately show ?thesis using a v by (simp add: holds_rules_def)
qed

text \<open>What a good envelope keeps for the next version.\<close>

lemma holds_parts:
  assumes "holds_rules rc passphrase userId key v body env"
  obtains kd sa wk wkey where "assertUserId userId = Inr ()" "assertRulesKdfParams (js_prop env (js ''kdfParams'')) = Inr kd"
    "js_prop env (js ''salt'') = JStr (encodeBase64 sa)" "length sa = RULES_SALT_LENGTH"
    "js_prop env (js ''wrappedKey'') = JStr (encodeBase64 wk)" "length wk = RULES_WRAPPED_KEY_LENGTH"
    "deriveWrappingKey rc passphrase sa (js_prop env (js ''kdfParams'')) = Inr wkey"
    "rc_decrypt rc wkey (take RULES_NONCE_LENGTH wk) (enc_fields (wrap_fields userId kd sa)) (drop RULES_NONCE_LENGTH wk) = Some key"
proof -
  have "unlockRulesKey rc passphrase userId env = Inr key" using assms by (simp add: holds_rules_def)
  then obtain sa wk wkey kd where u: "assertUserId userId = Inr ()" "decodeField (js_prop env (js ''salt'')) (Some RULES_SALT_LENGTH) = Inr sa"
    "decodeField (js_prop env (js ''wrappedKey'')) (Some RULES_WRAPPED_KEY_LENGTH) = Inr wk"
    "deriveWrappingKey rc passphrase sa (js_prop env (js ''kdfParams'')) = Inr wkey"
    "assertRulesKdfParams (js_prop env (js ''kdfParams'')) = Inr kd"
    and c: "(case wrapAad userId kd sa of
         Inl _ \<Rightarrow> Inl (Rules_refused Wrong_passphrase)
       | Inr aad \<Rightarrow> (case rc_decrypt rc wkey (take RULES_NONCE_LENGTH wk) aad (drop RULES_NONCE_LENGTH wk) of
           None \<Rightarrow> Inl (Rules_refused Wrong_passphrase)
         | Some key \<Rightarrow> Inr key)) = Inr key"
    by (auto simp: unlockRulesKey_def ebind_Inr)
  have aad: "wrapAad userId kd sa = Inr (enc_fields (wrap_fields userId kd sa))" using wrapAad_ok [OF assertRulesKdfParams_ok [OF u(5)]] .
  have "rc_decrypt rc wkey (take RULES_NONCE_LENGTH wk) (enc_fields (wrap_fields userId kd sa)) (drop RULES_NONCE_LENGTH wk) = Some key"
    using c unfolding aad by (auto split: option.splits)
  with u that show thesis by (auto simp: decodeField_iff)
qed

lemma reseal_holds:
  assumes "rules_correct rc" "plain_id userId" "length key = RULES_KEY_LENGTH" "length nonce = RULES_NONCE_LENGTH" "fits userId body'"
    and h: "holds_rules rc passphrase userId key v body env" and v: "int v + 1 \<le> MAX_SAFE_INTEGER"
  shows "\<exists>env'. resealRulesEnvelope rc key userId env body' nonce = Inr env' \<and> holds_rules rc passphrase userId key (Suc v) body' env'"
proof -
  have v': "int (Suc v) \<le> MAX_SAFE_INTEGER" using v by simp
  obtain ct k plain where ct: "sealRuleSet rc key userId (Suc v) body' nonce = Inr (encodeBase64 nonce, encodeBase64 ct)"
    "ruleSetKey rc key = Inr k" "rc_decrypt rc k nonce (enc_fields (rule_fields userId (Suc v))) ct = Some plain"
    "unframePlaintext plain userId (Suc v) = Inr body'" "RULES_TAG_LENGTH + MIN_PLAINTEXT_BUCKET \<le> length ct" "length ct \<le> RULES_MAX_CIPHERTEXT_BYTES"
    using sealed_opens [OF assms(1,2) v' assms(3,5)] by blast
  obtain kd sa wk wkey where p: "assertUserId userId = Inr ()" "assertRulesKdfParams (js_prop env (js ''kdfParams'')) = Inr kd"
    "js_prop env (js ''salt'') = JStr (encodeBase64 sa)" "length sa = RULES_SALT_LENGTH"
    "js_prop env (js ''wrappedKey'') = JStr (encodeBase64 wk)" "length wk = RULES_WRAPPED_KEY_LENGTH"
    "deriveWrappingKey rc passphrase sa (js_prop env (js ''kdfParams'')) = Inr wkey"
    "rc_decrypt rc wkey (take RULES_NONCE_LENGTH wk) (enc_fields (wrap_fields userId kd sa)) (drop RULES_NONCE_LENGTH wk) = Some key"
    using h by (rule holds_parts)
  have e: "assertRulesEnvelope env = Inr ()" "js_prop env (js ''version'') = js_nat v" "1 \<le> v" using h by (simp_all add: holds_rules_def)
  have ver: "assertVersion (js_nat v) = Inr v" "assertVersion (js_nat (Suc v)) = Inr (Suc v)"
    using e(3) v v' by (simp_all add: assertVersion_iff)
  have "resealRulesEnvelope rc key userId env body' nonce =
      Inr (rules_envelope (js_prop env (js ''kdfParams'')) (js_prop env (js ''salt'')) (js_prop env (js ''wrappedKey''))
        (encodeBase64 nonce) (encodeBase64 ct) (Suc v))"
    by (simp add: resealRulesEnvelope_def p(1) e ver ct(1))
  moreover have "holds_rules rc passphrase userId key (Suc v) body'
      (rules_envelope (js_prop env (js ''kdfParams'')) (js_prop env (js ''salt'')) (js_prop env (js ''wrappedKey''))
        (encodeBase64 nonce) (encodeBase64 ct) (Suc v))"
    by (rule envelope_holds [OF p(2,1) _ v' p(3,4,5,6,7,8) assms(4) ct(2-6)]) simp
  ultimately show ?thesis by blast
qed

lemma create_holds:
  assumes "rules_correct rc" "plain_id userId" "userId \<noteq> []" "length userId \<le> 256" "passphrase \<noteq> []"
    "assertRulesKdfParams (nullish kdf DEFAULT_RULES_KDF) = Inr kd" "length salt = RULES_SALT_LENGTH" "length key = RULES_KEY_LENGTH"
    "length wrapNonce = RULES_NONCE_LENGTH" "length nonce = RULES_NONCE_LENGTH" "fits userId body"
  shows "\<exists>env. createRulesEnvelope rc passphrase userId body kdf salt key wrapNonce nonce = Inr (env, key) \<and>
    holds_rules rc passphrase userId key 1 body env"
proof -
  let ?kdf = "nullish kdf DEFAULT_RULES_KDF"
  have one: "int 1 \<le> MAX_SAFE_INTEGER" by (simp add: MAX_SAFE_INTEGER_def)
  obtain ct k plain where ct: "sealRuleSet rc key userId 1 body nonce = Inr (encodeBase64 nonce, encodeBase64 ct)"
    "ruleSetKey rc key = Inr k" "rc_decrypt rc k nonce (enc_fields (rule_fields userId 1)) ct = Some plain"
    "unframePlaintext plain userId 1 = Inr body" "RULES_TAG_LENGTH + MIN_PLAINTEXT_BUCKET \<le> length ct" "length ct \<le> RULES_MAX_CIPHERTEXT_BYTES"
    using sealed_opens [OF assms(1,2) one assms(8,11)] by blast
  obtain wkey where wkey: "deriveWrappingKey rc passphrase salt ?kdf = Inr wkey"
    using assms(5,6,7) by (auto simp: deriveWrappingKey_def Let_def)
  have user: "assertUserId userId = Inr ()" using assms(3,4) by (simp add: assertUserId_def)
  let ?aad = "enc_fields (wrap_fields userId kd salt)"
  let ?wk = "wrapNonce @ rc_encrypt rc wkey wrapNonce ?aad key"
  have wk: "length ?wk = RULES_WRAPPED_KEY_LENGTH" "take RULES_NONCE_LENGTH ?wk = wrapNonce"
    "drop RULES_NONCE_LENGTH ?wk = rc_encrypt rc wkey wrapNonce ?aad key"
    using assms(1,8,9) by (simp_all add: rules_correct_def RULES_WRAPPED_KEY_LENGTH_def)
  have "wrapAad userId kd salt = Inr ?aad" using wrapAad_ok assertRulesKdfParams_ok [OF assms(6)] by blast
  then have "createRulesEnvelope rc passphrase userId body kdf salt key wrapNonce nonce =
      Inr (rules_envelope ?kdf (JStr (encodeBase64 salt)) (JStr (encodeBase64 ?wk)) (encodeBase64 nonce) (encodeBase64 ct) 1, key)"
    using ct(1) by (simp add: createRulesEnvelope_def user assms(6) wkey wrapKey_def)
  moreover have "rc_decrypt rc wkey (take RULES_NONCE_LENGTH ?wk) ?aad (drop RULES_NONCE_LENGTH ?wk) = Some key"
    using assms(1) unfolding wk(2,3) by (simp add: rules_correct_def)
  then have "holds_rules rc passphrase userId key 1 body
      (rules_envelope ?kdf (JStr (encodeBase64 salt)) (JStr (encodeBase64 ?wk)) (encodeBase64 nonce) (encodeBase64 ct) 1)"
    by (intro envelope_holds [OF assms(6) user _ one refl assms(7) refl wk(1) wkey _ assms(10) ct(2-6)]) auto
  ultimately show ?thesis by blast
qed

section \<open>Histories\<close>

text \<open>One device after another writes the next version: every envelope the API stores.\<close>

fun reseal_all :: "rules_crypto \<Rightarrow> bytes \<Rightarrow> jsstring \<Rightarrow> jsval \<Rightarrow> (bytes \<times> bytes) list \<Rightarrow> jsval list rules" where
  "reseal_all rc key userId env [] = Inr [env]"
| "reseal_all rc key userId env ((body, nonce) # edits) =
     ebind (resealRulesEnvelope rc key userId env body nonce) (\<lambda>env'.
     ebind (reseal_all rc key userId env' edits) (\<lambda>envs. Inr (env # envs)))"

lemma reseal_all_holds:
  assumes "rules_correct rc" "plain_id userId" "length key = RULES_KEY_LENGTH"
    and "holds_rules rc passphrase userId key v body env" "int v + int (length edits) \<le> MAX_SAFE_INTEGER"
    and "\<And>b n. (b, n) \<in> set edits \<Longrightarrow> length n = RULES_NONCE_LENGTH \<and> fits userId b"
  shows "\<exists>envs. reseal_all rc key userId env edits = Inr envs \<and> length envs = Suc (length edits) \<and>
    (\<forall>i \<le> length edits. holds_rules rc passphrase userId key (v + i) ((body # map fst edits) ! i) (envs ! i))"
  using assms(4-6)
proof (induction edits arbitrary: env v body)
  case Nil
  then show ?case by simp
next
  case (Cons e edits)
  obtain b n where e: "e = (b, n)" by (cases e)
  have n: "length n = RULES_NONCE_LENGTH" "fits userId b" using Cons.prems(3) e by auto
  obtain env' where env': "resealRulesEnvelope rc key userId env b n = Inr env'" "holds_rules rc passphrase userId key (Suc v) b env'"
    using reseal_holds [OF assms(1-3) n Cons.prems(1)] Cons.prems(2) by auto
  have "\<exists>envs. reseal_all rc key userId env' edits = Inr envs \<and> length envs = Suc (length edits) \<and>
    (\<forall>i \<le> length edits. holds_rules rc passphrase userId key (Suc v + i) ((b # map fst edits) ! i) (envs ! i))"
    by (rule Cons.IH [OF env'(2)]) (use Cons.prems(2,3) in auto)
  then obtain envs where envs: "reseal_all rc key userId env' edits = Inr envs" "length envs = Suc (length edits)"
    "\<And>i. i \<le> length edits \<Longrightarrow> holds_rules rc passphrase userId key (Suc v + i) ((b # map fst edits) ! i) (envs ! i)" by blast
  have "holds_rules rc passphrase userId key (v + i) ((body # map fst (e # edits)) ! i) ((env # envs) ! i)" if "i \<le> length (e # edits)" for i
    using that Cons.prems(1) envs(3) [of "i - 1"] e by (cases i) auto
  with env'(1) envs(1,2) e show ?case by (intro exI [of _ "env # envs"]) simp
qed

section \<open>Authenticity\<close>

text \<open>
  What the holders of the rules key wrote: each entry is an account, a version, a body and the nonce that was drawn, with the ciphertext
  that \<^verbatim>\<open>sealRuleSet\<close> made of them; an account has no lone surrogate, which UTF-8 would not tell from another. The hypothesis on the
  AEAD is that nobody forged the one envelope that is read: if its nonce and ciphertext open under the key for the account and the
  version, then they are those of an entry, sealed with the same associated data. It holds of every envelope the holders wrote,
  and of every one that does not open.
\<close>

type_synonym written = "jsstring \<times> nat \<times> bytes \<times> bytes \<times> bytes"

definition writes :: "rules_crypto \<Rightarrow> bytes \<Rightarrow> written \<Rightarrow> bool" where
  "writes rc key x = (case x of (u, v, body, nonce, ct) \<Rightarrow>
     well_formed16 u \<and> sealRuleSet rc key u v body nonce = Inr (encodeBase64 nonce, encodeBase64 ct))"

definition unforged_envelope :: "rules_crypto \<Rightarrow> bytes \<Rightarrow> written set \<Rightarrow> jsstring \<Rightarrow> jsval \<Rightarrow> bool" where
  "unforged_envelope rc key H userId env \<longleftrightarrow> (\<forall>k v n a ct plain.
     ruleSetKey rc key = Inr k \<longrightarrow> js_prop env (js ''version'') = js_nat v \<longrightarrow> ruleSetAad userId v = Inr a \<longrightarrow>
     js_prop env (js ''nonce'') = JStr (encodeBase64 n) \<longrightarrow> js_prop env (js ''ciphertext'') = JStr (encodeBase64 ct) \<longrightarrow>
     rc_decrypt rc k n a ct = Some plain \<longrightarrow>
     (\<exists>u v' body. (u, v', body, n, ct) \<in> H \<and> ruleSetAad u v' = Inr a))"

lemma ruleSetAad_version: "ruleSetAad u v = Inr a \<Longrightarrow> int v \<le> MAX_SAFE_INTEGER"
  by (auto simp: ruleSetAad_def rbind_eq_Inr w_uint_def assertUint_js_nat split: if_splits)

lemma open_steps:
  assumes "openRulesEnvelope rc key userId env m = Inr body"
  obtains v k n ct plain where "js_prop env (js ''version'') = js_nat v" "int v \<le> MAX_SAFE_INTEGER" "1 \<le> v" "\<not> js_less (js_int (int v)) m"
    "js_prop env (js ''nonce'') = JStr (encodeBase64 n)" "js_prop env (js ''ciphertext'') = JStr (encodeBase64 ct)"
    "ruleSetKey rc key = Inr k" "rc_decrypt rc k n (enc_fields (rule_fields userId v)) ct = Some plain"
    "unframePlaintext plain userId v = Inr body" "assertUserId userId = Inr ()"
proof -
  from assms obtain v k where v: "assertVersion (js_prop env (js ''version'')) = Inr v" "\<not> js_less (js_int (int v)) m" "ruleSetKey rc key = Inr k"
    and user: "assertUserId userId = Inr ()"
    and c: "(case (decodeField (js_prop env (js ''nonce'')) (Some RULES_NONCE_LENGTH), lift_exn (ruleSetAad userId v),
             decodeField (js_prop env (js ''ciphertext'')) None) of
         (Inr nonce, Inr aad, Inr ciphertext) \<Rightarrow> (case rc_decrypt rc k nonce aad ciphertext of
           None \<Rightarrow> Inl (Rules_refused Rules_tampered)
         | Some plain \<Rightarrow> unframePlaintext plain userId v)
       | _ \<Rightarrow> Inl (Rules_refused Rules_tampered)) = Inr body"
    by (auto simp: openRulesEnvelope_def ebind_Inr)
  have ver: "js_prop env (js ''version'') = js_nat v" "1 \<le> v" "int v \<le> MAX_SAFE_INTEGER" using v(1) by (simp_all add: assertVersion_iff)
  from c obtain n ct plain where "decodeField (js_prop env (js ''nonce'')) (Some RULES_NONCE_LENGTH) = Inr n"
    "decodeField (js_prop env (js ''ciphertext'')) None = Inr ct"
    "rc_decrypt rc k n (enc_fields (rule_fields userId v)) ct = Some plain" "unframePlaintext plain userId v = Inr body"
    unfolding ruleSetAad_ok [OF ver(3)] by (auto split: sum.splits option.splits)
  then have "js_prop env (js ''nonce'') = JStr (encodeBase64 n)" "js_prop env (js ''ciphertext'') = JStr (encodeBase64 ct)"
    "rc_decrypt rc k n (enc_fields (rule_fields userId v)) ct = Some plain" "unframePlaintext plain userId v = Inr body"
    by (simp_all add: decodeField_iff)
  with ver v(2,3) user that show thesis by blast
qed

lemma written_plain:
  assumes "rules_correct rc" "writes rc key (u, v, b, n, ct)" "ruleSetKey rc key = Inr k" "ruleSetAad u v = Inr a"
  obtains plain where "framePlaintext u v b = Inr plain" "rc_decrypt rc k n a ct = Some plain"
proof -
  have "sealRuleSet rc key u v b n = Inr (encodeBase64 n, encodeBase64 ct)" using assms(2) by (simp add: writes_def)
  then obtain plain where "framePlaintext u v b = Inr plain" "encodeBase64 ct = encodeBase64 (rc_encrypt rc k n a plain)"
    using assms(3,4) by (auto simp: sealRuleSet_def ebind_Inr)
  moreover from this(2) have "ct = rc_encrypt rc k n a plain" by (metis decode_encode64 sum.inject(2))
  ultimately show thesis using that assms(1) by (simp add: rules_correct_def)
qed

lemma open_authentic:
  assumes "rules_correct rc" "\<And>x. x \<in> H \<Longrightarrow> writes rc key x"
    "unforged_envelope rc key H userId env" "well_formed16 userId" "openRulesEnvelope rc key userId env m = Inr body"
  obtains v n ct where "js_prop env (js ''version'') = js_nat v" "\<not> js_less (js_int (int v)) m" "(userId, v, body, n, ct) \<in> H"
    "js_prop env (js ''nonce'') = JStr (encodeBase64 n)" "js_prop env (js ''ciphertext'') = JStr (encodeBase64 ct)"
proof -
  obtain v k n ct plain where v: "js_prop env (js ''version'') = js_nat v" "int v \<le> MAX_SAFE_INTEGER" "\<not> js_less (js_int (int v)) m"
    and env: "js_prop env (js ''nonce'') = JStr (encodeBase64 n)" "js_prop env (js ''ciphertext'') = JStr (encodeBase64 ct)"
    and k: "ruleSetKey rc key = Inr k" "rc_decrypt rc k n (enc_fields (rule_fields userId v)) ct = Some plain"
    and body: "unframePlaintext plain userId v = Inr body"
    using assms(5) by (rule open_steps)
  obtain u v' b where uvb: "(u, v', b, n, ct) \<in> H" "ruleSetAad u v' = Inr (enc_fields (rule_fields userId v))"
    using assms(3) k v(1) env ruleSetAad_ok [OF v(2)] unfolding unforged_envelope_def by blast
  have w: "writes rc key (u, v', b, n, ct)" using assms(2) uvb(1) .
  obtain plain' where plain': "framePlaintext u v' b = Inr plain'" "rc_decrypt rc k n (enc_fields (rule_fields userId v)) ct = Some plain'"
    using assms(1) w k(1) uvb(2) by (rule written_plain)
  have H: "(u, v', b, n, ct) \<in> H" "well_formed16 u" "ruleSetAad u v' = Inr (enc_fields (rule_fields userId v))"
    "framePlaintext u v' b = Inr plain"
    using uvb w plain' k(2) by (simp_all add: writes_def)
  have v': "int v' \<le> MAX_SAFE_INTEGER" using H(3) by (rule ruleSetAad_version)
  obtain z where z: "plain = enc_fields (frame_fields u v' b) @ replicate z 0" "length plain \<le> MAX_PLAINTEXT_BYTES"
    using H(4) v' by (rule framePlaintext_steps)
  obtain l w z' where w: "plain = be_bytes 4 (length l) @ l @ be_bytes 4 (length w) @ w @ be_bytes 8 v @ be_bytes 4 (length body) @ body @ replicate z' 0"
    "textDecodeFatal w = Inr userId" "length l < 2 ^ 32" "length w < 2 ^ 32" "length body < 2 ^ 32"
    using unframe_sound [OF body] by blast
  let ?fs = "[Prefixed l, Prefixed w, U64 v, Prefixed body]"
  have "enc_fields (frame_fields u v' b) @ replicate z 0 = enc_fields ?fs @ replicate z' 0"
    using z(1) w(1) by (simp add: enc_fields_def)
  moreover have "list_all field_ok ?fs" using w(3-5) v(2) by (simp add: MAX_SAFE_INTEGER_def)
  moreover have "length (textEncode u) < 2 ^ 32" "length b < 2 ^ 32"
    using z(2) label_length by (simp_all add: z(1) length_enc_fields_frame rules_limits)
  then have "list_all field_ok (frame_fields u v' b)"
    using v' label_length by (simp add: MAX_SAFE_INTEGER_def frame_fields_def)
  moreover have "list_all2 same_kind (frame_fields u v' b) ?fs" by (simp add: frame_fields_def)
  ultimately have "frame_fields u v' b = ?fs" using enc_fields_prefix by blast
  then have eq: "w = textEncode u" "v' = v" "b = body" by (simp_all add: frame_fields_def)
  have "enc_fields (rule_fields u v) = enc_fields (rule_fields userId v)" using H(3) v(2) by (simp add: eq(2) ruleSetAad_ok)
  then have "(be_bytes 4 (length (textEncode u)) @ textEncode u) @ be_bytes 8 v = (be_bytes 4 (length (textEncode userId)) @ textEncode userId) @ be_bytes 8 v"
    by (simp add: rule_fields_def enc_fields_def del: append_same_eq)
  then have "be_bytes 4 (length (textEncode u)) @ textEncode u = be_bytes 4 (length (textEncode userId)) @ textEncode userId"
    by (simp only: append_same_eq)
  then have "textEncode u = textEncode userId" using append_eq_append_conv [of "be_bytes 4 (length (textEncode u))"] by simp
  then have "u = userId" using textEncode_inj H(2) assms(4) by blast
  with H(1) eq v env that show thesis by blast
qed

section \<open>Properties\<close>

text \<open>
  C37. A rule set comes back as it was stored. From valid parameters and bodies that fit, creating an envelope and writing any number of
  further versions succeeds; the passphrase unlocks the same rules key from each of them; each opens to its own body for a reader
  that has seen no later version, and is refused as a rollback for one that has.
\<close>

theorem rules_come_back:
  assumes "rules_correct rc" and "plain_id userId" and "userId \<noteq> []" and "length userId \<le> 256" and "passphrase \<noteq> []"
    and "assertRulesKdfParams (nullish kdf DEFAULT_RULES_KDF) = Inr kd" and "length salt = RULES_SALT_LENGTH"
    and "length key = RULES_KEY_LENGTH" and "length wrapNonce = RULES_NONCE_LENGTH" and "length nonce = RULES_NONCE_LENGTH"
    and "fits userId body" and "int (length edits) < MAX_SAFE_INTEGER"
    and "\<And>b n. (b, n) \<in> set edits \<Longrightarrow> length n = RULES_NONCE_LENGTH \<and> fits userId b"
  shows "\<exists>env envs. createRulesEnvelope rc passphrase userId body kdf salt key wrapNonce nonce = Inr (env, key) \<and>
    reseal_all rc key userId env edits = Inr envs \<and> length envs = Suc (length edits) \<and>
    (\<forall>i \<le> length edits. unlockRulesKey rc passphrase userId (envs ! i) = Inr key \<and>
      (\<forall>seen. openRulesEnvelope rc key userId (envs ! i) (js_int seen) =
        (if int i + 1 < seen then Inl (Rules_refused Rollback) else Inr ((body # map fst edits) ! i))))"
proof -
  obtain env where env: "createRulesEnvelope rc passphrase userId body kdf salt key wrapNonce nonce = Inr (env, key)"
    "holds_rules rc passphrase userId key 1 body env"
    using create_holds [OF assms(1-11)] by blast
  have n: "int 1 + int (length edits) \<le> MAX_SAFE_INTEGER" using assms(12) by simp
  obtain envs where "reseal_all rc key userId env edits = Inr envs" "length envs = Suc (length edits)"
    "\<forall>i \<le> length edits. holds_rules rc passphrase userId key (1 + i) ((body # map fst edits) ! i) (envs ! i)"
    using reseal_all_holds [OF assms(1,2,8) env(2) n assms(13)] by blast
  with env(1) show ?thesis by (intro exI [of _ env] exI [of _ envs]) (auto simp: holds_rules_def)
qed

text \<open>
  C38. What opens was written for this account and this version. Of an envelope that nobody forged, a body that opens is one that a
  holder of the rules key sealed, for the user who reads it, at exactly the version the envelope shows, with the nonce and
  the ciphertext it carries, and that version is not below the one the reader has seen: the server can neither move a rule set to another
  account, nor edit a version, nor give one body for another, nor serve an old one.
\<close>

theorem opened_rules_are_authentic:
  assumes "rules_correct rc" and "\<And>x. x \<in> H \<Longrightarrow> writes rc key x"
    and "unforged_envelope rc key H userId env" and "well_formed16 userId"
    and "openRulesEnvelope rc key userId env minVersion = Inr body"
  shows "\<exists>v n ct. js_prop env (js ''version'') = js_nat v \<and> \<not> js_less (js_int (int v)) minVersion \<and> (userId, v, body, n, ct) \<in> H \<and>
    js_prop env (js ''nonce'') = JStr (encodeBase64 n) \<and> js_prop env (js ''ciphertext'') = JStr (encodeBase64 ct)"
  using assms by (rule open_authentic) blast+

text \<open>
  C39. Padding. A plaintext is refused exactly when it is too large. Any other is padded to the smallest bucket that holds it, of
  those of 4096 bytes doubled any number of times, cut at the largest plaintext there is: the length that is stored tells of the
  rules only which bucket they need.
\<close>

theorem padding_hides_the_length:
  "(paddedPlaintextLength len = Inr n \<longleftrightarrow> len \<le> MAX_PLAINTEXT_BYTES \<and>
     (\<exists>j. n = min (4096 * 2 ^ j) MAX_PLAINTEXT_BYTES \<and> len \<le> 4096 * 2 ^ j \<and> (j = 0 \<or> 4096 * 2 ^ (j - 1) < len))) \<and>
   (paddedPlaintextLength len = Inl e \<longleftrightarrow> MAX_PLAINTEXT_BYTES < len \<and> e = Rules_refused Too_large)"
proof -
  let ?bucket = "\<lambda>j. len \<le> 4096 * 2 ^ j \<and> (j = 0 \<or> 4096 * 2 ^ (j - 1) < len)"
  let ?g = "grow_bucket MIN_PLAINTEXT_BUCKET len"
  have first: "?g = 4096 * 2 ^ j" if "?bucket j" for j
    unfolding MIN_PLAINTEXT_BUCKET_def using that by (intro grow_bucket_first) simp_all
  obtain j where j: "?g = 4096 * 2 ^ j" "?bucket j"
    using grow_bucket_power [OF zero_less_numeral, of _ len] unfolding MIN_PLAINTEXT_BUCKET_def by blast
  have "(\<exists>j. n = min (4096 * 2 ^ j) MAX_PLAINTEXT_BYTES \<and> ?bucket j) \<longleftrightarrow> n = min ?g MAX_PLAINTEXT_BYTES"
    using first j by metis
  moreover have "(paddedPlaintextLength len = Inr n \<longleftrightarrow> len \<le> MAX_PLAINTEXT_BYTES \<and> n = min ?g MAX_PLAINTEXT_BYTES) \<and>
      (paddedPlaintextLength len = Inl e \<longleftrightarrow> MAX_PLAINTEXT_BYTES < len \<and> e = Rules_refused Too_large)"
    unfolding paddedPlaintextLength_def by (cases "len > MAX_PLAINTEXT_BYTES") (auto simp del: One_nat_def)
  ultimately show ?thesis by blast
qed

section \<open>Witnesses\<close>

text \<open>A tag over key, nonce, associated data and plaintext, so that what is opened with others is refused.\<close>

definition sample_tag :: "bytes \<Rightarrow> bytes \<Rightarrow> bytes \<Rightarrow> bytes \<Rightarrow> bytes" where
  "sample_tag k n a p = replicate 16 (sum_list (k @ n @ a @ p))"

definition sample_rules :: rules_crypto where
  "sample_rules = \<lparr>rc_argon2id = (\<lambda>_ _ _ _ _. replicate 32 1), rc_hkdf = (\<lambda>k _ _ n. take n (k @ replicate n 0)), rc_sha256 = (\<lambda>_. replicate 32 0),
     rc_encrypt = (\<lambda>k n a p. p @ sample_tag k n a p),
     rc_decrypt = (\<lambda>k n a ct. let p = take (length ct - 16) ct in if ct = p @ sample_tag k n a p then Some p else None), rc_nfc = (\<lambda>s. s)\<rparr>"

lemma sample_rules_correct: "rules_correct sample_rules"
  by (simp add: rules_correct_def sample_rules_def sample_tag_def RULES_TAG_LENGTH_def Let_def del: replicate.simps sum_list_append)

lemma default_kdf: "assertRulesKdfParams (nullish None DEFAULT_RULES_KDF) = Inr \<lparr>kd_m = 65536, kd_t = 3, kd_p = 1\<rparr>"
proof -
  have p: "js_prop DEFAULT_RULES_KDF (js ''alg'') = JStr ARGON2ID" "js_prop DEFAULT_RULES_KDF (js ''m'') = js_nat 65536"
    "js_prop DEFAULT_RULES_KDF (js ''t'') = js_nat 3" "js_prop DEFAULT_RULES_KDF (js ''p'') = js_nat 1"
    by (simp_all add: DEFAULT_RULES_KDF_def js_def)
  show ?thesis by (simp add: assertRulesKdfParams_def p isIntIn_def js_nat_def)
qed

lemma sample_user: "plain_id [117]" "length (textEncode [117]) = 1"
  using ascii_well_formed16 [of "[117]"] by (simp_all add: plain_id_def length_textEncode_ascii)

abbreviation bytes_n :: "nat \<Rightarrow> bytes" where
  "bytes_n n \<equiv> replicate n 7"

theorem rules_come_back_witness:
  "\<exists>env envs. createRulesEnvelope sample_rules [112] [117] [1, 2] None (bytes_n 16) (bytes_n 32) (bytes_n 24) (bytes_n 24) = Inr (env, bytes_n 32) \<and>
    reseal_all sample_rules (bytes_n 32) [117] env [([3], bytes_n 24)] = Inr envs \<and>
    openRulesEnvelope sample_rules (bytes_n 32) [117] (envs ! 1) (js_int 2) = Inr [3] \<and>
    openRulesEnvelope sample_rules (bytes_n 32) [117] (envs ! 0) (js_int 2) = Inl (Rules_refused Rollback)"
proof -
  have f: "fits [117] b" if "length b \<le> 2" for b using that by (simp add: fits_def sample_user rules_limits)
  have e: "\<And>b n. (b, n) \<in> set [([3 :: byte], bytes_n 24)] \<Longrightarrow> length n = RULES_NONCE_LENGTH \<and> fits [117] b"
    using f by (auto simp: RULES_NONCE_LENGTH_def simp del: replicate.simps)
  have "\<exists>env envs. createRulesEnvelope sample_rules [112] [117] [1, 2] None (bytes_n 16) (bytes_n 32) (bytes_n 24) (bytes_n 24) = Inr (env, bytes_n 32) \<and>
    reseal_all sample_rules (bytes_n 32) [117] env [([3], bytes_n 24)] = Inr envs \<and> length envs = Suc (length [([3 :: byte], bytes_n 24)]) \<and>
    (\<forall>i \<le> length [([3 :: byte], bytes_n 24)]. unlockRulesKey sample_rules [112] [117] (envs ! i) = Inr (bytes_n 32) \<and>
      (\<forall>seen. openRulesEnvelope sample_rules (bytes_n 32) [117] (envs ! i) (js_int seen) =
        (if int i + 1 < seen then Inl (Rules_refused Rollback) else Inr (([1, 2] # map fst [([3], bytes_n 24)]) ! i))))"
    by (rule rules_come_back [OF sample_rules_correct sample_user(1) _ _ _ default_kdf _ _ _ _ f _ e])
      (simp_all add: rules_limits MAX_SAFE_INTEGER_def del: replicate.simps)
  then obtain env envs where "createRulesEnvelope sample_rules [112] [117] [1, 2] None (bytes_n 16) (bytes_n 32) (bytes_n 24) (bytes_n 24) = Inr (env, bytes_n 32)"
    "reseal_all sample_rules (bytes_n 32) [117] env [([3], bytes_n 24)] = Inr envs"
    "\<And>i seen. i \<le> 1 \<Longrightarrow> openRulesEnvelope sample_rules (bytes_n 32) [117] (envs ! i) (js_int seen) =
        (if int i + 1 < seen then Inl (Rules_refused Rollback) else Inr (([1, 2] # map fst [([3], bytes_n 24)]) ! i))"
    by auto
  moreover from this(3) [of 1 2] this(3) [of 0 2]
  have "openRulesEnvelope sample_rules (bytes_n 32) [117] (envs ! 1) (js_int 2) = Inr [3]"
    "openRulesEnvelope sample_rules (bytes_n 32) [117] (envs ! 0) (js_int 2) = Inl (Rules_refused Rollback)" by simp_all
  ultimately show ?thesis by blast
qed

theorem opened_rules_are_authentic_witness:
  "\<exists>env v. openRulesEnvelope sample_rules (bytes_n 32) [117] env (js_int 0) = Inr [5] \<and> js_prop env (js ''version'') = js_nat v \<and> v = 1"
proof -
  let ?rc = sample_rules and ?key = "bytes_n 32"
  have one: "int 1 \<le> MAX_SAFE_INTEGER" by (simp add: MAX_SAFE_INTEGER_def)
  have fits: "fits [117] [5]" and len: "length ?key = RULES_KEY_LENGTH" by (simp_all add: fits_def sample_user rules_limits)
  obtain ct k plain where ct: "sealRuleSet ?rc ?key [117] 1 [5] (bytes_n 24) = Inr (encodeBase64 (bytes_n 24), encodeBase64 ct)"
    "ruleSetKey ?rc ?key = Inr k" "rc_decrypt ?rc k (bytes_n 24) (enc_fields (rule_fields [117] 1)) ct = Some plain"
    "unframePlaintext plain [117] 1 = Inr [5]" "RULES_TAG_LENGTH + MIN_PLAINTEXT_BUCKET \<le> length ct" "length ct \<le> RULES_MAX_CIPHERTEXT_BYTES"
    using sealed_opens [OF sample_rules_correct sample_user(1) one len fits] by blast
  have wf: "well_formed16 [117]" using sample_user(1) by (simp add: plain_id_def)
  let ?H = "{([117], 1, [5], bytes_n 24, ct)}"
  let ?e = "rules_envelope DEFAULT_RULES_KDF (JStr (encodeBase64 (bytes_n 16))) (JStr (encodeBase64 (bytes_n 72))) (encodeBase64 (bytes_n 24))
    (encodeBase64 ct) 1"
  have writes: "x \<in> ?H \<Longrightarrow> writes ?rc ?key x" for x using ct(1) wf by (auto simp: writes_def simp del: replicate.simps)
  have p: "js_prop ?e (js ''version'') = js_nat 1" "js_prop ?e (js ''nonce'') = JStr (encodeBase64 (bytes_n 24))"
    "js_prop ?e (js ''ciphertext'') = JStr (encodeBase64 ct)" by (simp_all add: rules_envelope_def js_def)
  have unforged: "unforged_envelope ?rc ?key ?H [117] ?e"
    unfolding unforged_envelope_def p by (auto simp: js_nat_def js_int_def encodeBase64_inj simp del: replicate.simps)
  have f: "decodeField (JStr (encodeBase64 (bytes_n 16))) (Some RULES_SALT_LENGTH) = Inr (bytes_n 16)"
    "decodeField (JStr (encodeBase64 (bytes_n 72))) (Some RULES_WRAPPED_KEY_LENGTH) = Inr (bytes_n 72)"
    "decodeField (JStr (encodeBase64 (bytes_n 24))) (Some RULES_NONCE_LENGTH) = Inr (bytes_n 24)"
    "decodeField (JStr (encodeBase64 ct)) None = Inr ct"
    by (simp_all add: decodeField_iff rules_limits del: replicate.simps)
  have ver: "assertVersion (js_nat 1) = Inr 1" using one by (simp add: assertVersion_iff)
  have env: "assertRulesEnvelope ?e = Inr ()"
    using default_kdf ct(5,6) ver by (simp add: assertRulesEnvelope_def f del: replicate.simps)
  have opened: "openRulesEnvelope ?rc ?key [117] ?e (js_int 0) = Inr [5]"
    by (simp add: openRulesEnvelope_def assertUserId_def env ver f ct(2-4) ruleSetAad_ok [OF one] del: replicate.simps One_nat_def)
  obtain v n c where "js_prop ?e (js ''version'') = js_nat v" "([117], v, [5 :: byte], n, c) \<in> ?H"
    using opened_rules_are_authentic [OF sample_rules_correct writes unforged wf opened] by blast
  with opened show ?thesis by (intro exI conjI) auto
qed

end
