(* ===== verification/Operations.thy ===== *)
theory Operations
  imports Js_Value "HOL-Library.List_Lexorder"
begin

text \<open>
  \<^verbatim>\<open>intent.ts\<close> and \<^verbatim>\<open>store.ts\<close> of \<^verbatim>\<open>apps/api/src/services/operations\<close>: the outbox of operations that change something at a
  provider, and the leases on the resources they change. The two tables are a value; each transaction, and each statement outside
  of one, is a function of it and of the time \<^verbatim>\<open>now()\<close> returns, in milliseconds. What another transaction can show a claim is an argument: the rows
  it has locked, which \<^verbatim>\<open>SKIP LOCKED\<close> passes over, and the leases the subquery saw. An operation's id is its position in the
  table. Columns nothing here reads (owner, account, correlation, the times of creation and update) are left out.
\<close>

section \<open>Tables\<close>

datatype op_status = Queued | Running | Succeeded | Failed | Unknown | Manual_review

record operation =
  op_kind :: jsstring
  op_scope :: jsstring
  op_key :: jsstring
  op_intentHash :: jsstring
  op_resourceType :: jsstring
  op_resourceId :: jsstring
  op_payload :: jsval
  op_status :: op_status
  op_attempts :: nat
  op_maxAttempts :: nat
  op_resubmissions :: nat
  op_reconcileAttempts :: nat
  op_leaseOwner :: "jsstring option"
  op_leaseExpiresAt :: "int option"
  op_nextRunAt :: int
  op_submittedAt :: "int option"
  op_completedAt :: "int option"
  op_result :: "jsval option"
  op_errorCode :: "jsstring option"
  op_errorMessage :: "jsstring option"

datatype expiry = Expires int | Forever

record resource_lease =
  rl_operationId :: nat
  rl_expiresAt :: expiry

record operation_db =
  db_operations :: "operation list"
  db_leases :: "jsstring \<Rightarrow> resource_lease option"

definition lease_expired :: "expiry \<Rightarrow> int \<Rightarrow> bool" where
  "lease_expired e now = (case e of Expires t \<Rightarrow> t < now | Forever \<Rightarrow> False)"

definition upd_op :: "nat \<Rightarrow> (operation \<Rightarrow> operation) \<Rightarrow> operation_db \<Rightarrow> operation_db" where
  "upd_op i f d = d\<lparr>db_operations := (db_operations d)[i := f (db_operations d ! i)]\<rparr>"

definition resourceKey :: "operation \<Rightarrow> jsstring" where
  "resourceKey p = op_resourceType p @ js '':'' @ op_resourceId p"

section \<open>Intents\<close>

text \<open>\<^verbatim>\<open>Array.prototype.sort\<close> compares by code units, as the lexicographic order on lists of numbers does.\<close>

fun sortKeys :: "jsval \<Rightarrow> jsval" where
  "sortKeys (JArr xs) = JArr (map sortKeys xs)"
| "sortKeys (JObj ps) = JObj (sort_key fst (map (\<lambda>(k, v). (k, sortKeys v)) (filter (\<lambda>(k, v). v \<noteq> Undefined) ps)))"
| "sortKeys v = v"

text \<open>\<open>digest\<close> is the SHA-256 of \<^verbatim>\<open>JSON.stringify\<close>, in hex.\<close>

definition hashIntent :: "(jsval \<Rightarrow> jsstring) \<Rightarrow> jsval \<Rightarrow> jsstring" where
  "hashIntent digest intent = digest (sortKeys intent)"

record enqueue_input =
  ei_kind :: jsstring
  ei_scope :: jsstring
  ei_key :: jsstring
  ei_resourceType :: jsstring
  ei_resourceId :: jsstring
  ei_account :: jsval
  ei_payload :: jsval
  ei_maxAttempts :: "nat option"
  ei_runAt :: "int option"

definition intent_of :: "enqueue_input \<Rightarrow> jsval" where
  "intent_of x = JObj [(js ''kind'', JStr (ei_kind x)), (js ''resourceType'', JStr (ei_resourceType x)),
     (js ''resourceId'', JStr (ei_resourceId x)), (js ''providerAccountId'', ei_account x), (js ''payload'', ei_payload x)]"

definition new_operation :: "(jsval \<Rightarrow> jsstring) \<Rightarrow> int \<Rightarrow> enqueue_input \<Rightarrow> operation" where
  "new_operation digest now x =
     \<lparr>op_kind = ei_kind x, op_scope = ei_scope x, op_key = ei_key x, op_intentHash = hashIntent digest (intent_of x),
      op_resourceType = ei_resourceType x, op_resourceId = ei_resourceId x, op_payload = ei_payload x, op_status = Queued,
      op_attempts = 0, op_maxAttempts = nullish (ei_maxAttempts x) 5, op_resubmissions = 0, op_reconcileAttempts = 0,
      op_leaseOwner = None, op_leaseExpiresAt = None, op_nextRunAt = nullish (ei_runAt x) now, op_submittedAt = None,
      op_completedAt = None, op_result = None, op_errorCode = None, op_errorMessage = None\<rparr>"

text \<open>The row of the unique key, if there is one.\<close>

definition with_key :: "operation_db \<Rightarrow> jsstring \<Rightarrow> jsstring \<Rightarrow> nat option" where
  "with_key d sc key = find (\<lambda>i. op_scope (db_operations d ! i) = sc \<and> op_key (db_operations d ! i) = key) [0..<length (db_operations d)]"

datatype enqueue_error = IdempotencyConflictError

definition enqueueOperation :: "(jsval \<Rightarrow> jsstring) \<Rightarrow> int \<Rightarrow> enqueue_input \<Rightarrow> operation_db \<Rightarrow> enqueue_error + nat \<times> bool \<times> operation_db" where
  "enqueueOperation digest now x d =
     (case with_key d (ei_scope x) (ei_key x) of
        None \<Rightarrow> Inr (length (db_operations d), True, d\<lparr>db_operations := db_operations d @ [new_operation digest now x]\<rparr>)
      | Some i \<Rightarrow> if op_intentHash (db_operations d ! i) \<noteq> hashIntent digest (intent_of x) then Inl IdempotencyConflictError
                  else Inr (i, False, d))"

section \<open>Claiming\<close>

record claim_options =
  co_workerId :: jsstring
  co_leaseMs :: int
  co_kinds :: "jsstring list"
  co_scan :: "nat option"

definition leaseSeconds :: "int \<Rightarrow> int" where
  "leaseSeconds ms = max 1 ((ms + 999) div 1000)"

definition runnable :: "jsstring list \<Rightarrow> int \<Rightarrow> operation \<Rightarrow> bool" where
  "runnable kinds now p \<longleftrightarrow> op_kind p \<in> set kinds \<and>
     (op_status p \<in> {Queued, Unknown} \<and> op_nextRunAt p \<le> now \<or>
      op_status p = Running \<and> (case op_leaseExpiresAt p of None \<Rightarrow> False | Some t \<Rightarrow> t < now))"

definition held_by_other :: "(jsstring \<Rightarrow> resource_lease option) \<Rightarrow> int \<Rightarrow> nat \<Rightarrow> operation \<Rightarrow> bool" where
  "held_by_other leases now i p = (case leases (resourceKey p) of
     None \<Rightarrow> False
   | Some l \<Rightarrow> rl_operationId l \<noteq> i \<and> \<not> lease_expired (rl_expiresAt l) now)"

definition claim_candidates :: "claim_options \<Rightarrow> int \<Rightarrow> (nat \<Rightarrow> bool) \<Rightarrow> (jsstring \<Rightarrow> resource_lease option) \<Rightarrow> operation_db \<Rightarrow> nat list" where
  "claim_candidates opts now locked seen d =
     take (nullish (co_scan opts) 10) (sort_key (\<lambda>i. op_nextRunAt (db_operations d ! i))
       (filter (\<lambda>i. runnable (co_kinds opts) now (db_operations d ! i) \<and> \<not> held_by_other seen now i (db_operations d ! i) \<and> \<not> locked i)
         [0..<length (db_operations d)]))"

text \<open>The upsert of the lease: nothing when another operation holds a lease that has not expired.\<close>

definition take_lease :: "int \<Rightarrow> int \<Rightarrow> nat \<Rightarrow> operation_db \<Rightarrow> operation_db option" where
  "take_lease now until i d =
     (let key = resourceKey (db_operations d ! i); taken = d\<lparr>db_leases := (db_leases d)(key \<mapsto> \<lparr>rl_operationId = i, rl_expiresAt = Expires until\<rparr>)\<rparr> in
      case db_leases d key of
        None \<Rightarrow> Some taken
      | Some l \<Rightarrow> if lease_expired (rl_expiresAt l) now \<or> rl_operationId l = i then Some taken else None)"

definition claim_row :: "jsstring \<Rightarrow> int \<Rightarrow> operation \<Rightarrow> operation" where
  "claim_row w until p = p\<lparr>op_status := Running, op_leaseOwner := Some w, op_leaseExpiresAt := Some until,
     op_attempts := op_attempts p + (if op_submittedAt p = None then 1 else 0)\<rparr>"

fun claim_first :: "jsstring \<Rightarrow> int \<Rightarrow> int \<Rightarrow> nat list \<Rightarrow> operation_db \<Rightarrow> nat option \<times> operation_db" where
  "claim_first w now until [] d = (None, d)"
| "claim_first w now until (i # is) d =
     (case take_lease now until i d of
        None \<Rightarrow> claim_first w now until is d
      | Some d \<Rightarrow> (Some i, upd_op i (claim_row w until) d))"

definition claimNextOperation :: "claim_options \<Rightarrow> int \<Rightarrow> (nat \<Rightarrow> bool) \<Rightarrow> (jsstring \<Rightarrow> resource_lease option) \<Rightarrow> operation_db
    \<Rightarrow> nat option \<times> operation_db" where
  "claimNextOperation opts now locked seen d =
     (if co_kinds opts = [] then (None, d)
      else claim_first (co_workerId opts) now (now + 1000 * leaseSeconds (co_leaseMs opts)) (claim_candidates opts now locked seen d) d)"

section \<open>Submitting and finishing\<close>

text \<open>\<open>None\<close> is \<^verbatim>\<open>LeaseLostError\<close>.\<close>

definition markSubmitted :: "int \<Rightarrow> nat \<Rightarrow> jsstring \<Rightarrow> operation_db \<Rightarrow> operation_db option" where
  "markSubmitted now i w d =
     (if i < length (db_operations d) \<and> op_status (db_operations d ! i) = Running \<and> op_leaseOwner (db_operations d ! i) = Some w \<and>
         (case op_leaseExpiresAt (db_operations d ! i) of None \<Rightarrow> False | Some t \<Rightarrow> now < t)
      then Some (upd_op i (\<lambda>p. p\<lparr>op_submittedAt := Some (nullish (op_submittedAt p) now)\<rparr>) d)
      else None)"

record finish_update =
  fu_status :: op_status
  fu_result :: "jsval option"
  fu_errorCode :: "jsstring option"
  fu_errorMessage :: "jsstring option"
  fu_nextRunAt :: "int option"
  fu_clearSubmitted :: bool
  fu_incrementResubmissions :: bool
  fu_incrementReconcileAttempts :: bool

definition finish_to :: "op_status \<Rightarrow> finish_update" where
  "finish_to st = \<lparr>fu_status = st, fu_result = None, fu_errorCode = None, fu_errorMessage = None, fu_nextRunAt = None,
     fu_clearSubmitted = False, fu_incrementResubmissions = False, fu_incrementReconcileAttempts = False\<rparr>"

definition terminal_status :: "op_status \<Rightarrow> bool" where
  "terminal_status st \<longleftrightarrow> st \<in> {Succeeded, Failed, Manual_review}"

definition finish_row :: "int \<Rightarrow> finish_update \<Rightarrow> operation \<Rightarrow> operation" where
  "finish_row now u p = p\<lparr>op_status := fu_status u, op_leaseOwner := None, op_leaseExpiresAt := None,
     op_result := (case fu_result u of None \<Rightarrow> op_result p | Some v \<Rightarrow> Some v),
     op_errorCode := fu_errorCode u, op_errorMessage := fu_errorMessage u,
     op_nextRunAt := nullish (fu_nextRunAt u) (op_nextRunAt p),
     op_submittedAt := (if fu_clearSubmitted u then None else op_submittedAt p),
     op_resubmissions := op_resubmissions p + (if fu_incrementResubmissions u then 1 else 0),
     op_reconcileAttempts := op_reconcileAttempts p + (if fu_incrementReconcileAttempts u then 1 else 0),
     op_completedAt := (if terminal_status (fu_status u) then Some now else None)\<rparr>"

definition release_lease :: "nat \<Rightarrow> operation \<Rightarrow> (jsstring \<Rightarrow> resource_lease option) \<Rightarrow> jsstring \<Rightarrow> resource_lease option" where
  "release_lease i p leases =
     (let key = resourceKey p; inDoubt = (op_status p = Unknown \<or> op_status p = Manual_review \<and> op_submittedAt p \<noteq> None) in
      case leases key of
        None \<Rightarrow> leases
      | Some l \<Rightarrow> if rl_operationId l \<noteq> i then leases
                  else if inDoubt then leases(key \<mapsto> l\<lparr>rl_expiresAt := Forever\<rparr>)
                  else leases(key := None))"

definition finishOperation :: "int \<Rightarrow> nat \<Rightarrow> jsstring \<Rightarrow> finish_update \<Rightarrow> operation_db \<Rightarrow> bool \<times> operation_db" where
  "finishOperation now i w u d =
     (if i < length (db_operations d) \<and> op_status (db_operations d ! i) = Running \<and> op_leaseOwner (db_operations d ! i) = Some w
      then let d = upd_op i (finish_row now u) d in (True, d\<lparr>db_leases := release_lease i (db_operations d ! i) (db_leases d)\<rparr>)
      else (False, d))"

end
