(* ===== verification/Operation_Engine.thy ===== *)
theory Operation_Engine
  imports Operations
begin

text \<open>
  \<^verbatim>\<open>apps/api/src/services/operations/engine.ts\<close> and \<^verbatim>\<open>providers/errors.ts\<close>: what a worker does with an operation it claimed. A
  handler's \<^verbatim>\<open>execute\<close> and \<^verbatim>\<open>reconcile\<close> call third parties; what they report is an argument, and the two calls they make back,
  \<^verbatim>\<open>beforeSubmit\<close> and \<^verbatim>\<open>mutationReturned\<close>, are steps of their own. A state is the tables, the time, the run each loop of each
  worker has in progress, and what was logged, audited and given up. The history \<open>cs_history\<close> is for the statements only: nothing reads it.
\<close>

section \<open>Provider errors\<close>

datatype provider_code = Validation | Not_available | Unsupported | Credentials | Rate_limited | Insufficient_funds | Conflict
  | Not_found | Permanent | Provider_unavailable | Unknown_outcome

fun code_text :: "provider_code \<Rightarrow> jsstring" where
  "code_text Validation = js ''validation''"
| "code_text Not_available = js ''not_available''"
| "code_text Unsupported = js ''unsupported''"
| "code_text Credentials = js ''credentials''"
| "code_text Rate_limited = js ''rate_limited''"
| "code_text Insufficient_funds = js ''insufficient_funds''"
| "code_text Conflict = js ''conflict''"
| "code_text Not_found = js ''not_found''"
| "code_text Permanent = js ''permanent''"
| "code_text Provider_unavailable = js ''provider_unavailable''"
| "code_text Unknown_outcome = js ''unknown_outcome''"

record provider_error =
  pe_code :: provider_code
  pe_safeMessage :: jsstring
  pe_submitted :: bool
  pe_retryAfterMs :: "int option"

definition provesNothingApplied :: "provider_error \<Rightarrow> bool" where
  "provesNothingApplied e =
     (if pe_code e = Unknown_outcome then False
      else if \<not> pe_submitted e then True
      else pe_code e \<in> {Validation, Not_available, Unsupported, Credentials, Insufficient_funds, Rate_limited, Conflict, Permanent})"

definition RETRYABLE :: "provider_code set" where
  "RETRYABLE = {Rate_limited, Provider_unavailable}"

definition OPERATOR_PROBLEMS :: "provider_code set" where
  "OPERATOR_PROBLEMS = {Credentials, Insufficient_funds}"

datatype execute_error = Lease_lost | Provider_err provider_error | Other_err

datatype execute_outcome = Exec_succeeded "jsval option" | Exec_failed jsstring jsstring | Exec_review jsstring jsstring | Exec_unknown jsstring

datatype reconcile_outcome = Recon_succeeded "jsval option" | Recon_absent | Recon_undetermined jsstring | Recon_conflict jsstring

definition backoffMs :: "nat \<Rightarrow> int \<Rightarrow> int" where
  "backoffMs attempt baseMs = min 3600000 (baseMs * 2 ^ (attempt - 1))"

section \<open>Engine and state\<close>

record op_handler =
  oh_mutating :: bool
  oh_reconciles :: bool
  oh_givesUp :: bool

record engine =
  eng_handlers :: "(jsstring \<times> op_handler) list"
  eng_leaseMs :: int
  eng_settleMs :: int
  eng_maxReconcileAttempts :: nat

definition OperationEngine :: "(jsstring \<times> op_handler) list \<Rightarrow> int option \<Rightarrow> int option \<Rightarrow> nat option \<Rightarrow> engine result" where
  "OperationEngine handlers leaseMs settleMs maxReconcile =
     (if list_ex (\<lambda>(_, h). oh_mutating h \<and> \<not> oh_reconciles h) handlers then Inl PlainError
      else Inr \<lparr>eng_handlers = handlers, eng_leaseMs = nullish leaseMs 300000, eng_settleMs = nullish settleMs 300000,
        eng_maxReconcileAttempts = nullish maxReconcile 12\<rparr>)"

text \<open>The later of two handlers of one kind replaces the earlier, as in a \<^verbatim>\<open>Map\<close>.\<close>

definition handler_of :: "engine \<Rightarrow> jsstring \<Rightarrow> op_handler option" where
  "handler_of eng kind = map_of (rev (eng_handlers eng)) kind"

datatype op_log = Transition nat op_status | Lost nat | Resubmit nat | Audit nat op_status | Gave_up nat op_status jsstring | Error_in nat

text \<open>
  What happened to an operation: a request was about to be sent by a run, a reconciliation found no effect so long after submission, a
  run was refused by the provider.
\<close>

datatype op_note = Authorised nat | Absent_after int | Refused nat

record op_run =
  or_id :: nat
  or_op :: operation
  or_handler :: op_handler
  or_submitted :: bool
  or_returned :: bool
  or_reconciling :: bool
  or_number :: nat

record commerce =
  cs_db :: operation_db
  cs_now :: int
  cs_runs :: "nat \<Rightarrow> op_run option"
  cs_count :: nat
  cs_log :: "op_log list"
  cs_history :: "(nat \<times> op_note) list"

definition logged :: "op_log list \<Rightarrow> commerce \<Rightarrow> commerce" where
  "logged ls s = s\<lparr>cs_log := cs_log s @ ls\<rparr>"

definition row :: "commerce \<Rightarrow> nat \<Rightarrow> operation" where
  "row s i = db_operations (cs_db s) ! i"

section \<open>Transitions\<close>

definition op_finish :: "jsstring \<Rightarrow> nat \<Rightarrow> finish_update \<Rightarrow> commerce \<Rightarrow> bool \<times> commerce" where
  "op_finish w i u s =
     (let (finished, d) = finishOperation (cs_now s) i w u (cs_db s); s = s\<lparr>cs_db := d\<rparr> in
      (finished, logged ((if finished \<and> fu_status u \<noteq> Queued then [Audit i (fu_status u)] else []) @
                         [if finished then Transition i (fu_status u) else Lost i]) s))"

definition giveUp :: "jsstring \<Rightarrow> nat \<Rightarrow> op_handler \<Rightarrow> op_status \<Rightarrow> jsstring \<Rightarrow> jsstring \<Rightarrow> commerce \<Rightarrow> bool \<times> commerce" where
  "giveUp w i h st code message s =
     (let (finished, s) = op_finish w i ((finish_to st)\<lparr>fu_errorCode := Some code, fu_errorMessage := Some message\<rparr>) s in
      (finished, if finished \<and> oh_givesUp h then logged [Gave_up i st code] s else s))"

definition toUnknown :: "jsstring \<Rightarrow> nat \<Rightarrow> jsstring \<Rightarrow> jsstring \<Rightarrow> commerce \<Rightarrow> bool \<times> commerce" where
  "toUnknown w i code message s =
     op_finish w i ((finish_to Unknown)
       \<lparr>fu_errorCode := Some (if code = js ''unknown_outcome'' then code else js ''unknown_outcome:'' @ code),
        fu_errorMessage := Some message, fu_nextRunAt := Some (cs_now s + 60000)\<rparr>) s"

definition retryOrGiveUp :: "jsstring \<Rightarrow> nat \<Rightarrow> operation \<Rightarrow> op_handler \<Rightarrow> jsstring \<Rightarrow> jsstring \<Rightarrow> int option \<Rightarrow> commerce \<Rightarrow> bool \<times> commerce" where
  "retryOrGiveUp w i p h code message retryAfter s =
     (if op_attempts p \<ge> op_maxAttempts p
      then giveUp w i h (if oh_mutating h then Manual_review else Failed) code message s
      else op_finish w i ((finish_to Queued)\<lparr>fu_errorCode := Some code, fu_errorMessage := Some message, fu_clearSubmitted := True,
        fu_nextRunAt := Some (cs_now s + max (nullish retryAfter 0) (backoffMs (op_attempts p) 30000))\<rparr>) s)"

definition applyExecuteOutcome :: "jsstring \<Rightarrow> op_run \<Rightarrow> execute_outcome \<Rightarrow> commerce \<Rightarrow> bool \<times> commerce" where
  "applyExecuteOutcome w r oc s =
     (let i = or_id r; h = or_handler r in
      case oc of
        Exec_succeeded result \<Rightarrow> op_finish w i ((finish_to Succeeded)\<lparr>fu_result := Some (nullish result (JObj []))\<rparr>) s
      | Exec_unknown message \<Rightarrow> toUnknown w i (js ''unknown_outcome'') message s
      | Exec_failed code message \<Rightarrow>
          if oh_mutating h \<and> or_submitted r then toUnknown w i code message s
          else giveUp w i h Failed code message s
      | Exec_review code message \<Rightarrow> giveUp w i h Manual_review code message s)"

definition applyExecuteError :: "jsstring \<Rightarrow> op_run \<Rightarrow> execute_error \<Rightarrow> commerce \<Rightarrow> bool \<times> commerce" where
  "applyExecuteError w r err s =
     (let i = or_id r; h = or_handler r; p = or_op r in
      case err of
        Lease_lost \<Rightarrow> (False, logged [Lost i] s)
      | Other_err \<Rightarrow>
          let s = logged [Error_in i] s in
          if oh_mutating h \<and> or_submitted r then toUnknown w i (js ''internal'') (js ''The result is being checked.'') s
          else retryOrGiveUp w i p h (js ''internal'') (js ''An internal error occurred.'') None s
      | Provider_err e \<Rightarrow>
          if oh_mutating h \<and> or_submitted r \<and> (or_returned r \<or> \<not> pe_submitted e \<or> \<not> provesNothingApplied e)
          then toUnknown w i (code_text (pe_code e)) (pe_safeMessage e) s
          else if pe_code e \<in> RETRYABLE
          then retryOrGiveUp w i p h (code_text (pe_code e)) (pe_safeMessage e) (pe_retryAfterMs e) s
          else giveUp w i h (if pe_code e \<in> OPERATOR_PROBLEMS then Manual_review else Failed) (code_text (pe_code e)) (pe_safeMessage e) s)"

text \<open>An exception of \<^verbatim>\<open>reconcile\<close> is \<open>Recon_undetermined\<close>, as the code makes it.\<close>

definition settled :: "engine \<Rightarrow> operation \<Rightarrow> int \<Rightarrow> bool" where
  "settled eng p now \<longleftrightarrow> now - nullish (op_submittedAt p) now \<ge> eng_settleMs eng"

definition op_reconcile :: "engine \<Rightarrow> jsstring \<Rightarrow> op_run \<Rightarrow> reconcile_outcome \<Rightarrow> commerce \<Rightarrow> bool \<times> commerce" where
  "op_reconcile eng w r oc s =
     (let i = or_id r; h = or_handler r; p = or_op r in
      if (case oc of Recon_succeeded _ \<Rightarrow> True | _ \<Rightarrow> False)
      then op_finish w i ((finish_to Succeeded)
        \<lparr>fu_result := Some (case oc of Recon_succeeded (Some v) \<Rightarrow> v | _ \<Rightarrow> JObj [])\<rparr>) s
      else if (case oc of Recon_conflict _ \<Rightarrow> True | _ \<Rightarrow> False)
      then giveUp w i h Manual_review (js ''conflict'') (case oc of Recon_conflict m \<Rightarrow> m | _ \<Rightarrow> []) s
      else if oc = Recon_absent \<and> settled eng p (cs_now s)
      then (if op_resubmissions p \<ge> 1
            then giveUp w i h Manual_review (js ''absent_after_resubmission'') (js ''The provider shows no effect after a second attempt.'') s
            else op_finish w i ((finish_to Queued)\<lparr>fu_clearSubmitted := True, fu_incrementResubmissions := True,
              fu_nextRunAt := Some (cs_now s)\<rparr>) (logged [Resubmit i] s))
      else if op_reconcileAttempts p + 1 \<ge> eng_maxReconcileAttempts eng
      then giveUp w i h Manual_review (js ''unreconciled'') (js ''The result could not be confirmed and needs review.'') s
      else op_finish w i ((finish_to Unknown)\<lparr>fu_errorCode := Some (js ''unknown_outcome''),
        fu_errorMessage := Some (case oc of Recon_undetermined m \<Rightarrow> m | _ \<Rightarrow> js ''Waiting for the provider to settle.''),
        fu_incrementReconcileAttempts := True, fu_nextRunAt := Some (cs_now s + backoffMs (op_reconcileAttempts p + 1) 60000)\<rparr>) s)"

text \<open>The part of \<^verbatim>\<open>run\<close> before the handler: \<open>ctx\<close> and the choice between executing and reconciling.\<close>

definition op_run_start :: "engine \<Rightarrow> jsstring \<Rightarrow> nat \<Rightarrow> nat \<Rightarrow> commerce \<Rightarrow> commerce" where
  "op_run_start eng w slot i s =
     (let p = row s i in
      case handler_of eng (op_kind p) of
        None \<Rightarrow> snd (op_finish w i ((finish_to Manual_review)\<lparr>fu_errorCode := Some (js ''no_handler''),
          fu_errorMessage := Some (js ''No handler for this operation.'')\<rparr>) s)
      | Some h \<Rightarrow> s\<lparr>cs_runs := (cs_runs s)(slot \<mapsto> \<lparr>or_id = i, or_op = p, or_handler = h, or_submitted = (op_submittedAt p \<noteq> None),
          or_returned = False, or_reconciling = (oh_mutating h \<and> op_submittedAt p \<noteq> None), or_number = cs_count s\<rparr>),
          cs_count := cs_count s + 1\<rparr>)"

definition engine_kinds :: "engine \<Rightarrow> jsstring list" where
  "engine_kinds eng = map fst (eng_handlers eng)"

definition runOnce :: "engine \<Rightarrow> jsstring \<Rightarrow> nat \<Rightarrow> (nat \<Rightarrow> bool) \<Rightarrow> (jsstring \<Rightarrow> resource_lease option) \<Rightarrow> commerce \<Rightarrow> bool \<times> commerce" where
  "runOnce eng w slot locked seen s =
     (case claimNextOperation \<lparr>co_workerId = w, co_leaseMs = eng_leaseMs eng, co_kinds = engine_kinds eng, co_scan = None\<rparr>
             (cs_now s) locked seen (cs_db s) of
        (None, d) \<Rightarrow> (False, s\<lparr>cs_db := d\<rparr>)
      | (Some i, d) \<Rightarrow> (True, op_run_start eng w slot i (s\<lparr>cs_db := d\<rparr>)))"

definition op_beforeSubmit :: "jsstring \<Rightarrow> nat \<Rightarrow> op_run \<Rightarrow> commerce \<Rightarrow> commerce option" where
  "op_beforeSubmit w slot r s =
     (case markSubmitted (cs_now s) (or_id r) w (cs_db s) of
        None \<Rightarrow> None
      | Some d \<Rightarrow> Some (s\<lparr>cs_db := d, cs_runs := (cs_runs s)(slot \<mapsto> r\<lparr>or_submitted := True\<rparr>)\<rparr>))"

definition ended :: "nat \<Rightarrow> commerce \<Rightarrow> commerce" where
  "ended slot s = s\<lparr>cs_runs := (cs_runs s)(slot := None)\<rparr>"

definition noted :: "nat \<Rightarrow> op_note list \<Rightarrow> commerce \<Rightarrow> commerce" where
  "noted i ns s = s\<lparr>cs_history := cs_history s @ map (Pair i) ns\<rparr>"

text \<open>Whether a finished run left its operation queued with the mark of its submission taken back.\<close>

definition taken_back :: "bool \<Rightarrow> nat \<Rightarrow> commerce \<Rightarrow> bool" where
  "taken_back finished i s \<longleftrightarrow> finished \<and> op_status (row s i) = Queued \<and> op_submittedAt (row s i) = None"

text \<open>The provider answered the request of the run, and its answer was a refusal.\<close>

definition refused_by :: "execute_error \<Rightarrow> op_run \<Rightarrow> bool" where
  "refused_by err r \<longleftrightarrow> \<not> or_returned r \<and> (case err of
     Provider_err e \<Rightarrow> pe_submitted e \<and> pe_code e \<notin> {Unknown_outcome, Not_found, Provider_unavailable}
   | _ \<Rightarrow> False)"

section \<open>Steps\<close>

text \<open>
  Any number of loops, of any number of workers; \<open>wid\<close> gives the id each loop claims under. A loop that is running nothing may claim.
  A run in progress may be about to submit, or learn that its mutation returned, or come to its end; or it is dropped, when its process dies or a
  query throws. A \<^verbatim>\<open>beforeSubmit\<close> may also be committed and not seen to be, when the connection breaks; it then throws. Adapters send a mutating request only after a \<^verbatim>\<open>beforeSubmit\<close> of their own that returned.
\<close>

inductive op_step :: "engine \<Rightarrow> (jsval \<Rightarrow> jsstring) \<Rightarrow> (nat \<Rightarrow> jsstring) \<Rightarrow> commerce \<Rightarrow> commerce \<Rightarrow> bool" for eng digest wid where
  passes: "0 \<le> d \<Longrightarrow> op_step eng digest wid s (s\<lparr>cs_now := cs_now s + d\<rparr>)"
| enqueues: "enqueueOperation digest (cs_now s) x (cs_db s) = Inr (i, created, d) \<Longrightarrow> op_step eng digest wid s (s\<lparr>cs_db := d\<rparr>)"
| claims: "cs_runs s slot = None \<Longrightarrow> op_step eng digest wid s (snd (runOnce eng (wid slot) slot locked seen s))"
| submits: "cs_runs s slot = Some r \<Longrightarrow> \<not> or_reconciling r \<Longrightarrow> op_beforeSubmit (wid slot) slot r s = Some s' \<Longrightarrow>
    op_step eng digest wid s (noted (or_id r) [Authorised (or_number r)] s')"
| mark_unseen: "cs_runs s slot = Some r \<Longrightarrow> \<not> or_reconciling r \<Longrightarrow> markSubmitted (cs_now s) (or_id r) (wid slot) (cs_db s) = Some d \<Longrightarrow>
    op_step eng digest wid s (s\<lparr>cs_db := d\<rparr>)"
| returns: "cs_runs s slot = Some r \<Longrightarrow> \<not> or_reconciling r \<Longrightarrow>
    op_step eng digest wid s (s\<lparr>cs_runs := (cs_runs s)(slot \<mapsto> r\<lparr>or_returned := True\<rparr>)\<rparr>)"
| executes: "cs_runs s slot = Some r \<Longrightarrow> \<not> or_reconciling r \<Longrightarrow> applyExecuteOutcome (wid slot) r oc s = (f, s') \<Longrightarrow>
    op_step eng digest wid s (ended slot s')"
| throws: "cs_runs s slot = Some r \<Longrightarrow> \<not> or_reconciling r \<Longrightarrow> applyExecuteError (wid slot) r err s = (f, s') \<Longrightarrow>
    op_step eng digest wid s (ended slot (noted (or_id r) (if taken_back f (or_id r) s' \<and> or_submitted r \<and> refused_by err r then [Refused (or_number r)] else []) s'))"
| reconciles: "cs_runs s slot = Some r \<Longrightarrow> or_reconciling r \<Longrightarrow> op_reconcile eng (wid slot) r oc s = (f, s') \<Longrightarrow>
    op_step eng digest wid s (ended slot (noted (or_id r)
      (if taken_back f (or_id r) s' \<and> oc = Recon_absent then [Absent_after (cs_now s - nullish (op_submittedAt (or_op r)) (cs_now s))] else []) s'))"
| drops: "cs_runs s slot = Some r \<Longrightarrow> op_step eng digest wid s (ended slot s)"

inductive_cases op_step_cases: "op_step eng digest wid s s'"

definition commerce_init :: "int \<Rightarrow> commerce" where
  "commerce_init now = \<lparr>cs_db = \<lparr>db_operations = [], db_leases = Map.empty\<rparr>, cs_now = now, cs_runs = Map.empty, cs_count = 0, cs_log = [],
     cs_history = []\<rparr>"

inductive op_reach :: "engine \<Rightarrow> (jsval \<Rightarrow> jsstring) \<Rightarrow> (nat \<Rightarrow> jsstring) \<Rightarrow> commerce \<Rightarrow> bool" for eng digest wid where
  start: "op_reach eng digest wid (commerce_init now)"
| step: "op_reach eng digest wid s \<Longrightarrow> op_step eng digest wid s s' \<Longrightarrow> op_reach eng digest wid s'"

definition history_of :: "commerce \<Rightarrow> nat \<Rightarrow> op_note list" where
  "history_of s i = map snd (filter (\<lambda>(j, _). j = i) (cs_history s))"

end
