(* ===== verification/Operation_Safety.thy ===== *)
theory Operation_Safety
  imports Operation_Engine
begin

text \<open>
  What the outbox guarantees whatever the workers, their crashes and the providers do, given that no two loops claim under one id: a
  mutating operation is not submitted by a second run before the first is known to have done nothing; and what happens
  when two loops do share an id, as the loops of one worker process do.
\<close>

section \<open>Notes\<close>

definition note_step :: "nat option \<times> bool \<Rightarrow> op_note \<Rightarrow> nat option \<times> bool" where
  "note_step c n = (case n of
     Authorised r \<Rightarrow> (Some r, snd c \<and> (fst c = None \<or> fst c = Some r))
   | _ \<Rightarrow> (None, snd c))"

definition notes_run :: "op_note list \<Rightarrow> nat option \<times> bool" where
  "notes_run ns = foldl note_step (None, True) ns"

text \<open>The run whose submission is in doubt, and whether no other run submitted while one was.\<close>

abbreviation in_doubt :: "op_note list \<Rightarrow> nat option" where
  "in_doubt ns \<equiv> fst (notes_run ns)"

abbreviation separated :: "op_note list \<Rightarrow> bool" where
  "separated ns \<equiv> snd (notes_run ns)"

fun is_auth :: "op_note \<Rightarrow> bool" where
  "is_auth (Authorised r) = True"
| "is_auth n = False"

fun is_absent :: "op_note \<Rightarrow> bool" where
  "is_absent (Absent_after t) = True"
| "is_absent n = False"

fun is_refused :: "op_note \<Rightarrow> bool" where
  "is_refused (Refused r) = True"
| "is_refused n = False"

abbreviation absents :: "op_note list \<Rightarrow> nat" where
  "absents ns \<equiv> length (filter is_absent ns)"

abbreviation refusals :: "op_note list \<Rightarrow> nat" where
  "refusals ns \<equiv> length (filter is_refused ns)"

lemma notes_run_simps [simp]:
  "notes_run [] = (None, True)"
  "notes_run (ns @ [Authorised r]) = (Some r, separated ns \<and> (in_doubt ns = None \<or> in_doubt ns = Some r))"
  "notes_run (ns @ [Absent_after t]) = (None, separated ns)"
  "notes_run (ns @ [Refused r]) = (None, separated ns)"
  by (simp_all add: notes_run_def note_step_def)

lemma note_step_ok: "snd (foldl note_step c ns) \<Longrightarrow> snd c"
proof (induction ns arbitrary: c)
  case (Cons n ns)
  then have "snd (note_step c n)" by simp
  then show ?case by (simp add: note_step_def split: op_note.splits)
qed simp

lemma doubt_kept:
  "snd (foldl note_step c (ys @ [Authorised r2])) \<Longrightarrow> fst c = Some r1 \<Longrightarrow> list_all is_auth ys \<Longrightarrow> r2 = r1"
proof (induction ys arbitrary: c)
  case Nil
  then show ?case by (simp add: note_step_def)
next
  case (Cons y ys)
  then obtain r where y: "y = Authorised r" by (cases y) auto
  have "snd (note_step c y)" using Cons.prems(1) note_step_ok [of "note_step c y" "ys @ [Authorised r2]"] by simp
  then have "fst (note_step c y) = Some r1" using y Cons.prems(2) by (simp add: note_step_def)
  then show ?case using Cons.IH [of "note_step c y"] Cons.prems by simp
qed

lemma separated_between:
  assumes "separated (xs @ Authorised r1 # ys @ Authorised r2 # zs)" and "r1 \<noteq> r2"
  shows "list_ex (\<lambda>n. is_absent n \<or> is_refused n) ys"
proof (rule ccontr)
  assume "\<not> ?thesis"
  then have "list_all is_auth ys" unfolding list_ex_iff list_all_iff by (metis is_absent.simps(1) is_auth.elims(3) is_refused.simps(1))
  moreover have "snd (foldl note_step (foldl note_step (None, True) (xs @ [Authorised r1])) (ys @ [Authorised r2]))"
    using assms(1) note_step_ok [of "foldl note_step (None, True) (xs @ [Authorised r1] @ ys @ [Authorised r2])" zs]
    by (simp add: notes_run_def)
  ultimately have "r2 = r1" by (rule doubt_kept [rotated 2]) (simp add: note_step_def)
  with assms(2) show False by simp
qed

lemma submitting_runs:
  assumes "separated ns"
  shows "card {r. Authorised r \<in> set ns} \<le> (if in_doubt ns = None then 0 else 1) + absents ns + refusals ns"
  using assms
proof (induction ns rule: rev_induct)
  case (snoc n ns)
  let ?R = "\<lambda>ns. {r. Authorised r \<in> set ns}"
  have fin: "finite (?R ns)" by (rule finite_subset [of _ "(\<lambda>n. case n of Authorised r \<Rightarrow> r | _ \<Rightarrow> 0) ` set ns"]) force+
  show ?case
  proof (cases n)
    case (Authorised r)
    have eq: "?R (ns @ [n]) = insert r (?R ns)" using Authorised by auto
    have mem: "r \<in> ?R ns" if "in_doubt ns = Some r"
      using that by (cases ns rule: rev_cases) (auto simp: notes_run_def note_step_def split: op_note.splits)
    show ?thesis using snoc Authorised mem fin unfolding eq by (auto simp: card_insert_if)
  next
    case (Absent_after t)
    then have "?R (ns @ [n]) = ?R ns" by auto
    then show ?thesis using snoc Absent_after by (auto split: if_splits)
  next
    case (Refused r)
    then have "?R (ns @ [n]) = ?R ns" by auto
    then show ?thesis using snoc Refused by (auto split: if_splits)
  qed
qed simp

section \<open>What a run does to the tables when it ends\<close>

definition ends_by :: "jsstring \<Rightarrow> nat \<Rightarrow> (finish_update \<Rightarrow> bool) \<Rightarrow> commerce \<Rightarrow> bool \<Rightarrow> commerce \<Rightarrow> bool" where
  "ends_by w i P s f s' \<longleftrightarrow> cs_now s' = cs_now s \<and> cs_runs s' = cs_runs s \<and> cs_count s' = cs_count s \<and> cs_history s' = cs_history s \<and>
     (if f then \<exists>u. P u \<and> finishOperation (cs_now s) i w u (cs_db s) = (True, cs_db s') else cs_db s' = cs_db s)"

lemma logged_simps [simp]:
  "cs_db (logged ls s) = cs_db s" "cs_now (logged ls s) = cs_now s" "cs_runs (logged ls s) = cs_runs s"
  "cs_count (logged ls s) = cs_count s" "cs_history (logged ls s) = cs_history s"
  by (simp_all add: logged_def)

lemma finish_False: "finishOperation now i w u d = (False, d') \<Longrightarrow> d' = d"
  by (auto simp: finishOperation_def Let_def split: if_splits)

lemma op_finish_ends: "op_finish w i u s = (f, s') \<Longrightarrow> ends_by w i ((=) u) s f s'"
  by (auto simp: op_finish_def ends_by_def Let_def dest: finish_False split: prod.splits)

lemma giveUp_ends:
  "giveUp w i h st code m s = (f, s') \<Longrightarrow> ends_by w i ((=) ((finish_to st)\<lparr>fu_errorCode := Some code, fu_errorMessage := Some m\<rparr>)) s f s'"
  by (auto simp: giveUp_def Let_def ends_by_def dest!: op_finish_ends split: prod.splits if_splits)

lemma ends_by_logged [simp]: "ends_by w i P (logged ls s) f s' \<longleftrightarrow> ends_by w i P s f s'"
  by (cases f) (simp_all add: ends_by_def)

lemma ends_by_mono: "ends_by w i P s f s' \<Longrightarrow> (\<And>u. P u \<Longrightarrow> Q u) \<Longrightarrow> ends_by w i Q s f s'"
  by (auto simp: ends_by_def split: if_splits)

lemmas ends = op_finish_ends giveUp_ends

definition leaves :: "finish_update \<Rightarrow> bool" where
  "leaves u \<longleftrightarrow> fu_status u \<notin> {Running, Queued} \<and> \<not> fu_clearSubmitted u \<and> \<not> fu_incrementResubmissions u"

lemma outcome_ends:
  assumes "applyExecuteOutcome w r oc s = (f, s')"
  shows "ends_by w (or_id r) leaves s f s'"
  using assms
  by (cases oc)
    (auto simp: applyExecuteOutcome_def Let_def toUnknown_def leaves_def finish_to_def dest!: ends elim!: ends_by_mono split: if_splits)

text \<open>A run that threw is queued again only with attempts left, and after a submission only when the provider refused it.\<close>

definition requeues :: "op_run \<Rightarrow> finish_update \<Rightarrow> bool" where
  "requeues r u \<longleftrightarrow> fu_status u = Queued \<and> fu_clearSubmitted u \<and> \<not> fu_incrementResubmissions u \<and>
     op_attempts (or_op r) < op_maxAttempts (or_op r)"

definition requeues_after :: "execute_error \<Rightarrow> op_run \<Rightarrow> finish_update \<Rightarrow> bool" where
  "requeues_after err r u \<longleftrightarrow> requeues r u \<and> (oh_mutating (or_handler r) \<and> or_submitted r \<longrightarrow> refused_by err r)"

lemma retry_ends:
  assumes "retryOrGiveUp w (or_id r) (or_op r) h code m ra s = (f, s')"
  shows "ends_by w (or_id r) (\<lambda>u. leaves u \<or> requeues r u) s f s'"
  using assms by (auto simp: retryOrGiveUp_def leaves_def requeues_def finish_to_def dest!: ends elim!: ends_by_mono split: if_splits)

lemma error_ends:
  assumes "applyExecuteError w r err s = (f, s')"
  shows "ends_by w (or_id r) (\<lambda>u. leaves u \<or> requeues_after err r u) s f s'"
proof (cases err)
  case Lease_lost
  then show ?thesis using assms by (auto simp: applyExecuteError_def ends_by_def)
next
  case (Provider_err e)
  show ?thesis
  proof (cases "oh_mutating (or_handler r) \<and> or_submitted r \<longrightarrow> refused_by err r")
    case True
    with Provider_err assms show ?thesis
      by (auto simp: applyExecuteError_def Let_def toUnknown_def leaves_def finish_to_def requeues_after_def
          dest!: ends retry_ends elim!: ends_by_mono split: if_splits)
  next
    case False
    with Provider_err assms show ?thesis
      by (auto simp: applyExecuteError_def Let_def toUnknown_def leaves_def finish_to_def refused_by_def provesNothingApplied_def RETRYABLE_def
          dest!: ends elim!: ends_by_mono split: if_splits)
  qed
next
  case Other_err
  then show ?thesis using assms
    by (auto simp: applyExecuteError_def Let_def toUnknown_def leaves_def finish_to_def requeues_after_def
        dest!: ends retry_ends elim!: ends_by_mono split: if_splits)
qed

definition resubmits :: "engine \<Rightarrow> reconcile_outcome \<Rightarrow> op_run \<Rightarrow> int \<Rightarrow> finish_update \<Rightarrow> bool" where
  "resubmits eng oc r now u \<longleftrightarrow> oc = Recon_absent \<and> fu_status u = Queued \<and> fu_clearSubmitted u \<and> fu_incrementResubmissions u \<and> op_resubmissions (or_op r) = 0 \<and>
     settled eng (or_op r) now"

lemma reconcile_ends:
  assumes "op_reconcile eng w r oc s = (f, s')"
  shows "ends_by w (or_id r) (\<lambda>u. leaves u \<or> resubmits eng oc r (cs_now s) u) s f s'"
  using assms
  by (auto simp: op_reconcile_def Let_def leaves_def resubmits_def finish_to_def split: if_splits
      dest!: ends elim!: ends_by_mono)

section \<open>The invariant\<close>

definition mutating :: "engine \<Rightarrow> operation \<Rightarrow> bool" where
  "mutating eng p \<longleftrightarrow> (case handler_of eng (op_kind p) of None \<Rightarrow> False | Some h \<Rightarrow> oh_mutating h)"

definition holds :: "(nat \<Rightarrow> jsstring) \<Rightarrow> commerce \<Rightarrow> nat \<Rightarrow> nat \<Rightarrow> bool" where
  "holds wid s k i \<longleftrightarrow> op_status (row s i) = Running \<and> op_leaseOwner (row s i) = Some (wid k)"

definition row_ok :: "engine \<Rightarrow> operation \<Rightarrow> op_note list \<Rightarrow> bool" where
  "row_ok eng p ns \<longleftrightarrow> separated ns \<and> (in_doubt ns \<noteq> None \<longrightarrow> op_submittedAt p \<noteq> None) \<and>
     absents ns = op_resubmissions p \<and> op_resubmissions p \<le> 1 \<and>
     refusals ns \<le> op_attempts p \<and> (refusals ns = 0 \<or> refusals ns < op_maxAttempts p) \<and>
     (\<forall>t. Absent_after t \<in> set ns \<longrightarrow> eng_settleMs eng \<le> t)"

text \<open>What a run that still holds its operation knows of it.\<close>

definition run_ok :: "operation \<Rightarrow> op_note list \<Rightarrow> op_run \<Rightarrow> bool" where
  "run_ok p ns r \<longleftrightarrow> op_resubmissions p = op_resubmissions (or_op r) \<and> op_maxAttempts p = op_maxAttempts (or_op r) \<and>
     (\<not> or_reconciling r \<longrightarrow> op_attempts p = op_attempts (or_op r) \<and> refusals ns < op_attempts p \<and>
       in_doubt ns \<in> {None, Some (or_number r)} \<and> (\<not> or_submitted r \<longrightarrow> in_doubt ns = None))"

definition runs_ok :: "engine \<Rightarrow> (nat \<Rightarrow> jsstring) \<Rightarrow> commerce \<Rightarrow> nat \<Rightarrow> op_run \<Rightarrow> bool" where
  "runs_ok eng wid s k r \<longleftrightarrow> or_id r < length (db_operations (cs_db s)) \<and> handler_of eng (op_kind (row s (or_id r))) = Some (or_handler r) \<and>
     (holds wid s k (or_id r) \<longrightarrow> oh_mutating (or_handler r) \<longrightarrow> run_ok (row s (or_id r)) (history_of s (or_id r)) r)"

definition op_inv :: "engine \<Rightarrow> (nat \<Rightarrow> jsstring) \<Rightarrow> commerce \<Rightarrow> bool" where
  "op_inv eng wid s \<longleftrightarrow>
     (\<forall>i < length (db_operations (cs_db s)). mutating eng (row s i) \<longrightarrow> row_ok eng (row s i) (history_of s i)) \<and>
     (\<forall>(i, n) \<in> set (cs_history s). i < length (db_operations (cs_db s))) \<and>
     (\<forall>k r. cs_runs s k = Some r \<longrightarrow> runs_ok eng wid s k r)"

lemma history_of_noted [simp]: "history_of (noted i ns s) j = (if j = i then history_of s i @ ns else history_of s j)"
  by (induction ns) (auto simp: history_of_def noted_def filter_map comp_def)

lemma noted_simps [simp]:
  "cs_db (noted i ns s) = cs_db s" "cs_runs (noted i ns s) = cs_runs s" "row (noted i ns s) j = row s j"
  "cs_history (noted i ns s) = cs_history s @ map (Pair i) ns" "cs_now (noted i ns s) = cs_now s"
  by (simp_all add: noted_def row_def)

lemma ended_simps [simp]:
  "cs_db (ended k s) = cs_db s" "cs_runs (ended k s) = (cs_runs s)(k := None)" "row (ended k s) j = row s j"
  "cs_history (ended k s) = cs_history s" "history_of (ended k s) j = history_of s j" "cs_now (ended k s) = cs_now s"
  by (simp_all add: ended_def row_def history_of_def)

text \<open>A step that changes one row keeps the invariant when it keeps it for that row and the runs on it.\<close>

lemma op_inv_row:
  assumes "op_inv eng wid s" and "i < length (db_operations (cs_db s))"
    and "db_operations (cs_db s') = (db_operations (cs_db s))[i := p]" and "op_kind p = op_kind (row s i)"
    and "cs_history s' = cs_history s @ map (Pair i) ns"
    and "mutating eng (row s i) \<Longrightarrow> row_ok eng (row s i) (history_of s i) \<Longrightarrow> row_ok eng p (history_of s i @ ns)"
    and "\<And>k r. cs_runs s' k = Some r \<Longrightarrow> or_id r \<noteq> i \<Longrightarrow> cs_runs s k = Some r"
    and "\<And>k r. cs_runs s' k = Some r \<Longrightarrow> or_id r = i \<Longrightarrow> handler_of eng (op_kind p) = Some (or_handler r) \<and>
      (op_status p = Running \<longrightarrow> op_leaseOwner p = Some (wid k) \<longrightarrow> oh_mutating (or_handler r) \<longrightarrow> run_ok p (history_of s i @ ns) r)"
  shows "op_inv eng wid s'"
proof -
  have rows: "row s' j = (if j = i then p else row s j)" for j
    using assms(2,3) by (simp add: row_def)
  have hist: "history_of s' j = (if j = i then history_of s i @ ns else history_of s j)" for j
    using assms(5) history_of_noted [of i ns s j] by (simp add: history_of_def noted_def)
  have len: "length (db_operations (cs_db s')) = length (db_operations (cs_db s))" using assms(3) by simp
  have "runs_ok eng wid s' k r" if "cs_runs s' k = Some r" for k r
  proof (cases "or_id r = i")
    case True
    then show ?thesis using assms(2) assms(8) [OF that True] by (simp add: runs_ok_def rows hist len holds_def)
  next
    case False
    then have "runs_ok eng wid s k r" using assms(1) assms(7) [OF that False] by (simp add: op_inv_def)
    with False show ?thesis by (simp add: runs_ok_def rows hist len holds_def)
  qed
  moreover have "mutating eng (row s i) = mutating eng p" using assms(4) by (simp add: mutating_def)
  moreover have "mutating eng (row s j) \<longrightarrow> row_ok eng (row s j) (history_of s j)" if "j < length (db_operations (cs_db s))" for j
    using assms(1) that by (simp add: op_inv_def)
  ultimately show ?thesis using assms(1,2,6) by (fastforce simp: op_inv_def rows hist len assms(5))
qed

lemma op_inv_runs:
  assumes "op_inv eng wid s" and "cs_db s' = cs_db s" and "cs_history s' = cs_history s"
    and "\<And>k r. cs_runs s' k = Some r \<Longrightarrow> cs_runs s k \<noteq> Some r \<Longrightarrow> runs_ok eng wid s k r"
  shows "op_inv eng wid s'"
proof -
  have same: "row s' = row s" "history_of s' = history_of s" using assms(2,3) by (auto simp: row_def history_of_def fun_eq_iff)
  then have "runs_ok eng wid s' = runs_ok eng wid s" using assms(2) by (simp add: runs_ok_def holds_def fun_eq_iff)
  with same assms show ?thesis unfolding op_inv_def by metis
qed

section \<open>Steps keep it\<close>

lemma fin_row:
  assumes "finishOperation now i w u d = (True, d')"
  shows "i < length (db_operations d)" "op_status (db_operations d ! i) = Running" "op_leaseOwner (db_operations d ! i) = Some w"
    "db_operations d' = (db_operations d)[i := finish_row now u (db_operations d ! i)]"
    "db_leases d' = release_lease i (finish_row now u (db_operations d ! i)) (db_leases d)"
  using assms by (auto simp: finishOperation_def Let_def upd_op_def split: if_splits)

lemma finish_row_simps [simp]:
  "op_kind (finish_row now u p) = op_kind p" "op_status (finish_row now u p) = fu_status u"
  "op_attempts (finish_row now u p) = op_attempts p" "op_maxAttempts (finish_row now u p) = op_maxAttempts p"
  "op_submittedAt (finish_row now u p) = (if fu_clearSubmitted u then None else op_submittedAt p)"
  "op_resubmissions (finish_row now u p) = op_resubmissions p + (if fu_incrementResubmissions u then 1 else 0)"
  "resourceKey (finish_row now u p) = resourceKey p" "op_leaseExpiresAt (finish_row now u p) = None"
  by (simp_all add: finish_row_def resourceKey_def)

lemma ends_inv:
  assumes inv: "op_inv eng wid s" and e: "ends_by w i P s f s'" and stop: "\<And>u. P u \<Longrightarrow> fu_status u \<noteq> Running"
    and ok: "\<And>u. f \<Longrightarrow> P u \<Longrightarrow> op_status (row s i) = Running \<Longrightarrow> op_leaseOwner (row s i) = Some w \<Longrightarrow> mutating eng (row s i) \<Longrightarrow>
      row_ok eng (row s i) (history_of s i) \<Longrightarrow> row s' i = finish_row (cs_now s) u (row s i) \<Longrightarrow>
      row_ok eng (finish_row (cs_now s) u (row s i)) (history_of s i @ ns)"
    and none: "\<not> f \<Longrightarrow> ns = []" and run: "cs_runs s k = Some r" "or_id r = i"
  shows "op_inv eng wid (ended k (noted i ns s'))"
proof (cases f)
  case True
  then obtain u where u: "P u" "finishOperation (cs_now s) i w u (cs_db s) = (True, cs_db s')" using e by (auto simp: ends_by_def)
  note f = fin_row [OF u(2), folded row_def]
  have p: "row s' i = finish_row (cs_now s) u (row s i)" using f(1,4) by (simp add: row_def)
  have runs: "cs_runs s' = cs_runs s" using e by (simp add: ends_by_def)
  show ?thesis
  proof (rule op_inv_row [OF inv f(1), where p = "finish_row (cs_now s) u (row s i)" and ns = ns])
    show "row_ok eng (finish_row (cs_now s) u (row s i)) (history_of s i @ ns)" if "mutating eng (row s i)" "row_ok eng (row s i) (history_of s i)"
      using ok [OF True u(1) f(2,3) that p] .
    show "handler_of eng (op_kind (finish_row (cs_now s) u (row s i))) = Some (or_handler q) \<and>
        (op_status (finish_row (cs_now s) u (row s i)) = Running \<longrightarrow> op_leaseOwner (finish_row (cs_now s) u (row s i)) = Some (wid k') \<longrightarrow>
         oh_mutating (or_handler q) \<longrightarrow> run_ok (finish_row (cs_now s) u (row s i)) (history_of s i @ ns) q)"
      if "cs_runs (ended k (noted i ns s')) k' = Some q" "or_id q = i" for k' q
      using that inv runs stop [OF u(1)] by (auto simp: op_inv_def runs_ok_def split: if_splits)
  qed (use e f(4) runs in \<open>auto simp: ends_by_def row_def split: if_splits\<close>)
next
  case False
  then have "cs_db s' = cs_db s" "cs_history s' = cs_history s" "cs_runs s' = cs_runs s" using e by (simp_all add: ends_by_def)
  then show ?thesis using none [OF False] by (intro op_inv_runs [OF inv]) (auto split: if_splits)
qed

lemma executes_inv:
  assumes "op_inv eng wid s" and "cs_runs s k = Some r" and "applyExecuteOutcome (wid k) r oc s = (f, s')"
  shows "op_inv eng wid (ended k s')"
proof -
  have "op_inv eng wid (ended k (noted (or_id r) [] s'))"
    by (rule ends_inv [OF assms(1) outcome_ends [OF assms(3)]]) (use assms(2) in \<open>auto simp: leaves_def row_ok_def\<close>)
  then show ?thesis by (simp add: noted_def)
qed

lemma run_ok_of:
  assumes "op_inv eng wid s" and "cs_runs s k = Some r" and "op_status (row s (or_id r)) = Running"
    and "op_leaseOwner (row s (or_id r)) = Some (wid k)" and "mutating eng (row s (or_id r))"
  shows "run_ok (row s (or_id r)) (history_of s (or_id r)) r"
  using assms unfolding op_inv_def runs_ok_def holds_def mutating_def by fastforce

lemma throws_inv:
  assumes inv: "op_inv eng wid s" and r: "cs_runs s k = Some r" and not: "\<not> or_reconciling r" and e: "applyExecuteError (wid k) r err s = (f, s')"
  shows "op_inv eng wid (ended k (noted (or_id r) (if taken_back f (or_id r) s' \<and> or_submitted r \<and> refused_by err r then [Refused (or_number r)] else []) s'))"
proof (rule ends_inv [OF inv error_ends [OF e] _ _ _ r refl])
  fix u
  assume f: f and u: "leaves u \<or> requeues_after err r u" and h: "op_status (row s (or_id r)) = Running" "op_leaseOwner (row s (or_id r)) = Some (wid k)"
    and m: "mutating eng (row s (or_id r))" and ok: "row_ok eng (row s (or_id r)) (history_of s (or_id r))"
    and p: "row s' (or_id r) = finish_row (cs_now s) u (row s (or_id r))"
  note run = run_ok_of [OF inv r h m]
  show "row_ok eng (finish_row (cs_now s) u (row s (or_id r)))
    (history_of s (or_id r) @ (if taken_back f (or_id r) s' \<and> or_submitted r \<and> refused_by err r then [Refused (or_number r)] else []))"
  proof (cases "leaves u")
    case True
    then have "\<not> taken_back f (or_id r) s'" by (simp add: taken_back_def p leaves_def)
    with True ok show ?thesis by (auto simp: row_ok_def leaves_def)
  next
    case False
    then have q: "requeues r u" "oh_mutating (or_handler r) \<and> or_submitted r \<longrightarrow> refused_by err r" using u by (auto simp: requeues_after_def)
    have "oh_mutating (or_handler r)" using m r inv by (auto simp: mutating_def op_inv_def runs_ok_def)
    moreover have "taken_back f (or_id r) s'" using f q(1) by (simp add: taken_back_def p requeues_def)
    ultimately show ?thesis using q ok run not by (auto simp: row_ok_def requeues_def run_ok_def)
  qed
qed (auto simp: leaves_def requeues_after_def requeues_def taken_back_def)

lemma reconciles_inv:
  assumes inv: "op_inv eng wid s" and r: "cs_runs s k = Some r" and e: "op_reconcile eng (wid k) r oc s = (f, s')"
  shows "op_inv eng wid (ended k (noted (or_id r)
    (if taken_back f (or_id r) s' \<and> oc = Recon_absent then [Absent_after (cs_now s - nullish (op_submittedAt (or_op r)) (cs_now s))] else []) s'))"
proof (rule ends_inv [OF inv reconcile_ends [OF e] _ _ _ r refl])
  fix u
  assume f: f and u: "leaves u \<or> resubmits eng oc r (cs_now s) u" and h: "op_status (row s (or_id r)) = Running" "op_leaseOwner (row s (or_id r)) = Some (wid k)"
    and m: "mutating eng (row s (or_id r))" and ok: "row_ok eng (row s (or_id r)) (history_of s (or_id r))"
    and p: "row s' (or_id r) = finish_row (cs_now s) u (row s (or_id r))"
  note run = run_ok_of [OF inv r h m]
  show "row_ok eng (finish_row (cs_now s) u (row s (or_id r))) (history_of s (or_id r) @
    (if taken_back f (or_id r) s' \<and> oc = Recon_absent then [Absent_after (cs_now s - nullish (op_submittedAt (or_op r)) (cs_now s))] else []))"
  proof (cases "leaves u")
    case True
    then have "\<not> taken_back f (or_id r) s'" by (simp add: taken_back_def p leaves_def)
    with True ok show ?thesis by (auto simp: row_ok_def leaves_def)
  next
    case False
    then have q: "resubmits eng oc r (cs_now s) u" using u by simp
    then have "taken_back f (or_id r) s'" using f by (simp add: taken_back_def p resubmits_def)
    moreover have "oc = Recon_absent" using q by (simp add: resubmits_def)
    ultimately show ?thesis using q ok run by (auto simp: row_ok_def resubmits_def run_ok_def settled_def)
  qed
qed (auto simp: leaves_def resubmits_def taken_back_def)

lemma claim_first_Some:
  assumes "claim_first w now until is d = (Some i, d')"
  shows "i \<in> set is \<and> take_lease now until i d \<noteq> None \<and> d' = upd_op i (claim_row w until) (the (take_lease now until i d))"
  using assms by (induction "is") (auto split: option.splits)

lemma claim_first_None: "claim_first w now until is d = (None, d') \<Longrightarrow> d' = d"
  by (induction "is") (auto split: option.splits)

lemma take_lease_ops: "take_lease now until i d = Some d' \<Longrightarrow>
   db_operations d' = db_operations d \<and> db_leases d' = (db_leases d)(resourceKey (db_operations d ! i) \<mapsto> \<lparr>rl_operationId = i, rl_expiresAt = Expires until\<rparr>)"
  by (auto simp: take_lease_def Let_def split: option.splits if_splits)

lemma claimed_row:
  assumes "claimNextOperation opts now locked seen d = (Some i, d')"
  defines "until \<equiv> now + 1000 * leaseSeconds (co_leaseMs opts)" and "p \<equiv> db_operations d ! i"
  shows "i < length (db_operations d)" "runnable (co_kinds opts) now p" "db_operations d' = (db_operations d)[i := claim_row (co_workerId opts) until p]"
    "db_leases d' = (db_leases d)(resourceKey p \<mapsto> \<lparr>rl_operationId = i, rl_expiresAt = Expires until\<rparr>)"
    "\<And>l. db_leases d (resourceKey p) = Some l \<Longrightarrow> lease_expired (rl_expiresAt l) now \<or> rl_operationId l = i"
proof -
  have c: "i \<in> set (claim_candidates opts now locked seen d)" "take_lease now until i d \<noteq> None"
    "d' = upd_op i (claim_row (co_workerId opts) until) (the (take_lease now until i d))"
    using assms(1) claim_first_Some unfolding claimNextOperation_def until_def by (metis prod.inject option.distinct(1))+
  then obtain d1 where d1: "take_lease now until i d = Some d1" by auto
  show "i < length (db_operations d)" "runnable (co_kinds opts) now p"
    using set_take_subset c(1) unfolding claim_candidates_def p_def by fastforce+
  show "db_operations d' = (db_operations d)[i := claim_row (co_workerId opts) until p]"
    "db_leases d' = (db_leases d)(resourceKey p \<mapsto> \<lparr>rl_operationId = i, rl_expiresAt = Expires until\<rparr>)"
    using c(3) d1 take_lease_ops [OF d1] by (simp_all add: upd_op_def p_def)
  show "lease_expired (rl_expiresAt l) now \<or> rl_operationId l = i" if "db_leases d (resourceKey p) = Some l" for l
    using that d1 by (auto simp: take_lease_def Let_def p_def split: if_splits)
qed

lemma claimed_none: "claimNextOperation opts now locked seen d = (None, d') \<Longrightarrow> d' = d"
  by (auto simp: claimNextOperation_def dest: claim_first_None split: if_splits)

lemma claim_row_simps [simp]:
  "op_kind (claim_row w t p) = op_kind p" "op_status (claim_row w t p) = Running" "op_leaseOwner (claim_row w t p) = Some w"
  "op_leaseExpiresAt (claim_row w t p) = Some t" "op_submittedAt (claim_row w t p) = op_submittedAt p"
  "op_resubmissions (claim_row w t p) = op_resubmissions p" "op_maxAttempts (claim_row w t p) = op_maxAttempts p"
  "op_attempts (claim_row w t p) = op_attempts p + (if op_submittedAt p = None then 1 else 0)" "resourceKey (claim_row w t p) = resourceKey p"
  by (simp_all add: claim_row_def resourceKey_def)

text \<open>After the claim, before the run has begun: nobody else holds the operation any more.\<close>

lemma claimed_inv:
  assumes inv: "op_inv eng wid s" and w: "inj wid" and free: "cs_runs s slot = None"
    and c: "claimNextOperation opts (cs_now s) locked seen (cs_db s) = (Some i, d')" "co_workerId opts = wid slot"
  shows "op_inv eng wid (s\<lparr>cs_db := d'\<rparr>)"
proof (rule op_inv_row [OF inv claimed_row(1) [OF c(1)], where ns = "[]"])
  fix k r
  assume "cs_runs (s\<lparr>cs_db := d'\<rparr>) k = Some r" "or_id r = i"
  moreover from this free have "wid slot \<noteq> wid k" using w by (auto simp: inj_eq)
  ultimately show "handler_of eng (op_kind (claim_row (wid slot) ((cs_now s) + 1000 * leaseSeconds (co_leaseMs opts)) (row s i))) = Some (or_handler r) \<and>
      (op_status (claim_row (wid slot) ((cs_now s) + 1000 * leaseSeconds (co_leaseMs opts)) (row s i)) = Running \<longrightarrow>
       op_leaseOwner (claim_row (wid slot) ((cs_now s) + 1000 * leaseSeconds (co_leaseMs opts)) (row s i)) = Some (wid k) \<longrightarrow>
       oh_mutating (or_handler r) \<longrightarrow> run_ok (claim_row (wid slot) ((cs_now s) + 1000 * leaseSeconds (co_leaseMs opts)) (row s i)) (history_of s i @ []) r)"
    using inv by (auto simp: op_inv_def runs_ok_def)
qed (use claimed_row(3) [OF c(1)] c(2) in \<open>auto simp: row_def row_ok_def\<close>)

lemma claims_inv:
  assumes inv: "op_inv eng wid s" and w: "inj wid" and free: "cs_runs s slot = None"
  shows "op_inv eng wid (snd (runOnce eng (wid slot) slot locked seen s))"
proof -
  let ?opts = "\<lparr>co_workerId = wid slot, co_leaseMs = eng_leaseMs eng, co_kinds = engine_kinds eng, co_scan = None\<rparr>"
  obtain c d' where c: "claimNextOperation ?opts (cs_now s) locked seen (cs_db s) = (c, d')" by fastforce
  show ?thesis
  proof (cases c)
    case None
    then have "d' = cs_db s" using c claimed_none by blast
    then show ?thesis using c None inv by (simp add: runOnce_def)
  next
    case (Some i)
    note c = c [unfolded Some]
    let ?s = "s\<lparr>cs_db := d'\<rparr>" and ?p = "claim_row (wid slot) (cs_now s + 1000 * leaseSeconds (eng_leaseMs eng)) (row s i)"
    have inv': "op_inv eng wid ?s" using claimed_inv [OF inv w free c] by simp
    have i: "i < length (db_operations d')" and p: "row ?s i = ?p" using claimed_row(1,3) [OF c] by (simp_all add: row_def)
    have known: "engine_kinds eng = map fst (eng_handlers eng)" by (simp add: engine_kinds_def)
    have "op_kind (row s i) \<in> fst ` set (eng_handlers eng)" using claimed_row(2) [OF c] known by (auto simp: runnable_def row_def)
    then obtain h where h: "handler_of eng (op_kind ?p) = Some h"
      unfolding handler_of_def by (cases "map_of (rev (eng_handlers eng)) (op_kind ?p)") (auto simp: map_of_eq_None_iff)
    have h': "handler_of eng (op_kind (row s i)) = Some h" using h by simp
    have row: "row_ok eng ?p (history_of s i)" if "oh_mutating h"
      using inv' that i p h unfolding op_inv_def mutating_def by (fastforce simp: history_of_def)
    have old: "row_ok eng (row s i) (history_of s i)" if "oh_mutating h"
      using inv that claimed_row(1) [OF c] h' unfolding op_inv_def mutating_def by fastforce
    have "op_inv eng wid (op_run_start eng (wid slot) slot i ?s)"
    proof (rule op_inv_runs [OF inv'])
      fix k r
      assume "cs_runs (op_run_start eng (wid slot) slot i ?s) k = Some r" "cs_runs ?s k \<noteq> Some r"
      then have r: "r = \<lparr>or_id = i, or_op = ?p, or_handler = h, or_submitted = (op_submittedAt ?p \<noteq> None),
          or_returned = False, or_reconciling = (oh_mutating h \<and> op_submittedAt ?p \<noteq> None), or_number = cs_count s\<rparr>"
        using h by (auto simp: op_run_start_def p Let_def split: if_splits)
      have "run_ok ?p (history_of s i) r" if "oh_mutating h" using old [OF that] that by (auto simp: r run_ok_def row_ok_def)
      then show "runs_ok eng wid ?s k r" using i h by (simp add: r runs_ok_def p history_of_def del: claim_row_simps)
    qed (use h in \<open>simp_all add: op_run_start_def p Let_def\<close>)
    then show ?thesis using c by (simp add: runOnce_def)
  qed
qed

lemma marked:
  assumes "markSubmitted now i w d = Some d'"
  shows "i < length (db_operations d)" "op_status (db_operations d ! i) = Running" "op_leaseOwner (db_operations d ! i) = Some w"
    "\<exists>t. db_operations d' = (db_operations d)[i := (db_operations d ! i)\<lparr>op_submittedAt := Some t\<rparr>]" "db_leases d' = db_leases d"
  using assms by (auto simp: markSubmitted_def upd_op_def split: if_splits)

lemma submits_inv:
  assumes inv: "op_inv eng wid s" and w: "inj wid" and r: "cs_runs s k = Some r" "\<not> or_reconciling r"
    and b: "op_beforeSubmit (wid k) k r s = Some s'"
  shows "op_inv eng wid (noted (or_id r) [Authorised (or_number r)] s')"
proof -
  obtain d where d: "markSubmitted (cs_now s) (or_id r) (wid k) (cs_db s) = Some d"
    and s': "s' = s\<lparr>cs_db := d, cs_runs := (cs_runs s)(k \<mapsto> r\<lparr>or_submitted := True\<rparr>)\<rparr>"
    using b by (auto simp: op_beforeSubmit_def split: option.splits)
  note m = marked [OF d, folded row_def]
  obtain t where t: "db_operations d = (db_operations (cs_db s))[or_id r := (row s (or_id r))\<lparr>op_submittedAt := Some t\<rparr>]" using m(4) by blast
  have run: "run_ok (row s (or_id r)) (history_of s (or_id r)) r" if "mutating eng (row s (or_id r))"
    using run_ok_of [OF inv r(1) m(2,3) that] .
  show ?thesis
  proof (rule op_inv_row [OF inv m(1), where p = "(row s (or_id r))\<lparr>op_submittedAt := Some t\<rparr>" and ns = "[Authorised (or_number r)]"])
    show "row_ok eng ((row s (or_id r))\<lparr>op_submittedAt := Some t\<rparr>) (history_of s (or_id r) @ [Authorised (or_number r)])"
      if "mutating eng (row s (or_id r))" "row_ok eng (row s (or_id r)) (history_of s (or_id r))"
      using that(2) run [OF that(1)] r(2) by (auto simp: row_ok_def run_ok_def)
  next
    fix j q
    assume q: "cs_runs (noted (or_id r) [Authorised (or_number r)] s') j = Some q" "or_id q = or_id r"
    have h: "handler_of eng (op_kind (row s (or_id r))) = Some (or_handler q)"
    proof (cases "j = k")
      case True
      then show ?thesis using q inv r(1) by (auto simp: s' op_inv_def runs_ok_def)
    next
      case False
      then have "runs_ok eng wid s j q" using q(1) inv by (auto simp: s' op_inv_def)
      then show ?thesis using q(2) by (simp add: runs_ok_def)
    qed
    have "run_ok ((row s (or_id r))\<lparr>op_submittedAt := Some t\<rparr>) (history_of s (or_id r) @ [Authorised (or_number r)]) q"
      if "op_leaseOwner (row s (or_id r)) = Some (wid j)" "oh_mutating (or_handler q)"
    proof -
      have "j = k" using that(1) m(3) w by (simp add: inj_eq)
      then have "q = r\<lparr>or_submitted := True\<rparr>" using q(1) by (simp add: s')
      then show ?thesis using run r(2) h that(2) by (auto simp: run_ok_def mutating_def)
    qed
    with h show "handler_of eng (op_kind ((row s (or_id r))\<lparr>op_submittedAt := Some t\<rparr>)) = Some (or_handler q) \<and>
        (op_status ((row s (or_id r))\<lparr>op_submittedAt := Some t\<rparr>) = Running \<longrightarrow>
         op_leaseOwner ((row s (or_id r))\<lparr>op_submittedAt := Some t\<rparr>) = Some (wid j) \<longrightarrow> oh_mutating (or_handler q) \<longrightarrow>
         run_ok ((row s (or_id r))\<lparr>op_submittedAt := Some t\<rparr>) (history_of s (or_id r) @ [Authorised (or_number r)]) q)" by simp
  qed (auto simp: s' t split: if_splits)
qed

lemma mark_unseen_inv:
  assumes inv: "op_inv eng wid s" and d: "markSubmitted now i w (cs_db s) = Some d"
  shows "op_inv eng wid (s\<lparr>cs_db := d\<rparr>)"
proof -
  obtain t where t: "db_operations d = (db_operations (cs_db s))[i := (row s i)\<lparr>op_submittedAt := Some t\<rparr>]" using marked(4) [OF d] by (auto simp: row_def)
  show ?thesis
    by (rule op_inv_row [OF inv marked(1) [OF d], where p = "(row s i)\<lparr>op_submittedAt := Some t\<rparr>" and ns = "[]"])
      (use inv t in \<open>auto simp: row_ok_def run_ok_def op_inv_def runs_ok_def holds_def\<close>)
qed

lemma with_key_None:
  "with_key d sc key = None \<longleftrightarrow> (\<forall>i < length (db_operations d). \<not> (op_scope (db_operations d ! i) = sc \<and> op_key (db_operations d ! i) = key))"
  by (auto simp: with_key_def find_None_iff)

lemma with_key_Some:
  "with_key d sc key = Some i \<Longrightarrow> i < length (db_operations d) \<and> op_scope (db_operations d ! i) = sc \<and> op_key (db_operations d ! i) = key"
  by (auto simp: with_key_def find_Some_iff)

lemma enqueues_inv:
  assumes inv: "op_inv eng wid s" and x: "enqueueOperation digest now x (cs_db s) = Inr (i, created, d)"
  shows "op_inv eng wid (s\<lparr>cs_db := d\<rparr>)"
proof (cases "with_key (cs_db s) (ei_scope x) (ei_key x)")
  case None
  let ?n = "length (db_operations (cs_db s))"
  have d: "db_operations d = db_operations (cs_db s) @ [new_operation digest now x]" using x None by (auto simp: enqueueOperation_def)
  have rows: "row (s\<lparr>cs_db := d\<rparr>) j = (if j < ?n then row s j else if j = ?n then new_operation digest now x else row (s\<lparr>cs_db := d\<rparr>) j)" for j
    by (simp add: row_def d nth_append)
  have hist: "history_of (s\<lparr>cs_db := d\<rparr>) j = history_of s j" for j by (simp add: history_of_def)
  have "history_of s ?n = []" using inv by (auto simp: op_inv_def history_of_def filter_empty_conv)
  moreover have "row_ok eng (new_operation digest now x) []" by (simp add: row_ok_def new_operation_def)
  ultimately have "mutating eng (row (s\<lparr>cs_db := d\<rparr>) j) \<longrightarrow> row_ok eng (row (s\<lparr>cs_db := d\<rparr>) j) (history_of (s\<lparr>cs_db := d\<rparr>) j)"
    if "j < Suc ?n" for j
    using inv that by (cases "j < ?n") (auto simp: op_inv_def rows hist less_Suc_eq)
  moreover have "runs_ok eng wid (s\<lparr>cs_db := d\<rparr>) k r" if "cs_runs s k = Some r" for k r
  proof -
    have "runs_ok eng wid s k r" using inv that by (simp add: op_inv_def)
    then show ?thesis by (auto simp: runs_ok_def holds_def d row_def hist nth_append)
  qed
  ultimately show ?thesis using inv by (fastforce simp: op_inv_def d)
next
  case (Some j)
  then have "d = cs_db s" using x by (auto simp: enqueueOperation_def split: if_splits)
  then show ?thesis using inv by simp
qed

lemma op_inv_step:
  assumes "op_step eng digest wid s s'" and "inj wid" and inv: "op_inv eng wid s"
  shows "op_inv eng wid s'"
  using assms(1)
proof cases
  case (passes d)
  then show ?thesis by (intro op_inv_runs [OF inv]) auto
next
  case (enqueues x i created d)
  then show ?thesis using enqueues_inv [OF inv] by simp
next
  case (claims slot locked seen)
  then show ?thesis using claims_inv [OF inv assms(2)] by simp
next
  case (submits slot r s'')
  then show ?thesis using submits_inv [OF inv assms(2)] by simp
next
  case (mark_unseen slot r d)
  then show ?thesis using mark_unseen_inv [OF inv] by simp
next
  case (returns slot r)
  have "runs_ok eng wid s slot r" using inv returns by (simp add: op_inv_def)
  then have "runs_ok eng wid s slot (r\<lparr>or_returned := True\<rparr>)" by (auto simp: runs_ok_def run_ok_def)
  with returns show ?thesis by (intro op_inv_runs [OF inv]) (auto split: if_splits)
next
  case (executes slot r oc f s'')
  then show ?thesis using executes_inv [OF inv] by simp
next
  case (throws slot r err f s'')
  then show ?thesis using throws_inv [OF inv] by simp
next
  case (reconciles slot r oc f s'')
  then show ?thesis using reconciles_inv [OF inv] by simp
next
  case (drops slot r)
  then show ?thesis by (intro op_inv_runs [OF inv]) (auto split: if_splits)
qed

lemma op_inv_reach: "op_reach eng digest wid s \<Longrightarrow> inj wid \<Longrightarrow> op_inv eng wid s"
proof (induction rule: op_reach.induct)
  case (start now)
  then show ?case by (simp add: op_inv_def commerce_init_def)
next
  case (step s s')
  then show ?case using op_inv_step by blast
qed

section \<open>Leases on resources\<close>

text \<open>A lease that has not run out on the operation has not run out on its resource.\<close>

definition lease_inv :: "commerce \<Rightarrow> bool" where
  "lease_inv s \<longleftrightarrow> (\<forall>i t. i < length (db_operations (cs_db s)) \<longrightarrow> op_status (row s i) = Running \<longrightarrow> op_leaseExpiresAt (row s i) = Some t \<longrightarrow>
     cs_now s \<le> t \<longrightarrow> db_leases (cs_db s) (resourceKey (row s i)) = Some \<lparr>rl_operationId = i, rl_expiresAt = Expires t\<rparr>)"

lemma lease_inv_db:
  "lease_inv s \<Longrightarrow> cs_db s' = cs_db s \<Longrightarrow> cs_now s \<le> cs_now s' \<Longrightarrow> lease_inv s'"
  by (auto simp: lease_inv_def row_def)

lemma lease_inv_same:
  assumes "lease_inv s" and "db_leases (cs_db s') = db_leases (cs_db s)" and "cs_now s' = cs_now s"
    and "db_operations (cs_db s') = (db_operations (cs_db s))[i := p]" and "resourceKey p = resourceKey (row s i)"
    and "op_status p = op_status (row s i)" and "op_leaseExpiresAt p = op_leaseExpiresAt (row s i)"
  shows "lease_inv s'"
proof -
  have "row s' j = (if j = i \<and> j < length (db_operations (cs_db s)) then p else row s j)" for j
    using assms(4) by (cases "i < length (db_operations (cs_db s))") (auto simp: row_def not_less list_update_beyond)
  then show ?thesis using assms by (auto simp: lease_inv_def)
qed

lemma release_other:
  "leases k = Some l \<Longrightarrow> rl_operationId l \<noteq> i \<Longrightarrow> release_lease i p leases k = Some l"
  by (auto simp: release_lease_def Let_def split: option.splits)

lemma lease_inv_ends:
  assumes inv: "lease_inv s" and e: "ends_by w i P s f s'" and stop: "\<And>u. P u \<Longrightarrow> fu_status u \<noteq> Running"
  shows "lease_inv s'"
proof (cases f)
  case True
  then obtain u where u: "P u" "finishOperation (cs_now s) i w u (cs_db s) = (True, cs_db s')" using e by (auto simp: ends_by_def)
  note f = fin_row [OF u(2), folded row_def]
  have rows: "row s' j = (if j = i then finish_row (cs_now s) u (row s i) else row s j)" for j using f(1,4) by (simp add: row_def)
  show ?thesis unfolding lease_inv_def
  proof (intro allI impI)
    fix j t
    assume j: "j < length (db_operations (cs_db s'))" "op_status (row s' j) = Running" "op_leaseExpiresAt (row s' j) = Some t" "cs_now s' \<le> t"
    then have ne: "j \<noteq> i" using stop [OF u(1)] by (auto simp: rows)
    have "db_leases (cs_db s) (resourceKey (row s j)) = Some \<lparr>rl_operationId = j, rl_expiresAt = Expires t\<rparr>"
      using j ne inv e f(4) by (simp add: rows lease_inv_def ends_by_def)
    then show "db_leases (cs_db s') (resourceKey (row s' j)) = Some \<lparr>rl_operationId = j, rl_expiresAt = Expires t\<rparr>"
      using ne by (simp add: rows f(5) release_other)
  qed
next
  case False
  then show ?thesis using e inv lease_inv_db by (auto simp: ends_by_def)
qed

lemma lease_inv_claim:
  assumes inv: "lease_inv s" and c: "claimNextOperation opts (cs_now s) locked seen (cs_db s) = (Some i, d')"
  shows "lease_inv (s\<lparr>cs_db := d'\<rparr>)"
proof -
  note c = claimed_row [OF c, folded row_def]
  let ?until = "cs_now s + 1000 * leaseSeconds (co_leaseMs opts)"
  have rows: "row (s\<lparr>cs_db := d'\<rparr>) j = (if j = i then claim_row (co_workerId opts) ?until (row s i) else row s j)" for j
    using c(1,3) by (simp add: row_def)
  show ?thesis unfolding lease_inv_def
  proof (intro allI impI)
    fix j t
    assume j: "j < length (db_operations (cs_db (s\<lparr>cs_db := d'\<rparr>)))" "op_status (row (s\<lparr>cs_db := d'\<rparr>) j) = Running"
      "op_leaseExpiresAt (row (s\<lparr>cs_db := d'\<rparr>) j) = Some t" "cs_now (s\<lparr>cs_db := d'\<rparr>) \<le> t"
    show "db_leases (cs_db (s\<lparr>cs_db := d'\<rparr>)) (resourceKey (row (s\<lparr>cs_db := d'\<rparr>) j)) = Some \<lparr>rl_operationId = j, rl_expiresAt = Expires t\<rparr>"
    proof (cases "j = i")
      case True
      then show ?thesis using j(3) by (simp add: rows c(4))
    next
      case False
      then have l: "db_leases (cs_db s) (resourceKey (row s j)) = Some \<lparr>rl_operationId = j, rl_expiresAt = Expires t\<rparr>"
        using j inv c(3) by (simp add: rows lease_inv_def)
      then have "resourceKey (row s j) \<noteq> resourceKey (row s i)" using c(5) [of "\<lparr>rl_operationId = j, rl_expiresAt = Expires t\<rparr>"] False j(4)
        by (auto simp: lease_expired_def)
      with False l show ?thesis by (simp add: rows c(4))
    qed
  qed
qed

lemma lease_inv_run_start: "lease_inv s \<Longrightarrow> lease_inv (op_run_start eng w slot i s)"
proof (cases "handler_of eng (op_kind (row s i))")
  case None
  assume inv: "lease_inv s"
  let ?u = "(finish_to Manual_review)\<lparr>fu_errorCode := Some (js ''no_handler''), fu_errorMessage := Some (js ''No handler for this operation.'')\<rparr>"
  obtain f s' where "op_finish w i ?u s = (f, s')" by fastforce
  with None show ?thesis using lease_inv_ends [OF inv op_finish_ends] by (fastforce simp: op_run_start_def Let_def finish_to_def)
next
  case (Some h)
  assume "lease_inv s"
  then show ?thesis using Some by (simp add: op_run_start_def Let_def lease_inv_def row_def)
qed

lemma lease_inv_frame [simp]: "lease_inv (ended k s) = lease_inv s" "lease_inv (noted i ns s) = lease_inv s"
  "lease_inv (s\<lparr>cs_runs := rs\<rparr>) = lease_inv s"
  by (simp_all add: lease_inv_def row_def ended_def noted_def)

lemma lease_inv_marked: "lease_inv s \<Longrightarrow> markSubmitted now i w (cs_db s) = Some d \<Longrightarrow> lease_inv (s\<lparr>cs_db := d\<rparr>)"
  using marked(4,5) [of now i w "cs_db s" d] by (auto intro!: lease_inv_same [of s] simp: row_def resourceKey_def)

lemma end_leases:
  "lease_inv s \<Longrightarrow> applyExecuteOutcome w r oc s = (f, s') \<Longrightarrow> lease_inv s'"
  "lease_inv s \<Longrightarrow> applyExecuteError w r err s = (f, s') \<Longrightarrow> lease_inv s'"
  "lease_inv s \<Longrightarrow> op_reconcile eng w r rc s = (f, s') \<Longrightarrow> lease_inv s'"
  by (erule lease_inv_ends, erule outcome_ends error_ends reconcile_ends, auto simp: leaves_def requeues_after_def requeues_def resubmits_def)+

lemma lease_inv_runOnce: "lease_inv s \<Longrightarrow> lease_inv (snd (runOnce eng w slot locked seen s))"
proof -
  assume inv: "lease_inv s"
  let ?opts = "\<lparr>co_workerId = w, co_leaseMs = eng_leaseMs eng, co_kinds = engine_kinds eng, co_scan = None\<rparr>"
  obtain c d' where c: "claimNextOperation ?opts (cs_now s) locked seen (cs_db s) = (c, d')" by fastforce
  show ?thesis
  proof (cases c)
    case None
    then have "d' = cs_db s" using c claimed_none by blast
    with None c inv show ?thesis by (simp add: runOnce_def)
  next
    case (Some i)
    then show ?thesis using c lease_inv_run_start [OF lease_inv_claim [OF inv]] by (simp add: runOnce_def)
  qed
qed

lemma lease_inv_step: "op_step eng digest wid s s' \<Longrightarrow> lease_inv s \<Longrightarrow> lease_inv s'"
proof (induction rule: op_step.cases)
  case (passes d s)
  then show ?case by (auto intro: lease_inv_db)
next
  case (enqueues s x i created d)
  then have d: "db_leases d = db_leases (cs_db s)" "\<exists>q. op_status q = Queued \<and> (d = cs_db s \<or> db_operations d = db_operations (cs_db s) @ [q])"
    by (auto simp: enqueueOperation_def new_operation_def split: option.splits if_splits intro: exI [of _ "new_operation digest (cs_now s) x"])
  then obtain q where q: "op_status q = Queued" "d = cs_db s \<or> db_operations d = db_operations (cs_db s) @ [q]" by blast
  have "row (s\<lparr>cs_db := d\<rparr>) j = row s j \<or> op_status (row (s\<lparr>cs_db := d\<rparr>) j) \<noteq> Running"
    "op_status (row (s\<lparr>cs_db := d\<rparr>) j) = Running \<Longrightarrow> j < length (db_operations (cs_db s))" if "j < length (db_operations d)" for j
    using q that by (auto simp: row_def nth_append less_Suc_eq split: if_splits)
  with enqueues d(1) show ?case unfolding lease_inv_def by simp metis
next
  case (claims s slot locked seen)
  then show ?case by (simp add: lease_inv_runOnce)
next
  case (submits s slot r s'')
  then obtain d where "markSubmitted (cs_now s) (or_id r) (wid slot) (cs_db s) = Some d"
    "s'' = s\<lparr>cs_db := d, cs_runs := (cs_runs s)(slot \<mapsto> r\<lparr>or_submitted := True\<rparr>)\<rparr>"
    by (auto simp: op_beforeSubmit_def split: option.splits)
  moreover from this submits have "lease_inv (s\<lparr>cs_db := d\<rparr>)" using lease_inv_marked by blast
  ultimately show ?case using lease_inv_frame(3) [where s = "s\<lparr>cs_db := d\<rparr>"] submits(2) by simp
next
  case (executes s slot r oc f s'')
  then have "lease_inv s''" by (blast intro: end_leases(1))
  with executes show ?case by simp
next
  case (throws s slot r err f s'')
  then have "lease_inv s''" by (blast intro: end_leases(2))
  with throws show ?case by simp
next
  case (reconciles s slot r oc f s'')
  then have "lease_inv s''" by (blast intro: end_leases(3))
  with reconciles show ?case by simp
qed (auto intro: lease_inv_marked)

lemma lease_inv_reach: "op_reach eng digest wid s \<Longrightarrow> lease_inv s"
  by (induction rule: op_reach.induct) (auto simp: lease_inv_def commerce_init_def dest: lease_inv_step)

end
