(* ===== verification/Operation_Properties.thy ===== *)
theory Operation_Properties
  imports Operation_Safety
begin

text \<open>The properties of the outbox, runs that show what it does not guarantee, and concrete witnesses.\<close>

section \<open>Idempotent enqueueing\<close>

text \<open>What identifies an operation never changes, and no two have one scope and key.\<close>

definition ident :: "operation \<Rightarrow> (jsstring \<times> jsstring) \<times> jsstring" where
  "ident p = ((op_scope p, op_key p), op_intentHash p)"

abbreviation idents :: "commerce \<Rightarrow> ((jsstring \<times> jsstring) \<times> jsstring) list" where
  "idents s \<equiv> map ident (db_operations (cs_db s))"

lemma idents_update: "ident p = ident (ops ! i) \<Longrightarrow> map ident (ops[i := p]) = map ident ops"
  by (metis list_update_id map_update)

lemma ident_rows [simp]:
  "ident (finish_row now u p) = ident p" "ident (claim_row w t p) = ident p" "ident (p\<lparr>op_submittedAt := x\<rparr>) = ident p"
  by (simp_all add: ident_def finish_row_def claim_row_def)

lemma idents_ends: "ends_by w i P s f s' \<Longrightarrow> idents s' = idents s"
  by (cases f) (auto simp: ends_by_def idents_update dest!: fin_row(4))

lemma idents_marked: "markSubmitted now i w d = Some d' \<Longrightarrow> map ident (db_operations d') = map ident (db_operations d)"
  by (auto dest!: marked(4) simp: idents_update)

lemma idents_runOnce: "idents (snd (runOnce eng w slot locked seen s)) = idents s"
proof -
  let ?opts = "\<lparr>co_workerId = w, co_leaseMs = eng_leaseMs eng, co_kinds = engine_kinds eng, co_scan = None\<rparr>"
  obtain c d' where c: "claimNextOperation ?opts (cs_now s) locked seen (cs_db s) = (c, d')" by fastforce
  show ?thesis
  proof (cases c)
    case None
    then have "d' = cs_db s" using c claimed_none by blast
    with None c show ?thesis by (simp add: runOnce_def)
  next
    case (Some i)
    have "map ident (db_operations d') = idents s" using claimed_row(3) [OF c [unfolded Some]] by (simp add: idents_update)
    moreover have "idents (op_run_start eng w slot i s') = idents s'" for s'
    proof (cases "handler_of eng (op_kind (row s' i))")
      case None
      let ?u = "(finish_to Manual_review)\<lparr>fu_errorCode := Some (js ''no_handler''), fu_errorMessage := Some (js ''No handler for this operation.'')\<rparr>"
      obtain f s'' where "op_finish w i ?u s' = (f, s'')" by fastforce
      with None show ?thesis using idents_ends [OF op_finish_ends] by (simp add: op_run_start_def Let_def)
    qed (simp add: op_run_start_def Let_def)
    ultimately show ?thesis using c Some by (simp add: runOnce_def)
  qed
qed

lemma idents_step:
  assumes "op_step eng digest wid s s'"
  shows "idents s' = idents s \<or> (\<exists>e. fst e \<notin> fst ` set (idents s) \<and> idents s' = idents s @ [e])"
  using assms
proof cases
  case (enqueues x i created d)
  show ?thesis
  proof (cases "with_key (cs_db s) (ei_scope x) (ei_key x)")
    case None
    then have "idents s' = idents s @ [ident (new_operation digest (cs_now s) x)]" using enqueues by (auto simp: enqueueOperation_def)
    moreover have "fst (ident (new_operation digest (cs_now s) x)) \<notin> fst ` set (idents s)"
      using None by (auto simp: with_key_None ident_def new_operation_def in_set_conv_nth)
    ultimately show ?thesis by blast
  next
    case (Some j)
    then show ?thesis using enqueues by (auto simp: enqueueOperation_def split: if_splits)
  qed
next
  case (claims slot locked seen)
  then show ?thesis by (simp add: idents_runOnce)
next
  case (submits slot r s'')
  then show ?thesis by (auto simp: op_beforeSubmit_def dest: idents_marked split: option.splits)
next
  case (mark_unseen slot r d)
  then show ?thesis by (auto dest: idents_marked)
next
  case (executes slot r oc f s'')
  then show ?thesis using idents_ends [OF outcome_ends] by simp
next
  case (throws slot r err f s'')
  then show ?thesis using idents_ends [OF error_ends] by simp
next
  case (reconciles slot r oc f s'')
  then show ?thesis using idents_ends [OF reconcile_ends] by simp
qed simp_all

lemma idents_steps: "(op_step eng digest wid)\<^sup>*\<^sup>* s s' \<Longrightarrow> \<exists>es. idents s' = idents s @ es"
  by (induction rule: rtranclp_induct) (use idents_step in \<open>fastforce+\<close>)

lemma idents_distinct: "op_reach eng digest wid s \<Longrightarrow> distinct (map fst (idents s))"
proof (induction rule: op_reach.induct)
  case (start now)
  then show ?case by (simp add: commerce_init_def)
next
  case (step s s')
  from idents_step [OF step.hyps(2)] show ?case
  proof
    assume "idents s' = idents s"
    then show ?thesis using step.IH by simp
  next
    assume "\<exists>e. fst e \<notin> fst ` set (idents s) \<and> idents s' = idents s @ [e]"
    then obtain e where "fst e \<notin> fst ` set (idents s)" "idents s' = idents s @ [e]" by blast
    then show ?thesis using step.IH by (simp add: image_comp)
  qed
qed

lemma op_reach_steps: "(op_step eng digest wid)\<^sup>*\<^sup>* s s' \<Longrightarrow> op_reach eng digest wid s \<Longrightarrow> op_reach eng digest wid s'"
  by (induction rule: rtranclp_induct) (auto intro: op_reach.step)

lemma with_key_unique:
  assumes "distinct (map fst (map ident (db_operations d)))" and "i < length (db_operations d)" and "fst (ident (db_operations d ! i)) = (sc, key)"
  shows "with_key d sc key = Some i"
proof (cases "with_key d sc key")
  case None
  then show ?thesis using assms(2,3) by (auto simp: with_key_None ident_def)
next
  case (Some j)
  then have "j < length (db_operations d)" "fst (ident (db_operations d ! j)) = (sc, key)" using with_key_Some by (auto simp: ident_def)
  then have "j = i" using assms by (simp add: distinct_conv_nth) metis
  with Some show ?thesis by simp
qed

section \<open>Properties\<close>

definition leased :: "commerce \<Rightarrow> nat \<Rightarrow> bool" where
  "leased s i \<longleftrightarrow> i < length (db_operations (cs_db s)) \<and> op_status (row s i) = Running \<and>
     (\<exists>t. op_leaseExpiresAt (row s i) = Some t \<and> cs_now s \<le> t)"

definition doubtful :: "operation \<Rightarrow> bool" where
  "doubtful p \<longleftrightarrow> op_status p = Unknown \<or> op_status p = Manual_review \<and> op_submittedAt p \<noteq> None"

text \<open>
  C16. A mutating operation is not submitted twice in the dark. In every state any number of loops with ids of their own can reach,
  through crashes, stalls and lost leases: between the submissions of an operation by two different runs stands a reconciliation that found no effect, at
  least the settle time after the submission, or a refusal by the provider of the run that submitted. The first happens at most
  once, and the runs that ever submit are at most one more than the attempts allowed.
\<close>

theorem submitted_once_until_disproved:
  assumes "op_reach eng digest wid s" and "inj wid" and "i < length (db_operations (cs_db s))" and "mutating eng (row s i)"
    and "0 < op_maxAttempts (row s i)"
  shows "(history_of s i = xs @ Authorised r1 # ys @ Authorised r2 # zs \<longrightarrow> r1 = r2 \<or> list_ex (\<lambda>n. is_absent n \<or> is_refused n) ys) \<and>
    absents (history_of s i) \<le> 1 \<and> (Absent_after t \<in> set (history_of s i) \<longrightarrow> eng_settleMs eng \<le> t) \<and>
    card {r. Authorised r \<in> set (history_of s i)} \<le> op_maxAttempts (row s i) + 1"
proof -
  have ok: "row_ok eng (row s i) (history_of s i)" using op_inv_reach [OF assms(1,2)] assms(3,4) by (simp add: op_inv_def)
  then have "card {r. Authorised r \<in> set (history_of s i)} \<le> 1 + absents (history_of s i) + refusals (history_of s i)"
    using submitting_runs [of "history_of s i"] by (auto simp: row_ok_def split: if_splits)
  with ok assms(5) have "card {r. Authorised r \<in> set (history_of s i)} \<le> op_maxAttempts (row s i) + 1" by (auto simp: row_ok_def)
  moreover have "r1 = r2 \<or> list_ex (\<lambda>n. is_absent n \<or> is_refused n) ys" if "history_of s i = xs @ Authorised r1 # ys @ Authorised r2 # zs"
    using ok separated_between [of xs r1 ys r2 zs] that by (auto simp: row_ok_def)
  moreover have "absents (history_of s i) \<le> 1" "Absent_after t \<in> set (history_of s i) \<longrightarrow> eng_settleMs eng \<le> t"
    using ok by (simp_all add: row_ok_def)
  ultimately show ?thesis by blast
qed

text \<open>
  C17. One operation per resource. In every reachable state, whatever ids the loops use: two running operations whose leases have not run
  out are on different resources, and a claim gives neither of them away. An operation whose run ends in doubt while its lease lasts
  keeps the resource, without end, and as long as it does no other operation on it is claimed.
\<close>

theorem one_operation_per_resource:
  assumes "op_reach eng digest wid s"
  shows "(leased s i \<and> leased s j \<and> j \<noteq> i \<longrightarrow> resourceKey (row s j) \<noteq> resourceKey (row s i)) \<and>
    (leased s i \<and> claimNextOperation opts (cs_now s) locked seen (cs_db s) = (Some j, d) \<longrightarrow>
      j \<noteq> i \<and> resourceKey (row s j) \<noteq> resourceKey (row s i)) \<and>
    (leased s i \<and> finishOperation (cs_now s) i w u (cs_db s) = (True, d) \<and> doubtful (db_operations d ! i) \<longrightarrow>
      db_leases d (resourceKey (row s i)) = Some \<lparr>rl_operationId = i, rl_expiresAt = Forever\<rparr>) \<and>
    (db_leases (cs_db s) (resourceKey (row s j)) = Some \<lparr>rl_operationId = i, rl_expiresAt = Forever\<rparr> \<and>
      claimNextOperation opts (cs_now s) locked seen (cs_db s) = (Some j, d) \<longrightarrow> j = i)"
proof -
  have mine: "\<exists>t. db_leases (cs_db s) (resourceKey (row s i)) = Some \<lparr>rl_operationId = i, rl_expiresAt = Expires t\<rparr> \<and> cs_now s \<le> t"
    if "leased s i" for i
    using lease_inv_reach [OF assms] that unfolding lease_inv_def leased_def by blast
  have claim: "lease_expired (rl_expiresAt l) (cs_now s) \<or> rl_operationId l = j" "runnable (co_kinds opts) (cs_now s) (row s j)"
    if "claimNextOperation opts (cs_now s) locked seen (cs_db s) = (Some j, d)" "db_leases (cs_db s) (resourceKey (row s j)) = Some l" for l
    using claimed_row(2,5) [OF that(1)] that(2) by (simp_all add: row_def)
  have apart: "resourceKey (row s j) \<noteq> resourceKey (row s i)" if "leased s i" "leased s j" "j \<noteq> i"
    using mine [OF that(1)] mine [OF that(2)] that(3) by auto
  have other: "j \<noteq> i \<and> resourceKey (row s j) \<noteq> resourceKey (row s i)"
    if c: "claimNextOperation opts (cs_now s) locked seen (cs_db s) = (Some j, d)" and i: "leased s i"
  proof -
    have ne: "j \<noteq> i" using claimed_row(2) [OF c] i by (auto simp: runnable_def leased_def row_def)
    then show ?thesis using claim(1) [OF c] mine [OF i] by (auto simp: lease_expired_def)
  qed
  have doubt: "db_leases d (resourceKey (row s i)) = Some \<lparr>rl_operationId = i, rl_expiresAt = Forever\<rparr>"
    if "leased s i" and f: "finishOperation (cs_now s) i w u (cs_db s) = (True, d)" and "doubtful (db_operations d ! i)"
    using fin_row [OF f, folded row_def] mine [OF that(1)] that(3) by (auto simp: release_lease_def Let_def doubtful_def)
  show ?thesis using apart other doubt claim(1) by (fastforce simp: lease_expired_def)
qed

text \<open>
  C18. Enqueueing is idempotent. What is enqueued again under its scope and key, in any later state, with the same intent, is the
  operation that was created first, and the tables stay as they are; with another intent it is refused.
\<close>

theorem enqueue_is_idempotent:
  assumes "op_reach eng digest wid s" and "enqueueOperation digest (cs_now s) x (cs_db s) = Inr (i, created, d)"
    and "(op_step eng digest wid)\<^sup>*\<^sup>* (s\<lparr>cs_db := d\<rparr>) s'" and "ei_scope y = ei_scope x" and "ei_key y = ei_key x"
  shows "enqueueOperation digest (cs_now s') y (cs_db s') =
    (if hashIntent digest (intent_of y) = hashIntent digest (intent_of x) then Inr (i, False, cs_db s') else Inl IdempotencyConflictError)"
proof -
  have reach: "op_reach eng digest wid (s\<lparr>cs_db := d\<rparr>)" by (rule op_reach.step [OF assms(1) op_step.enqueues [OF assms(2)]])
  have i: "i < length (db_operations d)" "ident (db_operations d ! i) = ((ei_scope x, ei_key x), hashIntent digest (intent_of x))"
    using assms(2) by (auto simp: enqueueOperation_def ident_def new_operation_def dest: with_key_Some split: option.splits if_splits)
  obtain es where es: "idents s' = map ident (db_operations d) @ es" using idents_steps [OF assms(3)] by auto
  then have len: "i < length (db_operations (cs_db s'))" using i(1) by (metis length_append length_map trans_less_add1)
  have same: "ident (db_operations (cs_db s') ! i) = ident (db_operations d ! i)"
    using arg_cong [OF es, of "\<lambda>xs. xs ! i"] i(1) len by (simp add: nth_append)
  have "with_key (cs_db s') (ei_scope x) (ei_key x) = Some i"
    using with_key_unique [OF idents_distinct [OF op_reach_steps [OF assms(3) reach]] len] same i(2) by simp
  with same i(2) assms(4,5) show ?thesis by (simp add: enqueueOperation_def ident_def)
qed

section \<open>Concrete runs\<close>

definition one_kind :: engine where
  "one_kind = \<lparr>eng_handlers = [([2], \<lparr>oh_mutating = True, oh_reconciles = True, oh_givesUp = True\<rparr>)], eng_leaseMs = 300000,
     eng_settleMs = 300000, eng_maxReconcileAttempts = 12\<rparr>"

definition change :: "nat \<Rightarrow> int \<Rightarrow> enqueue_input" where
  "change k t = \<lparr>ei_kind = [2], ei_scope = [], ei_key = [k], ei_resourceType = [], ei_resourceId = [], ei_account = Null, ei_payload = Null,
     ei_maxAttempts = None, ei_runAt = Some t\<rparr>"

lemma handler_one_kind [simp]: "handler_of one_kind [2] = Some \<lparr>oh_mutating = True, oh_reconciles = True, oh_givesUp = True\<rparr>"
  by (simp add: handler_of_def one_kind_def)

lemma new_change [simp]:
  "op_kind (new_operation g t (change k r)) = [2]" "op_status (new_operation g t (change k r)) = Queued"
  "op_nextRunAt (new_operation g t (change k r)) = r" "op_submittedAt (new_operation g t (change k r)) = None"
  "resourceKey (new_operation g t (change k r)) = js '':''" "op_scope (new_operation g t (change k r)) = []"
  "op_key (new_operation g t (change k r)) = [k]" "op_maxAttempts (new_operation g t (change k r)) = 5"
  by (simp_all add: new_operation_def change_def resourceKey_def)

lemma row_more [simp]:
  "op_nextRunAt (claim_row w t p) = op_nextRunAt p" "resourceKey (p\<lparr>op_submittedAt := x\<rparr>) = resourceKey p"
  by (simp_all add: claim_row_def resourceKey_def)

definition tables :: "operation list \<Rightarrow> (jsstring \<Rightarrow> resource_lease option) \<Rightarrow> operation_db" where
  "tables ops ls = \<lparr>db_operations = ops, db_leases = ls\<rparr>"

definition state :: "operation list \<Rightarrow> (jsstring \<Rightarrow> resource_lease option) \<Rightarrow> int \<Rightarrow> (nat \<Rightarrow> op_run option) \<Rightarrow> nat \<Rightarrow> (nat \<times> op_note) list \<Rightarrow> commerce" where
  "state ops ls now rs n hs = \<lparr>cs_db = tables ops ls, cs_now = now, cs_runs = rs, cs_count = n, cs_log = [], cs_history = hs\<rparr>"

abbreviation fresh_run :: "nat \<Rightarrow> operation \<Rightarrow> nat \<Rightarrow> op_run" where
  "fresh_run i p n \<equiv> \<lparr>or_id = i, or_op = p, or_handler = \<lparr>oh_mutating = True, oh_reconciles = True, oh_givesUp = True\<rparr>, or_submitted = False,
     or_returned = False, or_reconciling = False, or_number = n\<rparr>"

lemma state_enqueues:
  assumes "op_reach one_kind g wid (state ops ls now rs n hs)" and "\<And>p. p \<in> set ops \<Longrightarrow> op_key p \<noteq> [k]"
  shows "op_reach one_kind g wid (state (ops @ [new_operation g now (change k t)]) ls now rs n hs)"
proof -
  have "with_key (tables ops ls) [] [k] = None" using assms(2) by (auto simp: with_key_None tables_def)
  then have "enqueueOperation g now (change k t) (tables ops ls) = Inr (length ops, True, tables (ops @ [new_operation g now (change k t)]) ls)"
    by (simp add: enqueueOperation_def change_def tables_def)
  with op_reach.step [OF assms(1) op_step.enqueues] show ?thesis by (simp add: state_def)
qed

lemma state_passes: "op_reach eng g wid (state ops ls now rs n hs) \<Longrightarrow> 0 \<le> d \<Longrightarrow> op_reach eng g wid (state ops ls (now + d) rs n hs)"
  using op_reach.step [OF _ op_step.passes, of eng g wid "state ops ls now rs n hs" d] by (simp add: state_def)

lemma state_drops: "op_reach eng g wid (state ops ls now rs n hs) \<Longrightarrow> rs k = Some r \<Longrightarrow> op_reach eng g wid (state ops ls now (rs(k := None)) n hs)"
  using op_reach.step [OF _ op_step.drops, of eng g wid "state ops ls now rs n hs" k r] by (simp add: state_def ended_def)

text \<open>A claim that finds its operation first among the candidates, and not submitted.\<close>

lemma state_claims:
  assumes "op_reach one_kind g wid (state ops ls now rs n hs)" and "rs k = None"
    and "claim_candidates \<lparr>co_workerId = wid k, co_leaseMs = 300000, co_kinds = [[2]], co_scan = None\<rparr> now locked ls (tables ops ls) = i # is"
    and "i < length ops" and "op_kind (ops ! i) = [2]" and "op_submittedAt (ops ! i) = None"
    and "\<And>l. ls (resourceKey (ops ! i)) = Some l \<Longrightarrow> lease_expired (rl_expiresAt l) now \<or> rl_operationId l = i"
  shows "op_reach one_kind g wid (state (ops[i := claim_row (wid k) (now + 300000) (ops ! i)])
    (ls(resourceKey (ops ! i) \<mapsto> \<lparr>rl_operationId = i, rl_expiresAt = Expires (now + 300000)\<rparr>)) now
    (rs(k \<mapsto> fresh_run i (claim_row (wid k) (now + 300000) (ops ! i)) n)) (n + 1) hs)"
proof -
  let ?opts = "\<lparr>co_workerId = wid k, co_leaseMs = 300000, co_kinds = [[2]], co_scan = None\<rparr>"
  let ?d = "tables (ops[i := claim_row (wid k) (now + 300000) (ops ! i)])
    (ls(resourceKey (ops ! i) \<mapsto> \<lparr>rl_operationId = i, rl_expiresAt = Expires (now + 300000)\<rparr>))"
  have take: "take_lease now (now + 300000) i (tables ops ls) =
      Some (tables ops (ls(resourceKey (ops ! i) \<mapsto> \<lparr>rl_operationId = i, rl_expiresAt = Expires (now + 300000)\<rparr>)))"
    using assms(7) by (auto simp: take_lease_def tables_def Let_def split: option.splits)
  have "claimNextOperation ?opts now locked ls (tables ops ls) = (Some i, ?d)"
    using assms(3) take by (simp add: claimNextOperation_def leaseSeconds_def upd_op_def tables_def)
  moreover have "one_kind\<lparr>eng_leaseMs := 300000\<rparr> = one_kind" "eng_leaseMs one_kind = 300000" "engine_kinds one_kind = [[2]]"
    by (simp_all add: one_kind_def engine_kinds_def)
  ultimately have "snd (runOnce one_kind (wid k) k locked ls (state ops ls now rs n hs)) =
      op_run_start one_kind (wid k) k i ((state ops ls now rs n hs)\<lparr>cs_db := ?d\<rparr>)"
    by (simp add: runOnce_def state_def)
  also have "\<dots> = state (ops[i := claim_row (wid k) (now + 300000) (ops ! i)])
      (ls(resourceKey (ops ! i) \<mapsto> \<lparr>rl_operationId = i, rl_expiresAt = Expires (now + 300000)\<rparr>)) now
      (rs(k \<mapsto> fresh_run i (claim_row (wid k) (now + 300000) (ops ! i)) n)) (n + 1) hs"
    using assms(4,5,6) by (simp add: op_run_start_def row_def state_def tables_def Let_def)
  finally show ?thesis using op_reach.step [OF assms(1) op_step.claims, of k locked ls] assms(2) by (simp add: state_def)
qed

lemma state_submits:
  assumes "op_reach one_kind g wid (state ops ls now rs n hs)" and "rs k = Some r" and "\<not> or_reconciling r" and "or_id r < length ops"
    and "op_status (ops ! or_id r) = Running" and "op_leaseOwner (ops ! or_id r) = Some (wid k)"
    and "op_leaseExpiresAt (ops ! or_id r) = Some t" and "now < t"
  shows "op_reach one_kind g wid (state (ops[or_id r := (ops ! or_id r)\<lparr>op_submittedAt := Some (nullish (op_submittedAt (ops ! or_id r)) now)\<rparr>])
    ls now (rs(k \<mapsto> r\<lparr>or_submitted := True\<rparr>)) n (hs @ [(or_id r, Authorised (or_number r))]))"
proof -
  have "op_beforeSubmit (wid k) k r (state ops ls now rs n hs) =
      Some (state (ops[or_id r := (ops ! or_id r)\<lparr>op_submittedAt := Some (nullish (op_submittedAt (ops ! or_id r)) now)\<rparr>])
        ls now (rs(k \<mapsto> r\<lparr>or_submitted := True\<rparr>)) n hs)"
    using assms by (simp add: op_beforeSubmit_def markSubmitted_def upd_op_def state_def tables_def)
  from op_step.submits [where eng = one_kind and digest = g and wid = wid and slot = k, OF _ assms(3) this] assms(2)
  have "op_step one_kind g wid (state ops ls now rs n hs) (noted (or_id r) [Authorised (or_number r)]
    (state (ops[or_id r := (ops ! or_id r)\<lparr>op_submittedAt := Some (nullish (op_submittedAt (ops ! or_id r)) now)\<rparr>]) ls now (rs(k \<mapsto> r\<lparr>or_submitted := True\<rparr>)) n hs))"
    by (simp add: state_def)
  from op_reach.step [OF assms(1) this] show ?thesis by (simp add: state_def noted_def)
qed

lemma state_eq:
  "op_reach eng g wid (state ops ls now rs n hs) \<Longrightarrow> ops = ops' \<Longrightarrow> ls = ls' \<Longrightarrow> rs = rs' \<Longrightarrow> n = n' \<Longrightarrow> hs = hs' \<Longrightarrow>
   op_reach eng g wid (state ops' ls' now rs' n' hs')"
  by simp

text \<open>
  C19. Two loops that share an id submit one operation twice. The loops of one worker process claim under one id. When the first
  stalls past its lease before it submits, the second claims the operation, and the check of the owner lets both through: two requests are
  authorised, by different runs, with nothing between them that shows the first did nothing.
\<close>

theorem shared_worker_id_submits_twice:
  "\<exists>s. op_reach one_kind digest (\<lambda>_. [7]) s \<and> history_of s 0 = [Authorised 0, Authorised 1] \<and>
    cs_runs s 0 \<noteq> None \<and> cs_runs s 1 \<noteq> None \<and> op_status (row s 0) = Running"
proof -
  let ?w = "\<lambda>_ :: nat. [7 :: nat]" and ?p = "new_operation digest 0 (change 0 0)"
  have "op_reach one_kind digest ?w (state [] Map.empty 0 Map.empty 0 [])"
    using op_reach.start [of one_kind digest ?w 0] by (simp add: commerce_init_def state_def tables_def)
  from state_enqueues [OF this, of 0 0] have s1: "op_reach one_kind digest ?w (state [?p] Map.empty 0 Map.empty 0 [])" by simp
  have c1: "claim_candidates \<lparr>co_workerId = [7], co_leaseMs = 300000, co_kinds = [[2]], co_scan = None\<rparr> 0 (\<lambda>_. False) Map.empty (tables [?p] Map.empty) = [0]"
    by (simp add: claim_candidates_def tables_def runnable_def held_by_other_def)
  let ?p1 = "claim_row [7] 300000 ?p" and ?l1 = "[js '':'' \<mapsto> \<lparr>rl_operationId = 0, rl_expiresAt = Expires 300000\<rparr>]"
  let ?r0 = "fresh_run 0 ?p1 0"
  have s2: "op_reach one_kind digest ?w (state [?p1] ?l1 0 [0 \<mapsto> ?r0] 1 [])"
    by (rule state_eq [OF state_claims [where k = 0, OF s1 _ c1]]) simp_all
  from state_passes [OF s2, of 300001] have s3: "op_reach one_kind digest ?w (state [?p1] ?l1 300001 [0 \<mapsto> ?r0] 1 [])" by simp
  have c2: "claim_candidates \<lparr>co_workerId = [7], co_leaseMs = 300000, co_kinds = [[2]], co_scan = None\<rparr> 300001 (\<lambda>_. False) ?l1 (tables [?p1] ?l1) = [0]"
    by (simp add: claim_candidates_def tables_def runnable_def held_by_other_def)
  let ?p2 = "claim_row [7] 600001 ?p1" and ?l2 = "[js '':'' \<mapsto> \<lparr>rl_operationId = 0, rl_expiresAt = Expires 600001\<rparr>]"
  let ?r1 = "fresh_run 0 ?p2 1"
  have s4: "op_reach one_kind digest ?w (state [?p2] ?l2 300001 [0 \<mapsto> ?r0, 1 \<mapsto> ?r1] 2 [])"
    by (rule state_eq [OF state_claims [where k = 1, OF s3 _ c2]]) (auto simp: lease_expired_def fun_eq_iff)
  have s5: "op_reach one_kind digest ?w
      (state [?p2\<lparr>op_submittedAt := Some 300001\<rparr>] ?l2 300001 [0 \<mapsto> ?r0\<lparr>or_submitted := True\<rparr>, 1 \<mapsto> ?r1] 2 [(0, Authorised 0)])"
    by (rule state_eq [OF state_submits [where k = 0 and r = ?r0 and t = 600001, OF s4]]) (auto simp: fun_eq_iff)
  have "op_reach one_kind digest ?w
      (state [?p2\<lparr>op_submittedAt := Some 300001\<rparr>] ?l2 300001 [0 \<mapsto> ?r0\<lparr>or_submitted := True\<rparr>, 1 \<mapsto> ?r1\<lparr>or_submitted := True\<rparr>] 2
        [(0, Authorised 0), (0, Authorised 1)])"
    by (rule state_eq [OF state_submits [where k = 1 and r = ?r1 and t = 600001, OF s5]]) (auto simp: fun_eq_iff)
  moreover have "op_status (row (state [?p2\<lparr>op_submittedAt := Some 300001\<rparr>] l t rs n hs) 0) = Running" for l t rs n hs
    by (simp add: row_def state_def tables_def)
  ultimately show ?thesis by (intro exI conjI) (assumption | simp add: history_of_def state_def)+
qed

text \<open>
  Another run, with an id per loop. Two changes wait for one resource; while some other claim has the older one locked, the newer is claimed, submitted, and
  its worker dies. When the lease has run out the older one is claimed, for it comes first, and submitted.
\<close>

abbreviation newer_lease :: "jsstring \<Rightarrow> resource_lease option" where
  "newer_lease \<equiv> [js '':'' \<mapsto> \<lparr>rl_operationId = 1, rl_expiresAt = Expires 300010\<rparr>]"

abbreviation older_lease :: "jsstring \<Rightarrow> resource_lease option" where
  "older_lease \<equiv> [js '':'' \<mapsto> \<lparr>rl_operationId = 0, rl_expiresAt = Expires 600011\<rparr>]"

definition overtaken :: "(jsval \<Rightarrow> jsstring) \<Rightarrow> commerce" where
  "overtaken g = (let p = claim_row [1] 600011 (new_operation g 10 (change 0 0)) in
     state [p\<lparr>op_submittedAt := Some 300011\<rparr>, (claim_row [0] 300010 (new_operation g 10 (change 1 5)))\<lparr>op_submittedAt := Some 10\<rparr>]
       older_lease 300011 [1 \<mapsto> (fresh_run 0 p 1)\<lparr>or_submitted := True\<rparr>] 2 [(1, Authorised 0), (0, Authorised 1)])"

lemma overtaken_reached: "op_reach one_kind digest (\<lambda>k. [k]) (overtaken digest)"
proof -
  let ?w = "\<lambda>k :: nat. [k]" and ?p = "new_operation digest 10 (change 0 0)" and ?q = "new_operation digest 10 (change 1 5)"
  have "op_reach one_kind digest ?w (state [] Map.empty 10 Map.empty 0 [])"
    using op_reach.start [of one_kind digest ?w 10] by (simp add: commerce_init_def state_def tables_def)
  from state_enqueues [OF this, of 0 0] have "op_reach one_kind digest ?w (state [?p] Map.empty 10 Map.empty 0 [])" by simp
  from state_enqueues [OF this, of 1 5] have s1: "op_reach one_kind digest ?w (state [?p, ?q] Map.empty 10 Map.empty 0 [])" by simp
  let ?q1 = "claim_row [0] 300010 ?q"
  let ?r0 = "fresh_run 1 ?q1 0" and ?q2 = "?q1\<lparr>op_submittedAt := Some 10\<rparr>"
  have c1: "claim_candidates \<lparr>co_workerId = [0], co_leaseMs = 300000, co_kinds = [[2]], co_scan = None\<rparr> 10 (\<lambda>i. i = 0) Map.empty
      (tables [?p, ?q] Map.empty) = [1]"
    by (simp add: claim_candidates_def tables_def runnable_def held_by_other_def)
  have s2: "op_reach one_kind digest ?w (state [?p, ?q1] newer_lease 10 [0 \<mapsto> ?r0] 1 [])"
    by (rule state_eq [OF state_claims [where k = 0, OF s1 _ c1]]) simp_all
  have s3: "op_reach one_kind digest ?w (state [?p, ?q2] newer_lease 10 [0 \<mapsto> ?r0\<lparr>or_submitted := True\<rparr>] 1 [(1, Authorised 0)])"
    by (rule state_eq [OF state_submits [where k = 0 and r = ?r0 and t = 300010, OF s2]]) simp_all
  have s4: "op_reach one_kind digest ?w (state [?p, ?q2] newer_lease 10 Map.empty 1 [(1, Authorised 0)])"
    by (rule state_eq [OF state_drops [where k = 0, OF s3]]) auto
  from state_passes [OF s4, of 300001] have s5: "op_reach one_kind digest ?w (state [?p, ?q2] newer_lease 300011 Map.empty 1 [(1, Authorised 0)])" by simp
  let ?p1 = "claim_row [1] 600011 ?p"
  let ?r1 = "fresh_run 0 ?p1 1"
  have c2: "claim_candidates \<lparr>co_workerId = [1], co_leaseMs = 300000, co_kinds = [[2]], co_scan = None\<rparr> 300011 (\<lambda>_. False) newer_lease
      (tables [?p, ?q2] newer_lease) = [0, 1]"
    by (simp add: claim_candidates_def tables_def runnable_def held_by_other_def lease_expired_def numeral_2_eq_2)
  have s6: "op_reach one_kind digest ?w (state [?p1, ?q2] older_lease 300011 [1 \<mapsto> ?r1] 2 [(1, Authorised 0)])"
    by (rule state_eq [OF state_claims [where k = 1, OF s5 _ c2]]) (auto simp: lease_expired_def fun_eq_iff)
  have "op_reach one_kind digest ?w (state [?p1\<lparr>op_submittedAt := Some 300011\<rparr>, ?q2] older_lease 300011 [1 \<mapsto> ?r1\<lparr>or_submitted := True\<rparr>] 2
      [(1, Authorised 0), (0, Authorised 1)])"
    by (rule state_eq [OF state_submits [where k = 1 and r = ?r1 and t = 600011, OF s6]]) simp_all
  then show ?thesis by (simp add: overtaken_def Let_def)
qed

lemma overtaken_simps [simp]:
  "row (overtaken g) 0 = (claim_row [1] 600011 (new_operation g 10 (change 0 0)))\<lparr>op_submittedAt := Some 300011\<rparr>"
  "row (overtaken g) 1 = (claim_row [0] 300010 (new_operation g 10 (change 1 5)))\<lparr>op_submittedAt := Some 10\<rparr>"
  "length (db_operations (cs_db (overtaken g))) = 2" "history_of (overtaken g) 0 = [Authorised 1]" "history_of (overtaken g) 1 = [Authorised 0]"
  "cs_now (overtaken g) = 300011" "db_leases (cs_db (overtaken g)) = older_lease" "cs_runs (overtaken g) 0 = None"
  by (simp_all add: overtaken_def Let_def row_def state_def tables_def history_of_def)

lemma leased_overtaken: "leased (overtaken g) 0" "resourceKey (row (overtaken g) 0) = js '':''" "resourceKey (row (overtaken g) 1) = js '':''"
  by (simp_all add: leased_def del: One_nat_def)

text \<open>
  C20. An operation in doubt does not always keep its resource. There is a run, with an id of its own for every loop, in which a worker dies after
  it submitted a change; the lease on the resource runs out with the lease on the operation; and another operation on the same resource is claimed and
  submitted before anything was reconciled.
\<close>

theorem dead_worker_frees_the_resource:
  "\<exists>s. op_reach one_kind digest (\<lambda>k. [k]) s \<and> resourceKey (row s 0) = resourceKey (row s 1) \<and>
    history_of s 1 = [Authorised 0] \<and> op_status (row s 1) = Running \<and> op_submittedAt (row s 1) \<noteq> None \<and>
    leased s 0 \<and> history_of s 0 = [Authorised 1]"
  using overtaken_reached [of digest] leased_overtaken [of digest]
  by (intro exI [of _ "overtaken digest"]) (simp del: One_nat_def add: claim_row_def)

section \<open>Witnesses\<close>

theorem submitted_once_until_disproved_witness:
  "\<exists>s. history_of s 1 = [Authorised 0] \<and> absents (history_of s 1) \<le> 1 \<and> card {r. Authorised r \<in> set (history_of s 1)} \<le> 6"
proof -
  have w: "inj (\<lambda>k :: nat. [k])" by (simp add: inj_def)
  have "mutating one_kind (row (overtaken js_test) 1)" for js_test by (simp add: mutating_def del: One_nat_def)
  then show ?thesis
    using submitted_once_until_disproved [OF overtaken_reached w, of 1 "\<lambda>_. []"]
    by (intro exI [of _ "overtaken (\<lambda>_. [])"]) (simp del: One_nat_def)
qed

theorem one_operation_per_resource_witness:
  "\<exists>s u d. op_reach one_kind (\<lambda>_. []) (\<lambda>k. [k]) s \<and> leased s 0 \<and> finishOperation (cs_now s) 0 [1] u (cs_db s) = (True, d) \<and>
    db_leases d (resourceKey (row s 0)) = Some \<lparr>rl_operationId = 0, rl_expiresAt = Forever\<rparr>"
proof -
  let ?s = "overtaken (\<lambda>_. [])"
  obtain d where d: "finishOperation (cs_now ?s) 0 [1] (finish_to Unknown) (cs_db ?s) = (True, d)"
    using overtaken_simps(1) [of "\<lambda>_. []"] by (auto simp: finishOperation_def Let_def row_def claim_row_def)
  have doubt: "doubtful (db_operations d ! 0)" using fin_row(1,4) [OF d] by (simp add: doubtful_def finish_to_def)
  note one_operation_per_resource [OF overtaken_reached [of "\<lambda>_. []"], where i = 0 and w = "[1]" and u = "finish_to Unknown" and d = d,
      THEN conjunct2, THEN conjunct2, THEN conjunct1, rule_format, OF conjI [OF leased_overtaken(1) conjI [OF d doubt]]]
  with d leased_overtaken(1) overtaken_reached show ?thesis by blast
qed

theorem enqueue_is_idempotent_witness:
  "\<exists>(s :: commerce) x. enqueueOperation (\<lambda>_. []) (cs_now s) x (cs_db s) = Inr (0, False, cs_db s)"
proof -
  let ?s = "commerce_init 0" and ?x = "change 0 0"
  have "enqueueOperation (\<lambda>_. []) (cs_now ?s) ?x (cs_db ?s) = Inr (0, True, \<lparr>db_operations = [new_operation (\<lambda>_. []) 0 ?x], db_leases = Map.empty\<rparr>)"
    by (simp add: enqueueOperation_def commerce_init_def with_key_def)
  from enqueue_is_idempotent [OF op_reach.start this rtranclp.rtrancl_refl refl refl] show ?thesis
    by (intro exI [of _ "?s\<lparr>cs_db := \<lparr>db_operations = [new_operation (\<lambda>_. []) 0 ?x], db_leases = Map.empty\<rparr>\<rparr>"] exI [of _ ?x]) simp
qed

end
