(* ===== verification/Spec2Isabelle.thy ===== *)
theory Spec2Isabelle
  imports Frame Overlay Flow_Control Circuit_Id Channel Relay_Directory Relay_Limits Relay_Properties Circuit_Properties Overlay_Trust Rules_Envelope Operation_Properties
begin

text \<open>
  TNP, a network in which a client reaches a named service through relays it does not trust. This development
  models the packages that carry the protocol: the wire formats and the end-to-end session of
  \<^verbatim>\<open>packages/protocol\<close>, the signed statements and keys of \<^verbatim>\<open>packages/crypto\<close>, the relay of
  \<^verbatim>\<open>packages/relay-core\<close>, and the parts of \<^verbatim>\<open>packages/client\<close> that decide whom a client trusts and that carry its streams.

  \<^bold>\<open>Parts and how they meet.\<close> A domain's owner publishes a domain key and signs grants that lead from it to the keys of
  its nodes (\<^verbatim>\<open>grants.ts\<close>, \<^verbatim>\<open>domain-key.ts\<close>). A node certifies an X25519 key for its name
  (\<^verbatim>\<open>key-agreement.ts\<close>), dials the relays of a signed directory (\<^verbatim>\<open>relay-directory.ts\<close>) and proves itself on each
  connection (\<^verbatim>\<open>service-auth.ts\<close>). A client checks what the registry answers for a name against the domain key it pinned
  (\<^verbatim>\<open>verify.ts\<close>, \<^verbatim>\<open>pins.ts\<close>), connects to a relay and asks for a circuit to the name; the relay
  (\<^verbatim>\<open>core.ts\<close>, \<^verbatim>\<open>limits.ts\<close>) gives the circuit an identifier on either side (\<^verbatim>\<open>circuit-id.ts\<close>) and forwards frames
  (\<^verbatim>\<open>frame.ts\<close>, \<^verbatim>\<open>overlay.ts\<close>) in which the two ends run a Noise NK handshake (\<^verbatim>\<open>noise.ts\<close>) and then sealed
  records (\<^verbatim>\<open>session.ts\<close>) under credit windows (\<^verbatim>\<open>flow-control.ts\<close>), which \<^verbatim>\<open>secure-circuit.ts\<close> makes one reliable stream.

  \<^bold>\<open>Theories.\<close>
  \<^item> \<^verbatim>\<open>Tnp_Prelude\<close>, \<^verbatim>\<open>Js_Text\<close>, \<^verbatim>\<open>Js_Value\<close>: bytes, JavaScript numbers, strings as UTF-16 code units, \<^verbatim>\<open>TextEncoder\<close> and
    \<^verbatim>\<open>TextDecoder\<close>, values of \<^verbatim>\<open>JSON.parse\<close>, and exceptions as the left side of a sum.
  \<^item> \<^verbatim>\<open>Codec\<close>: the interfaces every codec promises, as locales, interpreted for each format where it is modelled.
  \<^item> \<^verbatim>\<open>Wire_Constants\<close>, \<^verbatim>\<open>Frame\<close>, \<^verbatim>\<open>Overlay\<close>, \<^verbatim>\<open>Flow_Control\<close>, \<^verbatim>\<open>Circuit_Id\<close>: \<^verbatim>\<open>constants.ts\<close>, \<^verbatim>\<open>frame.ts\<close>, \<^verbatim>\<open>overlay.ts\<close>,
    \<^verbatim>\<open>flow-control.ts\<close> and \<^verbatim>\<open>circuit-id.ts\<close>. Formats round-trip and have one encoding; the exceptions and their causes are
    named; windows never let more through than was granted; a table never displaces a circuit.
  \<^item> \<^verbatim>\<open>Encoding\<close>, \<^verbatim>\<open>Scope\<close>, \<^verbatim>\<open>Grants\<close>, \<^verbatim>\<open>Key_Agreement\<close>, \<^verbatim>\<open>Domain_Key\<close>, \<^verbatim>\<open>Service_Auth\<close>, \<^verbatim>\<open>Relay_Directory\<close>: the files of
    \<^verbatim>\<open>packages/crypto\<close> of the same names. What is signed determines every field; a chain is accepted exactly when each link
    is in order, it is then an unbroken path to a root, and the authority it conveys never grows; a followed rotation is a succession of signatures.
  \<^item> \<^verbatim>\<open>Primitives\<close>, \<^verbatim>\<open>Noise\<close>, \<^verbatim>\<open>Session\<close>, \<^verbatim>\<open>Channel\<close>: \<^verbatim>\<open>primitives.ts\<close>, \<^verbatim>\<open>noise.ts\<close>, \<^verbatim>\<open>session.ts\<close>, and what the records of a
    session give an application over any network: a prefix of what was sent, nothing after an error, and no truncation that looks like an end.
  \<^item> \<^verbatim>\<open>Relay_Limits\<close>: \<^verbatim>\<open>limits.ts\<close>, the token buckets and the tracker of addresses.
  \<^item> \<^verbatim>\<open>Relay_Core\<close>: \<^verbatim>\<open>core.ts\<close>, one definition per method, and the events that drive it. Connections and circuits are shared
    objects there, here indices into two stores; a suspended call is a task that resumes at any later event.
    \<^verbatim>\<open>Relay_Registry\<close> states the invariant (who owns which circuit, and that every counter is a cardinality), shows that each
    update keeps it, and defines the abstract switchboard; \<^verbatim>\<open>Relay_Safety\<close> carries both through every handler;
    \<^verbatim>\<open>Relay_Sends\<close> says what is sent and to whom; \<^verbatim>\<open>Relay_Sample\<close> is a concrete run; \<^verbatim>\<open>Relay_Properties\<close> has the
    properties of the whole relay. Its limits are proved for circuits and names, and for what admission lets in; that a connection
    is accepted only after it was admitted is up to \<^verbatim>\<open>serve.ts\<close>.

  \<^item> \<^verbatim>\<open>Secure_Circuit\<close>: \<^verbatim>\<open>packages/client/src/overlay/secure-circuit.ts\<close>, one definition per method; what the object sends and tells its
    owner is a log. \<^verbatim>\<open>Circuit_Safety\<close> has the invariant of one end and its proof through every method; \<^verbatim>\<open>Circuit_Properties\<close> joins two ends over
    any network: bytes arrive as a prefix, a clean end is complete, buffers are bounded, and honest data is never refused.
  \<^item> \<^verbatim>\<open>Key_Shapes\<close>, \<^verbatim>\<open>Client_Pins\<close>, \<^verbatim>\<open>Overlay_Trust\<close>: \<^verbatim>\<open>packages/shared-types/src/key-material.ts\<close> with \<^verbatim>\<open>parse.ts\<close> and
    \<^verbatim>\<open>dns-resolve.ts\<close>, and \<^verbatim>\<open>pins.ts\<close> and \<^verbatim>\<open>verify.ts\<close> of \<^verbatim>\<open>packages/client/src/overlay\<close>. The key a client shakes hands with belongs to
    the name under the pinned domain key; a pin moves by signatures only; superseded material stays refused
    while the domain key stays, for as many pairs of keys as a pin keeps marks of.
  \<^item> \<^verbatim>\<open>Rules_Envelope\<close>: \<^verbatim>\<open>packages/crypto/src/dns-rules.ts\<close>, the encrypted envelope in which the API stores a user's DNS rules. Rules come
    back as they were written, through any number of versions; the server can neither edit, move nor roll back what opens.
  \<^item> \<^verbatim>\<open>Operations\<close>, \<^verbatim>\<open>Operation_Engine\<close>: the outbox of \<^verbatim>\<open>apps/api/src/services/operations\<close>, in which the API keeps the purchases and
    changes it makes at registrars: \<^verbatim>\<open>intent.ts\<close> and \<^verbatim>\<open>store.ts\<close>, each transaction a function of the tables, and \<^verbatim>\<open>engine.ts\<close> as a
    step relation over any number of workers. \<^verbatim>\<open>Operation_Safety\<close> proves the invariants of rows, runs and leases through every step;
    \<^verbatim>\<open>Operation_Properties\<close> has what follows: no second submission in the dark, one operation per resource, idempotent enqueueing; and two runs in
    which the guarantees fail.

  \<^bold>\<open>Parameters and what is assumed of them.\<close> The primitives of tweetnacl and noble are arguments of the definitions that use them
    (records \<open>crypto\<close> and \<open>rules_crypto\<close>, functions of type \<open>ed_sign\<close> and \<open>ed_verify\<close>). Where a theorem needs more than their types it names it:
    \<open>aead_correct\<close>, \<open>dh_commutes\<close> and \<open>ed_correct\<close> (what is sealed or signed opens or verifies; \<open>rules_correct\<close> for envelopes), and \<open>unforged\<close> (in this run no record
    opened that was not sealed under its key and header; \<open>unforged_envelope\<close>, of the one envelope that is read). \<^verbatim>\<open>JSON.parse\<close> is an argument. The randomness a call draws is
    an argument: a list of draws, and a call that exhausts it has no result. The relay's transports are part of the world of an
    event: what \<^verbatim>\<open>bufferedAmount\<close> and \<^verbatim>\<open>send\<close> answer is any function of the log so far; they do not throw and do not call back from
    within a call. A circuit's link is likewise a function of its log, and its owner's callbacks return before they call the circuit again. The pin file is
  the list of its entries; its lock and its writes may throw. The clock is an integer and stands still within one event; the workers
    of the outbox and its database read one clock. A transaction there is one step; what \<^verbatim>\<open>SKIP LOCKED\<close> passes over, and the leases a subquery saw,
    are arguments. Adapters await \<^verbatim>\<open>beforeSubmit\<close> before a mutating request, as \<^verbatim>\<open>contracts.ts\<close> demands of them. The registry's answer to a lookup is any value at any
    later event.

  \<^bold>\<open>Bounds and fuel.\<close> Machine integers are kept where they are visible: fields of 1 to 8 bytes, the 32-bit masks of JavaScript's
    bitwise operators, safe integers up to \<open>2^53\<close>. Token counts are rationals where the code has floating-point numbers. No definition uses fuel:
    loops are structural, or end because a list of draws or statements gets shorter.

  \<^bold>\<open>Not modelled.\<close> The registry's HTTP client of the relay and its server binding (\<^verbatim>\<open>domain-keys.ts\<close>, \<^verbatim>\<open>serve.ts\<close>), timers, sockets and
    process management; the namespace policy and WireGuard keys; the rest of the client (command line, proxies, DNS
    routing, tunnels, service node, the store of keys on disk), whose code is mostly operating-system glue around the packages above; the rest of the API server,
    whose behaviour is decided by SQL and third-party registrars; the exit node's commands; the web application. Timing side
    channels and the zeroing of memory by the runtime are outside the model; that a key is overwritten when the code overwrites it is
    inside.
\<close>

end
